(* ===== verification/Prelude.thy ===== *)
theory Prelude
  imports Main "HOL-Library.Sublist"
begin

text \<open>
  What every component of the development shares.

  \<^item> The C and C++ effects of the sources as values: an \<open>outcome\<close> is a normal return, a thrown
    \<^verbatim>\<open>std::exception\<close> or undefined behaviour, and a program is a function from a state to an
    outcome and the next state (\<open>prog\<close>), sequenced by \<open>andThen\<close> and \<open>block\<close>.
  \<^item> The integer conversions the sources perform implicitly: \<^verbatim>\<open>int\<close> is 32 bits wide and
    \<^verbatim>\<open>size_t\<close> 64 bits, with the wrap-around written out (\<open>to_size\<close>, \<open>to_int\<close>).
  \<^item> C strings: a \<^verbatim>\<open>char *\<close> is the list of the bytes before the terminating NUL, and reading
    at the terminator gives the byte 0 (\<open>c_at\<close>).
  \<^item> Splitting and joining at a separator byte, with the round trips the text formats rest on.
\<close>

section \<open>Collections of rules\<close>

named_theorems prog_simps \<open>sequencing of programs\<close>
named_theorems path_simps \<open>canonical paths and their parts\<close>
named_theorems frame_simps \<open>what an operation leaves unchanged\<close>

section \<open>Machine integers\<close>

text \<open>The conversion of a value to \<^verbatim>\<open>size_t\<close> (unsigned, 64 bits) and to \<^verbatim>\<open>int\<close>
  (two's complement, 32 bits).\<close>

definition to_size :: "int \<Rightarrow> int" where
  "to_size x = x mod 2 ^ 64"

definition to_int :: "int \<Rightarrow> int" where
  "to_int x = (x + 2 ^ 31) mod 2 ^ 32 - 2 ^ 31"

definition int_ok :: "int \<Rightarrow> bool" where
  "int_ok x \<longleftrightarrow> - (2 ^ 31) \<le> x \<and> x < 2 ^ 31"

lemma to_size_small: "0 \<le> x \<Longrightarrow> x < 2 ^ 64 \<Longrightarrow> to_size x = x"
  by (simp add: to_size_def)

lemma to_size_neg: "- (2 ^ 64) \<le> x \<Longrightarrow> x < 0 \<Longrightarrow> to_size x = x + 2 ^ 64"
proof -
  assume "- (2 ^ 64) \<le> x" "x < 0"
  then have "(x + 2 ^ 64) mod 2 ^ 64 = x + 2 ^ 64"
    by (intro mod_pos_pos_trivial) auto
  then show ?thesis by (simp add: to_size_def)
qed

lemma to_int_small: "int_ok x \<Longrightarrow> to_int x = x"
  by (simp add: to_int_def int_ok_def)

lemma to_int_size: "to_int (to_size x) = to_int x"
proof -
  have "(x mod 2 ^ 64 + 2 ^ 31) mod 2 ^ 32 = ((x mod 2 ^ 64) mod 2 ^ 32 + 2 ^ 31) mod (2 ^ 32 :: int)"
    by (simp only: mod_add_left_eq)
  also have "(x mod 2 ^ 64) mod 2 ^ 32 = x mod (2 ^ 32 :: int)"
    by (rule mod_mod_cancel) (rule le_imp_power_dvd, simp)
  finally show ?thesis
    by (simp only: to_int_def to_size_def mod_add_left_eq)
qed

lemma to_size_diff: "to_size (to_size x - y) = to_size (x - y)"
  by (simp add: to_size_def mod_diff_left_eq)

lemma to_int_ok: "int_ok (to_int x)"
  by (simp add: to_int_def int_ok_def)

section \<open>Outcomes and programs\<close>

datatype exn = runtime_error string | length_error | out_of_range

datatype ub = pop_back_on_empty | front_of_empty | subscript_out_of_range

datatype 'a outcome = Normal 'a | Thrown exn | Undefined ub

type_synonym ('w, 'a) prog = "'w \<Rightarrow> 'a outcome \<times> 'w"

definition returning :: "'a \<Rightarrow> ('w, 'a) prog" where
  "returning x w = (Normal x, w)"

definition andThen :: "('w, 'a) prog \<Rightarrow> ('a \<Rightarrow> ('w, 'b) prog) \<Rightarrow> ('w, 'b) prog" where
  "andThen m f w =
     (case m w of
        (Normal x, w') \<Rightarrow> f x w'
      | (Thrown e, w') \<Rightarrow> (Thrown e, w')
      | (Undefined u, w') \<Rightarrow> (Undefined u, w'))"

fun block :: "('w, unit) prog list \<Rightarrow> ('w, unit) prog" where
  "block [] = returning ()"
| "block (m # ms) = andThen m (\<lambda>_. block ms)"

declare block.simps [simp del, prog_simps]

lemma andThen_Normal: "m w = (Normal x, w') \<Longrightarrow> andThen m f w = f x w'"
  by (simp add: andThen_def)

lemma andThen_Thrown: "m w = (Thrown e, w') \<Longrightarrow> andThen m f w = (Thrown e, w')"
  by (simp add: andThen_def)

lemma andThen_Undefined: "m w = (Undefined u, w') \<Longrightarrow> andThen m f w = (Undefined u, w')"
  by (simp add: andThen_def)

lemma andThen_returning [prog_simps]: "andThen (returning x) f = f x"
  by (simp add: andThen_def returning_def fun_eq_iff)

lemma andThen_assoc [prog_simps]: "andThen (andThen m f) g = andThen m (\<lambda>x. andThen (f x) g)"
  by (simp add: andThen_def fun_eq_iff split: prod.split outcome.split)

lemma andThen_Normal_iff:
  "andThen m f w = (Normal y, w'') \<longleftrightarrow>
     (\<exists>x w'. m w = (Normal x, w') \<and> f x w' = (Normal y, w''))"
  by (auto simp: andThen_def split: prod.splits outcome.splits)

lemma if_prog_E:
  "(if b then m else n) w = r \<Longrightarrow> (b \<Longrightarrow> m w = r \<Longrightarrow> Q) \<Longrightarrow> (\<not> b \<Longrightarrow> n w = r \<Longrightarrow> Q) \<Longrightarrow> Q"
  by (cases b) simp_all

text \<open>A relation between the states before and after that every step of a program keeps holds
  for the whole program, however it ends.\<close>

definition keeps :: "('w \<Rightarrow> 'w \<Rightarrow> bool) \<Rightarrow> ('w, 'a) prog \<Rightarrow> bool" where
  "keeps R m \<longleftrightarrow> (\<forall>w. R w (snd (m w)))"

lemma keepsD: "keeps R m \<Longrightarrow> R w (snd (m w))"
  by (simp add: keeps_def)

lemma keeps_returning: "reflp R \<Longrightarrow> keeps R (returning x)"
  by (simp add: keeps_def returning_def reflp_def)

lemma keeps_andThen:
  assumes R: "transp R" and m: "keeps R m" and f: "\<And>x. keeps R (f x)"
  shows "keeps R (andThen m f)"
  unfolding keeps_def
proof
  fix w
  obtain r w' where mw: "m w = (r, w')" by (cases "m w")
  have step: "R w w'" using keepsD [OF m, of w] mw by simp
  show "R w (snd (andThen m f w))"
  proof (cases r)
    case (Normal x)
    have "R w' (snd (f x w'))" by (rule keepsD [OF f])
    with step have "R w (snd (f x w'))" using R by (meson transpD)
    then show ?thesis using mw Normal by (simp add: andThen_def)
  qed (use mw step in \<open>simp_all add: andThen_def\<close>)
qed

lemma keeps_block:
  assumes "reflp R" "transp R" "\<forall>m \<in> set ms. keeps R m"
  shows "keeps R (block ms)"
  using assms(3)
  by (induction ms) (auto simp: block.simps intro: assms keeps_returning keeps_andThen)

section \<open>Lists\<close>

lemma nth_in_drop: "i \<le> j \<Longrightarrow> j < length xs \<Longrightarrow> xs ! j \<in> set (drop i xs)"
  by (auto simp: in_set_conv_nth intro!: exI [of _ "j - i"])

section \<open>C strings\<close>

type_synonym cstring = string

abbreviation (input) NUL :: char where "NUL \<equiv> CHR 0x00"
abbreviation (input) newline :: char where "newline \<equiv> CHR 0x0A"
abbreviation (input) slash :: char where "slash \<equiv> CHR ''/''"
abbreviation (input) dot :: char where "dot \<equiv> CHR ''.''"

definition c_at :: "cstring \<Rightarrow> nat \<Rightarrow> char" where
  "c_at s i = (if i < length s then s ! i else NUL)"

text \<open>The byte a pointer to the remaining string \<open>s\<close> reads (\<^verbatim>\<open>*s\<close>).\<close>

definition c_hd :: "cstring \<Rightarrow> char" where
  "c_hd s = (case s of [] \<Rightarrow> NUL | c # _ \<Rightarrow> c)"

text \<open>The bytes of a buffer up to its first NUL: how \<^verbatim>\<open>std::string += char *\<close> reads it.\<close>

definition c_str :: "string \<Rightarrow> cstring" where
  "c_str b = takeWhile (\<lambda>c. c \<noteq> NUL) b"

definition is_cstring :: "string \<Rightarrow> bool" where
  "is_cstring s \<longleftrightarrow> NUL \<notin> set s"

text \<open>\<^verbatim>\<open>strncmp (a, b, n) == 0\<close> on NUL-free strings.\<close>

definition strncmp_eq :: "cstring \<Rightarrow> cstring \<Rightarrow> nat \<Rightarrow> bool" where
  "strncmp_eq a b n \<longleftrightarrow> take n a = take n b"

lemma c_str_id: "is_cstring s \<Longrightarrow> c_str s = s"
  by (auto simp: c_str_def is_cstring_def takeWhile_eq_all_conv)

lemma c_str_append: "is_cstring a \<Longrightarrow> c_str (a @ b) = a @ c_str b"
  by (auto simp: c_str_def is_cstring_def takeWhile_append)

lemma is_cstring_append [simp]: "is_cstring (a @ b) \<longleftrightarrow> is_cstring a \<and> is_cstring b"
  by (auto simp: is_cstring_def)

lemma strncmp_eq_prefix: "strncmp_eq a b (length a) \<longleftrightarrow> prefix a b"
  by (auto simp: strncmp_eq_def prefix_def) (metis append_take_drop_id)

section \<open>Splitting and joining at a byte\<close>

fun split_on :: "char \<Rightarrow> string \<Rightarrow> string list" where
  "split_on c [] = [[]]"
| "split_on c (x # xs) =
     (if x = c then [] # split_on c xs
      else (case split_on c xs of [] \<Rightarrow> [[x]] | y # ys \<Rightarrow> (x # y) # ys))"

fun join_with :: "string \<Rightarrow> string list \<Rightarrow> string" where
  "join_with sep [] = []"
| "join_with sep [x] = x"
| "join_with sep (x # y # ys) = x @ sep @ join_with sep (y # ys)"

lemma split_on_nonempty [simp]: "split_on c s \<noteq> []"
  by (induction s) (auto split: list.split)

lemma split_on_length: "0 < length (split_on c s)"
  by (simp add: length_greater_0_conv)

lemma join_with_Cons: "ys \<noteq> [] \<Longrightarrow> join_with sep (x # ys) = x @ sep @ join_with sep ys"
  by (cases ys) auto

lemma join_with_Cons_head: "join_with sep ((x # y) # ys) = x # join_with sep (y # ys)"
  by (cases ys) auto

lemma join_split_on: "join_with [c] (split_on c s) = s"
proof (induction s)
  case (Cons x xs)
  obtain y ys where "split_on c xs = y # ys"
    by (cases "split_on c xs") auto
  with Cons show ?case
    by (auto simp: join_with_Cons join_with_Cons_head)
qed simp

lemma split_on_no_sep: "t \<in> set (split_on c s) \<Longrightarrow> c \<notin> set t"
  by (induction s arbitrary: t) (auto split: list.splits if_splits)

lemma split_on_fresh: "c \<notin> set s \<Longrightarrow> split_on c s = [s]"
  by (induction s) auto

lemma split_on_append:
  "c \<notin> set s \<Longrightarrow> split_on c (s @ c # t) = s # split_on c t"
  by (induction s) auto

lemma split_on_join:
  assumes "\<forall>t \<in> set ts. c \<notin> set t" "ts \<noteq> []"
  shows "split_on c (join_with [c] ts) = ts"
  using assms
proof (induction ts rule: induct_list012)
  case (3 x y zs)
  then show ?case by (simp add: split_on_append)
qed (auto simp: split_on_fresh)

lemma split_on_set: "t \<in> set (split_on c s) \<Longrightarrow> set t \<subseteq> set s"
proof (induction s arbitrary: t)
  case (Cons x xs)
  then show ?case by (fastforce split: list.splits if_splits)
qed simp

text \<open>Text made of lines, each ended by a newline.\<close>

definition unlines :: "string list \<Rightarrow> string" where
  "unlines ls = concat (map (\<lambda>l. l @ [newline]) ls)"

lemma unlines_join: "ls \<noteq> [] \<Longrightarrow> unlines ls = join_with [newline] ls @ [newline]"
proof (induction ls rule: induct_list012)
  case (3 x y zs)
  then show ?case by (simp add: unlines_def)
qed (simp_all add: unlines_def)

lemma split_butlast_unlines:
  assumes "\<forall>l \<in> set ls. newline \<notin> set l" "ls \<noteq> []"
  shows "split_on newline (butlast (unlines ls)) = ls"
  using assms by (simp add: unlines_join split_on_join)

end
