(* ===== verification/Svn_Base.thy ===== *)
theory Svn_Base
  imports Prelude
begin

text \<open>
  What the C functions of libsvn share: their results (a value, a \<^verbatim>\<open>svn_error_t\<close>, a failed
  \<^verbatim>\<open>assert\<close>, or an access outside an array), the character classes of \<^verbatim>\<open>svn_ctype.h\<close>, the
  ASCII case conversions, and the searches of \<^verbatim>\<open>string.h\<close> the sources use.

  A \<^verbatim>\<open>const char *\<close> argument is a \<open>cstring\<close>; pools, copies and the ownership of the returned
  buffers have no counterpart, so a function that duplicates its result returns the string itself.
\<close>

section \<open>Results\<close>

datatype err_code =
    SVN_ERR_CANONICALIZATION_FAILED
  | SVN_ERR_BAD_FILENAME
  | SVN_ERR_BAD_URL
  | SVN_ERR_RA_ILLEGAL_URL
  | SVN_ERR_FS_PATH_SYNTAX
  | SVN_ERR_CL_ARG_PARSING_ERROR
  | SVN_ERR_WC_UPGRADE_REQUIRED
  | SVN_ERR_WC_NOT_WORKING_COPY
  | SVN_ERR_WC_PATH_NOT_FOUND
  | SVN_ERR_IO_WRITE_ERROR
  | SVN_ERR_ILLEGAL_TARGET
  | SVN_ERR_RESERVED_FILENAME_SPECIFIED
  | SVN_ERR_CL_INSUFFICIENT_ARGS
  | SVN_ERR_ENTRY_EXISTS
  | SVN_ERR_INCORRECT_PARAMS
  | SVN_ERR_ASSERTION_FAIL
  | SVN_ERR_REVNUM_PARSE_FAILURE
  | SVN_ERR_MERGEINFO_PARSE_ERROR
  | SVN_ERR_FS_MALFORMED_SKEL
  | SVN_ERR_APR int

datatype svn_err = svn_error err_code string "svn_err option"

text \<open>\<open>Diverge\<close> stands for a call that does not return.\<close>

datatype 'a cres = Ok 'a | Err svn_err | Abort | Overrun | Diverge

definition cbind :: "'a cres \<Rightarrow> ('a \<Rightarrow> 'b cres) \<Rightarrow> 'b cres" where
  "cbind r f = (case r of Ok x \<Rightarrow> f x | Err e \<Rightarrow> Err e | Abort \<Rightarrow> Abort | Overrun \<Rightarrow> Overrun | Diverge \<Rightarrow> Diverge)"

text \<open>\<^verbatim>\<open>assert (b)\<close> before the rest of a function body.\<close>

definition asserting :: "bool \<Rightarrow> 'a cres \<Rightarrow> 'a cres" where
  "asserting b r = (if b then r else Abort)"

definition svn_error_create :: "err_code \<Rightarrow> string \<Rightarrow> svn_err" where
  "svn_error_create code msg = svn_error code msg None"

fun err_code_of :: "svn_err \<Rightarrow> err_code" where
  "err_code_of (svn_error code msg child) = code"

lemma cbind_simps [simp]:
  "cbind (Ok x) f = f x" "cbind (Err e) f = Err e" "cbind Abort f = Abort" "cbind Overrun f = Overrun"
  "cbind Diverge f = Diverge"
  by (simp_all add: cbind_def)

lemma cbind_cong [fundef_cong]: "r = r' \<Longrightarrow> (\<And>x. r' = Ok x \<Longrightarrow> f x = f' x) \<Longrightarrow> cbind r f = cbind r' f'"
  by (cases r') simp_all

lemma cbind_assoc: "cbind (cbind r f) g = cbind r (\<lambda>x. cbind (f x) g)"
  by (cases r) simp_all

lemma cbind_Ok_iff: "cbind r f = Ok y \<longleftrightarrow> (\<exists>x. r = Ok x \<and> f x = Ok y)"
  by (cases r) simp_all

lemma asserting_simps [simp]: "asserting True r = r" "asserting False r = Abort"
  by (simp_all add: asserting_def)

lemma asserting_Ok_iff: "asserting b r = Ok x \<longleftrightarrow> b \<and> r = Ok x"
  by (simp add: asserting_def)

text \<open>A loop over an array whose body can fail stops at the first failure.\<close>

fun map_res :: "('a \<Rightarrow> 'b cres) \<Rightarrow> 'a list \<Rightarrow> 'b list cres" where
  "map_res f [] = Ok []"
| "map_res f (x # xs) = cbind (f x) (\<lambda>y. cbind (map_res f xs) (\<lambda>ys. Ok (y # ys)))"

lemma map_res_Ok: "(\<And>x. x \<in> set xs \<Longrightarrow> f x = Ok (g x)) \<Longrightarrow> map_res f xs = Ok (map g xs)"
  by (induction xs) simp_all

section \<open>Character classes\<close>

definition svn_ctype_iscntrl :: "char \<Rightarrow> bool" where
  "svn_ctype_iscntrl c \<longleftrightarrow> (of_char c :: nat) < 32 \<or> (of_char c :: nat) = 127"

definition svn_ctype_isxdigit :: "char \<Rightarrow> bool" where
  "svn_ctype_isxdigit c \<longleftrightarrow>
     (let n = (of_char c :: nat) in
      48 \<le> n \<and> n \<le> 57 \<or> 65 \<le> n \<and> n \<le> 70 \<or> 97 \<le> n \<and> n \<le> 102)"

definition canonicalize_to_lower :: "char \<Rightarrow> char" where
  "canonicalize_to_lower c =
     (let n = (of_char c :: nat) in if n < 65 \<or> n > 90 then c else char_of (n - 65 + 97))"

definition canonicalize_to_upper :: "char \<Rightarrow> char" where
  "canonicalize_to_upper c =
     (let n = (of_char c :: nat) in if n < 97 \<or> n > 122 then c else char_of (n - 97 + 65))"

text \<open>The value \<^verbatim>\<open>strtol\<close> gives a hexadecimal digit, and the digits the format \<^verbatim>\<open>%02X\<close> prints.\<close>

definition hex_val :: "char \<Rightarrow> nat" where
  "hex_val c =
     (let n = of_char c in
      if n \<le> 57 then n - 48 else if n \<le> 70 then n - 55 else n - 87)"

definition hex_digit :: "nat \<Rightarrow> char" where
  "hex_digit n = char_of (if n < 10 then n + 48 else n + 55)"

definition octal_digit :: "nat \<Rightarrow> char" where
  "octal_digit n = char_of (n + 48)"

lemma to_lower_idem [simp]: "canonicalize_to_lower (canonicalize_to_lower c) = canonicalize_to_lower c"
  by (simp add: canonicalize_to_lower_def Let_def)

lemma to_upper_idem [simp]: "canonicalize_to_upper (canonicalize_to_upper c) = canonicalize_to_upper c"
proof (cases "(of_char c :: nat) < 97 \<or> (of_char c :: nat) > 122")
  case False
  then have "((of_char c :: nat) - 32) mod 256 = of_char c - 32"
    by (intro mod_less) auto
  with False show ?thesis by (auto simp: canonicalize_to_upper_def Let_def)
qed (simp add: canonicalize_to_upper_def)

lemma hex_digit_val: "n < 16 \<Longrightarrow> hex_val (hex_digit n) = n"
  by (auto simp: hex_val_def hex_digit_def Let_def)

lemma hex_digit_xdigit: "n < 16 \<Longrightarrow> svn_ctype_isxdigit (hex_digit n)"
  by (auto simp: svn_ctype_isxdigit_def hex_digit_def Let_def)

lemma NUL_not_xdigit [simp]: "\<not> svn_ctype_isxdigit NUL"
  by (simp add: svn_ctype_isxdigit_def)

section \<open>Reading C strings\<close>

lemma c_at_Nil [simp]: "c_at [] i = NUL"
  by (simp add: c_at_def)

lemma c_at_Cons_0 [simp]: "c_at (c # s) 0 = c"
  by (simp add: c_at_def)

lemma c_at_Cons_Suc [simp]: "c_at (c # s) (Suc i) = c_at s i"
  by (simp add: c_at_def)

lemma c_hd_simps [simp]: "c_hd [] = NUL" "c_hd (c # s) = c"
  by (simp_all add: c_hd_def)

lemma c_hd_at: "c_hd s = c_at s 0"
  by (cases s) simp_all

lemma c_at_drop: "c_at (drop i s) j = c_at s (i + j)"
  by (auto simp: c_at_def)

lemma c_at_NUL: "is_cstring s \<Longrightarrow> c_at s i = NUL \<longleftrightarrow> length s \<le> i"
  by (auto simp: c_at_def is_cstring_def) (metis nth_mem)

lemma is_cstring_simps [simp]: "is_cstring []" "is_cstring (c # s) \<longleftrightarrow> c \<noteq> NUL \<and> is_cstring s"
  by (auto simp: is_cstring_def)

lemma is_cstring_take [simp]: "is_cstring s \<Longrightarrow> is_cstring (take n s)"
  by (auto simp: is_cstring_def dest: in_set_takeD)

lemma is_cstring_drop [simp]: "is_cstring s \<Longrightarrow> is_cstring (drop n s)"
  by (auto simp: is_cstring_def dest: in_set_dropD)

text \<open>\<^verbatim>\<open>strchr\<close>, \<^verbatim>\<open>strrchr\<close> and \<^verbatim>\<open>strstr\<close>, giving the offset of the match.\<close>

fun strchr :: "cstring \<Rightarrow> char \<Rightarrow> nat option" where
  "strchr [] c = None"
| "strchr (x # s) c = (if x = c then Some 0 else map_option Suc (strchr s c))"

fun strrchr :: "cstring \<Rightarrow> char \<Rightarrow> nat option" where
  "strrchr [] c = None"
| "strrchr (x # s) c =
     (case strrchr s c of Some i \<Rightarrow> Some (Suc i) | None \<Rightarrow> if x = c then Some 0 else None)"

fun strstr :: "cstring \<Rightarrow> cstring \<Rightarrow> nat option" where
  "strstr [] t = (if t = [] then Some 0 else None)"
| "strstr (x # s) t = (if prefix t (x # s) then Some 0 else map_option Suc (strstr s t))"

lemma strchr_None: "strchr s c = None \<longleftrightarrow> c \<notin> set s"
  by (induction s) auto

lemma strchr_Some:
  "strchr s c = Some i \<longleftrightarrow> i < length s \<and> s ! i = c \<and> c \<notin> set (take i s)"
proof (induction s arbitrary: i)
  case (Cons x s)
  then show ?case by (cases i) auto
qed simp

lemma strrchr_None: "strrchr s c = None \<longleftrightarrow> c \<notin> set s"
  by (induction s) (auto split: option.split)

lemma strrchr_Some:
  "strrchr s c = Some i \<longleftrightarrow> i < length s \<and> s ! i = c \<and> c \<notin> set (drop (Suc i) s)"
proof (induction s arbitrary: i)
  case (Cons x s)
  show ?case
  proof (cases "strrchr s c")
    case None
    have "c \<notin> set s" using None strrchr_None by metis
    then show ?thesis using None by (cases i) (auto dest: nth_mem)
  next
    case (Some j)
    then have "c \<in> set s" by (metis strrchr_None option.distinct(1))
    then show ?thesis using Some Cons.IH [of "i - 1"] by (cases i) auto
  qed
qed simp

lemma strstr_None: "strstr s t = None \<longleftrightarrow> \<not> sublist t s"
  by (induction s) (auto simp: sublist_Cons_right)

section \<open>Decimal numbers\<close>

text \<open>\<^verbatim>\<open>%ld\<close>\<close>

fun decimal_nat :: "nat \<Rightarrow> string" where
  "decimal_nat n = (if n < 10 then [octal_digit n] else decimal_nat (n div 10) @ [octal_digit (n mod 10)])"

declare decimal_nat.simps [simp del]

definition decimal :: "int \<Rightarrow> string" where
  "decimal n = (if n < 0 then CHR ''-'' # decimal_nat (nat (- n)) else decimal_nat (nat n))"

section \<open>Revision numbers\<close>

type_synonym svn_revnum_t = int

definition SVN_IS_VALID_REVNUM :: "svn_revnum_t \<Rightarrow> bool" where
  "SVN_IS_VALID_REVNUM n \<longleftrightarrow> n \<ge> 0"

section \<open>Hashes\<close>

text \<open>An \<^verbatim>\<open>apr_hash_t\<close> with C strings as keys: its entries in the order an iteration visits them.\<close>

type_synonym 'v hash = "(cstring \<times> 'v) list"

text \<open>\<^verbatim>\<open>svn_hash_sets\<close> and \<^verbatim>\<open>apr_hash_set\<close>: a null value removes the key.\<close>

definition hash_set :: "'v hash \<Rightarrow> cstring \<Rightarrow> 'v option \<Rightarrow> 'v hash" where
  "hash_set ht key val =
     (case val of
        None \<Rightarrow> filter (\<lambda>(k, _). k \<noteq> key) ht
      | Some v \<Rightarrow>
          if key \<in> fst ` set ht then map (\<lambda>(k, w). (k, if k = key then v else w)) ht else ht @ [(key, v)])"

lemma hash_set_lookup: "map_of (hash_set ht key val) k = (if k = key then val else map_of ht k)"
proof (cases val)
  case None
  then show ?thesis by (induction ht) (auto simp: hash_set_def)
next
  case (Some v)
  have "map_of (map (\<lambda>(k, w). (k, if k = key then v else w)) ht) k =
    (if k = key then if key \<in> fst ` set ht then Some v else None else map_of ht k)"
    by (induction ht) (force simp: image_iff split: if_splits)+
  moreover have "key \<notin> fst ` set ht \<Longrightarrow> map_of ht key = None" by (simp add: map_of_eq_None_iff)
  ultimately show ?thesis
    using Some by (cases "k = key"; cases "key \<in> fst ` set ht") (simp_all add: hash_set_def map_add_def split: option.splits)
qed

lemma hash_set_distinct:
  assumes "distinct (map fst ht)"
  shows "distinct (map fst (hash_set ht key val))"
proof (cases val)
  case None
  then show ?thesis using assms by (simp add: hash_set_def distinct_map_filter)
next
  case (Some v)
  have "fst \<circ> (\<lambda>(k, w). (k, if k = key then v else w)) = fst" by auto
  then show ?thesis using Some assms by (simp add: hash_set_def)
qed

end
