(* ===== verification/Path_Spec.thy ===== *)
theory Path_Spec
  imports Svn_Base
begin

text \<open>
  The abstract specification of the path library: a path is a flag (rooted or not) and the list of
  its segments. \<open>render\<close> writes it as a string, \<open>split_on slash\<close> reads it back. The locale
  \<open>path_family\<close> states what a family of path functions promises in these terms and derives the
  algebra its clients use; \<^verbatim>\<open>svn_relpath_*\<close>, \<^verbatim>\<open>svn_fspath__*\<close> and \<^verbatim>\<open>svn_dirent_*\<close> are
  its instances.
\<close>

section \<open>Segments\<close>

definition good_seg :: "string \<Rightarrow> bool" where
  "good_seg s \<longleftrightarrow> s \<noteq> [] \<and> s \<noteq> [dot] \<and> slash \<notin> set s \<and> is_cstring s"

definition good_segs :: "string list \<Rightarrow> bool" where
  "good_segs xs \<longleftrightarrow> (\<forall>s \<in> set xs. good_seg s)"

text \<open>The segments of a string, those a canonical path keeps.\<close>

definition kept :: "string \<Rightarrow> bool" where
  "kept s \<longleftrightarrow> s \<noteq> [] \<and> s \<noteq> [dot]"

definition segments :: "string \<Rightarrow> string list" where
  "segments p = filter kept (split_on slash p)"

definition render :: "bool \<times> string list \<Rightarrow> string" where
  "render a = (if fst a then [slash] else []) @ join_with [slash] (snd a)"

lemma good_segs_simps [simp]:
  "good_segs []" "good_segs (s # xs) \<longleftrightarrow> good_seg s \<and> good_segs xs"
  "good_segs (xs @ ys) \<longleftrightarrow> good_segs xs \<and> good_segs ys"
  by (auto simp: good_segs_def)

lemma good_segs_take [simp]: "good_segs xs \<Longrightarrow> good_segs (take n xs)"
  by (auto simp: good_segs_def dest: in_set_takeD)

lemma good_segs_butlast [simp]: "good_segs xs \<Longrightarrow> good_segs (butlast xs)"
  by (auto simp: good_segs_def dest: in_set_butlastD)

lemma good_segD: "good_seg s \<Longrightarrow> slash \<notin> set s" "good_seg s \<Longrightarrow> s \<noteq> []" "good_seg s \<Longrightarrow> is_cstring s"
  by (simp_all add: good_seg_def)

lemma good_seg_kept: "good_seg s \<Longrightarrow> kept s"
  by (simp add: good_seg_def kept_def)

lemma is_cstring_set: "set s \<subseteq> set t \<Longrightarrow> is_cstring t \<Longrightarrow> is_cstring s"
  by (auto simp: is_cstring_def)

lemma segments_good: "is_cstring p \<Longrightarrow> good_segs (segments p)"
  by (auto simp: segments_def good_segs_def good_seg_def kept_def
      dest: split_on_no_sep split_on_set intro: is_cstring_set)

lemma join_no_slash: "good_segs xs \<Longrightarrow> xs \<noteq> [] \<Longrightarrow> split_on slash (join_with [slash] xs) = xs"
  by (rule split_on_join) (auto simp: good_segs_def good_seg_def)

lemma segments_join: "good_segs xs \<Longrightarrow> segments (join_with [slash] xs) = xs"
proof (cases "xs = []")
  case False
  assume "good_segs xs"
  with False show ?thesis
    by (auto simp: segments_def join_no_slash good_segs_def intro!: filter_True good_seg_kept)
qed (simp add: segments_def kept_def)

lemma segments_slash: "segments (slash # p) = segments p"
  by (simp add: segments_def kept_def)

lemma segments_render: "good_segs (snd a) \<Longrightarrow> segments (render a) = snd a"
  by (simp add: render_def segments_slash segments_join)

lemma join_with_hd: "good_segs xs \<Longrightarrow> xs \<noteq> [] \<Longrightarrow> c_hd (join_with [slash] xs) \<noteq> slash"
  by (cases xs; cases "hd xs"; cases "tl xs") (auto simp: good_seg_def)

lemma join_with_empty: "good_segs xs \<Longrightarrow> join_with [slash] xs = [] \<longleftrightarrow> xs = []"
  by (cases xs; cases "tl xs") (auto simp: good_seg_def)

lemma render_hd: "good_segs (snd a) \<Longrightarrow> c_hd (render a) = slash \<longleftrightarrow> fst a"
  using join_with_hd [of "snd a"] by (cases "snd a = []") (auto simp: render_def)

lemma render_inj:
  "good_segs (snd a) \<Longrightarrow> good_segs (snd b) \<Longrightarrow> render a = render b \<longleftrightarrow> a = b"
  by (metis prod.expand render_hd segments_render)

lemma is_cstring_join: "good_segs xs \<Longrightarrow> is_cstring (join_with [slash] xs)"
  by (induction xs rule: induct_list012) (auto simp: good_seg_def)

lemma is_cstring_render: "good_segs (snd a) \<Longrightarrow> is_cstring (render a)"
  by (simp add: render_def is_cstring_join)

section \<open>Joining and stripping\<close>

lemma join_with_append:
  "join_with sep (xs @ ys) =
     (if xs = [] then join_with sep ys else if ys = [] then join_with sep xs
      else join_with sep xs @ sep @ join_with sep ys)"
  by (induction xs rule: induct_list012) (auto simp: join_with_Cons)

lemma join_with_snoc:
  "xs \<noteq> [] \<Longrightarrow> join_with sep (xs @ [y]) = join_with sep xs @ sep @ y"
  by (simp add: join_with_append)

text \<open>A rendered path is a prefix of another, up to the end of a segment, exactly when its segments
  are a prefix of the other's.\<close>

lemma join_prefix_iff:
  assumes "good_segs xs" "good_segs ys" "xs \<noteq> []"
  shows "(join_with [slash] ys = join_with [slash] xs \<or>
          prefix (join_with [slash] xs @ [slash]) (join_with [slash] ys)) \<longleftrightarrow> prefix xs ys"
    (is "?L \<longleftrightarrow> ?R")
proof
  assume ?R
  then obtain zs where "ys = xs @ zs" by (auto simp: prefix_def)
  then show ?L using assms(3) by (cases "zs = []") (auto simp: join_with_append)
next
  assume ?L
  then show ?R
  proof
    assume "join_with [slash] ys = join_with [slash] xs"
    then have "ys = xs" using assms by (metis segments_join)
    then show ?thesis by simp
  next
    assume "prefix (join_with [slash] xs @ [slash]) (join_with [slash] ys)"
    then obtain t where t: "join_with [slash] ys = join_with [slash] xs @ slash # t"
      by (auto simp: prefix_def)
    have "split_on slash (u @ slash # t) = split_on slash u @ split_on slash t" for u
      by (induction u) (auto split: list.split)
    then have "split_on slash (join_with [slash] ys) = xs @ split_on slash t"
      using assms by (simp add: t join_no_slash)
    moreover have "ys \<noteq> []" using t by auto
    ultimately show ?thesis using assms by (simp add: join_no_slash)
  qed
qed

definition lcp :: "'a list \<Rightarrow> 'a list \<Rightarrow> 'a list" where
  "lcp xs ys = map fst (takeWhile (\<lambda>(x, y). x = y) (zip xs ys))"

lemma lcp_simps [simp]:
  "lcp [] ys = []" "lcp xs [] = []"
  "lcp (x # xs) (y # ys) = (if x = y then x # lcp xs ys else [])"
  by (simp_all add: lcp_def)

lemma lcp_prefix1: "prefix (lcp xs ys) xs"
  by (induction xs ys rule: list_induct2') auto

lemma lcp_prefix2: "prefix (lcp xs ys) ys"
  by (induction xs ys rule: list_induct2') auto

lemma lcp_greatest: "prefix zs xs \<Longrightarrow> prefix zs ys \<Longrightarrow> prefix zs (lcp xs ys)"
proof (induction xs ys arbitrary: zs rule: list_induct2')
  case (4 x xs y ys)
  then show ?case by (cases zs) auto
qed auto

lemma lcp_comm: "lcp xs ys = lcp ys xs"
  by (meson lcp_greatest lcp_prefix1 lcp_prefix2 prefix_order.antisym)

lemma lcp_assoc: "lcp (lcp xs ys) zs = lcp xs (lcp ys zs)"
  by (meson lcp_greatest lcp_prefix1 lcp_prefix2 prefix_order.antisym prefix_order.trans)

lemma lcp_absorb: "lcp xs ys = xs \<longleftrightarrow> prefix xs ys"
  by (metis lcp_greatest lcp_prefix1 lcp_prefix2 prefix_order.antisym prefix_order.eq_iff)

lemma good_segs_prefix: "prefix xs ys \<Longrightarrow> good_segs ys \<Longrightarrow> good_segs xs"
  by (auto simp: prefix_def)

lemma good_segs_lcp [simp]: "good_segs xs \<Longrightarrow> good_segs (lcp xs ys)"
  using good_segs_prefix lcp_prefix1 by blast

end
