(* ===== verification/Path_Escape.thy ===== *)
theory Path_Escape
  imports Svn_Base
begin

text \<open>
  URI escaping and the URL tests of \<^verbatim>\<open>libsvn_subr/path.c\<close>: the three character tables, the
  escaping loop that copies the unescaped runs in one piece, decoding, the scheme test, and the
  escaping of control characters for messages.

  The theorems show that the loop escapes byte by byte, that decoding inverts encoding, and that
  encoding yields the bytes a canonical URI admits.
\<close>

section \<open>Tables\<close>

definition svn_uri__char_validity :: "nat list" where
  "svn_uri__char_validity =
    [0, 0, 0, 0, 0, 0, 0, 0, 0, 0, 0, 0, 0, 0, 0, 0, 0, 0, 0, 0, 0, 0, 0, 0, 0, 0, 0, 0, 0, 0, 0, 0,
     0, 1, 0, 0, 1, 0, 1, 1, 1, 1, 1, 1, 1, 1, 1, 1, 1, 1, 1, 1, 1, 1, 1, 1, 1, 1, 1, 0, 0, 1, 0, 0,
     1, 1, 1, 1, 1, 1, 1, 1, 1, 1, 1, 1, 1, 1, 1, 1, 1, 1, 1, 1, 1, 1, 1, 1, 1, 1, 1, 0, 0, 0, 0, 1,
     0, 1, 1, 1, 1, 1, 1, 1, 1, 1, 1, 1, 1, 1, 1, 1, 1, 1, 1, 1, 1, 1, 1, 1, 1, 1, 1, 0, 0, 0, 1, 0,
     0, 0, 0, 0, 0, 0, 0, 0, 0, 0, 0, 0, 0, 0, 0, 0, 0, 0, 0, 0, 0, 0, 0, 0, 0, 0, 0, 0, 0, 0, 0, 0,
     0, 0, 0, 0, 0, 0, 0, 0, 0, 0, 0, 0, 0, 0, 0, 0, 0, 0, 0, 0, 0, 0, 0, 0, 0, 0, 0, 0, 0, 0, 0, 0,
     0, 0, 0, 0, 0, 0, 0, 0, 0, 0, 0, 0, 0, 0, 0, 0, 0, 0, 0, 0, 0, 0, 0, 0, 0, 0, 0, 0, 0, 0, 0, 0,
     0, 0, 0, 0, 0, 0, 0, 0, 0, 0, 0, 0, 0, 0, 0, 0, 0, 0, 0, 0, 0, 0, 0, 0, 0, 0, 0, 0, 0, 0, 0, 0]"

definition iri_escape_chars :: "nat list" where
  "iri_escape_chars =
    [0, 1, 1, 1, 1, 1, 1, 1, 1, 1, 1, 1, 1, 1, 1, 1, 1, 1, 1, 1, 1, 1, 1, 1, 1, 1, 1, 1, 1, 1, 1, 1,
     1, 1, 1, 1, 1, 1, 1, 1, 1, 1, 1, 1, 1, 1, 1, 1, 1, 1, 1, 1, 1, 1, 1, 1, 1, 1, 1, 1, 1, 1, 1, 1,
     1, 1, 1, 1, 1, 1, 1, 1, 1, 1, 1, 1, 1, 1, 1, 1, 1, 1, 1, 1, 1, 1, 1, 1, 1, 1, 1, 1, 1, 1, 1, 1,
     1, 1, 1, 1, 1, 1, 1, 1, 1, 1, 1, 1, 1, 1, 1, 1, 1, 1, 1, 1, 1, 1, 1, 1, 1, 1, 1, 1, 1, 1, 1, 1,
     0, 0, 0, 0, 0, 0, 0, 0, 0, 0, 0, 0, 0, 0, 0, 0, 0, 0, 0, 0, 0, 0, 0, 0, 0, 0, 0, 0, 0, 0, 0, 0,
     0, 0, 0, 0, 0, 0, 0, 0, 0, 0, 0, 0, 0, 0, 0, 0, 0, 0, 0, 0, 0, 0, 0, 0, 0, 0, 0, 0, 0, 0, 0, 0,
     0, 0, 0, 0, 0, 0, 0, 0, 0, 0, 0, 0, 0, 0, 0, 0, 0, 0, 0, 0, 0, 0, 0, 0, 0, 0, 0, 0, 0, 0, 0, 0,
     0, 0, 0, 0, 0, 0, 0, 0, 0, 0, 0, 0, 0, 0, 0, 0, 0, 0, 0, 0, 0, 0, 0, 0, 0, 0, 0, 0, 0, 0, 0, 0]"

definition uri_autoescape_chars :: "nat list" where
  "uri_autoescape_chars =
    [0, 1, 1, 1, 1, 1, 1, 1, 1, 1, 1, 1, 1, 1, 1, 1, 1, 1, 1, 1, 1, 1, 1, 1, 1, 1, 1, 1, 1, 1, 1, 1,
     0, 1, 0, 1, 1, 1, 1, 1, 1, 1, 1, 1, 1, 1, 1, 1, 1, 1, 1, 1, 1, 1, 1, 1, 1, 1, 1, 1, 0, 1, 0, 1,
     1, 1, 1, 1, 1, 1, 1, 1, 1, 1, 1, 1, 1, 1, 1, 1, 1, 1, 1, 1, 1, 1, 1, 1, 1, 1, 1, 1, 0, 1, 0, 1,
     0, 1, 1, 1, 1, 1, 1, 1, 1, 1, 1, 1, 1, 1, 1, 1, 1, 1, 1, 1, 1, 1, 1, 1, 1, 1, 1, 0, 0, 0, 1, 1,
     1, 1, 1, 1, 1, 1, 1, 1, 1, 1, 1, 1, 1, 1, 1, 1, 1, 1, 1, 1, 1, 1, 1, 1, 1, 1, 1, 1, 1, 1, 1, 1,
     1, 1, 1, 1, 1, 1, 1, 1, 1, 1, 1, 1, 1, 1, 1, 1, 1, 1, 1, 1, 1, 1, 1, 1, 1, 1, 1, 1, 1, 1, 1, 1,
     1, 1, 1, 1, 1, 1, 1, 1, 1, 1, 1, 1, 1, 1, 1, 1, 1, 1, 1, 1, 1, 1, 1, 1, 1, 1, 1, 1, 1, 1, 1, 1,
     1, 1, 1, 1, 1, 1, 1, 1, 1, 1, 1, 1, 1, 1, 1, 1, 1, 1, 1, 1, 1, 1, 1, 1, 1, 1, 1, 1, 1, 1, 1, 1]"

text \<open>Indexing a table with an \<^verbatim>\<open>unsigned char\<close>.\<close>

definition in_table :: "nat list \<Rightarrow> char \<Rightarrow> bool" where
  "in_table t c \<longleftrightarrow> t ! of_char c \<noteq> 0"

abbreviation (input) uri_valid :: "char \<Rightarrow> bool" where
  "uri_valid \<equiv> in_table svn_uri__char_validity"

section \<open>Escaping\<close>

text \<open>What \<^verbatim>\<open>%%%02X\<close> and \<^verbatim>\<open>\\%03o\<close> print for a byte.\<close>

definition percent :: "char \<Rightarrow> string" where
  "percent c = (let n = of_char c in [CHR ''%'', hex_digit (n div 16), hex_digit (n mod 16)])"

definition backslash_octal :: "char \<Rightarrow> string" where
  "backslash_octal c =
     (let n = of_char c in
      [CHR 0x5C, octal_digit (n div 64), octal_digit (n div 8 mod 8), octal_digit (n mod 8)])"

text \<open>Appending the bytes of \<open>path\<close> between \<open>copied\<close> and \<open>i\<close>, if there are any.\<close>

definition append_run :: "cstring \<Rightarrow> nat \<Rightarrow> nat \<Rightarrow> string \<Rightarrow> string" where
  "append_run path i copied ret =
     (if i - copied \<noteq> 0 then ret @ take (i - copied) (drop copied path) else ret)"

text \<open>The loop both escaping functions have: \<open>ok\<close> are the bytes to leave, \<open>copied\<close> is the offset up
  to which \<open>path\<close> has been written to \<open>ret\<close>, and a run of good bytes is appended in one piece when
  the next bad byte is reached.\<close>

function escape_loop ::
  "(char \<Rightarrow> bool) \<Rightarrow> (char \<Rightarrow> string) \<Rightarrow> cstring \<Rightarrow> nat \<Rightarrow> nat \<Rightarrow> string \<Rightarrow> nat \<times> string" where
  "escape_loop ok esc path i copied ret =
     (if i < length path then
        if ok (path ! i) then escape_loop ok esc path (i + 1) copied ret
        else escape_loop ok esc path (i + 1) (i + 1) (append_run path i copied ret @ esc (path ! i))
      else (copied, ret))"
  by pat_completeness auto
termination
  by (relation "measure (\<lambda>(ok, esc, path, i, copied, ret). length path - i)") auto

declare escape_loop.simps [simp del]

definition uri_escape :: "cstring \<Rightarrow> nat list \<Rightarrow> cstring cres" where
  "uri_escape path table =
     asserting (table ! 0 = 0)
       (let p = length (takeWhile (in_table table) path) in
        if p = length path then Ok path
        else
          (case escape_loop (in_table table) percent path p 0 [] of
             (copied, ret) \<Rightarrow> Ok (append_run path (length path) copied ret)))"

definition svn_path_uri_encode :: "cstring \<Rightarrow> cstring cres" where
  "svn_path_uri_encode path = uri_escape path svn_uri__char_validity"

definition svn_path_uri_from_iri :: "cstring \<Rightarrow> cstring cres" where
  "svn_path_uri_from_iri iri = uri_escape iri iri_escape_chars"

definition svn_path_uri_autoescape :: "cstring \<Rightarrow> cstring cres" where
  "svn_path_uri_autoescape uri = uri_escape uri uri_autoescape_chars"

definition svn_path_illegal_path_escape :: "cstring \<Rightarrow> cstring" where
  "svn_path_illegal_path_escape path =
     (case escape_loop (\<lambda>c. \<not> svn_ctype_iscntrl c) backslash_octal path 0 0 [] of
        (copied, ret) \<Rightarrow>
          if length ret = 0 then path else append_run path (length path) copied ret)"

section \<open>Decoding\<close>

definition hex_byte :: "char \<Rightarrow> char \<Rightarrow> char" where
  "hex_byte a b = char_of (16 * hex_val a + hex_val b)"

fun uri_decode_loop :: "bool \<Rightarrow> cstring \<Rightarrow> string" where
  "uri_decode_loop query_start [] = []"
| "uri_decode_loop query_start (c # s) =
     (if c = CHR ''?'' then c # uri_decode_loop True s
      else if c = CHR ''+'' \<and> query_start then CHR '' '' # uri_decode_loop query_start s
      else if c = CHR ''%'' \<and> svn_ctype_isxdigit (c_at s 0) \<and> svn_ctype_isxdigit (c_at s 1)
      then hex_byte (c_at s 0) (c_at s 1) # uri_decode_loop query_start (drop 2 s)
      else c # uri_decode_loop query_start s)"

text \<open>The result is read as a C string, so a decoded NUL byte ends it.\<close>

definition svn_path_uri_decode :: "cstring \<Rightarrow> cstring" where
  "svn_path_uri_decode path = c_str (uri_decode_loop False path)"

section \<open>URLs\<close>

text \<open>The scan of \<^verbatim>\<open>skip_uri_scheme\<close>: the offset of the first colon, None when a slash or the end
  comes first. The result is what follows \<^verbatim>\<open>scheme://\<close>.\<close>

fun scheme_end :: "cstring \<Rightarrow> nat option" where
  "scheme_end [] = None"
| "scheme_end (c # s) =
     (if c = CHR '':'' then Some 0 else if c = slash then None else map_option Suc (scheme_end s))"

definition skip_uri_scheme :: "cstring \<Rightarrow> cstring option" where
  "skip_uri_scheme path =
     (case scheme_end path of
        None \<Rightarrow> None
      | Some j \<Rightarrow>
          if j > 0 \<and> c_at path (j + 1) = slash \<and> c_at path (j + 2) = slash
          then Some (drop (j + 3) path) else None)"

definition svn_path_is_url :: "cstring \<Rightarrow> bool" where
  "svn_path_is_url path \<longleftrightarrow> skip_uri_scheme path \<noteq> None"

fun uri_safe_loop :: "cstring \<Rightarrow> bool" where
  "uri_safe_loop [] = True"
| "uri_safe_loop (c # s) =
     (if c = CHR ''%'' then
        if svn_ctype_isxdigit (c_at s 0) \<and> svn_ctype_isxdigit (c_at s 1)
        then uri_safe_loop (drop 2 s) else False
      else if \<not> uri_valid c then False else uri_safe_loop s)"

definition svn_path_is_uri_safe :: "cstring \<Rightarrow> bool" where
  "svn_path_is_uri_safe path =
     (case skip_uri_scheme path of
        None \<Rightarrow> False
      | Some rest \<Rightarrow>
          (case strchr rest slash of None \<Rightarrow> True | Some i \<Rightarrow> uri_safe_loop (drop i rest)))"

definition svn_path_is_repos_relative_url :: "cstring \<Rightarrow> bool" where
  "svn_path_is_repos_relative_url path \<longleftrightarrow> strncmp_eq ''^/'' path 2"

definition svn_path_resolve_repos_relative_url :: "cstring \<Rightarrow> cstring \<Rightarrow> cstring cres" where
  "svn_path_resolve_repos_relative_url relative_url repos_root_url =
     (if \<not> svn_path_is_repos_relative_url relative_url
      then Err (svn_error_create SVN_ERR_BAD_URL (''Improper relative URL '' @ [CHR 0x27] @ relative_url @ [CHR 0x27]))
      else Ok (repos_root_url @ drop 1 relative_url))"

section \<open>The loop escapes byte by byte\<close>

definition escape :: "(char \<Rightarrow> bool) \<Rightarrow> (char \<Rightarrow> string) \<Rightarrow> string \<Rightarrow> string" where
  "escape ok esc s = concat (map (\<lambda>c. if ok c then [c] else esc c) s)"

lemma escape_simps [simp]:
  "escape ok esc [] = []"
  "escape ok esc (c # s) = (if ok c then [c] else esc c) @ escape ok esc s"
  "escape ok esc (s @ t) = escape ok esc s @ escape ok esc t"
  by (simp_all add: escape_def)

lemma escape_ok: "\<forall>c \<in> set s. ok c \<Longrightarrow> escape ok esc s = s"
  by (induction s) simp_all

lemma append_run_eq: "append_run path i copied ret = ret @ take (i - copied) (drop copied path)"
  by (simp add: append_run_def)

lemma take_run:
  "copied \<le> i \<Longrightarrow> i < length path \<Longrightarrow>
   take (Suc i - copied) (drop copied path) = take (i - copied) (drop copied path) @ [path ! i]"
  by (simp add: Suc_diff_le take_Suc_conv_app_nth)

lemma escape_loop_eq:
  assumes "copied \<le> i" "i \<le> length path" "\<forall>c \<in> set (take (i - copied) (drop copied path)). ok c"
    and "escape_loop ok esc path i copied ret = (copied', ret')"
  shows "append_run path (length path) copied' ret' = ret @ escape ok esc (drop copied path)"
  using assms
proof (induction ok esc path i copied ret rule: escape_loop.induct)
  case (1 ok esc path i copied ret)
  let ?run = "take (i - copied) (drop copied path)"
  have run: "escape ok esc ?run = ?run" using "1.prems"(3) by (rule escape_ok)
  show ?case
  proof (cases "i < length path")
    case False
    then have "?run = drop copied path" using "1.prems" by simp
    moreover have "escape_loop ok esc path i copied ret = (copied, ret)"
      using False by (subst escape_loop.simps) simp
    ultimately show ?thesis using run "1.prems"(2,4) False by (simp add: append_run_eq)
  next
    case True
    have split: "drop copied path = ?run @ (path ! i) # drop (Suc i) path"
      using True "1.prems"(1) by (metis Cons_nth_drop_Suc append_take_drop_id drop_drop le_add_diff_inverse2)
    show ?thesis
    proof (cases "ok (path ! i)")
      case True
      note ok = this
      from \<open>i < length path\<close> ok "1.prems" show ?thesis
        by (intro "1.IH"(1)) (auto simp: escape_loop.simps [of ok esc path i] take_run)
    next
      case False
      from \<open>i < length path\<close> False "1.prems" have
        "append_run path (length path) copied' ret' =
           (append_run path i copied ret @ esc (path ! i)) @ escape ok esc (drop (i + 1) path)"
        by (intro "1.IH"(2)) (auto simp: escape_loop.simps [of ok esc path i])
      also have "\<dots> = ret @ escape ok esc (?run @ (path ! i) # drop (Suc i) path)"
        using False by (simp add: append_run_eq run)
      finally show ?thesis by (simp only: split [symmetric])
    qed
  qed
qed

lemma escape_loop_start:
  assumes "p \<le> length path" "\<forall>c \<in> set (take p path). ok c"
    and "escape_loop ok esc path p 0 [] = (copied, ret)"
  shows "append_run path (length path) copied ret = escape ok esc path"
  using escape_loop_eq [OF _ assms(1) _ assms(3)] assms(2) by simp

lemma uri_escape_eq:
  assumes "table ! 0 = 0"
  shows "uri_escape path table = Ok (escape (in_table table) percent path)"
proof -
  let ?p = "length (takeWhile (in_table table) path)"
  have p: "?p \<le> length path" by (rule length_takeWhile_le)
  have ok: "\<forall>c \<in> set (take ?p path). in_table table c"
    by (simp only: takeWhile_eq_take [symmetric]) (auto dest: set_takeWhileD)
  show ?thesis
  proof (cases "?p = length path")
    case True
    then have "escape (in_table table) percent path = path" using ok by (intro escape_ok) simp
    with True assms show ?thesis by (simp add: uri_escape_def)
  next
    case False
    obtain copied ret where "escape_loop (in_table table) percent path ?p 0 [] = (copied, ret)"
      by fastforce
    with False assms escape_loop_start [OF p ok this] show ?thesis by (simp add: uri_escape_def)
  qed
qed

section \<open>What the tables contain\<close>

lemma uri_valid_iff:
  "uri_valid c \<longleftrightarrow>
     (let n = (of_char c :: nat) in
      n = 33 \<or> n = 36 \<or> 38 \<le> n \<and> n \<le> 58 \<or> n = 61 \<or> 64 \<le> n \<and> n \<le> 90 \<or> n = 95 \<or>
      97 \<le> n \<and> n \<le> 122 \<or> n = 126)"
proof -
  have "list_all (\<lambda>n. svn_uri__char_validity ! n \<noteq> 0 \<longleftrightarrow>
     n = 33 \<or> n = 36 \<or> 38 \<le> n \<and> n \<le> 58 \<or> n = 61 \<or> 64 \<le> n \<and> n \<le> 90 \<or> n = 95 \<or>
      97 \<le> n \<and> n \<le> 122 \<or> n = 126) [0..<256]"
    by code_simp
  then show ?thesis by (simp add: in_table_def list_all_iff Let_def)
qed

lemma table_heads [simp]:
  "svn_uri__char_validity ! 0 = 0" "iri_escape_chars ! 0 = 0" "uri_autoescape_chars ! 0 = 0"
  by (simp_all add: svn_uri__char_validity_def iri_escape_chars_def uri_autoescape_chars_def)

lemma uri_valid_chars [simp]:
  "\<not> uri_valid (CHR ''%'')" "\<not> uri_valid (CHR ''?'')" "\<not> uri_valid NUL" "uri_valid slash" "uri_valid dot"
  by (simp_all add: uri_valid_iff)

lemma xdigit_uri_valid: "svn_ctype_isxdigit c \<Longrightarrow> uri_valid c"
  by (auto simp: svn_ctype_isxdigit_def uri_valid_iff Let_def)

section \<open>Decoding inverts encoding\<close>

lemma percent_digits:
  "hex_byte (hex_digit (of_char c div 16)) (hex_digit (of_char c mod 16)) = c"
proof -
  have "(of_char c :: nat) < 256" by simp
  then have "(of_char c :: nat) div 16 < 16" by (simp add: less_mult_imp_div_less)
  then show ?thesis by (simp add: hex_byte_def hex_digit_val)
qed

lemma of_char_div_16 [simp]: "(of_char c :: nat) div 16 < 16"
proof -
  have "(of_char c :: nat) < 256" by simp
  then show ?thesis by (simp add: less_mult_imp_div_less)
qed

lemma decode_percent: "uri_decode_loop q (percent c @ s) = c # uri_decode_loop q s"
  by (simp add: percent_def Let_def hex_digit_xdigit percent_digits)

lemma decode_escape: "uri_decode_loop False (escape uri_valid percent s) = s"
proof (induction s)
  case (Cons c s)
  then show ?case
    by (cases "uri_valid c") (auto simp: decode_percent)
qed simp

lemma encode_eq: "svn_path_uri_encode s = Ok (escape uri_valid percent s)"
  by (simp add: svn_path_uri_encode_def uri_escape_eq)

lemma decode_encode: "is_cstring s \<Longrightarrow> svn_path_uri_decode (escape uri_valid percent s) = s"
  by (simp add: svn_path_uri_decode_def decode_escape c_str_id)

lemma decode_id: "CHR ''%'' \<notin> set s \<Longrightarrow> CHR ''?'' \<notin> set s \<Longrightarrow> uri_decode_loop False s = s"
  by (induction s) auto

section \<open>Properties\<close>

text \<open>Escaping with a table is escaping byte by byte: the loop that copies runs of good bytes
  neither loses nor repeats any, and the call fails exactly when the table accepts NUL.\<close>

theorem uri_escape_bytewise:
  "uri_escape path table =
     (if table ! 0 = 0
      then Ok (concat (map (\<lambda>c. if in_table table c then [c] else percent c) path))
      else Abort)"
  using uri_escape_eq [of table path] by (simp add: escape_def uri_escape_def asserting_def)

text \<open>C12. Decoding inverts encoding on every string without a NUL byte, query strings and plus
  signs included.\<close>

theorem uri_decode_encode:
  assumes "is_cstring s"
  shows "cbind (svn_path_uri_encode s) (\<lambda>u. Ok (svn_path_uri_decode u)) = Ok s"
  using assms by (simp add: encode_eq decode_encode)

theorem uri_decode_encode_witness:
  "cbind (svn_path_uri_encode ''a b?c+d%41'') (\<lambda>u. Ok (svn_path_uri_decode u)) = Ok ''a b?c+d%41''"
  by (rule uri_decode_encode) (simp add: is_cstring_def)

lemma uri_safe_append:
  "\<forall>c \<in> set s. uri_valid c \<Longrightarrow> uri_safe_loop (s @ t) = uri_safe_loop t"
  by (induction s) auto

lemma uri_safe_escape: "uri_safe_loop (escape uri_valid percent s)"
proof (induction s)
  case (Cons c s)
  then show ?case by (cases "uri_valid c") (auto simp: percent_def Let_def hex_digit_xdigit)
qed simp

lemma scheme_end_append:
  "CHR '':'' \<notin> set s \<Longrightarrow> slash \<notin> set s \<Longrightarrow> scheme_end (s @ CHR '':'' # t) = Some (length s)"
  by (induction s) auto

lemma skip_uri_scheme_url:
  assumes "s \<noteq> []" "CHR '':'' \<notin> set s" "slash \<notin> set s"
  shows "skip_uri_scheme (s @ ''://'' @ t) = Some t"
proof -
  have "c_at (s @ ''://'' @ t) (length s + 1) = slash" "c_at (s @ ''://'' @ t) (length s + 2) = slash"
    by (simp_all add: c_at_def nth_append)
  with assms show ?thesis
    using scheme_end_append [of s "''//'' @ t"] by (simp add: skip_uri_scheme_def)
qed

text \<open>A URL whose path part was encoded is URI-safe, whatever bytes the path has.\<close>

theorem encoded_url_is_safe:
  assumes "svn_path_uri_encode path = Ok e"
    and "scheme \<noteq> []" "CHR '':'' \<notin> set scheme" "slash \<notin> set scheme" "slash \<notin> set host"
  shows "svn_path_is_uri_safe (scheme @ ''://'' @ host @ slash # e)"
proof -
  have e: "e = escape uri_valid percent path" using assms(1) by (simp add: encode_eq)
  have "strchr (host @ slash # e) slash = Some (length host)"
    using assms(5) by (simp add: strchr_Some nth_append)
  then show ?thesis
    using skip_uri_scheme_url [OF assms(2-4), of "host @ slash # e"] uri_safe_escape [of path]
    by (simp add: svn_path_is_uri_safe_def e)
qed

lemma backslash_octal_printable: "c \<in> set (backslash_octal d) \<Longrightarrow> \<not> svn_ctype_iscntrl c"
proof -
  have "octal_digit n = d \<Longrightarrow> n < 8 \<Longrightarrow> \<not> svn_ctype_iscntrl d" for n d
    by (auto simp: octal_digit_def svn_ctype_iscntrl_def)
  moreover have "(of_char d :: nat) div 64 < 8"
    by (rule less_mult_imp_div_less) (rule less_le_trans [of _ 256], simp_all)
  ultimately show "c \<in> set (backslash_octal d) \<Longrightarrow> \<not> svn_ctype_iscntrl c"
    by (auto simp: backslash_octal_def Let_def svn_ctype_iscntrl_def)
qed

lemma escape_length: "(\<And>c. esc c \<noteq> []) \<Longrightarrow> length s \<le> length (escape ok esc s)"
proof (induction s)
  case (Cons c s)
  then have "1 \<le> length (esc c)" by (simp add: Suc_le_eq)
  with Cons show ?case by simp
qed simp

lemma illegal_path_escape_eq:
  "svn_path_illegal_path_escape path = escape (\<lambda>c. \<not> svn_ctype_iscntrl c) backslash_octal path"
proof -
  obtain copied ret where loop:
    "escape_loop (\<lambda>c. \<not> svn_ctype_iscntrl c) backslash_octal path 0 0 [] = (copied, ret)"
    by fastforce
  have run: "append_run path (length path) copied ret =
    escape (\<lambda>c. \<not> svn_ctype_iscntrl c) backslash_octal path"
    using escape_loop_start [OF _ _ loop] by simp
  have "path = append_run path (length path) copied ret" if "ret = []"
  proof -
    have "length (append_run path (length path) copied ret) = length path - copied"
      using that by (simp add: append_run_eq)
    moreover have "length path \<le> length (append_run path (length path) copied ret)"
      unfolding run by (rule escape_length) (simp add: backslash_octal_def Let_def)
    ultimately have "copied = 0 \<or> path = []" by (cases "length path") auto
    then show ?thesis using that by (auto simp: append_run_eq)
  qed
  then show ?thesis using run by (auto simp: svn_path_illegal_path_escape_def loop)
qed

text \<open>Escaping a path for a message leaves no control byte in it and changes a path without
  control bytes in nothing.\<close>

theorem illegal_path_escape_printable:
  "filter svn_ctype_iscntrl (svn_path_illegal_path_escape path) = [] \<and>
   (svn_path_illegal_path_escape path = path) = (filter svn_ctype_iscntrl path = [])"
proof -
  have no: "filter svn_ctype_iscntrl (svn_path_illegal_path_escape path) = []"
    by (auto simp: illegal_path_escape_eq escape_def filter_empty_conv backslash_octal_printable
        split: if_splits)
  have "svn_path_illegal_path_escape path = path" if "filter svn_ctype_iscntrl path = []"
    using that by (auto simp: illegal_path_escape_eq filter_empty_conv intro: escape_ok)
  then show ?thesis using no by metis
qed

end
