(* ===== verification/Dirent_Core.thy ===== *)
theory Dirent_Core
  imports Path_Spec Path_Escape "HOL-Library.Code_Target_Nat"
begin

text \<open>
  The internal functions of \<^verbatim>\<open>libsvn_subr/dirent_uri.c\<close> and its canonical forms, in the
  configuration the program is built for: POSIX, where the local separator is the slash and
  \<^verbatim>\<open>SVN_USE_DOS_PATHS\<close> is not defined, so drive letters and UNC paths are not compiled in.

  A pointer that walks over a string is the string that remains (\<open>src\<close>, \<open>next\<close>), an output pointer
  the bytes written so far (\<open>dst\<close>); offsets into a string stay offsets.
\<close>

datatype path_type_t = type_uri | type_dirent | type_relpath

section \<open>Roots and previous segments\<close>

definition internal_style :: "cstring \<Rightarrow> cstring" where
  "internal_style path = path"

definition dirent_root_length :: "cstring \<Rightarrow> nat \<Rightarrow> nat" where
  "dirent_root_length dirent len = (if len \<ge> 1 \<and> c_at dirent 0 = slash then 1 else 0)"

text \<open>The loop \<^verbatim>\<open>while (len > 0 && path[len] != '/') --len\<close>.\<close>

fun back_to_slash :: "cstring \<Rightarrow> nat \<Rightarrow> nat" where
  "back_to_slash path 0 = 0"
| "back_to_slash path (Suc n) =
     (if c_at path (Suc n) \<noteq> slash then back_to_slash path n else Suc n)"

definition dirent_previous_segment :: "cstring \<Rightarrow> nat \<Rightarrow> nat" where
  "dirent_previous_segment dirent len =
     (if len = 0 then 0
      else
        let len = back_to_slash dirent (len - 1) in
        if dirent_root_length dirent (len + 1) = len + 1 then len + 1 else len)"

definition dirent_is_rooted :: "cstring \<Rightarrow> bool" where
  "dirent_is_rooted dirent \<longleftrightarrow> c_at dirent 0 = slash"

definition relpath_previous_segment :: "cstring \<Rightarrow> nat \<Rightarrow> nat" where
  "relpath_previous_segment relpath len =
     (if len = 0 then 0 else back_to_slash relpath (len - 1))"

text \<open>The loop \<^verbatim>\<open>while (start > 0 && path[start - 1] != '/') --start\<close> of the basename functions.\<close>

fun basename_start :: "cstring \<Rightarrow> nat \<Rightarrow> nat" where
  "basename_start path 0 = 0"
| "basename_start path (Suc n) =
     (if c_at path n \<noteq> slash then basename_start path n else Suc n)"

section \<open>Canonicalizing\<close>

text \<open>The part of \<^verbatim>\<open>canonicalize\<close> that copies \<^verbatim>\<open>scheme://user@host:port\<close>.\<close>

definition host_char :: "char \<Rightarrow> bool" where
  "host_char c \<longleftrightarrow>
     (let n = (of_char c :: nat) in
      c = CHR '':'' \<or> 48 \<le> n \<and> n \<le> 57 \<or> 97 \<le> n \<and> n \<le> 102 \<or> 65 \<le> n \<and> n \<le> 70)"

definition canon_user :: "cstring \<Rightarrow> string \<times> cstring" where
  "canon_user seg =
     (let user = takeWhile (\<lambda>c. c \<noteq> slash \<and> c \<noteq> CHR ''@'') seg; src = drop (length user) seg in
      if c_hd src = CHR ''@'' then (user @ ''@'', drop 1 src) else ([], seg))"

definition canon_host :: "cstring \<Rightarrow> string \<times> cstring" where
  "canon_host src =
     (if c_hd src = CHR ''['' then
        let h = takeWhile host_char (drop 1 src); rest = drop (length h) (drop 1 src);
            dst = CHR ''['' # map canonicalize_to_lower h in
        if c_hd rest = CHR '']'' then (dst @ '']'', drop 1 rest) else (dst, rest)
      else
        let h = takeWhile (\<lambda>c. c \<noteq> slash \<and> c \<noteq> CHR '':'') src in
        (map canonicalize_to_lower h, drop (length h) src))"

text \<open>How many bytes of a port the scheme makes redundant, the colon included.\<close>

definition default_port :: "string \<Rightarrow> cstring \<Rightarrow> nat" where
  "default_port canon src =
     (if c_at src 1 = CHR ''8'' \<and> c_at src 2 = CHR ''0''
         \<and> (c_at src 3 = slash \<or> c_at src 3 = NUL) \<and> prefix ''http:'' canon then 3
      else if c_at src 1 = CHR ''4'' \<and> c_at src 2 = CHR ''4'' \<and> c_at src 3 = CHR ''3''
         \<and> (c_at src 4 = slash \<or> c_at src 4 = NUL) \<and> prefix ''https:'' canon then 4
      else if c_at src 1 = CHR ''3'' \<and> c_at src 2 = CHR ''6'' \<and> c_at src 3 = CHR ''9''
         \<and> c_at src 4 = CHR ''0''
         \<and> (c_at src 5 = slash \<or> c_at src 5 = NUL) \<and> prefix ''svn:'' canon then 5
      else if c_at src 1 = slash \<or> c_at src 1 = NUL then 1
      else 0)"

definition canon_port :: "string \<Rightarrow> cstring \<Rightarrow> string \<times> cstring" where
  "canon_port canon src =
     (if c_hd src = CHR '':'' then
        let src = drop (default_port canon src) src; p = takeWhile (\<lambda>c. c \<noteq> slash) src in
        (map canonicalize_to_lower p, drop (length p) src)
      else ([], src))"

text \<open>The whole part: \<open>dst\<close>, \<open>src\<close>, the length of \<^verbatim>\<open>scheme://\<close>, and the offset \<open>schema_data\<close>, if the
  byte after the host was not the terminator. None when the path has no scheme.\<close>

definition canon_scheme :: "cstring \<Rightarrow> (string \<times> cstring \<times> nat \<times> nat option) option" where
  "canon_scheme path =
     (let s = takeWhile (\<lambda>c. c \<noteq> slash \<and> c \<noteq> CHR '':'') path; src = drop (length s) path in
      if c_at src 0 = CHR '':'' \<and> c_at src 1 = slash \<and> c_at src 2 = slash then
        let scheme = map canonicalize_to_lower s @ ''://'';
            (user, src) = canon_user (drop 3 src);
            (host, src) = canon_host src;
            (port, src) = canon_port (scheme @ user @ host) src;
            dst = scheme @ user @ host @ port
        in Some (if src \<noteq> [] then (dst @ [c_hd src], drop 1 src, length scheme, Some (length dst + 1))
                 else (dst, src, length scheme, None))
      else None)"

text \<open>The length of the next segment, up to a slash, which in a URI may be written \<^verbatim>\<open>%2F\<close>.\<close>

fun seg_length :: "path_type_t \<Rightarrow> cstring \<Rightarrow> nat" where
  "seg_length t [] = 0"
| "seg_length t (c # s) =
     (if c = slash \<or>
         t = type_uri \<and> c = CHR ''%'' \<and> c_at s 0 = CHR ''2'' \<and> canonicalize_to_upper (c_at s 1) = CHR ''F''
      then 0 else Suc (seg_length t s))"

definition slash_length :: "path_type_t \<Rightarrow> cstring \<Rightarrow> nat" where
  "slash_length t s =
     (if c_hd s = slash then 1 else if t = type_uri \<and> c_hd s = CHR ''%'' then 3 else 0)"

text \<open>An empty segment or a \<^verbatim>\<open>.\<close>, which in a URI may be written \<^verbatim>\<open>%2E\<close>.\<close>

definition noop_segment :: "path_type_t \<Rightarrow> cstring \<Rightarrow> nat \<Rightarrow> bool" where
  "noop_segment t src seglen \<longleftrightarrow>
     seglen = 0 \<or> seglen = 1 \<and> c_at src 0 = dot \<or>
     t = type_uri \<and> seglen = 3 \<and> c_at src 0 = CHR ''%'' \<and> c_at src 1 = CHR ''2''
       \<and> canonicalize_to_upper (c_at src 2) = CHR ''E''"

lemma seg_length_step: "src \<noteq> [] \<Longrightarrow> 0 < seg_length t src + slash_length t (drop (seg_length t src) src)"
  by (cases src) (simp_all add: slash_length_def)

function canon_segments :: "path_type_t \<Rightarrow> cstring \<Rightarrow> string \<Rightarrow> nat \<Rightarrow> string \<times> nat" where
  "canon_segments t src dst n =
     (if src = [] then (dst, n)
      else
        let seglen = seg_length t src;
            slash_len = slash_length t (drop seglen src);
            src' = drop (seglen + slash_len) src in
        if noop_segment t src seglen then canon_segments t src' dst n
        else
          canon_segments t src'
            (dst @ take seglen src @ (if slash_len \<noteq> 0 then [slash] else [])) (n + 1))"
  by pat_completeness auto
termination
  by (relation "measure (\<lambda>(t, src, dst, n). length src)") (use seg_length_step in auto)

declare canon_segments.simps [simp del]

text \<open>The normalization of the characters after \<open>schema_data\<close>.\<close>

fun normalize_chars :: "cstring \<Rightarrow> string" where
  "normalize_chars [] = []"
| "normalize_chars (c # s) =
     (if c = slash then slash # normalize_chars s
      else if c = CHR ''%'' then
        if \<not> svn_ctype_isxdigit (c_at s 0) \<or> \<not> svn_ctype_isxdigit (c_at s 1)
        then ''%25'' @ normalize_chars s
        else
          let v = hex_byte (c_at s 0) (c_at s 1) in
          (if uri_valid v then [v]
           else [CHR ''%'', canonicalize_to_upper (c_at s 0), canonicalize_to_upper (c_at s 1)])
          @ normalize_chars (drop 2 s)
      else (if \<not> uri_valid c then percent c else [c]) @ normalize_chars s)"

definition canonicalize :: "path_type_t \<Rightarrow> cstring \<Rightarrow> cstring cres" where
  "canonicalize t path =
     (if path = [] then
        if t = type_uri
        then Err (svn_error_create SVN_ERR_CANONICALIZATION_FAILED ''An empty URI can not be canonicalized'')
        else Ok []
      else if t = type_uri \<and> c_hd path = slash
      then Err (svn_error_create SVN_ERR_CANONICALIZATION_FAILED (''A URI can not start with '' @ [CHR 0x27, slash, CHR 0x27]))
      else
        let scheme = (if t = type_uri then canon_scheme path else None);
            url = (scheme \<noteq> None);
            (dst, src, schemelen, schema_data) =
              (case scheme of
                 Some r \<Rightarrow> r
               | None \<Rightarrow>
                   if t \<noteq> type_relpath \<and> c_hd path = slash then ([slash], drop 1 path, 0, None)
                   else ([], path, 0, None));
            (dst, n) = canon_segments t src dst (if url then 1 else 0);
            dst = (if n > 0 \<and> last dst = slash \<and> \<not> (url \<and> c_at path schemelen = NUL)
                   then butlast dst else dst)
        in Ok (case schema_data of
                 None \<Rightarrow> dst
               | Some k \<Rightarrow> take k dst @ normalize_chars (drop k dst)))"

section \<open>Canonical paths\<close>

function no_dot_segment :: "cstring \<Rightarrow> nat \<Rightarrow> bool" where
  "no_dot_segment ptr pos =
     (case strchr (drop pos ptr) dot of
        None \<Rightarrow> True
      | Some d \<Rightarrow>
          let k = pos + d in
          if k > 0 \<and> c_at ptr (k - 1) = slash \<and> c_at ptr (k + 1) = slash then False
          else no_dot_segment ptr (k + 1))"
  by pat_completeness auto
termination
  by (relation "measure (\<lambda>(ptr, pos). length ptr - pos)") (auto simp: strchr_Some)

declare no_dot_segment.simps [simp del]

text \<open>The check for two slashes: \<open>pattern\<close> holds the last two bytes read; it stays below \<open>2 ^ 16\<close>, so
  the \<^verbatim>\<open>unsigned\<close> arithmetic of the source does not wrap.\<close>

fun no_double_slash :: "nat \<Rightarrow> cstring \<Rightarrow> bool" where
  "no_double_slash pattern [] = True"
| "no_double_slash pattern (c # s) =
     (let pattern = (pattern mod 256) * 256 + of_char c in
      if pattern = 257 * of_char slash then False else no_double_slash pattern s)"

definition relpath_is_canonical :: "cstring \<Rightarrow> bool" where
  "relpath_is_canonical ptr =
     (let len = length ptr in
      if c_at ptr 0 = slash then False
      else if c_at ptr 0 = dot \<and> (c_at ptr 1 = slash \<or> c_at ptr 1 = NUL) then False
      else if len < 2 then True
      else if c_at ptr (len - 1) = slash \<or> c_at ptr (len - 1) = dot \<and> c_at ptr (len - 2) = slash then False
      else if \<not> no_dot_segment ptr 0 then False
      else no_double_slash 0 (take (len - 1) ptr))"

definition svn_relpath_is_canonical :: "cstring \<Rightarrow> bool" where
  "svn_relpath_is_canonical relpath = relpath_is_canonical relpath"

definition svn_dirent_is_canonical :: "cstring \<Rightarrow> bool" where
  "svn_dirent_is_canonical dirent =
     relpath_is_canonical (if c_at dirent 0 = slash then drop 1 dirent else dirent)"

definition svn_fspath__is_canonical :: "cstring \<Rightarrow> bool" where
  "svn_fspath__is_canonical fspath \<longleftrightarrow> c_at fspath 0 = slash \<and> relpath_is_canonical (drop 1 fspath)"

end
