(* ===== verification/Dirent_Canon.thy ===== *)
theory Dirent_Canon
  imports Dirent_Core
begin

text \<open>
  What canonicalizing does and what the canonical tests accept: both are described by the segments
  of the path (\<open>segments\<close>, \<open>render\<close>), and a path is canonical exactly when canonicalizing leaves it
  as it is.
\<close>

section \<open>The canonicalizing functions of the API\<close>

text \<open>An error of \<^verbatim>\<open>canonicalize\<close> ends in \<^verbatim>\<open>SVN_ERR_ASSERT_NO_RETURN\<close>.\<close>

definition no_error :: "'a cres \<Rightarrow> 'a cres" where
  "no_error r = (case r of Err e \<Rightarrow> Abort | _ \<Rightarrow> r)"

definition svn_relpath_canonicalize :: "cstring \<Rightarrow> cstring cres" where
  "svn_relpath_canonicalize relpath = no_error (canonicalize type_relpath relpath)"

definition canonicalize_dirent :: "cstring \<Rightarrow> cstring cres" where
  "canonicalize_dirent dirent = cbind (canonicalize type_dirent dirent) (\<lambda>dst. Ok dst)"

definition svn_dirent_canonicalize :: "cstring \<Rightarrow> cstring cres" where
  "svn_dirent_canonicalize dirent = no_error (canonicalize_dirent dirent)"

text \<open>The variants that check their result: the outcome, and what they store through
  \<^verbatim>\<open>non_canonical_result\<close>.\<close>

definition canonicalize_failed :: "string \<Rightarrow> cstring \<Rightarrow> cstring \<Rightarrow> svn_err" where
  "canonicalize_failed what path result =
     svn_error_create SVN_ERR_CANONICALIZATION_FAILED
       (''Could not canonicalize '' @ what @ [CHR '' '', CHR 0x27] @ path @
        [CHR 0x27] @ '' (the result '' @ [CHR 0x27] @ result @ [CHR 0x27] @ '' is not canonical)'')"

definition checked_canonicalize ::
  "string \<Rightarrow> (cstring \<Rightarrow> cstring cres) \<Rightarrow> (cstring \<Rightarrow> bool) \<Rightarrow> cstring \<Rightarrow> cstring cres \<times> cstring option" where
  "checked_canonicalize what canon is_canon path =
     (case canon path of
        Ok result \<Rightarrow>
          if \<not> is_canon result then (Err (canonicalize_failed what path result), Some result)
          else (Ok result, None)
      | r \<Rightarrow> (r, None))"

definition svn_relpath_canonicalize_safe :: "cstring \<Rightarrow> cstring cres \<times> cstring option" where
  "svn_relpath_canonicalize_safe =
     checked_canonicalize ''relpath'' (canonicalize type_relpath) svn_relpath_is_canonical"

definition svn_dirent_canonicalize_safe :: "cstring \<Rightarrow> cstring cres \<times> cstring option" where
  "svn_dirent_canonicalize_safe =
     checked_canonicalize ''dirent'' canonicalize_dirent svn_dirent_is_canonical"

definition svn_fspath__canonicalize :: "cstring \<Rightarrow> cstring cres" where
  "svn_fspath__canonicalize fspath =
     (if c_at fspath 0 = slash \<and> c_at fspath 1 = NUL then Ok [slash]
      else cbind (svn_relpath_canonicalize fspath) (\<lambda>r. Ok (slash # r)))"

definition svn_dirent_internal_style :: "cstring \<Rightarrow> cstring cres" where
  "svn_dirent_internal_style dirent = svn_dirent_canonicalize (internal_style dirent)"

definition svn_dirent_internal_style_safe :: "cstring \<Rightarrow> cstring cres \<times> cstring option" where
  "svn_dirent_internal_style_safe dirent = svn_dirent_canonicalize_safe (internal_style dirent)"

definition svn_relpath__make_internal :: "cstring \<Rightarrow> cstring cres" where
  "svn_relpath__make_internal relpath = fst (svn_relpath_canonicalize_safe (internal_style relpath))"

definition svn_dirent_local_style :: "cstring \<Rightarrow> cstring" where
  "svn_dirent_local_style dirent = (if c_at dirent 0 = NUL then ''.'' else dirent)"

section \<open>Canonicalizing keeps the segments\<close>

lemma seg_length_split:
  assumes "t \<noteq> type_uri"
  shows "take (seg_length t src) src = takeWhile (\<lambda>c. c \<noteq> slash) src"
    and "drop (seg_length t src) src = dropWhile (\<lambda>c. c \<noteq> slash) src"
  using assms by (induction src) auto

lemma split_on_while:
  "split_on c s =
     (case dropWhile (\<lambda>x. x \<noteq> c) s of
        [] \<Rightarrow> [takeWhile (\<lambda>x. x \<noteq> c) s]
      | _ # r \<Rightarrow> takeWhile (\<lambda>x. x \<noteq> c) s # split_on c r)"
proof (cases "dropWhile (\<lambda>x. x \<noteq> c) s")
  case Nil
  then have "\<forall>x \<in> set s. x \<noteq> c" by (simp add: dropWhile_eq_Nil_conv)
  then have "c \<notin> set s" and tw: "takeWhile (\<lambda>x. x \<noteq> c) s = s" by (auto simp: takeWhile_eq_all_conv)
  then show ?thesis unfolding Nil tw by (simp add: split_on_fresh)
next
  case (Cons x r)
  then have x: "x = c" using dropWhile_eq_Cons_conv [of "\<lambda>x. x \<noteq> c" s x r] by simp
  have "c \<notin> set (takeWhile (\<lambda>x. x \<noteq> c) s)" by (auto dest: set_takeWhileD)
  then have "split_on c (takeWhile (\<lambda>x. x \<noteq> c) s @ dropWhile (\<lambda>x. x \<noteq> c) s) =
    takeWhile (\<lambda>x. x \<noteq> c) s # split_on c r"
    unfolding Cons x by (rule split_on_append)
  then show ?thesis unfolding takeWhile_dropWhile_id by (simp add: Cons)
qed

lemma noop_kept:
  assumes "t \<noteq> type_uri" "seg = take (seg_length t src) src"
  shows "noop_segment t src (seg_length t src) \<longleftrightarrow> \<not> kept seg"
proof -
  have "length seg = seg_length t src"
    using assms(2) by (induction src arbitrary: seg) auto
  with assms show ?thesis
    by (cases seg; cases src; cases "tl seg") (auto simp: noop_segment_def kept_def)
qed

definition slashed :: "string list \<Rightarrow> string \<Rightarrow> bool" where
  "slashed xs s \<longleftrightarrow> (if xs = [] then s = [] else s = join_with [slash] xs \<or> s = join_with [slash] xs @ [slash])"

lemma slashed_cons:
  assumes "kept seg" "slashed xs s"
  shows "slashed (seg # xs) (seg @ slash # s)"
  using assms by (cases "xs = []") (auto simp: slashed_def join_with_Cons)

lemma canon_segments_step:
  assumes "t \<noteq> type_uri" "src \<noteq> []"
  defines "seg \<equiv> takeWhile (\<lambda>c. c \<noteq> slash) src"
  shows "canon_segments t src dst n =
    (case dropWhile (\<lambda>c. c \<noteq> slash) src of
       [] \<Rightarrow> if kept seg then (dst @ seg, n + 1) else (dst, n)
     | _ # r \<Rightarrow>
         if kept seg then canon_segments t r (dst @ seg @ [slash]) (n + 1)
         else canon_segments t r dst n)"
proof -
  let ?n = "seg_length t src"
  have take: "take ?n src = seg" and drop: "drop ?n src = dropWhile (\<lambda>c. c \<noteq> slash) src"
    using seg_length_split [OF assms(1)] by (auto simp: seg_def)
  have noop: "noop_segment t src ?n \<longleftrightarrow> \<not> kept seg"
    by (rule noop_kept [OF assms(1)]) (simp add: take)
  show ?thesis
  proof (cases "dropWhile (\<lambda>c. c \<noteq> slash) src")
    case Nil
    have "slash_length t (drop ?n src) = 0"
      using assms(1) unfolding drop Nil by (simp add: slash_length_def)
    moreover have "drop ?n src = []" by (simp only: drop Nil)
    moreover have "canon_segments t [] d m = (d, m)" for d m by (simp add: canon_segments.simps)
    ultimately show ?thesis
      using noop assms(2) unfolding Nil canon_segments.simps [of t src]
      by (simp add: Let_def take del: drop_eq_Nil)
  next
    case (Cons c r)
    then have c: "c = slash" using dropWhile_eq_Cons_conv [of "\<lambda>c. c \<noteq> slash" src c r] by simp
    have "slash_length t (drop ?n src) = 1" unfolding drop Cons by (simp add: c slash_length_def)
    moreover have "drop 1 (drop ?n src) = r" unfolding drop Cons by simp
    then have "drop (?n + 1) src = r" by (simp add: drop_drop add.commute)
    ultimately show ?thesis
      using noop assms(2) unfolding Cons canon_segments.simps [of t src] by (simp add: Let_def take)
  qed
qed

lemma canon_segments_paths:
  assumes "t \<noteq> type_uri"
  shows "\<exists>s. canon_segments t src dst n = (dst @ s, n + length (segments src)) \<and> slashed (segments src) s"
proof (induction src arbitrary: dst n rule: length_induct)
  case (1 src)
  let ?seg = "takeWhile (\<lambda>c. c \<noteq> slash) src"
  show ?case
  proof (cases "src = []")
    case True
    then show ?thesis
      by (simp add: canon_segments.simps segments_def kept_def slashed_def)
  next
    case False
    show ?thesis
    proof (cases "dropWhile (\<lambda>c. c \<noteq> slash) src")
      case Nil
      have "segments src = (if kept ?seg then [?seg] else [])"
        unfolding segments_def split_on_while [of slash src] Nil by simp
      then show ?thesis
        unfolding canon_segments_step [OF assms False] Nil by (simp add: slashed_def)
    next
      case (Cons c r)
      have "length r < length src"
        using arg_cong [OF Cons, of length] length_dropWhile_le [of "\<lambda>c. c \<noteq> slash" src] by simp
      then have IH: "\<exists>s. canon_segments t r d m = (d @ s, m + length (segments r)) \<and> slashed (segments r) s"
        for d m using 1 by blast
      have segs: "segments src = (if kept ?seg then ?seg # segments r else segments r)"
        unfolding segments_def split_on_while [of slash src] Cons by simp
      show ?thesis
        using IH [of "dst @ ?seg @ [slash]" "n + 1"] IH [of dst n] slashed_cons [of ?seg "segments r"]
        unfolding canon_segments_step [OF assms False] Cons segs by auto
    qed
  qed
qed

lemma join_last: "good_segs xs \<Longrightarrow> xs \<noteq> [] \<Longrightarrow> last (join_with [slash] xs) \<noteq> slash"
proof (induction xs rule: induct_list012)
  case (2 x)
  then show ?case by (metis good_segD(1,2) good_segs_simps(2) join_with.simps(2) last_in_set)
next
  case (3 x y zs)
  then show ?case using join_with_empty [of "y # zs"] by simp
qed simp

lemma canonicalize_render:
  assumes "t \<noteq> type_uri" "is_cstring path"
  shows "canonicalize t path = Ok (render (t = type_dirent \<and> c_hd path = slash, segments path))"
proof (cases "path = []")
  case True
  then show ?thesis
    using assms by (simp add: canonicalize_def render_def segments_def kept_def)
next
  case False
  let ?root = "t = type_dirent \<and> c_hd path = slash"
  define dst where "dst = (if ?root then [slash] else [])"
  define src where "src = (if ?root then drop 1 path else path)"
  have segs: "segments src = segments path"
    using False by (cases path) (simp_all add: src_def segments_slash)
  have good: "good_segs (segments path)" using assms(2) by (rule segments_good)
  obtain s where s: "canon_segments t src dst 0 = (dst @ s, length (segments path))"
      "slashed (segments path) s"
    using canon_segments_paths [OF assms(1), of src dst 0] segs by auto
  have "(if length (segments path) > 0 \<and> last (dst @ s) = slash then butlast (dst @ s) else dst @ s) =
    dst @ join_with [slash] (segments path)"
    using s(2) join_last [OF good] join_with_empty [OF good]
    by (auto simp: slashed_def butlast_append split: if_splits)
  moreover have "(if t \<noteq> type_relpath \<and> c_hd path = slash then ([slash], drop 1 path, 0, None)
     else ([], path, 0, None)) = (dst, src, 0 :: nat, None :: nat option)"
    using assms(1) by (cases t) (auto simp: dst_def src_def)
  ultimately show ?thesis
    using assms(1) False s(1)
    by (simp add: canonicalize_def Let_def render_def dst_def [symmetric])
qed

section \<open>The canonical tests are fixpoint tests\<close>

lemma split_on_append_sep: "split_on c (u @ c # v) = split_on c u @ split_on c v"
  by (induction u) (auto split: list.split)

lemma split_on_mem:
  assumes "c \<notin> set t"
  shows "t \<in> set (split_on c p) \<longleftrightarrow> sublist (c # t @ [c]) (c # p @ [c])"
proof
  assume "t \<in> set (split_on c p)"
  then obtain xs ys where xs: "split_on c p = xs @ t # ys" by (meson split_list)
  have flank: "c # join_with [c] zs @ [c] = c # concat (map (\<lambda>z. z @ [c]) zs)" if "zs \<noteq> []" for zs
    using that by (induction zs rule: induct_list012) auto
  have "c # p @ [c] = c # concat (map (\<lambda>z. z @ [c]) (xs @ t # ys))"
    using flank [of "xs @ t # ys"] join_split_on [of c p] by (simp add: xs)
  moreover have "\<exists>u. c # concat (map (\<lambda>z. z @ [c]) xs) = u @ [c]"
    by (induction xs rule: rev_induct) auto
  then obtain u where "c # concat (map (\<lambda>z. z @ [c]) xs) = u @ [c]" by blast
  ultimately have "c # p @ [c] = u @ (c # t @ [c]) @ concat (map (\<lambda>z. z @ [c]) ys)" by simp
  then show "sublist (c # t @ [c]) (c # p @ [c])" unfolding sublist_def by blast
next
  assume "sublist (c # t @ [c]) (c # p @ [c])"
  then obtain u v where uv: "c # p @ [c] = u @ c # t @ c # v" by (auto simp: sublist_def)
  have "[] # split_on c p @ [[]] = split_on c (c # p @ [c])"
    using split_on_append_sep [of c p "[]"] by simp
  also have "\<dots> = split_on c u @ t # split_on c v"
    using assms by (simp add: uv split_on_append_sep [of c u] split_on_append)
  finally have eq: "[] # split_on c p @ [[]] = split_on c u @ t # split_on c v" .
  then have "split_on c p @ [[]] = tl (split_on c u) @ t # split_on c v"
    by (metis list.sel(3) split_on_nonempty tl_append2)
  then have "split_on c p = tl (split_on c u) @ t # butlast (split_on c v)"
    by (metis butlast.simps(2) butlast_append butlast_snoc list.distinct(1) split_on_nonempty)
  then show "t \<in> set (split_on c p)" by simp
qed

lemma sublist_pair:
  "sublist [a, b] s \<longleftrightarrow> (\<exists>i. i + 1 < length s \<and> s ! i = a \<and> s ! (i + 1) = b)"
proof
  assume "sublist [a, b] s"
  then obtain u v where "s = u @ [a, b] @ v" by (auto simp: sublist_def)
  then show "\<exists>i. i + 1 < length s \<and> s ! i = a \<and> s ! (i + 1) = b"
    by (intro exI [of _ "length u"]) (simp add: nth_append)
next
  assume "\<exists>i. i + 1 < length s \<and> s ! i = a \<and> s ! (i + 1) = b"
  then obtain i where "i + 1 < length s" "s ! i = a" "s ! (i + 1) = b" by blast
  then have "s = take i s @ [a, b] @ drop (i + 2) s"
    by (metis Cons_nth_drop_Suc Suc_eq_plus1 Suc_lessD add_2_eq_Suc' append_Cons append_Nil id_take_nth_drop)
  then show "sublist [a, b] s" by (metis sublist_def)
qed

lemma of_char_slash: "(of_char c :: nat) = 47 \<longleftrightarrow> c = slash"
proof -
  have "(of_char slash :: nat) = 47" by simp
  then show ?thesis by (metis of_char_eq_iff)
qed

lemma pair_of_bytes: "(b :: nat) < 256 \<Longrightarrow> a * 256 + b = 12079 \<longleftrightarrow> a = 47 \<and> b = 47"
proof
  assume b: "b < 256" and ab: "a * 256 + b = 12079"
  have "a = (a * 256 + b) div 256" using b by simp
  then have "a = 47" unfolding ab by simp
  with ab show "a = 47 \<and> b = 47" by simp
qed simp

lemma no_double_slash_iff:
  "m mod 256 = of_char d \<Longrightarrow> no_double_slash m s \<longleftrightarrow> \<not> sublist [slash, slash] (d # s)"
proof (induction s arbitrary: m d)
  case (Cons c s)
  have c: "(of_char c :: nat) < 256" by simp
  have "(of_char d * 256 + of_char c = (12079 :: nat)) \<longleftrightarrow> d = slash \<and> c = slash"
    using pair_of_bytes [OF c, of "of_char d"] by (simp add: of_char_slash)
  moreover have "(m mod 256 * 256 + of_char c) mod 256 = (of_char c :: nat)" using c by simp
  ultimately show ?case
    using Cons.IH [of "m mod 256 * 256 + of_char c" c] Cons.prems
    by (auto simp: Let_def sublist_Cons_right [of _ d])
qed (auto simp: sublist_Cons_right)

lemma sublist_triple:
  "sublist [a, b, c] s \<longleftrightarrow> (\<exists>i. i + 2 < length s \<and> s ! i = a \<and> s ! (i + 1) = b \<and> s ! (i + 2) = c)"
proof
  assume "sublist [a, b, c] s"
  then obtain u v where "s = u @ [a, b, c] @ v" by (auto simp: sublist_def)
  then show "\<exists>i. i + 2 < length s \<and> s ! i = a \<and> s ! (i + 1) = b \<and> s ! (i + 2) = c"
    by (intro exI [of _ "length u"]) (simp add: nth_append)
next
  assume "\<exists>i. i + 2 < length s \<and> s ! i = a \<and> s ! (i + 1) = b \<and> s ! (i + 2) = c"
  then obtain i where i: "i + 2 < length s" "s ! i = a" "s ! (i + 1) = b" "s ! (i + 2) = c" by blast
  then have "drop i s = a # b # c # drop (i + 3) s"
    using Cons_nth_drop_Suc [of i s] Cons_nth_drop_Suc [of "Suc i" s] Cons_nth_drop_Suc [of "Suc (Suc i)" s]
    by (simp add: numeral_3_eq_3)
  then have "s = take i s @ [a, b, c] @ drop (i + 3) s"
    by (metis append_Cons append_Nil append_take_drop_id)
  then show "sublist [a, b, c] s" by (metis sublist_def)
qed

lemma no_dot_segment_iff:
  "no_dot_segment p pos \<longleftrightarrow>
     \<not> (\<exists>k \<ge> pos. 0 < k \<and> k < length p \<and> p ! k = dot \<and> c_at p (k - 1) = slash \<and> c_at p (k + 1) = slash)"
proof (induction p pos rule: no_dot_segment.induct)
  case (1 p pos)
  show ?case
  proof (cases "strchr (drop pos p) dot")
    case None
    then have "p ! k \<noteq> dot" if "pos \<le> k" "k < length p" for k
      using nth_in_drop [OF that] by (metis strchr_None)
    then show ?thesis using None by (subst no_dot_segment.simps) auto
  next
    case (Some d)
    let ?k = "pos + d"
    have k: "?k < length p" "p ! ?k = dot" using Some by (auto simp: strchr_Some)
    have before: "p ! j \<noteq> dot" if "pos \<le> j" "j < ?k" for j
    proof -
      have "p ! j \<in> set (take d (drop pos p))"
        using that k by (auto simp: in_set_conv_nth intro!: exI [of _ "j - pos"])
      then show ?thesis using Some by (auto simp: strchr_Some)
    qed
    show ?thesis
    proof (cases "0 < ?k \<and> c_at p (?k - 1) = slash \<and> c_at p (?k + 1) = slash")
      case True
      then have "\<not> no_dot_segment p pos" using Some by (subst no_dot_segment.simps) (simp add: Let_def)
      then show ?thesis using True k le_add1 by blast
    next
      case False
      have after: "?k + 1 \<le> k" if "pos \<le> k" "0 < k" "p ! k = dot" "c_at p (k - 1) = slash" "c_at p (k + 1) = slash" for k
      proof -
        have "\<not> k < ?k" using before that by blast
        moreover have "k \<noteq> ?k" using that False by blast
        ultimately show ?thesis by simp
      qed
      have "no_dot_segment p pos = no_dot_segment p (?k + 1)"
        using Some False by (subst no_dot_segment.simps) (auto simp: Let_def)
      also have "\<dots> \<longleftrightarrow> \<not> (\<exists>k \<ge> ?k + 1. 0 < k \<and> k < length p \<and> p ! k = dot \<and> c_at p (k - 1) = slash \<and>
         c_at p (k + 1) = slash)"
        using "1.IH" [OF Some refl False] .
      also have "\<dots> \<longleftrightarrow> \<not> (\<exists>k \<ge> pos. 0 < k \<and> k < length p \<and> p ! k = dot \<and> c_at p (k - 1) = slash \<and>
         c_at p (k + 1) = slash)"
        using after by (meson le_add1 le_trans)
      finally show ?thesis .
    qed
  qed
qed


lemma sublist_flanked:
  assumes "p \<noteq> []"
  shows "sublist (a # t @ [a]) (a # p @ [a]) \<longleftrightarrow>
    prefix (t @ [a]) (p @ [a]) \<or> suffix (a # t) p \<or> sublist (a # t @ [a]) p"
proof -
  have "sublist (a # t @ [a]) (p @ [a]) \<longleftrightarrow> suffix (a # t) p \<or> sublist (a # t @ [a]) p"
  proof
    assume "sublist (a # t @ [a]) (p @ [a])"
    then obtain u v where uv: "p @ [a] = u @ (a # t @ [a]) @ v" by (auto simp: sublist_def)
    show "suffix (a # t) p \<or> sublist (a # t @ [a]) p"
    proof (cases v rule: rev_cases)
      case Nil
      then have "p = u @ a # t" using uv by simp
      then show ?thesis by (auto simp: suffix_def)
    next
      case (snoc w x)
      then have "p = u @ (a # t @ [a]) @ w" using uv by simp
      then show ?thesis by (metis sublist_def)
    qed
  next
    assume "suffix (a # t) p \<or> sublist (a # t @ [a]) p"
    then show "sublist (a # t @ [a]) (p @ [a])"
    proof
      assume "suffix (a # t) p"
      then obtain u where "p @ [a] = u @ (a # t @ [a]) @ []" by (auto simp: suffix_def)
      then show ?thesis unfolding sublist_def by blast
    next
      assume "sublist (a # t @ [a]) p"
      then show ?thesis by (simp add: sublist_order.order_trans)
    qed
  qed
  then show ?thesis by (auto simp: sublist_Cons_right)
qed

lemma split_on_has_empty:
  assumes "p \<noteq> []"
  shows "[] \<in> set (split_on slash p) \<longleftrightarrow> hd p = slash \<or> last p = slash \<or> sublist [slash, slash] p"
proof -
  have "suffix [slash] p \<longleftrightarrow> last p = slash"
    using assms by (cases p rule: rev_cases) (auto simp: suffix_def)
  moreover have "prefix [slash] (p @ [slash]) \<longleftrightarrow> hd p = slash" using assms by (cases p) auto
  ultimately show ?thesis
    using sublist_flanked [OF assms, of slash "[]"] split_on_mem [of slash "[]" p] by simp
qed

lemma split_on_has_dot:
  assumes "p \<noteq> []"
  shows "[dot] \<in> set (split_on slash p) \<longleftrightarrow>
    p = [dot] \<or> prefix [dot, slash] p \<or> suffix [slash, dot] p \<or> sublist [slash, dot, slash] p"
proof -
  have "prefix [dot, slash] (p @ [slash]) \<longleftrightarrow> p = [dot] \<or> prefix [dot, slash] p"
    using assms by (cases p; cases "tl p") auto
  then show ?thesis
    using sublist_flanked [OF assms, of slash "[dot]"] split_on_mem [of slash "[dot]" p] by simp
qed

lemma no_dot_sublist:
  "no_dot_segment p 0 \<longleftrightarrow> \<not> sublist [slash, dot, slash] p"
proof -
  have at: "c_at p i = slash \<longleftrightarrow> i < length p \<and> p ! i = slash" for i
    by (simp add: c_at_def)
  have "(\<exists>k. 0 < k \<and> k < length p \<and> p ! k = dot \<and> c_at p (k - 1) = slash \<and> c_at p (k + 1) = slash) \<longleftrightarrow>
    (\<exists>i. i + 2 < length p \<and> p ! i = slash \<and> p ! (i + 1) = dot \<and> p ! (i + 2) = slash)" (is "?L \<longleftrightarrow> ?R")
  proof
    assume ?L
    then obtain k where "0 < k" "p ! k = dot" "c_at p (k - 1) = slash" "c_at p (k + 1) = slash" by blast
    then show ?R by (intro exI [of _ "k - 1"]) (auto simp: at)
  next
    assume ?R
    then obtain i where "i + 2 < length p" "p ! i = slash" "p ! (i + 1) = dot" "p ! (i + 2) = slash" by blast
    then show ?L by (intro exI [of _ "i + 1"]) (auto simp: at)
  qed
  then show ?thesis by (simp add: no_dot_segment_iff sublist_triple)
qed

lemma sublist_snoc_neq:
  assumes "last s \<noteq> x" "s \<noteq> []"
  shows "sublist s (u @ [x]) \<longleftrightarrow> sublist s u"
proof
  assume "sublist s (u @ [x])"
  then obtain a b where ab: "u @ [x] = a @ s @ b" by (auto simp: sublist_def)
  have "b \<noteq> []" using ab assms by (metis append_Nil2 last_appendR last_snoc)
  then obtain b' where "b = b' @ [x]" using ab by (cases b rule: rev_cases) auto
  then have "u = a @ s @ b'" using ab by simp
  then show "sublist s u" unfolding sublist_def by blast
qed (rule sublist_order.order_trans, auto)

lemma no_double_slash_sublist:
  assumes "p \<noteq> []" "last p \<noteq> slash"
  shows "no_double_slash 0 (take (length p - 1) p) \<longleftrightarrow> \<not> sublist [slash, slash] p"
proof -
  have "no_double_slash 0 (butlast p) \<longleftrightarrow> \<not> sublist [slash, slash] (NUL # butlast p)"
    by (rule no_double_slash_iff) simp
  also have "\<dots> \<longleftrightarrow> \<not> sublist [slash, slash] (butlast p)" by (simp add: sublist_Cons_right [of _ NUL])
  also have "\<dots> \<longleftrightarrow> \<not> sublist [slash, slash] p"
    using sublist_snoc_neq [of "[slash, slash]" "last p" "butlast p"] assms by simp
  finally show ?thesis by (simp add: butlast_conv_take)
qed

lemma kept_segments_iff:
  "list_all kept (split_on slash p) \<longleftrightarrow> [] \<notin> set (split_on slash p) \<and> [dot] \<notin> set (split_on slash p)"
  by (auto simp: list_all_iff kept_def)

lemma relpath_is_canonical_iff:
  assumes "is_cstring p"
  shows "relpath_is_canonical p \<longleftrightarrow> p = [] \<or> list_all kept (split_on slash p)"
proof (cases "length p < 2")
  case True
  then show ?thesis
    using assms by (cases p; cases "tl p") (auto simp: relpath_is_canonical_def kept_def)
next
  case False
  then obtain a b q where p: "p = a # b # q" by (cases p; cases "tl p") auto
  have ne: "p \<noteq> []" by (simp add: p)
  have first: "c_at p 0 = hd p" "c_at p 1 = b" by (simp_all add: p)
  have lst: "c_at p (length p - 1) = last p" using ne by (simp add: c_at_def last_conv_nth)
  have b: "b \<noteq> NUL" using assms by (simp add: p)
  have pre: "prefix [dot, slash] p \<longleftrightarrow> hd p = dot \<and> b = slash" by (auto simp: p)
  have suf: "suffix [slash, dot] p \<longleftrightarrow> last p = dot \<and> c_at p (length p - 2) = slash"
  proof -
    obtain r y where r: "p = r @ [y]" using ne by (cases p rule: rev_cases) auto
    obtain u x where "r = u @ [x]" using r False by (cases r rule: rev_cases) auto
    with r have "p = u @ [x, y]" by simp
    then show ?thesis by (auto simp: suffix_def c_at_def)
  qed
  have "relpath_is_canonical p \<longleftrightarrow>
    hd p \<noteq> slash \<and> \<not> (hd p = dot \<and> b = slash) \<and> last p \<noteq> slash \<and>
    \<not> (last p = dot \<and> c_at p (length p - 2) = slash) \<and> no_dot_segment p 0 \<and>
    no_double_slash 0 (take (length p - 1) p)"
    unfolding relpath_is_canonical_def Let_def first lst using False b by simp
  also have "\<dots> \<longleftrightarrow>
    hd p \<noteq> slash \<and> \<not> prefix [dot, slash] p \<and> last p \<noteq> slash \<and>
    \<not> suffix [slash, dot] p \<and> \<not> sublist [slash, dot, slash] p \<and> \<not> sublist [slash, slash] p"
    using no_double_slash_sublist [OF ne] unfolding pre suf no_dot_sublist by blast
  also have "\<dots> \<longleftrightarrow> [] \<notin> set (split_on slash p) \<and> [dot] \<notin> set (split_on slash p)"
    using split_on_has_empty [OF ne] split_on_has_dot [OF ne] p by blast
  finally show ?thesis using ne by (simp only: kept_segments_iff) simp
qed

lemma list_all_kept_segments: "list_all kept (split_on slash p) \<Longrightarrow> segments p = split_on slash p"
  by (simp add: segments_def list_all_iff filter_id_conv)

lemma relpath_canonical_render:
  assumes "is_cstring p"
  shows "relpath_is_canonical p \<longleftrightarrow> p = join_with [slash] (segments p)"
proof
  assume "relpath_is_canonical p"
  then show "p = join_with [slash] (segments p)"
    using assms
    by (auto simp: relpath_is_canonical_iff list_all_kept_segments join_split_on)
       (simp add: segments_def kept_def)
next
  assume p: "p = join_with [slash] (segments p)"
  have good: "good_segs (segments p)" using assms by (rule segments_good)
  show "relpath_is_canonical p"
  proof (cases "segments p = []")
    case False
    then have "segments p = split_on slash p" using p good join_no_slash by metis
    then have "list_all kept (split_on slash p)" by (simp add: segments_def list_all_iff filter_id_conv)
    with assms show ?thesis by (simp add: relpath_is_canonical_iff)
  next
    case True
    then show ?thesis using p assms by (simp add: relpath_is_canonical_iff)
  qed
qed

section \<open>Canonical forms of the three families\<close>

lemma relpath_canonical_iff:
  "is_cstring p \<Longrightarrow> relpath_is_canonical p \<longleftrightarrow> p = render (False, segments p)"
  by (simp add: relpath_canonical_render render_def)

lemma dirent_canonical_iff:
  "is_cstring p \<Longrightarrow> svn_dirent_is_canonical p \<longleftrightarrow> p = render (c_hd p = slash, segments p)"
  by (cases p)
     (auto simp: svn_dirent_is_canonical_def relpath_canonical_render render_def segments_slash)

lemma fspath_canonical_iff:
  "is_cstring p \<Longrightarrow> svn_fspath__is_canonical p \<longleftrightarrow> p = render (True, segments p)"
  by (cases p)
     (auto simp: svn_fspath__is_canonical_def relpath_canonical_render render_def segments_slash)

lemma relpath_canonicalize_eq:
  "is_cstring p \<Longrightarrow> svn_relpath_canonicalize p = Ok (render (False, segments p))"
  by (simp add: svn_relpath_canonicalize_def canonicalize_render no_error_def)

lemma dirent_canonicalize_eq:
  "is_cstring p \<Longrightarrow> svn_dirent_canonicalize p = Ok (render (c_hd p = slash, segments p))"
  by (simp add: svn_dirent_canonicalize_def canonicalize_dirent_def canonicalize_render no_error_def)

lemma fspath_canonicalize_eq:
  assumes "is_cstring p"
  shows "svn_fspath__canonicalize p = Ok (render (True, segments p))"
proof (cases "c_at p 0 = slash \<and> c_at p 1 = NUL")
  case True
  then have "p = [slash]" using assms by (cases p; cases "tl p") auto
  then show ?thesis by (simp add: svn_fspath__canonicalize_def render_def segments_def kept_def)
next
  case False
  then show ?thesis
    using assms by (auto simp: svn_fspath__canonicalize_def relpath_canonicalize_eq render_def)
qed

text \<open>A canonicalizer and its test: the result passes the test, and what passes the test is left as
  it is. Clients get that canonicalizing twice is canonicalizing once and that the checked variants
  never report an error.\<close>

locale canonicalizer =
  fixes canon :: "cstring \<Rightarrow> cstring cres" and is_canon :: "cstring \<Rightarrow> bool"
    and form :: "cstring \<Rightarrow> cstring"
  assumes canon_form: "is_cstring p \<Longrightarrow> canon p = Ok (form p)"
    and form_cstring: "is_cstring p \<Longrightarrow> is_cstring (form p)"
    and form_idem: "is_cstring p \<Longrightarrow> form (form p) = form p"
    and is_canon_iff: "is_cstring p \<Longrightarrow> is_canon p \<longleftrightarrow> p = form p"
begin

lemma result_canonical: "is_cstring p \<Longrightarrow> \<exists>q. canon p = Ok q \<and> is_canon q"
  using canon_form form_cstring form_idem is_canon_iff by auto

lemma canonical_iff_fixpoint: "is_cstring p \<Longrightarrow> is_canon p \<longleftrightarrow> canon p = Ok p"
  using canon_form is_canon_iff by auto

lemma canonicalize_twice: "is_cstring p \<Longrightarrow> cbind (canon p) canon = canon p"
  using canon_form form_cstring form_idem by auto

lemma checked_ok: "is_cstring p \<Longrightarrow> checked_canonicalize what canon is_canon p = (canon p, None)"
  using result_canonical [of p] by (auto simp: checked_canonicalize_def)

end

interpretation rel: canonicalizer svn_relpath_canonicalize relpath_is_canonical "\<lambda>p. render (False, segments p)"
  by unfold_locales
     (simp_all add: relpath_canonicalize_eq relpath_canonical_iff segments_render segments_good is_cstring_render)

interpretation dir: canonicalizer svn_dirent_canonicalize svn_dirent_is_canonical
    "\<lambda>p. render (c_hd p = slash, segments p)"
  by unfold_locales
     (simp_all add: dirent_canonicalize_eq dirent_canonical_iff segments_render segments_good is_cstring_render
       render_hd)

interpretation fs: canonicalizer svn_fspath__canonicalize svn_fspath__is_canonical "\<lambda>p. render (True, segments p)"
  by unfold_locales
     (simp_all add: fspath_canonicalize_eq fspath_canonical_iff segments_render segments_good is_cstring_render)

section \<open>Properties\<close>



text \<open>C14. The two canonical tests, which scan the string for bad patterns, accept exactly the strings
  canonicalizing leaves unchanged.\<close>

theorem canonical_test_is_fixpoint:
  assumes "is_cstring p"
  shows "(svn_dirent_is_canonical p \<longleftrightarrow> svn_dirent_canonicalize p = Ok p) \<and>
         (svn_relpath_is_canonical p \<longleftrightarrow> svn_relpath_canonicalize p = Ok p) \<and>
         (svn_fspath__is_canonical p \<longleftrightarrow> svn_fspath__canonicalize p = Ok p)"
  using assms
  by (simp add: svn_relpath_is_canonical_def rel.canonical_iff_fixpoint dir.canonical_iff_fixpoint
      fs.canonical_iff_fixpoint)

theorem canonical_test_is_fixpoint_witness:
  "\<not> svn_dirent_is_canonical ''a/./b'' \<and> svn_dirent_canonicalize ''a/./b'' \<noteq> Ok ''a/./b''"
proof -
  have "\<not> svn_dirent_is_canonical ''a/./b''" by code_simp
  then show ?thesis using canonical_test_is_fixpoint [of "''a/./b''"] by simp
qed

text \<open>The checked variants never report an error: their test of the result always succeeds, so
  they return what the unchecked ones return, and canonicalizing the result changes nothing.\<close>

theorem checked_canonicalize_succeeds:
  assumes "is_cstring p"
  shows "svn_dirent_canonicalize_safe p = (svn_dirent_canonicalize p, None) \<and>
         svn_relpath_canonicalize_safe p = (svn_relpath_canonicalize p, None) \<and>
         cbind (svn_dirent_canonicalize p) svn_dirent_canonicalize = svn_dirent_canonicalize p"
proof (intro conjI)
  have cong: "checked_canonicalize w c i p = checked_canonicalize w d i p" if "c p = d p" for w c d i
    using that by (simp add: checked_canonicalize_def)
  have "canonicalize_dirent p = svn_dirent_canonicalize p"
    using assms by (simp add: svn_dirent_canonicalize_def canonicalize_dirent_def canonicalize_render no_error_def)
  from cong [of canonicalize_dirent svn_dirent_canonicalize, OF this]
  show "svn_dirent_canonicalize_safe p = (svn_dirent_canonicalize p, None)"
    unfolding svn_dirent_canonicalize_safe_def by (simp only: dir.checked_ok [OF assms])
  have "canonicalize type_relpath p = svn_relpath_canonicalize p"
    using assms by (simp add: svn_relpath_canonicalize_def canonicalize_render no_error_def)
  from cong [of "canonicalize type_relpath" svn_relpath_canonicalize, OF this]
  show "svn_relpath_canonicalize_safe p = (svn_relpath_canonicalize p, None)"
    unfolding svn_relpath_canonicalize_safe_def svn_relpath_is_canonical_def [abs_def]
    by (simp only: rel.checked_ok [OF assms])
qed (rule dir.canonicalize_twice [OF assms])

end
