(* ===== verification/Dirent_Ops.thy ===== *)
theory Dirent_Ops
  imports Dirent_Canon
begin

text \<open>
  The operations of \<^verbatim>\<open>dirent_uri.c\<close> on dirents, relpaths and fspaths: joining, splitting, ancestors.
  Each function keeps its assertions (\<open>asserting\<close>); a pointer result that may be \<^verbatim>\<open>NULL\<close> is an
  option.
\<close>

section \<open>Common parts\<close>

text \<open>The loop of \<^verbatim>\<open>get_longest_ancestor_length\<close>: both paths from the byte \<open>i\<close> on, the last
  separator seen. It stops at a difference or at the end of either path; the caller has excluded
  empty paths.\<close>

fun common_loop :: "cstring \<Rightarrow> cstring \<Rightarrow> nat \<Rightarrow> nat \<Rightarrow> nat \<times> nat" where
  "common_loop (a # s) (b # t) i last_dirsep =
     (if a = b then
        let last_dirsep = (if a = slash then i else last_dirsep) in
        if s = [] \<or> t = [] then (i + 1, last_dirsep) else common_loop s t (i + 1) last_dirsep
      else (i, last_dirsep))"
| "common_loop _ _ i last_dirsep = (i, last_dirsep)"

definition get_longest_ancestor_length :: "path_type_t \<Rightarrow> cstring \<Rightarrow> cstring \<Rightarrow> nat" where
  "get_longest_ancestor_length types path1 path2 =
     (if path1 = [] \<or> path2 = [] then 0
      else
        let (i, last_dirsep) = common_loop path1 path2 0 0 in
        if i = 1 \<and> c_at path1 0 = slash \<and> c_at path2 0 = slash then 1
        else if types = type_dirent \<and> i = 0 then 0
        else if i = length path1 \<and> c_at path2 i = slash
             \<or> i = length path2 \<and> c_at path1 i = slash
             \<or> i = length path1 \<and> i = length path2 then i
        else if last_dirsep = 0 \<and> c_at path1 0 = slash \<and> c_at path2 0 = slash then 1
        else last_dirsep)"

text \<open>The offset at which one of two paths ends, None when they differ before.\<close>

fun matching :: "cstring \<Rightarrow> cstring \<Rightarrow> nat option" where
  "matching (a # s) (b # t) = (if a \<noteq> b then None else map_option Suc (matching s t))"
| "matching _ _ = Some 0"

definition is_child :: "path_type_t \<Rightarrow> cstring \<Rightarrow> cstring \<Rightarrow> cstring option" where
  "is_child t path1 path2 =
     (if path1 = [] then
        if path2 = [] then None
        else if t = type_uri \<or> t = type_dirent \<and> dirent_is_rooted path2 then None
        else Some path2
      else
        (case matching path1 path2 of
           None \<Rightarrow> None
         | Some i \<Rightarrow>
             if c_at path1 i = NUL \<and> c_at path2 i \<noteq> NUL then
               if c_at path1 (i - 1) = slash then
                 if c_at path2 i = slash then None else Some (drop i path2)
               else if c_at path2 i = slash then
                 if c_at path2 (i + 1) \<noteq> NUL then Some (drop (i + 1) path2) else None
               else None
             else None))"

section \<open>Dirents\<close>

definition svn_dirent_is_root :: "cstring \<Rightarrow> nat \<Rightarrow> bool" where
  "svn_dirent_is_root dirent len \<longleftrightarrow> len = 1 \<and> c_at dirent 0 = slash"

definition svn_dirent_is_absolute :: "cstring \<Rightarrow> bool" where
  "svn_dirent_is_absolute dirent \<longleftrightarrow> c_at dirent 0 = slash"

definition svn_dirent_join :: "cstring \<Rightarrow> cstring \<Rightarrow> cstring cres" where
  "svn_dirent_join base component =
     asserting (svn_dirent_is_canonical base) (asserting (svn_dirent_is_canonical component)
       (if svn_dirent_is_absolute component then Ok component
        else if base = [] then Ok component
        else if component = [] then Ok base
        else
          let blen = length base; add_separator = (c_at base (blen - 1) \<noteq> slash) in
          Ok (base @ (if add_separator then [slash] else []) @ component)))"

definition svn_dirent_dirname :: "cstring \<Rightarrow> cstring cres" where
  "svn_dirent_dirname dirent =
     (let len = length dirent in
      asserting (svn_dirent_is_canonical dirent)
        (if len = dirent_root_length dirent len then Ok dirent
         else Ok (take (dirent_previous_segment dirent len) dirent)))"

definition svn_dirent_basename :: "cstring \<Rightarrow> cstring cres" where
  "svn_dirent_basename dirent =
     (let len = length dirent in
      asserting (svn_dirent_is_canonical dirent)
        (if svn_dirent_is_root dirent len then Ok []
         else Ok (drop (basename_start dirent len) dirent)))"

definition svn_dirent_split :: "cstring \<Rightarrow> (cstring \<times> cstring) cres" where
  "svn_dirent_split dirent =
     cbind (svn_dirent_dirname dirent) (\<lambda>d. cbind (svn_dirent_basename dirent) (\<lambda>b. Ok (d, b)))"

definition svn_dirent_get_longest_ancestor :: "cstring \<Rightarrow> cstring \<Rightarrow> cstring" where
  "svn_dirent_get_longest_ancestor dirent1 dirent2 =
     take (get_longest_ancestor_length type_dirent dirent1 dirent2) dirent1"

definition svn_dirent_is_child :: "cstring \<Rightarrow> cstring \<Rightarrow> cstring option" where
  "svn_dirent_is_child parent child = is_child type_dirent parent child"

definition svn_dirent_skip_ancestor :: "cstring \<Rightarrow> cstring \<Rightarrow> cstring option" where
  "svn_dirent_skip_ancestor parent child =
     (let len = length parent; root_len = dirent_root_length child (length child) in
      if \<not> strncmp_eq parent child len then None
      else if c_at child len = NUL then Some []
      else if root_len > len then None
      else if c_at child len = slash then Some (drop (len + 1) child)
      else if root_len = len then Some (drop len child)
      else None)"

definition svn_dirent_is_ancestor :: "cstring \<Rightarrow> cstring \<Rightarrow> bool" where
  "svn_dirent_is_ancestor parent child \<longleftrightarrow> svn_dirent_skip_ancestor parent child \<noteq> None"

section \<open>Relpaths\<close>

definition svn_relpath_join :: "cstring \<Rightarrow> cstring \<Rightarrow> cstring cres" where
  "svn_relpath_join base component =
     asserting (relpath_is_canonical base) (asserting (relpath_is_canonical component)
       (if length base = 0 then Ok component
        else if length component = 0 then Ok base
        else Ok (base @ [slash] @ component)))"

definition svn_relpath_dirname :: "cstring \<Rightarrow> cstring cres" where
  "svn_relpath_dirname relpath =
     asserting (relpath_is_canonical relpath)
       (Ok (take (relpath_previous_segment relpath (length relpath)) relpath))"

definition svn_relpath_basename :: "cstring \<Rightarrow> cstring cres" where
  "svn_relpath_basename relpath =
     asserting (relpath_is_canonical relpath)
       (Ok (drop (basename_start relpath (length relpath)) relpath))"

definition svn_relpath_split :: "cstring \<Rightarrow> (cstring \<times> cstring) cres" where
  "svn_relpath_split relpath =
     cbind (svn_relpath_dirname relpath) (\<lambda>d. cbind (svn_relpath_basename relpath) (\<lambda>b. Ok (d, b)))"

text \<open>The bytes before the slash that ends the given number of components.\<close>

fun prefix_loop :: "cstring \<Rightarrow> int \<Rightarrow> cstring" where
  "prefix_loop [] max_components = []"
| "prefix_loop (c # s) max_components =
     (if c = slash then
        let max_components = max_components - 1 in
        if max_components = 0 then [] else c # prefix_loop s max_components
      else c # prefix_loop s max_components)"

definition svn_relpath_prefix :: "cstring \<Rightarrow> int \<Rightarrow> cstring cres" where
  "svn_relpath_prefix relpath max_components =
     asserting (relpath_is_canonical relpath)
       (if max_components \<le> 0 then Ok [] else Ok (prefix_loop relpath max_components))"

definition svn_relpath_get_longest_ancestor :: "cstring \<Rightarrow> cstring \<Rightarrow> cstring cres" where
  "svn_relpath_get_longest_ancestor relpath1 relpath2 =
     asserting (relpath_is_canonical relpath1) (asserting (relpath_is_canonical relpath2)
       (Ok (take (get_longest_ancestor_length type_relpath relpath1 relpath2) relpath1)))"

definition svn_relpath_skip_ancestor :: "cstring \<Rightarrow> cstring \<Rightarrow> cstring option cres" where
  "svn_relpath_skip_ancestor parent child =
     (let len = length parent in
      asserting (relpath_is_canonical parent) (asserting (relpath_is_canonical child)
        (if len = 0 then Ok (Some child)
         else if \<not> strncmp_eq parent child len then Ok None
         else if c_at child len = NUL then Ok (Some [])
         else if c_at child len = slash then Ok (Some (drop (len + 1) child))
         else Ok None)))"

section \<open>Fspaths\<close>

definition svn_fspath__is_root :: "cstring \<Rightarrow> nat \<Rightarrow> bool" where
  "svn_fspath__is_root fspath len \<longleftrightarrow> len = 1 \<and> c_at fspath 0 = slash"

definition svn_fspath__skip_ancestor :: "cstring \<Rightarrow> cstring \<Rightarrow> cstring option cres" where
  "svn_fspath__skip_ancestor parent child =
     asserting (svn_fspath__is_canonical parent) (asserting (svn_fspath__is_canonical child)
       (svn_relpath_skip_ancestor (drop 1 parent) (drop 1 child)))"

definition svn_fspath__dirname :: "cstring \<Rightarrow> cstring cres" where
  "svn_fspath__dirname fspath =
     asserting (svn_fspath__is_canonical fspath)
       (if c_at fspath 0 = slash \<and> c_at fspath 1 = NUL then Ok fspath
        else cbind (svn_relpath_dirname (drop 1 fspath)) (\<lambda>d. Ok (slash # d)))"

definition svn_fspath__basename :: "cstring \<Rightarrow> cstring cres" where
  "svn_fspath__basename fspath =
     asserting (svn_fspath__is_canonical fspath)
       (cbind (svn_relpath_basename (drop 1 fspath)) (\<lambda>result.
          asserting (strchr result slash = None) (Ok result)))"

definition svn_fspath__split :: "cstring \<Rightarrow> (cstring \<times> cstring) cres" where
  "svn_fspath__split fspath =
     cbind (svn_fspath__dirname fspath) (\<lambda>d. cbind (svn_fspath__basename fspath) (\<lambda>b. Ok (d, b)))"

definition svn_fspath__join :: "cstring \<Rightarrow> cstring \<Rightarrow> cstring cres" where
  "svn_fspath__join fspath relpath =
     asserting (svn_fspath__is_canonical fspath) (asserting (svn_relpath_is_canonical relpath)
       (let result =
          (if c_at relpath 0 = NUL then fspath
           else if c_at fspath 1 = NUL then slash # relpath
           else fspath @ [slash] @ relpath)
        in asserting (svn_fspath__is_canonical result) (Ok result)))"

definition svn_fspath__get_longest_ancestor :: "cstring \<Rightarrow> cstring \<Rightarrow> cstring cres" where
  "svn_fspath__get_longest_ancestor fspath1 fspath2 =
     asserting (svn_fspath__is_canonical fspath1) (asserting (svn_fspath__is_canonical fspath2)
       (cbind (svn_relpath_get_longest_ancestor (drop 1 fspath1) (drop 1 fspath2)) (\<lambda>r.
          let result = slash # r in asserting (svn_fspath__is_canonical result) (Ok result))))"

section \<open>The functions on rendered paths\<close>

abbreviation (input) J :: "string list \<Rightarrow> string" where
  "J xs \<equiv> join_with [slash] xs"

lemma canonical_J [simp]: "good_segs xs \<Longrightarrow> relpath_is_canonical (J xs)"
  by (simp add: relpath_canonical_render is_cstring_join segments_join)

lemma canonical_dirent [simp]: "good_segs xs \<Longrightarrow> svn_dirent_is_canonical (render (r, xs))"
  using is_cstring_render [of "(r, xs)"] render_hd [of "(r, xs)"] segments_render [of "(r, xs)"]
  by (simp add: dirent_canonical_iff)

lemma canonical_fspath [simp]: "good_segs xs \<Longrightarrow> svn_fspath__is_canonical (slash # J xs)"
  by (simp add: svn_fspath__is_canonical_def)

lemma c_at_J: "good_segs xs \<Longrightarrow> c_at (J xs) i = NUL \<longleftrightarrow> length (J xs) \<le> i"
  by (rule c_at_NUL) (rule is_cstring_join)

lemma c_at_append: "c_at (s @ t) i = (if i < length s then s ! i else c_at t (i - length s))"
  by (auto simp: c_at_def nth_append)

lemma c_at_no_slash: "slash \<notin> set p \<Longrightarrow> c_at p i \<noteq> slash"
  by (auto simp: c_at_def) (metis nth_mem)

lemma back_to_slash_none: "slash \<notin> set p \<Longrightarrow> back_to_slash p n = 0"
  by (induction n) (auto simp: c_at_no_slash)

lemma c_at_shift: "c_at (u @ s) (length u + k) = c_at s k"
  by (simp add: c_at_append)

lemma back_to_slash_append:
  "slash \<notin> set b \<Longrightarrow> k \<le> length b \<Longrightarrow> back_to_slash (u @ slash # b) (length u + k) = length u"
proof (induction k)
  case 0
  show ?case by (cases u) (auto simp: c_at_append)
next
  case (Suc k)
  have "c_at (u @ slash # b) (length u + Suc k) = c_at b k" by (simp only: c_at_shift c_at_Cons_Suc)
  then show ?case using Suc c_at_no_slash [of b k] by simp
qed

lemma basename_start_none: "slash \<notin> set p \<Longrightarrow> basename_start p n = 0"
  by (induction n) (auto simp: c_at_no_slash)

lemma basename_start_append:
  "slash \<notin> set b \<Longrightarrow> k \<le> length b \<Longrightarrow>
   basename_start (u @ slash # b) (Suc (length u + k)) = Suc (length u)"
proof (induction k)
  case (Suc k)
  have "c_at (u @ slash # b) (length u + Suc k) = c_at b k" by (simp only: c_at_shift c_at_Cons_Suc)
  then show ?case using Suc c_at_no_slash [of b k] by simp
qed (simp add: c_at_append)

lemma J_snoc: "J (ys @ [y]) = (if ys = [] then y else J ys @ slash # y)"
  by (simp add: join_with_append)

lemma relpath_previous_J:
  assumes "good_segs (ys @ [y])"
  shows "relpath_previous_segment (J (ys @ [y])) (length (J (ys @ [y]))) = length (J ys)"
proof -
  obtain a b where y: "y = b @ [a]" using assms by (cases y rule: rev_cases) (auto simp: good_seg_def)
  have ny: "slash \<notin> set y" using assms by (simp add: good_seg_def)
  show ?thesis
  proof (cases "ys = []")
    case True
    then show ?thesis using ny y by (simp add: relpath_previous_segment_def back_to_slash_none)
  next
    case False
    then show ?thesis
      using back_to_slash_append [OF ny, of "length y" "J ys"]
      by (simp add: relpath_previous_segment_def J_snoc)
  qed
qed

lemma basename_J:
  assumes "good_segs (ys @ [y])" and u: "u = [] \<or> u = [slash]"
  shows "drop (basename_start (u @ J (ys @ [y])) (length (u @ J (ys @ [y])))) (u @ J (ys @ [y])) = y"
proof -
  have ny: "slash \<notin> set y" using assms by (simp add: good_seg_def)
  have app: "drop (basename_start (v @ slash # y) (length (v @ slash # y))) (v @ slash # y) = y" for v
    using basename_start_append [OF ny, of "length y" v] by simp
  show ?thesis
  proof (cases "ys = []")
    case True
    show ?thesis
    proof (cases "u = []")
      case False
      then show ?thesis using u True app [of "[]"] by simp
    qed (use True ny in \<open>simp add: basename_start_none\<close>)
  next
    case False
    then show ?thesis using app [of "u @ J ys"] by (simp add: J_snoc)
  qed
qed

lemma relpath_dirname_J: "good_segs xs \<Longrightarrow> svn_relpath_dirname (J xs) = Ok (J (butlast xs))"
proof (cases xs rule: rev_cases)
  case (snoc ys y)
  assume "good_segs xs"
  with snoc show ?thesis
    using relpath_previous_J [of ys y] canonical_J [of xs]
    by (simp add: svn_relpath_dirname_def) (simp add: J_snoc)
qed (simp add: svn_relpath_dirname_def relpath_previous_segment_def relpath_is_canonical_def)

lemma relpath_basename_J:
  "good_segs xs \<Longrightarrow> svn_relpath_basename (J xs) = Ok (if xs = [] then [] else last xs)"
proof (cases xs rule: rev_cases)
  case (snoc ys y)
  assume "good_segs xs"
  with snoc show ?thesis
    using basename_J [of ys y "[]"] canonical_J [of xs] by (simp add: svn_relpath_basename_def)
qed (simp add: svn_relpath_basename_def relpath_is_canonical_def)

lemma render_simps [simp]: "render (False, xs) = J xs" "render (True, xs) = slash # J xs"
  by (simp_all add: render_def)

lemma dirent_previous_root: "slash \<notin> set y \<Longrightarrow> y \<noteq> [] \<Longrightarrow> dirent_previous_segment (slash # y) (Suc (length y)) = 1"
  using back_to_slash_append [of y "length y" "[]"]
  by (simp add: dirent_previous_segment_def dirent_root_length_def)

lemma dirent_previous_append:
  assumes "slash \<notin> set y" "u \<noteq> []"
  shows "dirent_previous_segment (u @ slash # y) (length (u @ slash # y)) = length u"
proof -
  have "back_to_slash (u @ slash # y) (length u + length y) = length u"
    using back_to_slash_append [OF assms(1), of "length y" u] by simp
  moreover have "dirent_root_length (u @ slash # y) (length u + 1) \<noteq> length u + 1"
    using assms(2) by (simp add: dirent_root_length_def)
  ultimately show ?thesis by (simp add: dirent_previous_segment_def Let_def)
qed

lemma dirent_dirname_render:
  assumes "good_segs xs"
  shows "svn_dirent_dirname (render (r, xs)) = Ok (render (r, butlast xs))"
proof (cases xs rule: rev_cases)
  case Nil
  then show ?thesis
    by (cases r) (simp_all add: svn_dirent_dirname_def dirent_root_length_def svn_dirent_is_canonical_def
        relpath_is_canonical_def)
next
  case (snoc ys y)
  have y: "slash \<notin> set y" "y \<noteq> []" using assms snoc by (simp_all add: good_seg_def)
  have can: "svn_dirent_is_canonical (render (r, xs))" using assms by (rule canonical_dirent)
  have len: "length (render (r, xs)) \<noteq> dirent_root_length (render (r, xs)) (length (render (r, xs)))"
  proof -
    have "length (J xs) \<noteq> 0" using assms snoc by (simp add: join_with_empty)
    moreover have "\<not> r \<Longrightarrow> c_hd (J xs) \<noteq> slash" using assms snoc join_with_hd by blast
    ultimately show ?thesis by (cases r) (auto simp: dirent_root_length_def c_hd_at)
  qed
  have "take (dirent_previous_segment (render (r, xs)) (length (render (r, xs)))) (render (r, xs)) =
    render (r, ys)"
  proof (cases "ys = []")
    case True
    then show ?thesis
      using snoc y dirent_previous_root [OF y] back_to_slash_none [OF y(1)]
      by (cases r; cases y) (auto simp: dirent_previous_segment_def dirent_root_length_def Let_def)
  next
    case False
    let ?u = "(if r then [slash] else []) @ J ys"
    have eq: "render (r, xs) = ?u @ slash # y" using snoc False by (simp add: J_snoc)
    have "J ys \<noteq> []" using False assms snoc by (simp add: join_with_empty)
    then have "dirent_previous_segment (render (r, xs)) (length (render (r, xs))) = length ?u"
      unfolding eq by (intro dirent_previous_append y) simp
    then have "take (dirent_previous_segment (render (r, xs)) (length (render (r, xs)))) (render (r, xs)) = ?u"
      unfolding eq by simp
    then show ?thesis by (simp add: render_def)
  qed
  then show ?thesis using can len snoc by (simp add: svn_dirent_dirname_def Let_def)
qed

lemma J_append: "xs \<noteq> [] \<Longrightarrow> ys \<noteq> [] \<Longrightarrow> J (xs @ ys) = J xs @ slash # J ys"
  by (simp add: join_with_append)

lemma J_len: "good_segs xs \<Longrightarrow> length (J xs) = 0 \<longleftrightarrow> xs = []"
  by (simp add: join_with_empty)

lemma relpath_join_J:
  "good_segs xs \<Longrightarrow> good_segs ys \<Longrightarrow> svn_relpath_join (J xs) (J ys) = Ok (J (xs @ ys))"
  by (cases "xs = []"; cases "ys = []")
     (simp_all add: svn_relpath_join_def join_with_empty J_append relpath_is_canonical_def [of "[]"])

lemma J_hd: "good_segs xs \<Longrightarrow> c_at (J xs) 0 \<noteq> slash"
  using join_with_hd [of xs] by (cases "xs = []") (auto simp: c_hd_at)

lemma J_last: "good_segs xs \<Longrightarrow> xs \<noteq> [] \<Longrightarrow> c_at (J xs) (length (J xs) - 1) \<noteq> slash"
  using join_last [of xs] join_with_empty [of xs] by (simp add: c_at_def last_conv_nth)

lemma dirent_join_render:
  assumes "good_segs xs" "good_segs ys"
  shows "svn_dirent_join (render (r, xs)) (J ys) = Ok (render (r, xs @ ys))"
proof -
  have rel: "\<not> svn_dirent_is_absolute (J ys)" using J_hd [OF assms(2)] by (simp add: svn_dirent_is_absolute_def)
  have can: "svn_dirent_is_canonical (render (r, xs))" "svn_dirent_is_canonical (J ys)"
    using assms canonical_dirent [of xs r] canonical_dirent [of ys False] by auto
  show ?thesis
  proof (cases "xs = []")
    case True
    then show ?thesis
      using rel can join_with_empty [OF assms(2)] by (cases r) (auto simp: svn_dirent_join_def Let_def)
  next
    case False
    have "c_at (render (r, xs)) (length (render (r, xs)) - 1) \<noteq> slash"
      using J_last [OF assms(1) False] J_len [OF assms(1)] False
      by (cases r; cases "length (J xs)") simp_all
    then show ?thesis
      using rel can False join_with_empty [OF assms(2)] join_with_empty [OF assms(1)]
      by (cases "ys = []") (simp_all add: svn_dirent_join_def Let_def render_def J_append)
  qed
qed

lemma dirent_basename_render:
  assumes "good_segs xs"
  shows "svn_dirent_basename (render (r, xs)) = Ok (if xs = [] then [] else last xs)"
proof (cases xs rule: rev_cases)
  case Nil
  then show ?thesis
    by (cases r) (simp_all add: svn_dirent_basename_def svn_dirent_is_root_def svn_dirent_is_canonical_def
        relpath_is_canonical_def)
next
  case (snoc ys y)
  have "svn_dirent_is_canonical (render (r, xs))" using assms by simp
  moreover have "\<not> svn_dirent_is_root (render (r, xs)) (length (render (r, xs)))"
    using J_len [OF assms] J_hd [OF assms] snoc by (cases r) (auto simp: svn_dirent_is_root_def)
  moreover have "drop (basename_start (render (r, xs)) (length (render (r, xs)))) (render (r, xs)) = y"
    using basename_J [of ys y "if r then [slash] else []"] assms snoc by (simp add: render_def)
  ultimately show ?thesis using snoc by (simp add: svn_dirent_basename_def Let_def)
qed

lemma c_at_end [simp]: "c_at s (length s) = NUL"
  by (simp add: c_at_def)

text \<open>How the remainder of a path after one of its ancestors looks.\<close>

lemma J_strip:
  assumes "good_segs xs" "good_segs ys" "xs \<noteq> []"
  shows "(if \<not> strncmp_eq (J xs) (J ys) (length (J xs)) then None
          else if c_at (J ys) (length (J xs)) = NUL then Some []
          else if c_at (J ys) (length (J xs)) = slash then Some (drop (length (J xs) + 1) (J ys))
          else None) =
    (if prefix xs ys then Some (J (drop (length xs) ys)) else None)"
proof (cases "prefix xs ys")
  case True
  then obtain zs where ys: "ys = xs @ zs" by (auto simp: prefix_def)
  then show ?thesis
    using assms by (cases "zs = []") (simp_all add: strncmp_eq_prefix J_append c_at_append)
next
  case False
  then have no: "J ys \<noteq> J xs" "\<not> prefix (J xs @ [slash]) (J ys)" using join_prefix_iff [OF assms] by auto
  have "c_at (J ys) (length (J xs)) \<noteq> NUL \<and> c_at (J ys) (length (J xs)) \<noteq> slash" if pre: "prefix (J xs) (J ys)"
  proof -
    obtain t where t: "J ys = J xs @ t" using pre by (auto simp: prefix_def)
    then obtain c u where "t = c # u" using no(1) by (cases t) auto
    moreover have "c \<noteq> slash" using no(2) t \<open>t = c # u\<close> by (auto simp: prefix_def)
    moreover have "c \<noteq> NUL" using is_cstring_join [OF assms(2)] t \<open>t = c # u\<close> by simp
    ultimately show ?thesis using t by (simp add: c_at_append)
  qed
  then show ?thesis using False by (auto simp: strncmp_eq_prefix)
qed

lemma relpath_skip_J:
  assumes "good_segs xs" "good_segs ys"
  shows "svn_relpath_skip_ancestor (J xs) (J ys) =
    Ok (if prefix xs ys then Some (J (drop (length xs) ys)) else None)"
proof (cases "xs = []")
  case True
  then show ?thesis
    using assms by (simp add: svn_relpath_skip_ancestor_def relpath_is_canonical_def [of "[]"])
next
  case False
  have "svn_relpath_skip_ancestor (J xs) (J ys) =
    Ok (if \<not> strncmp_eq (J xs) (J ys) (length (J xs)) then None
          else if c_at (J ys) (length (J xs)) = NUL then Some []
          else if c_at (J ys) (length (J xs)) = slash then Some (drop (length (J xs) + 1) (J ys))
          else None)"
    using assms False J_len [OF assms(1)] by (simp add: svn_relpath_skip_ancestor_def Let_def)
  then show ?thesis by (simp only: J_strip [OF assms False])
qed

lemma strncmp_eq_Cons: "strncmp_eq (a # s) (b # t) (Suc n) \<longleftrightarrow> a = b \<and> strncmp_eq s t n"
  by (simp add: strncmp_eq_def)

lemma dirent_skip_render:
  assumes "good_segs xs" "good_segs ys"
  shows "svn_dirent_skip_ancestor (render (r, xs)) (render (s, ys)) =
    (if r = s \<and> prefix xs ys then Some (J (drop (length xs) ys)) else None)"
proof -
  have hx: "c_at (J xs) 0 \<noteq> slash" and hy: "c_at (J ys) 0 \<noteq> slash"
    using J_hd assms by auto
  have ly: "c_at (J ys) 0 = NUL \<longleftrightarrow> ys = []" using J_len [OF assms(2)] by (simp add: c_at_J [OF assms(2)])
  show ?thesis
  proof (cases "xs = []")
    case True
    show ?thesis
    proof (cases "r = s")
      case True
      then show ?thesis
        using \<open>xs = []\<close> hy ly
        by (cases r) (auto simp: svn_dirent_skip_ancestor_def dirent_root_length_def strncmp_eq_def Let_def)
    next
      case False
      then show ?thesis
        using \<open>xs = []\<close> hy ly
        by (cases r; cases "J ys")
           (auto simp: svn_dirent_skip_ancestor_def dirent_root_length_def strncmp_eq_def Let_def)
    qed
  next
    case False
    obtain a p where p: "J xs = a # p" using J_len [OF assms(1)] False by (cases "J xs") auto
    have root: "dirent_root_length (render (s, ys)) (length (render (s, ys))) = (if s then 1 else 0)"
      using hy by (simp add: dirent_root_length_def)
    have strip: "svn_dirent_skip_ancestor (render (r, xs)) (render (s, ys)) =
      (if r = s then
         (if \<not> strncmp_eq (J xs) (J ys) (length (J xs)) then None
          else if c_at (J ys) (length (J xs)) = NUL then Some []
          else if c_at (J ys) (length (J xs)) = slash then Some (drop (length (J xs) + 1) (J ys))
          else None)
       else None)"
    proof (cases "r = s")
      case True
      then show ?thesis
        unfolding svn_dirent_skip_ancestor_def root Let_def
        using p by (cases r) (simp_all add: strncmp_eq_Cons)
    next
      case False
      have "\<not> strncmp_eq (render (r, xs)) (render (s, ys)) (length (render (r, xs)))"
        using False p hx hy by (cases r; cases "J ys") (auto simp: strncmp_eq_def)
      then show ?thesis using False unfolding svn_dirent_skip_ancestor_def Let_def by simp
    qed
    show ?thesis unfolding strip J_strip [OF assms \<open>xs \<noteq> []\<close>] by simp
  qed
qed

lemma lcp_same [simp]: "lcp s s = s"
  by (induction s) simp_all

lemma lcp_append [simp]: "lcp (u @ s) (u @ t) = u @ lcp s t"
  by (induction u) simp_all

lemma strrchr_append:
  "strrchr (u @ v) c = (case strrchr v c of Some k \<Rightarrow> Some (length u + k) | None \<Rightarrow> strrchr u c)"
  by (induction u) (auto split: option.splits)

lemma common_loop_eq:
  "common_loop s t i last_dirsep =
     (i + length (lcp s t),
      case strrchr (lcp s t) slash of None \<Rightarrow> last_dirsep | Some k \<Rightarrow> i + k)"
  by (induction s t i last_dirsep rule: common_loop.induct) (auto simp: Let_def split: option.splits)

text \<open>Two paths whose first segments differ share no whole segment: their common bytes contain no
  slash, and neither path ends where the other has a slash.\<close>

lemma takeWhile_J:
  assumes "good_segs (x # xs)"
  shows "takeWhile (\<lambda>c. c \<noteq> slash) (J (x # xs)) = x"
proof -
  have "\<forall>c \<in> set x. c \<noteq> slash" using assms by (auto simp: good_seg_def)
  then have "takeWhile (\<lambda>c. c \<noteq> slash) (x @ t) = x @ takeWhile (\<lambda>c. c \<noteq> slash) t" for t by simp
  from this [of "[]"] this [of "slash # J xs"] show ?thesis by (cases xs) simp_all
qed

lemma takeWhile_with_slash:
  "slash \<in> set u \<Longrightarrow> takeWhile (\<lambda>c. c \<noteq> slash) (u @ v) = takeWhile (\<lambda>c. c \<noteq> slash) u"
  by (rule takeWhile_append1 [of slash]) simp_all

lemma takeWhile_ends:
  assumes "prefix u v" "c_at v (length u) = slash"
  shows "takeWhile (\<lambda>c. c \<noteq> slash) u = takeWhile (\<lambda>c. c \<noteq> slash) v"
proof -
  obtain w where w: "v = u @ w" using assms(1) by (auto simp: prefix_def)
  then obtain w' where w': "v = u @ slash # w'" using assms(2) by (cases w) (auto simp: c_at_append)
  show ?thesis
  proof (cases "slash \<in> set u")
    case False
    then have "\<forall>c \<in> set u. c \<noteq> slash" by auto
    then show ?thesis by (simp add: w' takeWhile_append)
  qed (simp add: w' takeWhile_with_slash)
qed

lemma different_heads:
  assumes "takeWhile (\<lambda>c. c \<noteq> slash) p \<noteq> takeWhile (\<lambda>c. c \<noteq> slash) q"
  shows "slash \<notin> set (lcp p q)" "\<not> (lcp p q = p \<and> c_at q (length p) = slash)" "p \<noteq> q"
    "\<not> (lcp p q = q \<and> c_at p (length q) = slash)"
proof -
  show "slash \<notin> set (lcp p q)"
  proof
    assume *: "slash \<in> set (lcp p q)"
    obtain u v where "p = lcp p q @ u" "q = lcp p q @ v"
      using lcp_prefix1 [of p q] lcp_prefix2 [of p q] by (meson prefix_def)
    then show False using takeWhile_with_slash [OF *] assms by metis
  qed
  show "p \<noteq> q" using assms by auto
  show "\<not> (lcp p q = p \<and> c_at q (length p) = slash)"
    using takeWhile_ends [of p q] assms lcp_absorb by metis
  show "\<not> (lcp p q = q \<and> c_at p (length q) = slash)"
    using takeWhile_ends [of q p] assms lcp_absorb lcp_comm by metis
qed

text \<open>The length computed from the longest common prefix of the two strings.\<close>

lemma ancestor_length_eq:
  assumes "p \<noteq> []" "q \<noteq> []"
  shows "get_longest_ancestor_length t p q =
    (let L = lcp p q; i = length L in
     if i = 1 \<and> c_at p 0 = slash \<and> c_at q 0 = slash then 1
     else if t = type_dirent \<and> i = 0 then 0
     else if L = p \<and> c_at q i = slash \<or> L = q \<and> c_at p i = slash \<or> L = p \<and> L = q then i
     else if (case strrchr L slash of None \<Rightarrow> 0 | Some k \<Rightarrow> k) = 0 \<and> c_at p 0 = slash \<and> c_at q 0 = slash then 1
     else (case strrchr L slash of None \<Rightarrow> 0 | Some k \<Rightarrow> k))"
proof -
  have same: "length u = length v \<longleftrightarrow> u = v" if "prefix u v" for u v :: string
    using that by (auto simp: prefix_def)
  note len = same [OF lcp_prefix1] same [OF lcp_prefix2]
  show ?thesis
    unfolding get_longest_ancestor_length_def common_loop_eq Let_def prod.case len add_0
    using assms by (simp only: simp_thms if_False)
qed

lemma lcp_split:
  obtains xs' ys' where "xs = lcp xs ys @ xs'" "ys = lcp xs ys @ ys'"
    "xs' = [] \<or> ys' = [] \<or> hd xs' \<noteq> hd ys'"
proof -
  have "\<exists>xs' ys'. xs = lcp xs ys @ xs' \<and> ys = lcp xs ys @ ys' \<and> (xs' = [] \<or> ys' = [] \<or> hd xs' \<noteq> hd ys')"
    by (induction xs ys rule: list_induct2') auto
  then show ?thesis using that by blast
qed

lemma strrchr_fresh: "c \<notin> set s \<Longrightarrow> strrchr s c = None"
  using strrchr_None by metis

text \<open>Two paths that continue differently after a common beginning \<open>u\<close>.\<close>

lemma ancestor_length_diverge:
  assumes "takeWhile (\<lambda>c. c \<noteq> slash) p \<noteq> takeWhile (\<lambda>c. c \<noteq> slash) q" "p \<noteq> []" "q \<noteq> []"
    and "c_at p 0 \<noteq> slash" "c_at q 0 \<noteq> slash"
  shows "get_longest_ancestor_length t p q = 0"
    and "get_longest_ancestor_length t (slash # p) (slash # q) = 1"
    and "u \<noteq> [] \<Longrightarrow> get_longest_ancestor_length t (u @ slash # p) (u @ slash # q) = length u"
proof -
  note d = different_heads [OF assms(1)]
  have none: "strrchr (lcp p q) slash = None" using d(1) by (rule strrchr_fresh)
  have third: "\<not> (lcp p q = p \<and> c_at q (length (lcp p q)) = slash \<or>
     lcp p q = q \<and> c_at p (length (lcp p q)) = slash \<or> lcp p q = p \<and> lcp p q = q)"
    using d by metis
  show "get_longest_ancestor_length t p q = 0"
    unfolding ancestor_length_eq [OF assms(2,3)] Let_def none if_not_P [OF third] using assms(4,5) by simp
  show "get_longest_ancestor_length t (slash # p) (slash # q) = 1"
  proof -
    have ne: "slash # p \<noteq> []" "slash # q \<noteq> []" by auto
    have L: "lcp (slash # p) (slash # q) = slash # lcp p q" by simp
    show ?thesis
      unfolding ancestor_length_eq [OF ne] Let_def L list.inject length_Cons c_at_Cons_Suc simp_thms
        if_not_P [OF third] by (simp add: none)
  qed
  show "get_longest_ancestor_length t (u @ slash # p) (u @ slash # q) = length u" if "u \<noteq> []"
  proof -
    have ne: "u @ slash # p \<noteq> []" "u @ slash # q \<noteq> []" by auto
    have L: "lcp (u @ slash # p) (u @ slash # q) = u @ slash # lcp p q" by simp
    have R: "strrchr (u @ slash # lcp p q) slash = Some (length u)" by (simp add: strrchr_append none)
    have at: "c_at (u @ slash # s) (length (u @ slash # lcp p q)) = c_at s (length (lcp p q))" for s
      using c_at_shift [of "u @ [slash]" s "length (lcp p q)"] by simp
    have inj: "u @ slash # lcp p q = u @ slash # s \<longleftrightarrow> lcp p q = s" for s by simp
    show ?thesis
      unfolding ancestor_length_eq [OF ne] Let_def L R option.case at inj using third that by simp
  qed
qed

lemma ancestor_length_prefix:
  assumes "p \<noteq> []" "c_at q (length p) = slash \<or> q = p" "prefix p q"
  shows "get_longest_ancestor_length t p q = length p" "get_longest_ancestor_length t q p = length p"
proof -
  have q: "q \<noteq> []" using assms by auto
  have L: "lcp p q = p" "lcp q p = p" using assms(3) lcp_absorb lcp_comm by metis+
  show "get_longest_ancestor_length t p q = length p"
    unfolding ancestor_length_eq [OF assms(1) q] Let_def L using assms(1,2) by auto
  show "get_longest_ancestor_length t q p = length p"
    unfolding ancestor_length_eq [OF q assms(1)] Let_def L using assms(1,2) by auto
qed

lemma ancestor_length_J:
  assumes "good_segs xs" "good_segs ys" and R: "R = [] \<or> R = [slash]"
  shows "get_longest_ancestor_length t (R @ J xs) (R @ J ys) = length (R @ J (lcp xs ys))"
proof -
  obtain xs' ys' where xs: "xs = lcp xs ys @ xs'" and ys: "ys = lcp xs ys @ ys'"
    and d: "xs' = [] \<or> ys' = [] \<or> hd xs' \<noteq> hd ys'" by (rule lcp_split)
  define zs where "zs = lcp xs ys"
  note xs = xs [folded zs_def] and ys = ys [folded zs_def]
  have good: "good_segs xs'" "good_segs ys'" "good_segs zs"
    using assms(1,2) xs ys by (metis good_segs_simps(3))+
  have child: "c_at (R @ J (zs @ ws)) (length (R @ J zs)) = slash \<or> R @ J (zs @ ws) = R @ J zs"
    "prefix (R @ J zs) (R @ J (zs @ ws))" if "zs \<noteq> []" for ws
    using that by (cases "ws = []"; simp add: J_append c_at_append)+
  show ?thesis
    unfolding zs_def [symmetric]
  proof (cases "xs' \<noteq> [] \<and> ys' \<noteq> []")
    case True
    then obtain x a y b where x: "xs' = x # a" and y: "ys' = y # b" and xy: "x \<noteq> y"
      using d by (cases xs'; cases ys') auto
    have T: "takeWhile (\<lambda>c. c \<noteq> slash) (J xs') \<noteq> takeWhile (\<lambda>c. c \<noteq> slash) (J ys')"
      using takeWhile_J [of x a] takeWhile_J [of y b] good xy by (simp add: x y)
    have ne: "J xs' \<noteq> []" "J ys' \<noteq> []" using True good join_with_empty by auto
    note div = ancestor_length_diverge [OF T ne J_hd [OF good(1)] J_hd [OF good(2)], where t = t]
    show "get_longest_ancestor_length t (R @ J xs) (R @ J ys) = length (R @ J zs)"
    proof (cases "zs = []")
      case True
      then show ?thesis using R div(1,2) xs ys by auto
    next
      case False
      then have "R @ J zs \<noteq> []" using good(3) join_with_empty by auto
      from div(3) [OF this] show ?thesis
        using False True by (simp add: xs ys J_append)
    qed
  next
    case False
    show "get_longest_ancestor_length t (R @ J xs) (R @ J ys) = length (R @ J zs)"
    proof (cases "zs = []")
      case True
      then have nil: "xs = [] \<or> ys = []" using False xs ys by auto
      show ?thesis
      proof (cases "R = []")
        case True
        then show ?thesis using nil \<open>zs = []\<close> by (auto simp: get_longest_ancestor_length_def)
      next
        case False
        then have "R = [slash]" using R by simp
        then show ?thesis
          using nil \<open>zs = []\<close> by (auto simp: ancestor_length_eq Let_def)
      qed
    next
      case ne: False
      then have base: "R @ J zs \<noteq> []" using good(3) join_with_empty by auto
      have pre: "get_longest_ancestor_length t (R @ J zs) (R @ J (zs @ ws)) = length (R @ J zs)"
        "get_longest_ancestor_length t (R @ J (zs @ ws)) (R @ J zs) = length (R @ J zs)" for ws
        using ancestor_length_prefix [OF base child(1) [OF ne, of ws] child(2) [OF ne, of ws], of t] by auto
      show ?thesis
      proof (cases "xs' = []")
        case True
        then show ?thesis using pre(1) [of ys'] xs ys by simp
      next
        case xs': False
        then have "ys' = []" using False by simp
        then show ?thesis using pre(2) [of xs'] xs ys by simp
      qed
    qed
  qed
qed

lemma relpath_ancestor_J:
  assumes "good_segs xs" "good_segs ys"
  shows "svn_relpath_get_longest_ancestor (J xs) (J ys) = Ok (J (lcp xs ys))"
proof -
  obtain zs where xs: "xs = lcp xs ys @ zs" using lcp_prefix1 [of xs ys] by (auto simp: prefix_def)
  then have "J xs = J (lcp xs ys @ zs)" by simp
  then have "take (length (J (lcp xs ys))) (J xs) = J (lcp xs ys)" by (simp add: join_with_append)
  then show ?thesis
    using assms ancestor_length_J [OF assms, of "[]" type_relpath] by (simp add: svn_relpath_get_longest_ancestor_def)
qed

lemma dirent_ancestor_render:
  assumes "good_segs xs" "good_segs ys"
  shows "svn_dirent_get_longest_ancestor (render (r, xs)) (render (s, ys)) =
    (if r = s then render (r, lcp xs ys) else [])"
proof (cases "r = s")
  case True
  let ?R = "if r then [slash] else []"
  obtain zs where xs: "xs = lcp xs ys @ zs" using lcp_prefix1 [of xs ys] by (auto simp: prefix_def)
  then have "J xs = J (lcp xs ys @ zs)" by simp
  then have "take (length (?R @ J (lcp xs ys))) (?R @ J xs) = ?R @ J (lcp xs ys)" by (simp add: join_with_append)
  then show ?thesis
    using True ancestor_length_J [OF assms, of ?R type_dirent]
    by (simp add: svn_dirent_get_longest_ancestor_def render_def del: render_simps)
next
  case False
  have "get_longest_ancestor_length type_dirent (render (r, xs)) (render (s, ys)) = 0"
  proof (cases "render (r, xs) = [] \<or> render (s, ys) = []")
    case ne: False
    have "lcp (render (r, xs)) (render (s, ys)) = []"
      using False J_hd [OF assms(1)] J_hd [OF assms(2)] by (cases r; cases "J xs"; cases "J ys") auto
    then show ?thesis using ne by (simp add: ancestor_length_eq Let_def)
  qed (auto simp: get_longest_ancestor_length_def)
  then show ?thesis using False by (simp add: svn_dirent_get_longest_ancestor_def)
qed

section \<open>The interface of a family of path functions\<close>

text \<open>What the functions of one family promise, in terms of root flag and segments: \<open>ok\<close> says which
  root flags the paths of the family may have.\<close>

locale path_family =
  fixes ok :: "bool \<Rightarrow> bool"
    and canon :: "cstring \<Rightarrow> bool"
    and join :: "cstring \<Rightarrow> cstring \<Rightarrow> cstring cres"
    and dirname basename :: "cstring \<Rightarrow> cstring cres"
    and skip :: "cstring \<Rightarrow> cstring \<Rightarrow> cstring option cres"
    and ancestor :: "cstring \<Rightarrow> cstring \<Rightarrow> cstring cres"
  assumes canon_iff: "is_cstring p \<Longrightarrow> canon p \<longleftrightarrow> (\<exists>r xs. ok r \<and> good_segs xs \<and> p = render (r, xs))"
    and join_render: "ok r \<Longrightarrow> good_segs xs \<Longrightarrow> good_segs ys \<Longrightarrow>
      join (render (r, xs)) (render (False, ys)) = Ok (render (r, xs @ ys))"
    and dirname_render: "ok r \<Longrightarrow> good_segs xs \<Longrightarrow> dirname (render (r, xs)) = Ok (render (r, butlast xs))"
    and basename_render: "ok r \<Longrightarrow> good_segs xs \<Longrightarrow>
      basename (render (r, xs)) = Ok (if xs = [] then [] else last xs)"
    and skip_render: "ok r \<Longrightarrow> ok s \<Longrightarrow> good_segs xs \<Longrightarrow> good_segs ys \<Longrightarrow>
      skip (render (r, xs)) (render (s, ys)) =
        Ok (if r = s \<and> prefix xs ys then Some (render (False, drop (length xs) ys)) else None)"
    and ancestor_render: "ok r \<Longrightarrow> ok s \<Longrightarrow> good_segs xs \<Longrightarrow> good_segs ys \<Longrightarrow>
      ancestor (render (r, xs)) (render (s, ys)) = Ok (if r = s then render (r, lcp xs ys) else [])"
begin

lemma canonE:
  assumes "is_cstring p" "canon p"
  obtains r xs where "ok r" "good_segs xs" "p = render (r, xs)"
  using assms canon_iff by blast

lemma canon_render: "ok r \<Longrightarrow> good_segs xs \<Longrightarrow> canon (render (r, xs))"
  using canon_iff [of "render (r, xs)"] is_cstring_render [of "(r, xs)"] by auto

lemma relE:
  assumes "is_cstring c" "relpath_is_canonical c"
  obtains ys where "good_segs ys" "c = render (False, ys)"
  using assms relpath_canonical_iff segments_good by blast

lemma join_canonical:
  assumes "is_cstring p" "canon p" "is_cstring c" "relpath_is_canonical c"
  shows "\<exists>q. join p c = Ok q \<and> canon q \<and> skip p q = Ok (Some c)"
proof -
  obtain r xs where p: "ok r" "good_segs xs" "p = render (r, xs)" using assms(1,2) by (rule canonE)
  obtain ys where c: "good_segs ys" "c = render (False, ys)" using assms(3,4) by (rule relE)
  show ?thesis
    using p c join_render [of r xs ys] skip_render [of r r xs "xs @ ys"] canon_render [of r "xs @ ys"] by simp
qed

lemma join_assoc:
  assumes "is_cstring p" "canon p" "is_cstring c" "relpath_is_canonical c"
    "is_cstring d" "relpath_is_canonical d"
  shows "cbind (join p c) (\<lambda>q. join q d) = cbind (svn_relpath_join c d) (join p)"
proof -
  obtain r xs where p: "ok r" "good_segs xs" "p = render (r, xs)" using assms(1,2) by (rule canonE)
  obtain ys where c: "good_segs ys" "c = render (False, ys)" using assms(3,4) by (rule relE)
  obtain zs where d: "good_segs zs" "d = render (False, zs)" using assms(5,6) by (rule relE)
  have "svn_relpath_join c d = Ok (render (False, ys @ zs))" using c d by (simp add: relpath_join_J)
  then show ?thesis
    using p c d join_render [of r xs ys] join_render [of r "xs @ ys" zs] join_render [of r xs "ys @ zs"] by simp
qed

lemma skip_join:
  assumes "is_cstring p" "canon p" "is_cstring q" "canon q" "skip p q = Ok (Some c)"
  shows "join p c = Ok q"
proof -
  obtain r xs where p: "ok r" "good_segs xs" "p = render (r, xs)" using assms(1,2) by (rule canonE)
  obtain s ys where q: "ok s" "good_segs ys" "q = render (s, ys)" using assms(3,4) by (rule canonE)
  have rs: "r = s" "prefix xs ys" "c = render (False, drop (length xs) ys)"
    using skip_render [OF p(1) q(1) p(2) q(2)] assms(5) p(3) q(3) by (auto split: if_splits)
  then obtain zs where "ys = xs @ zs" by (auto simp: prefix_def)
  then show ?thesis using p q rs join_render [of r xs zs] by simp
qed

lemma split_join:
  assumes "is_cstring p" "canon p"
  shows "cbind (dirname p) (\<lambda>d. cbind (basename p) (join d)) = Ok p"
proof -
  obtain r xs where p: "ok r" "good_segs xs" "p = render (r, xs)" using assms by (rule canonE)
  show ?thesis
  proof (cases xs rule: rev_cases)
    case Nil
    then show ?thesis using p dirname_render [of r xs] basename_render [of r xs] join_render [of r "[]" "[]"] by simp
  next
    case (snoc ys y)
    then show ?thesis
      using p dirname_render [of r xs] basename_render [of r xs] join_render [of r ys "[y]"] by simp
  qed
qed

lemma ancestor_antisym:
  assumes "is_cstring p" "canon p" "is_cstring q" "canon q"
    and "skip p q = Ok (Some c)" "skip q p = Ok (Some d)"
  shows "p = q"
proof -
  obtain r xs where p: "ok r" "good_segs xs" "p = render (r, xs)" using assms(1,2) by (rule canonE)
  obtain s ys where q: "ok s" "good_segs ys" "q = render (s, ys)" using assms(3,4) by (rule canonE)
  have "r = s" "prefix xs ys" using skip_render [OF p(1) q(1) p(2) q(2)] assms(5) p(3) q(3) by (auto split: if_splits)
  moreover have "prefix ys xs" using skip_render [OF q(1) p(1) q(2) p(2)] assms(6) p(3) q(3) by (auto split: if_splits)
  ultimately have "xs = ys" by (intro prefix_order.antisym)
  then show ?thesis using p q \<open>r = s\<close> by simp
qed

lemma ancestor_greatest:
  assumes "is_cstring p" "canon p" "is_cstring q" "canon q" "is_cstring u" "canon u"
    and "skip u p \<noteq> Ok None" "skip u q \<noteq> Ok None"
  shows "\<exists>a. ancestor p q = Ok a \<and> canon a \<and> skip a p \<noteq> Ok None \<and> skip a q \<noteq> Ok None \<and> skip u a \<noteq> Ok None"
proof -
  obtain r xs where p: "ok r" "good_segs xs" "p = render (r, xs)" using assms(1,2) by (rule canonE)
  obtain s ys where q: "ok s" "good_segs ys" "q = render (s, ys)" using assms(3,4) by (rule canonE)
  obtain t zs where u: "ok t" "good_segs zs" "u = render (t, zs)" using assms(5,6) by (rule canonE)
  have "t = r" "prefix zs xs" using skip_render [OF u(1) p(1) u(2) p(2)] assms(7) p(3) u(3) by (auto split: if_splits)
  moreover have "t = s" "prefix zs ys" using skip_render [OF u(1) q(1) u(2) q(2)] assms(8) q(3) u(3) by (auto split: if_splits)
  ultimately have rs: "r = s" "t = r" and zs: "prefix zs (lcp xs ys)" using lcp_greatest by auto
  have good: "good_segs (lcp xs ys)" using p(2) by simp
  show ?thesis
    using ancestor_render [OF p(1) q(1) p(2) q(2)] canon_render [OF p(1) good]
      skip_render [OF p(1) p(1) good p(2)] skip_render [OF p(1) q(1) good q(2)] skip_render [OF u(1) p(1) u(2) good]
      rs zs p(3) q(3) u(3) lcp_prefix1 [of xs ys] lcp_prefix2 [of xs ys] by simp
qed

end

section \<open>The three families implement it\<close>

lemma canonical_empty [simp]:
  "relpath_is_canonical []" "svn_dirent_is_canonical []" "svn_fspath__is_canonical [slash]"
  by (simp_all add: relpath_is_canonical_def svn_dirent_is_canonical_def svn_fspath__is_canonical_def)

lemma relpath_canon_iff:
  assumes "is_cstring p"
  shows "relpath_is_canonical p \<longleftrightarrow> (\<exists>r xs. \<not> r \<and> good_segs xs \<and> p = render (r, xs))"
  using relpath_canonical_iff [OF assms] segments_good [OF assms] canonical_J render_simps(1) by metis

lemma dirent_canon_iff:
  assumes "is_cstring p"
  shows "svn_dirent_is_canonical p \<longleftrightarrow> (\<exists>r xs. True \<and> good_segs xs \<and> p = render (r, xs))"
  using dirent_canonical_iff [OF assms] segments_good [OF assms] canonical_dirent by blast

lemma fspath_canon_iff:
  assumes "is_cstring p"
  shows "svn_fspath__is_canonical p \<longleftrightarrow> (\<exists>r xs. r \<and> good_segs xs \<and> p = render (r, xs))"
  using fspath_canonical_iff [OF assms] segments_good [OF assms] canonical_fspath render_simps(2) by metis

interpretation relpath: path_family Not relpath_is_canonical svn_relpath_join svn_relpath_dirname
    svn_relpath_basename svn_relpath_skip_ancestor svn_relpath_get_longest_ancestor
proof (unfold_locales, goal_cases)
  case (1 p)
  then show ?case by (rule relpath_canon_iff)
qed (simp_all add: relpath_join_J relpath_dirname_J relpath_basename_J relpath_skip_J relpath_ancestor_J)

interpretation dirent: path_family "\<lambda>_. True" svn_dirent_is_canonical svn_dirent_join svn_dirent_dirname
    svn_dirent_basename "\<lambda>p q. Ok (svn_dirent_skip_ancestor p q)" "\<lambda>p q. Ok (svn_dirent_get_longest_ancestor p q)"
proof (unfold_locales, goal_cases)
  case (1 p)
  then show ?case by (rule dirent_canon_iff)
next
  case (2 r xs ys)
  then show ?case using dirent_join_render [of xs ys r] by simp
qed (simp_all add: dirent_dirname_render dirent_basename_render dirent_skip_render dirent_ancestor_render)

lemma fspath_join_render:
  assumes "good_segs xs" "good_segs ys"
  shows "svn_fspath__join (slash # J xs) (J ys) = Ok (slash # J (xs @ ys))"
proof -
  have "c_at (J ys) 0 = NUL \<longleftrightarrow> ys = []" "c_at (J xs) 0 = NUL \<longleftrightarrow> xs = []"
    using J_len c_at_J assms by simp_all
  moreover have "svn_fspath__is_canonical (slash # J (xs @ ys))" using assms by simp
  ultimately show ?thesis
    using assms
    by (cases "xs = []"; cases "ys = []")
       (auto simp: svn_fspath__join_def svn_relpath_is_canonical_def J_append Let_def)
qed

lemma fspath_dirname_render:
  assumes "good_segs xs"
  shows "svn_fspath__dirname (slash # J xs) = Ok (slash # J (butlast xs))"
proof -
  have "c_at (J xs) 0 = NUL \<longleftrightarrow> xs = []" using J_len [OF assms] by (simp add: c_at_J [OF assms])
  then show ?thesis using assms by (auto simp: svn_fspath__dirname_def relpath_dirname_J)
qed

lemma fspath_basename_render:
  assumes "good_segs xs"
  shows "svn_fspath__basename (slash # J xs) = Ok (if xs = [] then [] else last xs)"
proof -
  have "xs \<noteq> [] \<Longrightarrow> slash \<notin> set (last xs)" using assms by (auto simp: good_segs_def good_seg_def)
  then show ?thesis
    using assms strchr_None [of "last xs" slash] by (simp add: svn_fspath__basename_def relpath_basename_J)
qed

interpretation fspath: path_family "\<lambda>r. r" svn_fspath__is_canonical svn_fspath__join svn_fspath__dirname
    svn_fspath__basename svn_fspath__skip_ancestor svn_fspath__get_longest_ancestor
proof (unfold_locales, goal_cases)
  case (1 p)
  then show ?case by (rule fspath_canon_iff)
qed (simp_all add: fspath_join_render fspath_dirname_render fspath_basename_render
       svn_fspath__skip_ancestor_def relpath_skip_J svn_fspath__get_longest_ancestor_def relpath_ancestor_J Let_def)

section \<open>Children and prefixes\<close>

lemma matching_eq:
  "matching p q = (if prefix p q then Some (length p) else if prefix q p then Some (length q) else None)"
  by (induction p q rule: matching.induct) auto

lemma is_child_eq:
  assumes "is_cstring p" "is_cstring q" "p \<noteq> []"
  shows "is_child t p q =
    (if prefix p q \<and> p \<noteq> q then
       if last p = slash then
         if c_at q (length p) = slash then None else Some (drop (length p) q)
       else if c_at q (length p) = slash then
         if length p + 1 < length q then Some (drop (length p + 1) q) else None
       else None
     else None)"
proof -
  have at: "c_at q i \<noteq> NUL \<longleftrightarrow> i < length q" "c_at p i = NUL \<longleftrightarrow> length p \<le> i" for i
    using c_at_NUL assms(1,2) by auto
  have lst: "c_at p (length p - 1) = last p" using assms(3) by (simp add: c_at_def last_conv_nth)
  have len: "prefix p q \<Longrightarrow> p \<noteq> q \<Longrightarrow> length p < length q" by (auto simp: prefix_def)
  have len': "prefix q p \<Longrightarrow> \<not> prefix p q \<Longrightarrow> length q < length p" by (auto simp: prefix_def)
  show ?thesis
    unfolding is_child_def matching_eq using assms(3) len len' by (auto simp: at lst lst [simplified])
qed

lemma is_child_render:
  assumes "good_segs xs" "good_segs ys"
  shows "is_child type_dirent (render (r, xs)) (render (s, ys)) =
    (if r = s \<and> prefix xs ys \<and> xs \<noteq> ys then Some (J (drop (length xs) ys)) else None)"
proof (cases "render (r, xs) = []")
  case True
  then have "xs = []" "\<not> r" using join_with_empty [OF assms(1)] by (cases r; simp)+
  then show ?thesis
    using J_hd [OF assms(2)] join_with_empty [OF assms(2)]
    by (cases s) (auto simp: is_child_def dirent_is_rooted_def)
next
  case False
  have c: "is_cstring (render (r, xs))" "is_cstring (render (s, ys))" using assms is_cstring_render by auto
  let ?p = "render (r, xs)" and ?q = "render (s, ys)"
  note skip = dirent_skip_render [OF assms, of r s, unfolded svn_dirent_skip_ancestor_def Let_def strncmp_eq_prefix]
  have root: "dirent_root_length ?q (length ?q) = (if s then 1 else 0)"
    using J_hd [OF assms(2)] by (simp add: dirent_root_length_def)
  show ?thesis
  proof (cases "prefix ?p ?q \<and> ?p \<noteq> ?q")
    case no: False
    then have "\<not> (r = s \<and> prefix xs ys \<and> xs \<noteq> ys)"
      using render_inj [of "(r, xs)" "(s, ys)"] assms skip by (auto split: if_splits)
    then show ?thesis unfolding is_child_eq [OF c False] using no by auto
  next
    case yes: True
    show ?thesis
    proof (cases "xs = []")
      case True
      then have r: "r" using False by (cases r) simp_all
      then have s: "s" using yes True J_hd [OF assms(2)] by (cases s; cases "J ys") auto
      show ?thesis
        unfolding is_child_eq [OF c False] using yes True r s J_hd [OF assms(2)] by auto
    next
      case xs: False
      have lst: "last ?p \<noteq> slash"
        using join_last [OF assms(1) xs] join_with_empty [OF assms(1)] xs by (cases r) simp_all
      have ys: "ys \<noteq> []" using yes xs join_with_empty [OF assms(1)] by (cases s; cases r; cases "J xs") auto
      have root_ne: "dirent_root_length ?q (length ?q) < length ?p \<or> \<not> s \<and> length ?p > 0"
        unfolding root using yes xs J_hd [OF assms(1)] join_with_empty [OF assms(1)]
        by (cases s; cases r; cases "J xs") auto
      have nul: "c_at ?q (length ?p) \<noteq> NUL"
        using yes c_at_NUL [OF c(2)] by (auto simp: prefix_def)
      show ?thesis
      proof (cases "c_at ?q (length ?p) = slash")
        case True
        have "length ?p + 1 < length ?q"
        proof (rule ccontr)
          assume "\<not> ?thesis"
          moreover obtain w where w: "?q = ?p @ w" using yes by (auto simp: prefix_def)
          ultimately have "w = [slash]" using True yes by (cases w) (auto simp: c_at_append)
          then have "last ?q = slash" using w by simp
          then show False using join_last [OF assms(2) ys] join_with_empty [OF assms(2)] ys by (cases s) simp_all
        qed
        then have "is_child type_dirent ?p ?q = Some (drop (length ?p + 1) ?q)"
          unfolding is_child_eq [OF c False] using yes lst True by simp
        moreover have "Some (drop (length ?p + 1) ?q) =
          (if r = s \<and> prefix xs ys then Some (J (drop (length xs) ys)) else None)"
          using skip root_ne yes nul True root by (auto split: if_splits)
        moreover have "\<not> (r = s \<and> xs = ys)" using yes by blast
        ultimately show ?thesis by (auto split: if_splits)
      next
        case no: False
        then have "is_child type_dirent ?p ?q = None"
          unfolding is_child_eq [OF c False] using lst by simp
        moreover have "\<not> (r = s \<and> prefix xs ys)"
          using skip root_ne yes nul no root by (auto split: if_splits)
        ultimately show ?thesis by auto
      qed
    qed
  qed
qed

lemma prefix_loop_J:
  assumes "good_segs xs" "0 < n"
  shows "prefix_loop (J xs) (int n) = J (take n xs)"
  using assms
proof (induction xs arbitrary: n)
  case (Cons x xs)
  have skip: "prefix_loop (u @ t) m = u @ prefix_loop t m" if "slash \<notin> set u" for u t m
    using that by (induction u) auto
  have x: "slash \<notin> set x" using Cons.prems by (simp add: good_seg_def)
  show ?case
  proof (cases "xs = []")
    case True
    then show ?thesis using skip [OF x, of "[]"] Cons.prems(2) by (cases n) simp_all
  next
    case False
    then have J: "J (x # xs) = x @ slash # J xs" by (simp add: join_with_Cons)
    show ?thesis
    proof (cases "n = 1")
      case True
      then show ?thesis using skip [OF x] by (simp add: J)
    next
      case n: False
      then obtain m where m: "n = Suc m" "0 < m" using Cons.prems(2) by (cases n) auto
      then have "prefix_loop (J (x # xs)) (int n) = x @ slash # J (take m xs)"
        using skip [OF x] Cons by (simp add: J)
      moreover have "take m xs \<noteq> []" using False m by (cases xs; cases m) auto
      ultimately show ?thesis using m by (simp add: join_with_Cons)
    qed
  qed
qed simp

section \<open>Properties\<close>

text \<open>Joining a canonical dirent with a canonical relative path gives a canonical dirent from
  which \<^verbatim>\<open>svn_dirent_skip_ancestor\<close> gets the relative path back, and whatever it strips from a
  child is what has to be joined to the parent.\<close>

theorem dirent_join_skip:
  assumes "is_cstring base" "svn_dirent_is_canonical base" "is_cstring c" "svn_relpath_is_canonical c"
    and "is_cstring child" "svn_dirent_is_canonical child"
  shows "(\<exists>q. svn_dirent_join base c = Ok q \<and> svn_dirent_is_canonical q \<and>
            svn_dirent_skip_ancestor base q = Some c) \<and>
         (svn_dirent_skip_ancestor base child = Some c \<longrightarrow> svn_dirent_join base c = Ok child)"
  using dirent.join_canonical [OF assms(1-3)] dirent.skip_join [OF assms(1,2,5,6), of c] assms(4)
  by (simp add: svn_relpath_is_canonical_def)

text \<open>Splitting a canonical path into directory and base name and joining them again gives the
  path back, for dirents, relpaths and fspaths, the roots included.\<close>

theorem split_join_identity:
  assumes "is_cstring p"
  shows "(svn_dirent_is_canonical p \<longrightarrow> cbind (svn_dirent_split p) (\<lambda>(d, b). svn_dirent_join d b) = Ok p) \<and>
         (svn_relpath_is_canonical p \<longrightarrow> cbind (svn_relpath_split p) (\<lambda>(d, b). svn_relpath_join d b) = Ok p) \<and>
         (svn_fspath__is_canonical p \<longrightarrow> cbind (svn_fspath__split p) (\<lambda>(d, b). svn_fspath__join d b) = Ok p)"
proof -
  have split: "cbind (cbind r (\<lambda>d. cbind s (\<lambda>b. Ok (d, b)))) (\<lambda>(d, b). j d b) = cbind r (\<lambda>d. cbind s (j d))"
    for r s :: "cstring cres" and j :: "cstring \<Rightarrow> cstring \<Rightarrow> cstring cres"
    by (cases r; cases s) simp_all
  show ?thesis
    unfolding svn_dirent_split_def svn_relpath_split_def svn_fspath__split_def split svn_relpath_is_canonical_def
    using dirent.split_join [OF assms] relpath.split_join [OF assms] fspath.split_join [OF assms] by blast
qed

text \<open>C15. The longest common ancestor of two canonical dirents is canonical, an ancestor of both, and
  every common ancestor of the two is an ancestor of it.\<close>

theorem longest_ancestor_greatest:
  assumes "is_cstring p" "svn_dirent_is_canonical p" "is_cstring q" "svn_dirent_is_canonical q"
    and "is_cstring u" "svn_dirent_is_canonical u"
    and "svn_dirent_is_ancestor u p" "svn_dirent_is_ancestor u q"
  defines "a \<equiv> svn_dirent_get_longest_ancestor p q"
  shows "svn_dirent_is_canonical a \<and> svn_dirent_is_ancestor a p \<and> svn_dirent_is_ancestor a q \<and>
    svn_dirent_is_ancestor u a"
proof -
  have "Ok (svn_dirent_skip_ancestor u p) \<noteq> Ok None" "Ok (svn_dirent_skip_ancestor u q) \<noteq> Ok None"
    using assms(7,8) by (simp_all add: svn_dirent_is_ancestor_def)
  from dirent.ancestor_greatest [OF assms(1-6) this] show ?thesis
    unfolding a_def svn_dirent_is_ancestor_def by (simp only: cres.inject) blast
qed

theorem longest_ancestor_greatest_witness:
  "svn_dirent_is_ancestor ''/a'' (svn_dirent_get_longest_ancestor ''/a/bc/d'' ''/a/bc/e'')"
proof -
  have "svn_dirent_is_canonical ''/a/bc/d''" "svn_dirent_is_canonical ''/a/bc/e''" "svn_dirent_is_canonical ''/a''"
    "svn_dirent_is_ancestor ''/a'' ''/a/bc/d''" "svn_dirent_is_ancestor ''/a'' ''/a/bc/e''" by code_simp+
  then show ?thesis using longest_ancestor_greatest [of "''/a/bc/d''" "''/a/bc/e''" "''/a''"] by simp
qed

text \<open>On canonical dirents \<^verbatim>\<open>svn_dirent_is_child\<close>, which compares byte by byte, answers what
  \<^verbatim>\<open>svn_dirent_skip_ancestor\<close> answers, except that a path is not a child of itself.\<close>

theorem is_child_is_proper_skip:
  assumes "is_cstring p" "svn_dirent_is_canonical p" "is_cstring q" "svn_dirent_is_canonical q"
  shows "svn_dirent_is_child p q = (if p = q then None else svn_dirent_skip_ancestor p q)"
proof -
  obtain r xs where p: "good_segs xs" "p = render (r, xs)" using dirent.canonE [OF assms(1,2)] by blast
  obtain s ys where q: "good_segs ys" "q = render (s, ys)" using dirent.canonE [OF assms(3,4)] by blast
  show ?thesis
    unfolding svn_dirent_is_child_def p(2) q(2) is_child_render [OF p(1) q(1)] dirent_skip_render [OF p(1) q(1)]
    using render_inj [of "(r, xs)" "(s, ys)"] p(1) q(1) by auto
qed

text \<open>\<^verbatim>\<open>svn_relpath_prefix\<close> returns the first \<open>n\<close> components of a canonical relpath, nothing for
  a count of zero or less.\<close>

theorem relpath_prefix_components:
  assumes "is_cstring p" "svn_relpath_is_canonical p"
  shows "svn_relpath_prefix p n = Ok (join_with [slash] (take (nat n) (segments p)))"
proof -
  have p: "p = J (segments p)" "good_segs (segments p)"
    using assms relpath_canonical_render [of p] segments_good [of p] by (auto simp: svn_relpath_is_canonical_def)
  show ?thesis
  proof (cases "n \<le> 0")
    case False
    then have "prefix_loop p n = J (take (nat n) (segments p))"
      using prefix_loop_J [OF p(2), of "nat n"] unfolding p(1) [symmetric] by simp
    then show ?thesis using assms(2) False by (simp add: svn_relpath_prefix_def svn_relpath_is_canonical_def)
  qed (use assms(2) in \<open>simp add: svn_relpath_prefix_def svn_relpath_is_canonical_def\<close>)
qed

end
