(* ===== verification/Dirent_Many.thy ===== *)
theory Dirent_Many
  imports Dirent_Ops
begin

text \<open>
  \<^verbatim>\<open>svn_dirent_join_many\<close> of \<^verbatim>\<open>dirent_uri.c\<close>: a first pass over the arguments computes the length
  of the result, a second one copies. The first pass stores the lengths of the arguments in an array
  of ten entries.
\<close>

section \<open>The two passes\<close>

record join_state =
  jm_total_len :: nat
  jm_nargs :: nat
  jm_base_arg :: nat
  jm_base :: cstring
  jm_add_separator :: bool
  jm_saved_lengths :: "nat list"

abbreviation (input) MAX_SAVED_LENGTHS :: nat where "MAX_SAVED_LENGTHS \<equiv> 10"

definition ends_with_separator :: "cstring \<Rightarrow> bool" where
  "ends_with_separator s \<longleftrightarrow> c_at s (length s - 1) = slash"

definition join_many_init :: "cstring \<Rightarrow> join_state" where
  "join_many_init base =
     \<lparr>jm_total_len = length base, jm_nargs = 0, jm_base_arg = 0, jm_base = base,
      jm_add_separator = (\<not> (length base = 0 \<or> ends_with_separator base)),
      jm_saved_lengths = (replicate MAX_SAVED_LENGTHS 0)[0 := length base]\<rparr>"

text \<open>The body of the first loop. \<open>nargs\<close> is incremented between the test of the bound and the
  store.\<close>

definition join_many_measure :: "join_state \<Rightarrow> cstring \<Rightarrow> join_state cres" where
  "join_many_measure st s =
     asserting (svn_dirent_is_canonical s)
       (if s = [] then Ok st
        else
          let n = jm_nargs st + 1; len = length s in
          if jm_nargs st < MAX_SAVED_LENGTHS \<and> \<not> n < length (jm_saved_lengths st) then Overrun
          else
            let saved = (if jm_nargs st < MAX_SAVED_LENGTHS then (jm_saved_lengths st)[n := len]
                         else jm_saved_lengths st);
                st = st\<lparr>jm_nargs := n, jm_saved_lengths := saved\<rparr> in
            if dirent_is_rooted s then
              Ok (st\<lparr>jm_total_len := len, jm_base_arg := n, jm_base := [],
                     jm_saved_lengths := saved[0 := 0],
                     jm_add_separator := \<not> ends_with_separator s\<rparr>)
            else if n \<le> jm_base_arg st + 1 then
              Ok (st\<lparr>jm_total_len := jm_total_len st + (if jm_add_separator st then 1 else 0) + len\<rparr>)
            else Ok (st\<lparr>jm_total_len := jm_total_len st + 1 + len\<rparr>))"

fun fold_res :: "('s \<Rightarrow> 'a \<Rightarrow> 's cres) \<Rightarrow> 'a list \<Rightarrow> 's \<Rightarrow> 's cres" where
  "fold_res f [] s = Ok s"
| "fold_res f (x # xs) s = cbind (f s x) (fold_res f xs)"

text \<open>The second loop; \<open>out\<close> are the bytes between \<open>dirent\<close> and \<open>p\<close>.\<close>

fun join_many_copy :: "join_state \<Rightarrow> cstring list \<Rightarrow> nat \<Rightarrow> cstring \<Rightarrow> cstring" where
  "join_many_copy st [] n out = out"
| "join_many_copy st (s # args) n out =
     (if s = [] then join_many_copy st args n out
      else
        let n = n + 1 in
        if n < jm_base_arg st then join_many_copy st args n out
        else
          let len = (if n < MAX_SAVED_LENGTHS then jm_saved_lengths st ! n else length s);
              sep = (if out \<noteq> [] \<and> (\<not> n - 1 \<le> jm_base_arg st \<or> jm_add_separator st) then [slash] else []) in
          join_many_copy st args n (out @ sep @ take len s))"

definition svn_dirent_join_many :: "cstring \<Rightarrow> cstring list \<Rightarrow> cstring cres" where
  "svn_dirent_join_many base args =
     asserting (svn_dirent_is_canonical base)
       (cbind (fold_res join_many_measure args (join_many_init base)) (\<lambda>st.
          if \<not> jm_add_separator st \<and> jm_total_len st = 1 then Ok [slash]
          else
            let out = (if jm_base st \<noteq> [] then take (jm_saved_lengths st ! 0) (jm_base st) else []);
                dirent = join_many_copy st args 0 out in
            asserting (length dirent = jm_total_len st) (Ok dirent)))"

section \<open>What the passes compute\<close>

lemma fold_res_append: "fold_res f (xs @ ys) s = cbind (fold_res f xs s) (fold_res f ys)"
proof (induction xs arbitrary: s)
  case (Cons x xs)
  then show ?case by (cases "f s x") simp_all
qed simp

text \<open>The text of a starting path followed by relative components.\<close>

definition bare :: "cstring \<Rightarrow> bool" where
  "bare b \<longleftrightarrow> b = [] \<or> last b = slash"

definition glue :: "cstring \<Rightarrow> cstring list \<Rightarrow> cstring" where
  "glue b cs = (case cs of [] \<Rightarrow> b | c # cs \<Rightarrow> b @ (if bare b then [] else [slash]) @ c @ concat (map ((#) slash) cs))"

lemma glue_snoc:
  "glue b (cs @ [c]) = glue b cs @ (if cs = [] \<and> bare b then [] else [slash]) @ c"
  by (cases cs) (simp_all add: glue_def)

lemma glue_Nil [simp]: "glue b [] = b"
  by (simp add: glue_def)

definition component :: "cstring \<Rightarrow> bool" where
  "component s \<longleftrightarrow> s \<noteq> [] \<and> is_cstring s \<and> svn_dirent_is_canonical s"

lemma component_last:
  assumes "component s" "\<not> dirent_is_rooted s"
  shows "last s \<noteq> slash"
proof -
  have s: "s \<noteq> []" "is_cstring s" "svn_dirent_is_canonical s" using assms(1) by (simp_all add: component_def)
  then have "relpath_is_canonical s" using assms(2) by (simp add: svn_dirent_is_canonical_def dirent_is_rooted_def)
  then obtain ys where "good_segs ys" "s = J ys"
    using s(2) relpath_canonical_render segments_good by blast
  then show ?thesis using s(1) join_last [of ys] by (cases "ys = []") auto
qed

lemma ends_with_separator_iff: "s \<noteq> [] \<Longrightarrow> ends_with_separator s \<longleftrightarrow> last s = slash"
  by (simp add: ends_with_separator_def c_at_def last_conv_nth)

text \<open>The state of the first pass after the non-empty arguments \<open>pre @ rest\<close>, of which the last of
  \<open>pre\<close> is the last absolute one.\<close>

definition start :: "cstring \<Rightarrow> cstring list \<Rightarrow> cstring" where
  "start base pre = (if pre = [] then base else last pre)"

definition measured :: "cstring \<Rightarrow> cstring list \<Rightarrow> cstring list \<Rightarrow> join_state" where
  "measured base pre rest =
     \<lparr>jm_total_len = length (glue (start base pre) rest), jm_nargs = length (pre @ rest),
      jm_base_arg = length pre, jm_base = (if pre = [] then base else []),
      jm_add_separator = (\<not> bare (start base pre)),
      jm_saved_lengths =
        (if pre = [] then length base else 0) # map length (pre @ rest) @ replicate (9 - length (pre @ rest)) 0\<rparr>"

lemma measured_init: "join_many_init base = measured base [] []"
  by (auto simp: join_many_init_def measured_def start_def bare_def ends_with_separator_iff eval_nat_numeral)

lemma saved_update:
  assumes "length ns < 9"
  shows "(x # map length ns @ replicate (9 - length ns) 0)[Suc (length ns) := length s] =
    x # map length (ns @ [s]) @ replicate (9 - length (ns @ [s])) 0"
proof -
  obtain m where "9 - length ns = Suc m" using assms by (cases "9 - length ns") auto
  then show ?thesis by (simp add: list_update_append)
qed

lemma measure_step:
  assumes s: "component s" and n: "length (pre @ rest) < 9" and rest: "\<forall>c \<in> set rest. c \<noteq> []"
  shows "join_many_measure (measured base pre rest) s =
    Ok (if dirent_is_rooted s then measured base (pre @ rest @ [s]) [] else measured base pre (rest @ [s]))"
proof -
  have s': "s \<noteq> []" "svn_dirent_is_canonical s" using s by (simp_all add: component_def)
  have len: "length (jm_saved_lengths (measured base pre rest)) = 10" using n by (simp add: measured_def)
  have nargs: "jm_nargs (measured base pre rest) = length (pre @ rest)" by (simp add: measured_def)
  have saved: "(jm_saved_lengths (measured base pre rest))[length (pre @ rest) + 1 := length s] =
    (if pre = [] then length base else 0) # map length (pre @ rest @ [s]) @ replicate (9 - length (pre @ rest @ [s])) 0"
    using saved_update [OF n] by (simp add: measured_def)
  show ?thesis
  proof (cases "dirent_is_rooted s")
    case True
    then show ?thesis
      using s' n ends_with_separator_iff [OF s'(1)]
      unfolding join_many_measure_def Let_def len nargs saved
      by (simp add: measured_def start_def bare_def)
  next
    case False
    then show ?thesis
      using s' n unfolding join_many_measure_def Let_def len nargs saved
      by (auto simp: measured_def start_def glue_snoc)
  qed
qed

lemma measure_all:
  assumes "\<forall>s \<in> set ns. component s" "length ns < 10"
  shows "\<exists>pre rest. ns = pre @ rest \<and> (pre \<noteq> [] \<longrightarrow> dirent_is_rooted (last pre)) \<and>
    (\<forall>c \<in> set rest. \<not> dirent_is_rooted c) \<and>
    fold_res join_many_measure ns (join_many_init base) = Ok (measured base pre rest)"
  using assms
proof (induction ns rule: rev_induct)
  case Nil
  then show ?case by (intro exI [of _ "[]"]) (simp add: measured_init)
next
  case (snoc s ns)
  then obtain pre rest where IH: "ns = pre @ rest" "pre \<noteq> [] \<longrightarrow> dirent_is_rooted (last pre)"
    "\<forall>c \<in> set rest. \<not> dirent_is_rooted c"
    "fold_res join_many_measure ns (join_many_init base) = Ok (measured base pre rest)"
    by auto
  have "fold_res join_many_measure (ns @ [s]) (join_many_init base) =
    Ok (if dirent_is_rooted s then measured base (pre @ rest @ [s]) [] else measured base pre (rest @ [s]))"
  proof -
    have "component s" "length (pre @ rest) < 9" "\<forall>c \<in> set rest. c \<noteq> []"
      using IH(1) snoc.prems by (auto simp: component_def)
    then show ?thesis
      using measure_step [of s pre rest base] by (simp add: fold_res_append [of _ ns] IH(4))
  qed
  then show ?case
  proof (cases "dirent_is_rooted s")
    case True
    with \<open>fold_res join_many_measure (ns @ [s]) _ = _\<close> show ?thesis
      using IH(1) by (intro exI [of _ "pre @ rest @ [s]"] exI [of _ "[]"]) simp
  next
    case False
    with \<open>fold_res join_many_measure (ns @ [s]) _ = _\<close> show ?thesis
      using IH(1-3) by (intro exI [of _ pre] exI [of _ "rest @ [s]"]) simp
  qed
qed

lemma fold_skip_empty:
  "(\<And>s. f s [] = Ok s) \<Longrightarrow> fold_res f (filter (\<lambda>s. s \<noteq> []) args) st = fold_res f args st"
proof (induction args arbitrary: st)
  case (Cons a args)
  then show ?case by (cases "f st a") auto
qed simp

lemma copy_skip_empty:
  "join_many_copy st (filter (\<lambda>s. s \<noteq> []) args) n out = join_many_copy st args n out"
  by (induction st args n out rule: join_many_copy.induct) (simp_all add: Let_def)

lemma saved_nth:
  assumes "n < length (pre @ rest)"
  shows "jm_saved_lengths (measured base pre rest) ! Suc n = length ((pre @ rest) ! n)"
proof -
  have "(map length (pre @ rest) @ zs) ! n = length ((pre @ rest) ! n)" for zs
    using assms by (subst nth_append) (simp del: map_append)
  then show ?thesis by (simp add: measured_def del: map_append)
qed

lemma measured_sel:
  "jm_base_arg (measured base pre rest) = length pre"
  "jm_add_separator (measured base pre rest) \<longleftrightarrow> \<not> bare (start base pre)"
  "jm_base (measured base pre rest) = (if pre = [] then base else [])"
  "jm_total_len (measured base pre rest) = length (glue (start base pre) rest)"
  "jm_saved_lengths (measured base pre rest) ! 0 = (if pre = [] then length base else 0)"
  by (simp_all add: measured_def)

lemma glue_empty: "\<forall>c \<in> set cs. c \<noteq> [] \<Longrightarrow> cs \<noteq> [] \<Longrightarrow> glue b cs \<noteq> []"
  by (cases cs) (simp_all add: glue_def)

lemma copy_rest:
  assumes "pre @ rest = done @ todo" "length pre \<le> length done" "\<forall>s \<in> set rest. s \<noteq> []"
    and "out = glue (start base pre) (drop (length pre) done)"
  shows "join_many_copy (measured base pre rest) todo (length done) out = glue (start base pre) rest"
  using assms
proof (induction todo arbitrary: "done" out)
  case Nil
  then have "drop (length pre) done = rest" by (metis append.right_neutral append_eq_conv_conj)
  then show ?case using Nil.prems(4) by simp
next
  case (Cons s todo)
  let ?n = "length done" and ?st = "measured base pre rest" and ?cs = "drop (length pre) done"
  have nth: "(pre @ rest) ! ?n = s" "?n < length (pre @ rest)" by (simp_all add: Cons.prems(1))
  have len: "(if Suc ?n < 10 then jm_saved_lengths ?st ! Suc ?n else length s) = length s"
    using saved_nth [OF nth(2), of base] nth(1) by simp
  have rest: "rest = ?cs @ s # todo" using Cons.prems(1,2) by (simp add: append_eq_append_conv_if)
  have s: "s \<noteq> []" and cs: "\<forall>c \<in> set ?cs. c \<noteq> []" using Cons.prems(3) unfolding rest by auto
  have nil: "?cs = [] \<longleftrightarrow> ?n \<le> length pre" by simp
  have sep: "(if out \<noteq> [] \<and> (\<not> ?n \<le> length pre \<or> \<not> bare (start base pre)) then [slash] else []) =
    (if ?cs = [] \<and> bare (start base pre) then [] else [slash])"
  proof (cases "?cs = []")
    case True
    then have "out = start base pre" using Cons.prems(4) by (metis glue_Nil)
    then show ?thesis using True nil by (auto simp: bare_def)
  next
    case False
    then show ?thesis using Cons.prems(4) glue_empty [OF cs, of "start base pre"] nil by auto
  qed
  have "join_many_copy ?st (s # todo) ?n out =
    join_many_copy ?st todo (length (done @ [s]))
      (out @ (if ?cs = [] \<and> bare (start base pre) then [] else [slash]) @ s)"
  proof -
    have "join_many_copy ?st (s # todo) ?n out =
      join_many_copy ?st todo (Suc ?n)
        (out @ (if out \<noteq> [] \<and> (\<not> ?n \<le> length pre \<or> \<not> bare (start base pre)) then [slash] else []) @
         take (if Suc ?n < 10 then jm_saved_lengths ?st ! Suc ?n else length s) s)"
      using s Cons.prems(2) by (simp add: Let_def measured_sel)
    then show ?thesis unfolding sep len by simp
  qed
  also have "\<dots> = glue (start base pre) rest"
  proof (rule Cons.IH)
    show "out @ (if ?cs = [] \<and> bare (start base pre) then [] else [slash]) @ s =
      glue (start base pre) (drop (length pre) (done @ [s]))"
      using Cons.prems(2,4) by (simp add: glue_snoc)
  qed (use Cons.prems in auto)
  finally show ?case .
qed

lemma copy_skipped:
  "\<forall>s \<in> set xs. s \<noteq> [] \<Longrightarrow> n + length xs < jm_base_arg st \<Longrightarrow>
   join_many_copy st (xs @ ys) n out = join_many_copy st ys (n + length xs) out"
  by (induction xs arbitrary: n) simp_all

lemma copy_all:
  assumes "\<forall>s \<in> set (pre @ rest). s \<noteq> []"
  shows "join_many_copy (measured base pre rest) (pre @ rest) 0 (if pre = [] then base else []) =
    glue (start base pre) rest"
proof (cases pre rule: rev_cases)
  case Nil
  have "join_many_copy (measured base [] rest) rest (length ([] :: cstring list)) base = glue (start base []) rest"
    using assms Nil by (intro copy_rest) (simp_all add: start_def)
  then show ?thesis using Nil by simp
next
  case (snoc us u)
  let ?st = "measured base pre rest"
  have "join_many_copy ?st (us @ u # rest) 0 [] = join_many_copy ?st (u # rest) (length us) []"
    using copy_skipped [of us 0 ?st "u # rest" "[]"] assms snoc
    by (simp add: measured_sel del: join_many_copy.simps)
  also have "\<dots> = join_many_copy ?st rest (length pre) u"
  proof -
    have "jm_saved_lengths ?st ! Suc (length us) = length u"
      using saved_nth [of "length us" pre rest base] snoc by (simp add: nth_append)
    moreover have "u \<noteq> []" using assms snoc by simp
    moreover have "jm_base_arg ?st = length pre" by (rule measured_sel)
    ultimately show ?thesis using snoc by (simp add: Let_def)
  qed
  also have "\<dots> = glue (start base pre) rest"
    using assms snoc by (intro copy_rest) (simp_all add: start_def)
  finally show ?thesis unfolding snoc by (simp del: join_many_copy.simps)
qed

text \<open>Joining the arguments one after the other gives the same text.\<close>

lemma glue_bare:
  assumes "\<forall>c \<in> set rest. component c \<and> \<not> dirent_is_rooted c" "rest \<noteq> []"
  shows "\<not> bare (glue b rest)"
proof -
  obtain cs c where r: "rest = cs @ [c]" using assms(2) by (cases rest rule: rev_cases) auto
  have c: "component c" "\<not> dirent_is_rooted c" using assms(1) r by auto
  then have "c \<noteq> []" "last c \<noteq> slash" using component_last by (auto simp: component_def)
  then show ?thesis by (simp add: r glue_snoc bare_def)
qed

lemma join_bare:
  assumes "svn_dirent_is_canonical b" "component s" "\<not> dirent_is_rooted s"
  shows "svn_dirent_join b s = Ok (b @ (if bare b then [] else [slash]) @ s)"
proof -
  have "\<not> svn_dirent_is_absolute s" using assms(3) by (simp add: svn_dirent_is_absolute_def dirent_is_rooted_def)
  moreover have "s \<noteq> []" "svn_dirent_is_canonical s" using assms(2) by (simp_all add: component_def)
  moreover have "b \<noteq> [] \<Longrightarrow> c_at b (length b - 1) = slash \<longleftrightarrow> last b = slash"
    using ends_with_separator_iff by (simp add: ends_with_separator_def)
  ultimately show ?thesis using assms(1) by (auto simp: svn_dirent_join_def bare_def Let_def)
qed

lemma join_iterated:
  assumes "is_cstring base" "svn_dirent_is_canonical base"
    and "\<forall>s \<in> set rest. component s \<and> \<not> dirent_is_rooted s"
  shows "fold_res svn_dirent_join rest base = Ok (glue base rest) \<and> svn_dirent_is_canonical (glue base rest) \<and>
    is_cstring (glue base rest)"
  using assms(3)
proof (induction rest rule: rev_induct)
  case (snoc s rest)
  then have IH: "fold_res svn_dirent_join rest base = Ok (glue base rest)"
    "svn_dirent_is_canonical (glue base rest)" "is_cstring (glue base rest)" by auto
  have s: "component s" "\<not> dirent_is_rooted s" using snoc.prems by auto
  have sep: "bare (glue base rest) \<longleftrightarrow> rest = [] \<and> bare base"
    using glue_bare [of rest base] snoc.prems by (cases "rest = []") auto
  have join: "svn_dirent_join (glue base rest) s = Ok (glue base (rest @ [s]))"
    using join_bare [OF IH(2) s] by (simp add: sep glue_snoc)
  have "is_cstring s" "relpath_is_canonical s"
    using s by (auto simp: component_def svn_dirent_is_canonical_def dirent_is_rooted_def)
  from dirent.join_canonical [OF IH(3,2) this] join
  have "svn_dirent_is_canonical (glue base (rest @ [s]))" by auto
  moreover have "is_cstring (glue base (rest @ [s]))"
    using IH(3) \<open>is_cstring s\<close> by (simp add: glue_snoc)
  ultimately show ?case using IH(1) join by (simp add: fold_res_append)
qed (use assms in simp)

lemma join_rooted:
  assumes "is_cstring base" "svn_dirent_is_canonical base" "\<forall>s \<in> set (pre @ rest). component s"
    and "pre \<noteq> [] \<longrightarrow> dirent_is_rooted (last pre)" "\<forall>c \<in> set rest. \<not> dirent_is_rooted c"
  shows "fold_res svn_dirent_join (pre @ rest) base = Ok (glue (start base pre) rest)"
proof (cases pre rule: rev_cases)
  case Nil
  then show ?thesis using join_iterated [of base rest] assms by (simp add: start_def)
next
  case (snoc us u)
  have all: "\<exists>p. fold_res svn_dirent_join us p' = Ok p \<and> svn_dirent_is_canonical p"
    if "svn_dirent_is_canonical p'" "is_cstring p'" "\<forall>s \<in> set us. component s" for p' us
    using that
  proof (induction us arbitrary: p')
    case (Cons a us)
    have a: "component a" using Cons.prems by simp
    show ?case
    proof (cases "dirent_is_rooted a")
      case True
      then have "svn_dirent_join p' a = Ok a"
        using Cons.prems(1) a
        by (simp add: svn_dirent_join_def svn_dirent_is_absolute_def dirent_is_rooted_def component_def)
      then show ?thesis using Cons.IH [of a] Cons.prems a by (simp add: component_def)
    next
      case False
      then obtain q where "svn_dirent_join p' a = Ok q" "svn_dirent_is_canonical q" "is_cstring q"
        using join_iterated [of p' "[a]"] Cons.prems a by (auto split: cres.splits simp: cbind_Ok_iff)
      then show ?thesis using Cons.IH [of q] Cons.prems by simp
    qed
  qed simp
  have "\<forall>s \<in> set us. component s" using assms(3) snoc by simp
  then obtain p where p: "fold_res svn_dirent_join us base = Ok p" "svn_dirent_is_canonical p"
    using all [OF assms(2,1)] by blast
  have u: "component u" "dirent_is_rooted u" using assms snoc by auto
  then have "svn_dirent_join p u = Ok u"
    using p(2) by (simp add: svn_dirent_join_def svn_dirent_is_absolute_def dirent_is_rooted_def component_def)
  then have "fold_res svn_dirent_join (pre @ rest) base = fold_res svn_dirent_join rest u"
    using snoc p(1) by (simp add: fold_res_append)
  then show ?thesis using join_iterated [of u rest] assms u snoc by (simp add: start_def component_def)
qed

section \<open>Properties\<close>

lemma measure_filter:
  "fold_res join_many_measure (filter (\<lambda>s. s \<noteq> []) args) st = fold_res join_many_measure args st"
  by (rule fold_skip_empty) (simp add: join_many_measure_def)

lemma join_filter:
  assumes "is_cstring base" "svn_dirent_is_canonical base" "\<forall>s \<in> set args. is_cstring s \<and> svn_dirent_is_canonical s"
  shows "fold_res svn_dirent_join (filter (\<lambda>s. s \<noteq> []) args) base = fold_res svn_dirent_join args base"
  using assms
proof (induction args arbitrary: base)
  case (Cons a args)
  show ?case
  proof (cases "a = []")
    case True
    have "svn_dirent_join base [] = Ok base"
      using Cons.prems(2) by (auto simp: svn_dirent_join_def svn_dirent_is_absolute_def)
    then show ?thesis using Cons True by simp
  next
    case False
    then have a: "component a" using Cons.prems(3) by (simp add: component_def)
    have "\<exists>q. svn_dirent_join base a = Ok q \<and> is_cstring q \<and> svn_dirent_is_canonical q"
    proof (cases "dirent_is_rooted a")
      case True
      then have "svn_dirent_join base a = Ok a"
        using Cons.prems(2) a
        by (simp add: svn_dirent_join_def svn_dirent_is_absolute_def dirent_is_rooted_def component_def)
      then show ?thesis using a by (simp add: component_def)
    next
      case False
      then show ?thesis
        using join_iterated [OF Cons.prems(1,2), of "[a]"] a by (auto simp: cbind_Ok_iff)
    qed
    then show ?thesis using Cons False by auto
  qed
qed simp

lemma short_glue:
  assumes "bare (start base pre)" "length (glue (start base pre) rest) = 1"
    and "\<forall>s \<in> set (pre @ rest). s \<noteq> []" "\<not> (base = [] \<and> (\<exists>c. pre @ rest = [[c]]))"
  shows "glue (start base pre) rest = [slash]"
proof (cases rest)
  case Nil
  then have "length (start base pre) = 1" "bare (start base pre)" using assms by simp_all
  then show ?thesis using Nil by (cases "start base pre") (auto simp: bare_def)
next
  case (Cons c cs)
  then have c: "c \<noteq> []" using assms(3) by simp
  then have "start base pre = [] \<and> cs = [] \<and> length c = 1"
    using assms(1,2) unfolding Cons glue_def by (cases c; cases "start base pre"; cases cs) auto
  moreover from this have "pre = []"
    using assms(3) last_in_set [of pre] by (auto simp: start_def split: if_splits)
  ultimately have "base = []" "pre @ rest = [c]" "length c = 1" using Cons by (auto simp: start_def)
  then show ?thesis using assms(4) by (cases c) auto
qed

lemma glue_one_byte:
  assumes "base = []" "pre @ rest = [[c]]" "pre \<noteq> [] \<longrightarrow> dirent_is_rooted (last pre)"
  shows "bare (start base pre) \<and> length (glue (start base pre) rest) = 1"
proof (cases pre)
  case Nil
  then show ?thesis using assms by (simp add: start_def bare_def glue_def)
next
  case (Cons u us)
  then have "pre = [[c]]" "rest = []" using assms(2) by auto
  moreover from this have "c = slash" using assms(3) by (simp add: dirent_is_rooted_def)
  ultimately show ?thesis by (simp add: start_def bare_def)
qed

text \<open>With canonical arguments, fewer than ten of them not empty, \<^verbatim>\<open>svn_dirent_join_many\<close> joins
  its arguments one after the other, and the length computed in the first pass is right, with one
  exception: an empty base followed by a single component of one byte gives \<^verbatim>\<open>/\<close>.\<close>

theorem join_many_result:
  assumes "is_cstring base" "svn_dirent_is_canonical base"
    and "\<forall>s \<in> set args. is_cstring s \<and> svn_dirent_is_canonical s"
    and "length (filter (\<lambda>s. s \<noteq> []) args) < 10"
  shows "svn_dirent_join_many base args =
    (if base = [] \<and> (\<exists>c. filter (\<lambda>s. s \<noteq> []) args = [[c]]) then Ok [slash]
     else fold_res svn_dirent_join args base)"
proof -
  let ?ns = "filter (\<lambda>s. s \<noteq> []) args"
  have ns: "\<forall>s \<in> set ?ns. component s" using assms(3) by (auto simp: component_def)
  obtain pre rest where split: "?ns = pre @ rest" "pre \<noteq> [] \<longrightarrow> dirent_is_rooted (last pre)"
    "\<forall>c \<in> set rest. \<not> dirent_is_rooted c"
    and st: "fold_res join_many_measure ?ns (join_many_init base) = Ok (measured base pre rest)"
    using measure_all [OF ns assms(4)] by blast
  let ?st = "measured base pre rest" and ?b = "start base pre"
  have ne: "\<forall>s \<in> set (pre @ rest). s \<noteq> []" using ns unfolding split(1) by (auto simp: component_def)
  have out: "(if jm_base ?st \<noteq> [] then take (jm_saved_lengths ?st ! 0) (jm_base ?st) else []) =
    (if pre = [] then base else [])" by (simp add: measured_sel)
  have copy: "join_many_copy ?st args 0 (if pre = [] then base else []) = glue ?b rest"
    using copy_all [OF ne, of base] copy_skip_empty [of ?st args 0] split(1) by metis
  have many: "svn_dirent_join_many base args =
    (if bare ?b \<and> length (glue ?b rest) = 1 then Ok [slash] else Ok (glue ?b rest))"
    using assms(2) st
    unfolding svn_dirent_join_many_def measure_filter [of args, symmetric] st cbind_simps Let_def out copy
    by (simp add: measured_sel)
  have join: "fold_res svn_dirent_join args base = Ok (glue ?b rest)"
    using join_rooted [OF assms(1,2) _ split(2,3)] ns join_filter [OF assms(1-3)] split(1) by simp
  show ?thesis unfolding many join using short_glue [of base pre rest] ne glue_one_byte [of base pre rest]
    split(1,2) by auto
qed

lemma measure_overrun:
  assumes "\<forall>s \<in> set ns. component s" "10 \<le> length ns"
  shows "fold_res join_many_measure ns (join_many_init base) = Overrun"
proof -
  define ms where "ms = take 9 ns"
  have "9 < length ns" using assms(2) by simp
  then have ns: "ns = ms @ ns ! 9 # drop 10 ns"
    unfolding ms_def using id_take_nth_drop [of 9 ns] by simp
  have ms: "length ms = 9" "\<forall>s \<in> set ms. component s"
    using assms unfolding ms_def by (auto dest: in_set_takeD)
  obtain pre rest where pr: "ms = pre @ rest"
    "fold_res join_many_measure ms (join_many_init base) = Ok (measured base pre rest)"
    using measure_all [OF ms(2), of base] ms(1) by auto
  have "component (ns ! 9)" using assms by simp
  then have "join_many_measure (measured base pre rest) (ns ! 9) = Overrun"
    using pr(1) ms(1) by (simp add: join_many_measure_def component_def measured_def)
  then show ?thesis by (subst ns) (simp add: fold_res_append pr(2))
qed

text \<open>With ten or more non-empty arguments \<^verbatim>\<open>svn_dirent_join_many\<close> writes behind the end of its
  array of saved lengths: the bound is tested before the index is incremented.\<close>

theorem join_many_overruns:
  assumes "svn_dirent_is_canonical base" "\<forall>s \<in> set args. is_cstring s \<and> svn_dirent_is_canonical s"
    and "10 \<le> length (filter (\<lambda>s. s \<noteq> []) args)"
  shows "svn_dirent_join_many base args = Overrun"
proof -
  have "\<forall>s \<in> set (filter (\<lambda>s. s \<noteq> []) args). component s" using assms(2) by (auto simp: component_def)
  from measure_overrun [OF this assms(3), of base] have "fold_res join_many_measure args (join_many_init base) = Overrun"
    by (simp only: measure_filter)
  then show ?thesis using assms(1) by (simp add: svn_dirent_join_many_def)
qed

end
