(* ===== verification/Apr_Filepath.thy ===== *)
theory Apr_Filepath
  imports Dirent_Many
begin

text \<open>
  Merging paths in APR (\<^verbatim>\<open>apr/file_io/unix/filepath.c\<close>). The path buffer is the list of the bytes
  before \<open>pathlen\<close>; every write of the source is at \<open>pathlen\<close>. The working directory, the size
  \<^verbatim>\<open>APR_PATH_MAX\<close> of the platform and the conversions between UTF-8 and the native encoding are
  fields of \<open>apr\<close>.

  The main theorem is the one the callers of \<^verbatim>\<open>APR_FILEPATH_SECUREROOTTEST\<close> rely on: a successful
  merge does not leave the root.
\<close>

datatype apr_status =
    APR_EABOVEROOT
  | APR_EABSOLUTE
  | APR_ERELATIVE
  | APR_ENAMETOOLONG
  | APR_ERRNO int

abbreviation (input) ERANGE :: int where "ERANGE \<equiv> 34"

record apr =
  getcwd :: "int + cstring"
  path_max :: nat
  utf_cstring_from_utf8 :: "cstring \<Rightarrow> cstring cres"
  utf_cstring_to_utf8 :: "cstring \<Rightarrow> cstring cres"
  wrap_apr :: "apr_status \<Rightarrow> svn_err"

abbreviation (input) APR_FILEPATH_NOTABOVEROOT :: nat where "APR_FILEPATH_NOTABOVEROOT \<equiv> 1"
abbreviation (input) APR_FILEPATH_SECUREROOTTEST :: nat where "APR_FILEPATH_SECUREROOTTEST \<equiv> 2"
abbreviation (input) APR_FILEPATH_NOTRELATIVE :: nat where "APR_FILEPATH_NOTRELATIVE \<equiv> 4"
abbreviation (input) APR_FILEPATH_NOTABSOLUTE :: nat where "APR_FILEPATH_NOTABSOLUTE \<equiv> 8"

definition has_flag :: "nat \<Rightarrow> nat \<Rightarrow> bool" where
  "has_flag flags f \<longleftrightarrow> and flags f \<noteq> 0"

definition apr_filepath_get :: "apr \<Rightarrow> apr_status + cstring" where
  "apr_filepath_get A =
     (case getcwd A of
        Inl errno \<Rightarrow> if errno = ERANGE then Inl APR_ENAMETOOLONG else Inl (APR_ERRNO errno)
      | Inr path \<Rightarrow> Inr path)"

definition apr_filepath_root :: "cstring \<Rightarrow> apr_status + (cstring \<times> cstring)" where
  "apr_filepath_root inpath =
     (if c_hd inpath = slash then Inr ([slash], dropWhile (\<lambda>c. c = slash) inpath)
      else Inl APR_ERELATIVE)"

section \<open>The segments of the added path\<close>

text \<open>Is the path empty or does it end with a backpath already?\<close>

definition backpathed :: "string \<Rightarrow> bool" where
  "backpathed path \<longleftrightarrow>
     length path = 0 \<or>
     length path = 3 \<and> path = ''../'' \<or>
     length path > 3 \<and> drop (length path - 4) path = ''/../''"

text \<open>\<^verbatim>\<open>do --pathlen; while (pathlen && path[pathlen - 1] != '/')\<close>\<close>

fun crop :: "string \<Rightarrow> nat \<Rightarrow> nat" where
  "crop path 0 = 0"
| "crop path (Suc n) = (if n > 0 \<and> path ! (n - 1) \<noteq> slash then crop path n else n)"

definition merge_backpath :: "nat \<Rightarrow> bool \<Rightarrow> string \<Rightarrow> nat \<Rightarrow> apr_status + (string \<times> nat)" where
  "merge_backpath flags at_end path keptlen =
     (if length path = 1 \<and> c_hd path = slash then
        if has_flag flags APR_FILEPATH_SECUREROOTTEST then Inl APR_EABOVEROOT
        else Inr (path, 0)
      else
        if backpathed path \<and> has_flag flags APR_FILEPATH_SECUREROOTTEST then Inl APR_EABOVEROOT
        else
          let path = (if backpathed path then path @ (if at_end then ''..'' else ''../'')
                      else take (crop path (length path)) path) in
          if length path < keptlen then
            if has_flag flags APR_FILEPATH_SECUREROOTTEST then Inl APR_EABOVEROOT
            else Inr (path, length path)
          else Inr (path, keptlen))"

function merge_segments :: "nat \<Rightarrow> cstring \<Rightarrow> string \<Rightarrow> nat \<Rightarrow> apr_status + (string \<times> nat)" where
  "merge_segments flags addpath path keptlen =
     (if addpath = [] then Inr (path, keptlen)
      else
        let seg = takeWhile (\<lambda>c. c \<noteq> slash) addpath;
            next = drop (length seg) addpath;
            rest = drop 1 next in
        if seg = [] \<or> seg = [dot] then merge_segments flags rest path keptlen
        else if seg = [dot, dot] then
          (case merge_backpath flags (next = []) path keptlen of
             Inl e \<Rightarrow> Inl e
           | Inr (path, keptlen) \<Rightarrow> merge_segments flags rest path keptlen)
        else merge_segments flags rest (path @ take (length seg + (if next \<noteq> [] then 1 else 0)) addpath) keptlen)"
  by pat_completeness auto
termination
proof (relation "measure (\<lambda>(flags, addpath, path, keptlen). length addpath)", simp, goal_cases)
  case (1 flags addpath path keptlen)
  then show ?case by (cases addpath) auto
next
  case (2 flags addpath path keptlen)
  then show ?case by (cases addpath) auto
next
  case (3 flags addpath path keptlen)
  then show ?case by (cases addpath) auto
qed

declare merge_segments.simps [simp del]

section \<open>The merge\<close>

text \<open>On a failure the source returns \<^verbatim>\<open>errno\<close>, not the status.\<close>

definition merge_cwd :: "apr \<Rightarrow> apr_status + cstring" where
  "merge_cwd A =
     (case apr_filepath_get A of
        Inr path \<Rightarrow> Inr path
      | Inl rv \<Rightarrow> (case getcwd A of Inl errno \<Rightarrow> Inl (APR_ERRNO errno) | Inr _ \<Rightarrow> Inl rv))"

definition merge_root ::
  "apr \<Rightarrow> cstring option \<Rightarrow> cstring \<Rightarrow> nat \<Rightarrow> apr_status + cstring" where
  "merge_root A rootpath addpath flags =
     (if c_hd addpath = slash then
        if has_flag flags APR_FILEPATH_SECUREROOTTEST then Inl APR_EABOVEROOT
        else if has_flag flags APR_FILEPATH_NOTABSOLUTE then Inl APR_EABSOLUTE
        else
          (case rootpath of
             Some r \<Rightarrow> Inr r
           | None \<Rightarrow>
               if \<not> has_flag flags APR_FILEPATH_NOTABOVEROOT then Inr [] else merge_cwd A)
      else
        (case rootpath of
           Some r \<Rightarrow>
             if has_flag flags APR_FILEPATH_NOTABSOLUTE \<and> c_hd r = slash then Inl APR_EABSOLUTE else Inr r
         | None \<Rightarrow>
             if has_flag flags APR_FILEPATH_NOTABSOLUTE then Inr [] else merge_cwd A))"

text \<open>\<^verbatim>\<open>rootpath\<close> is None for a null pointer; a null \<^verbatim>\<open>addpath\<close> is an empty one.\<close>

definition apr_filepath_merge ::
  "apr \<Rightarrow> cstring option \<Rightarrow> cstring \<Rightarrow> nat \<Rightarrow> apr_status + cstring" where
  "apr_filepath_merge A rootpath addpath flags =
     (case merge_root A rootpath addpath flags of
        Inl e \<Rightarrow> Inl e
      | Inr rootpath \<Rightarrow>
          let rootlen = length rootpath in
          if rootlen + length addpath + 4 > path_max A then Inl APR_ENAMETOOLONG
          else if c_hd addpath \<noteq> slash \<and> c_hd rootpath \<noteq> slash \<and> has_flag flags APR_FILEPATH_NOTRELATIVE
          then Inl APR_ERELATIVE
          else
            let (addpath, path, keptlen) =
              (if c_hd addpath = slash then (dropWhile (\<lambda>c. c = slash) addpath, [slash], 0)
               else
                 let path = (if rootlen \<noteq> 0 \<and> rootpath ! (rootlen - 1) \<noteq> slash then rootpath @ [slash]
                             else rootpath)
                 in (addpath, path, length path)) in
            (case merge_segments flags addpath path keptlen of
               Inl e \<Rightarrow> Inl e
             | Inr (path, keptlen) \<Rightarrow>
                 if has_flag flags APR_FILEPATH_NOTABOVEROOT \<and> keptlen < rootlen
                    \<and> (\<not> strncmp_eq rootpath path rootlen
                       \<or> rootpath ! (rootlen - 1) \<noteq> slash \<and> c_at path rootlen \<noteq> NUL \<and> c_at path rootlen \<noteq> slash)
                 then Inl APR_EABOVEROOT
                 else Inr path))"

section \<open>A secure merge stays below its root\<close>

lemma crop_spec:
  assumes "0 < n"
  shows "crop path n < n" "crop path n = 0 \<or> path ! (crop path n - 1) = slash"
    "m < n \<Longrightarrow> m = 0 \<or> path ! (m - 1) = slash \<Longrightarrow> m \<le> crop path n"
  using assms
proof (induction n arbitrary: m)
  case (Suc n)
  { case 1 show ?case using Suc.IH(1) by (cases n) auto }
  { case 2 show ?case using Suc.IH(2) by (cases n) auto }
  { case 3
    show ?case
    proof (cases "n > 0 \<and> path ! (n - 1) \<noteq> slash")
      case True
      then have "m < n" using 3 by (cases "m = n") auto
      then show ?thesis using Suc.IH(3) [of m] 3 True by auto
    next
      case False
      then show ?thesis using 3 by auto
    qed }
qed simp_all

definition closed :: "string \<Rightarrow> bool" where
  "closed t \<longleftrightarrow> t = [] \<or> last t = slash"

definition no_backpath :: "string \<Rightarrow> bool" where
  "no_backpath t \<longleftrightarrow> [dot, dot] \<notin> set (split_on slash t) \<and> c_hd t \<noteq> slash"

lemma no_backpath_append:
  assumes "closed t" "no_backpath t" "no_backpath s"
  shows "no_backpath (t @ s)"
proof (cases t rule: rev_cases)
  case (snoc u c)
  then have t: "t = u @ [slash]" using assms(1) by (simp add: closed_def)
  moreover have "c_hd (t @ s) \<noteq> slash" using assms(2) snoc by (cases u) (simp_all add: no_backpath_def)
  ultimately show ?thesis using assms(2,3) split_on_append_sep [of slash u] by (auto simp: no_backpath_def)
qed (use assms in simp)

lemma no_backpath_take:
  assumes "no_backpath t" "closed (take m t)"
  shows "no_backpath (take m t)"
proof (cases "take m t" rule: rev_cases)
  case (snoc u c)
  then have "take m t = u @ [slash]" using assms(2) by (simp add: closed_def)
  then have "t = u @ slash # drop m t" by (metis append_Cons append_Nil append_assoc append_take_drop_id)
  then have "[dot, dot] \<notin> set (split_on slash u)"
    using assms(1) split_on_append_sep [of slash u "drop m t"] by (auto simp: no_backpath_def)
  moreover have "c_hd (take m t) \<noteq> slash"
    using assms(1) by (cases t; cases m) (auto simp: no_backpath_def)
  ultimately show ?thesis
    using split_on_append_sep [of slash u "[]"] \<open>take m t = u @ [slash]\<close> by (auto simp: no_backpath_def)
qed (auto simp: no_backpath_def)

lemma secure_backpath:
  assumes "has_flag flags APR_FILEPATH_SECUREROOTTEST" "closed root" "closed t" "no_backpath t"
    and "merge_backpath flags e (root @ t) (length root) = Inr (path, k)"
  shows "\<exists>t'. path = root @ t' \<and> closed t' \<and> no_backpath t' \<and> k = length root"
proof -
  let ?m = "crop (root @ t) (length (root @ t))"
  have nb: "\<not> backpathed (root @ t)" and path: "path = take ?m (root @ t)"
    and kept: "length root \<le> length path" "k = length root"
    using assms(1,5) by (auto simp: merge_backpath_def Let_def split: if_splits)
  have pos: "0 < length (root @ t)" using nb by (auto simp: backpathed_def)
  note crop = crop_spec [OF pos, where path = "root @ t"]
  have m: "length root \<le> ?m" using kept(1) path by simp
  then have t': "path = root @ take (?m - length root) t" using path by simp
  have "closed (take (?m - length root) t)"
  proof (cases "?m = length root")
    case False
    then obtain k where k: "?m = length root + Suc k" using m by (metis add_Suc_right le_Suc_ex not0_implies_Suc add_0_right)
    have "Suc k \<le> length t" using crop(1) unfolding k by simp
    then have "last (take (Suc k) t) = t ! k" by (simp add: take_Suc_conv_app_nth)
    then show ?thesis using crop(2) unfolding k by (simp add: closed_def nth_append)
  qed (simp add: closed_def)
  then show ?thesis using t' kept(2) no_backpath_take [OF assms(4)] by blast
qed

lemma secure_merge:
  assumes "has_flag flags APR_FILEPATH_SECUREROOTTEST" "closed root" "no_backpath t"
    and "closed t \<or> addpath = []"
    and "merge_segments flags addpath (root @ t) (length root) = Inr (path, k)"
  shows "\<exists>t'. path = root @ t' \<and> no_backpath t' \<and> k = length root"
  using assms(3-5)
proof (induction addpath arbitrary: t rule: length_induct)
  case (1 addpath)
  let ?seg = "takeWhile (\<lambda>c. c \<noteq> slash) addpath"
  let ?next = "drop (length ?seg) addpath"
  let ?rest = "drop 1 ?next"
  show ?case
  proof (cases "addpath = []")
    case True
    then show ?thesis using "1.prems" by (auto simp: merge_segments.simps)
  next
    case False
    then have closed: "closed t" using "1.prems"(2) by simp
    have short: "length ?rest < length addpath" using False by (cases addpath) auto
    note IH = "1.IH" [rule_format, OF short]
    note step = "1.prems"(3) [unfolded merge_segments.simps [of flags addpath] Let_def]
    consider (noop) "?seg = [] \<or> ?seg = [dot]" | (dots) "?seg = [dot, dot]"
      | (seg) "?seg \<noteq> []" "?seg \<noteq> [dot]" "?seg \<noteq> [dot, dot]" by blast
    then show ?thesis
    proof cases
      case noop
      then show ?thesis using step False IH [of t] "1.prems"(1) closed by simp
    next
      case dots
      then obtain p k' where bp: "merge_backpath flags (?next = []) (root @ t) (length root) = Inr (p, k')"
        and rest: "merge_segments flags ?rest p k' = Inr (path, k)"
        using step False by (auto split: sum.splits prod.splits)
      obtain t' where "p = root @ t'" "closed t'" "no_backpath t'" "k' = length root"
        using secure_backpath [OF assms(1,2) closed "1.prems"(1) bp] by blast
      then show ?thesis using IH [of t'] rest by simp
    next
      case seg
      let ?s = "take (length ?seg + (if ?next \<noteq> [] then 1 else 0)) addpath"
      have rest: "merge_segments flags ?rest (root @ t @ ?s) (length root) = Inr (path, k)"
        using step False seg by simp
      have fresh: "slash \<notin> set ?seg" by (auto dest: set_takeWhileD)
      have s: "?s = ?seg @ (if ?next = [] then [] else [slash])"
      proof (cases "dropWhile (\<lambda>c. c \<noteq> slash) addpath")
        case Nil
        then have e: "?seg = addpath" by (metis append_Nil2 takeWhile_dropWhile_id)
        show ?thesis unfolding e by simp
      next
        case (Cons c u)
        then have c: "c = slash" using dropWhile_eq_Cons_conv [of "\<lambda>c. c \<noteq> slash" addpath c u] by simp
        have nx: "?next = slash # u" using Cons c by (simp add: dropWhile_eq_drop)
        have "addpath = ?seg @ slash # u" using Cons c by (metis takeWhile_dropWhile_id)
        then have "take (length ?seg + 1) addpath = ?seg @ [slash]" by (metis append_Cons append_Nil append_assoc append_eq_conv_conj length_append_singleton Suc_eq_plus1)
        then show ?thesis using nx by simp
      qed
      have "no_backpath ?s"
        using seg split_on_append [OF fresh, of "[]"] split_on_fresh [OF fresh]
          fresh unfolding s no_backpath_def by (cases ?seg) auto
      then have "no_backpath (t @ ?s)" using no_backpath_append [OF closed "1.prems"(1)] by simp
      moreover have "closed (t @ ?s) \<or> ?rest = []"
        unfolding s by (cases "?next = []") (simp_all add: closed_def del: drop_eq_Nil)
      ultimately show ?thesis using IH [of "t @ ?s"] rest by simp
    qed
  qed
qed

text \<open>Merging below a root with both root tests: the result continues the root, the part after it has
  no backpath.\<close>

lemma secure_root:
  assumes "apr_filepath_merge A (Some root) path 3 = Inr full"
  shows "\<exists>t. full = root @ (if closed root then [] else [slash]) @ t \<and> no_backpath t"
proof -
  have flag: "has_flag 3 APR_FILEPATH_SECUREROOTTEST" by (simp add: has_flag_def)
  have rel: "c_hd path \<noteq> slash"
    using assms flag by (auto simp: apr_filepath_merge_def merge_root_def)
  have "\<not> has_flag 3 APR_FILEPATH_NOTABSOLUTE" by (simp add: has_flag_def)
  then have mr: "merge_root A (Some root) path 3 = Inr root" using rel by (simp add: merge_root_def)
  let ?root = "root @ (if closed root then [] else [slash])"
  have start: "(if length root \<noteq> 0 \<and> root ! (length root - 1) \<noteq> slash then root @ [slash] else root) = ?root"
    by (cases "root = []") (auto simp: closed_def last_conv_nth)
  obtain p k where "merge_segments 3 path ?root (length ?root) = Inr (p, k)" "full = p"
    using assms rel unfolding apr_filepath_merge_def mr sum.case Let_def start
    by (auto split: if_splits sum.splits prod.splits)
  then show ?thesis
    using secure_merge [OF flag, of ?root "[]" path full k]
    by (auto simp: closed_def no_backpath_def split: if_splits)
qed

end
