(* ===== verification/Dirent_Abs.thy ===== *)
theory Dirent_Abs
  imports Apr_Filepath
begin

text \<open>
  Absolute paths in libsvn: the path encodings and the dot-segment tests of \<^verbatim>\<open>path.c\<close>, and from
  \<^verbatim>\<open>dirent_uri.c\<close> \<^verbatim>\<open>svn_dirent_get_absolute\<close>, \<^verbatim>\<open>svn_dirent_is_under_root\<close> and
  \<^verbatim>\<open>svn_dirent_condense_targets\<close>, on top of APR's path merge.
\<close>

section \<open>Path encodings\<close>

datatype encoding_style =
    APR_FILEPATH_ENCODING_UNKNOWN
  | APR_FILEPATH_ENCODING_LOCALE
  | APR_FILEPATH_ENCODING_UTF8

definition apr_filepath_encoding :: encoding_style where
  "apr_filepath_encoding = APR_FILEPATH_ENCODING_LOCALE"

definition get_path_encoding :: "bool cres" where
  "get_path_encoding = Ok (apr_filepath_encoding = APR_FILEPATH_ENCODING_UTF8)"

definition svn_path_cstring_from_utf8 :: "apr \<Rightarrow> cstring \<Rightarrow> cstring cres" where
  "svn_path_cstring_from_utf8 A path_utf8 =
     cbind get_path_encoding (\<lambda>path_is_utf8.
       if path_is_utf8 then Ok path_utf8 else utf_cstring_from_utf8 A path_utf8)"

definition svn_path_cstring_to_utf8 :: "apr \<Rightarrow> cstring \<Rightarrow> cstring cres" where
  "svn_path_cstring_to_utf8 A path_apr =
     cbind get_path_encoding (\<lambda>path_is_utf8.
       if path_is_utf8 then Ok path_apr else utf_cstring_to_utf8 A path_apr)"

section \<open>Dot segments\<close>

definition svn_path_is_dotpath_present :: "cstring \<Rightarrow> bool" where
  "svn_path_is_dotpath_present path =
     (let len = length path in
      if c_at path 0 = NUL then False
      else if c_at path 0 = dot \<and> (c_at path 1 = NUL \<or> c_at path 1 = slash) then True
      else if c_at path 1 = NUL then False
      else if strstr path ''/./'' \<noteq> None then True
      else c_at path (len - 2) = slash \<and> c_at path (len - 1) = dot)"

definition svn_path_is_backpath_present :: "cstring \<Rightarrow> bool" where
  "svn_path_is_backpath_present path =
     (let len = length path in
      if c_at path 0 = NUL \<or> c_at path 1 = NUL then False
      else if c_at path 0 = dot \<and> c_at path 1 = dot \<and> (c_at path 2 = NUL \<or> c_at path 2 = slash) then True
      else if c_at path 2 = NUL then False
      else if strstr path ''/../'' \<noteq> None then True
      else c_at path (len - 3) = slash \<and> c_at path (len - 2) = dot \<and> c_at path (len - 1) = dot)"

section \<open>Absolute dirents\<close>

definition svn_dirent_get_absolute :: "apr \<Rightarrow> cstring \<Rightarrow> cstring cres" where
  "svn_dirent_get_absolute A relative =
     asserting (\<not> svn_path_is_url relative)
       (cbind (svn_path_cstring_from_utf8 A relative) (\<lambda>path_apr.
          case apr_filepath_merge A None path_apr APR_FILEPATH_NOTRELATIVE of
            Inl apr_err \<Rightarrow>
              if svn_dirent_is_absolute relative \<and> svn_dirent_is_canonical relative
                 \<and> \<not> svn_path_is_backpath_present relative
              then Ok relative
              else
                Err (svn_error SVN_ERR_BAD_FILENAME
                  (''Couldn'' @ [CHR 0x27] @ ''t determine absolute path of '' @ [CHR 0x27] @
                   svn_dirent_local_style relative @ [CHR 0x27])
                  (Some (wrap_apr A apr_err)))
          | Inr buffer \<Rightarrow>
              cbind (svn_path_cstring_to_utf8 A buffer) svn_dirent_canonicalize))"

definition svn_path_get_absolute :: "apr \<Rightarrow> cstring \<Rightarrow> cstring cres" where
  "svn_path_get_absolute A relative =
     (if svn_path_is_url relative then Ok relative else svn_dirent_get_absolute A relative)"

text \<open>The flags are \<^verbatim>\<open>APR_FILEPATH_NOTABOVEROOT | APR_FILEPATH_SECUREROOTTEST\<close>; the result is
  \<^verbatim>\<open>under_root\<close> and \<^verbatim>\<open>result_path\<close>.\<close>

definition svn_dirent_is_under_root :: "apr \<Rightarrow> cstring \<Rightarrow> cstring \<Rightarrow> (bool \<times> cstring option) cres" where
  "svn_dirent_is_under_root A base_path path =
     (case apr_filepath_merge A (Some base_path) path
             (or APR_FILEPATH_NOTABOVEROOT APR_FILEPATH_SECUREROOTTEST) of
        Inr full_path \<Rightarrow> cbind (svn_dirent_canonicalize full_path) (\<lambda>r. Ok (True, Some r))
      | Inl APR_EABOVEROOT \<Rightarrow> Ok (False, None)
      | Inl status \<Rightarrow> Err (wrap_apr A status))"

section \<open>Condensing targets\<close>

text \<open>The array \<^verbatim>\<open>removed\<close> and the counter \<^verbatim>\<open>num_condensed\<close>, which serves as the initial capacity
  of the result.\<close>

type_synonym removal = "bool list \<times> int"

definition condense_pair ::
  "(cstring \<Rightarrow> cstring \<Rightarrow> cstring) \<Rightarrow> cstring list \<Rightarrow> nat \<Rightarrow> nat \<Rightarrow> removal \<Rightarrow> removal" where
  "condense_pair longest ts i j st =
     (if fst st ! j then st
      else
        let ancestor = longest (ts ! i) (ts ! j) in
        if c_hd ancestor = NUL then st
        else if ancestor = ts ! i then ((fst st)[j := True], snd st - 1)
        else if ancestor = ts ! j then ((fst st)[i := True], snd st - 1)
        else st)"

definition condense_row ::
  "(cstring \<Rightarrow> cstring \<Rightarrow> cstring) \<Rightarrow> cstring list \<Rightarrow> nat \<Rightarrow> removal \<Rightarrow> removal" where
  "condense_row longest ts i st =
     (if fst st ! i then st else fold (condense_pair longest ts i) [i + 1..<length ts] st)"

definition condense_common :: "cstring \<Rightarrow> cstring list \<Rightarrow> nat \<Rightarrow> removal \<Rightarrow> removal" where
  "condense_common pcommon ts i st =
     (if ts ! i = pcommon \<and> \<not> fst st ! i then ((fst st)[i := True], snd st - 1) else st)"

definition condense_removed ::
  "(cstring \<Rightarrow> cstring \<Rightarrow> cstring) \<Rightarrow> cstring \<Rightarrow> cstring list \<Rightarrow> bool list" where
  "condense_removed longest pcommon ts =
     (let st = fold (condense_row longest ts) [0..<length ts] (replicate (length ts) False, int (length ts)) in
      fst (fold (condense_common pcommon ts) [0..<length ts] st))"

definition condense_item :: "cstring \<Rightarrow> cstring \<Rightarrow> cstring" where
  "condense_item pcommon item =
     (let basedir_len = length pcommon in
      if basedir_len > 0 then
        let rel_item = drop basedir_len item in
        if c_at rel_item 0 \<noteq> NUL \<and> \<not> svn_dirent_is_root pcommon basedir_len then drop 1 rel_item else rel_item
      else item)"

definition svn_dirent_condense_targets ::
  "apr \<Rightarrow> cstring list \<Rightarrow> bool \<Rightarrow> bool \<Rightarrow> (cstring option \<times> cstring list option) cres" where
  "svn_dirent_condense_targets A targets want_condensed remove_redundancies =
     (case targets of
        [] \<Rightarrow> Ok (None, None)
      | t # rest \<Rightarrow>
          cbind (svn_dirent_get_absolute A t) (\<lambda>first.
            if rest = [] then Ok (Some first, if want_condensed then Some [] else None)
            else
              cbind (map_res (svn_dirent_get_absolute A) rest) (\<lambda>others.
                let ts = first # others;
                    pcommon = foldl svn_dirent_get_longest_ancestor first others;
                    removed = (if remove_redundancies
                               then condense_removed svn_dirent_get_longest_ancestor pcommon ts
                               else replicate (length ts) False)
                in Ok (Some pcommon,
                       if want_condensed
                       then Some (map (\<lambda>i. condense_item pcommon (ts ! i))
                                    (filter (\<lambda>i. \<not> removed ! i) [0..<length ts]))
                       else None))))"

section \<open>The dot-segment tests\<close>

lemma split_on_has_seg:
  assumes "p \<noteq> []" "slash \<notin> set t"
  shows "t \<in> set (split_on slash p) \<longleftrightarrow>
    prefix (t @ [slash]) (p @ [slash]) \<or> suffix (slash # t) p \<or> sublist (slash # t @ [slash]) p"
  using sublist_flanked [OF assms(1)] split_on_mem [OF assms(2)] by simp

lemma suffix_c_at:
  "suffix [a, b, c] p \<longleftrightarrow>
     3 \<le> length p \<and> c_at p (length p - 3) = a \<and> c_at p (length p - 2) = b \<and> c_at p (length p - 1) = c"
proof
  assume "suffix [a, b, c] p"
  then obtain u where "p = u @ [a, b, c]" by (auto simp: suffix_def)
  then show "3 \<le> length p \<and> c_at p (length p - 3) = a \<and> c_at p (length p - 2) = b \<and> c_at p (length p - 1) = c"
    by (simp add: c_at_def nth_append)
next
  assume *: "3 \<le> length p \<and> c_at p (length p - 3) = a \<and> c_at p (length p - 2) = b \<and> c_at p (length p - 1) = c"
  then obtain m where m: "length p = m + 3" by (metis add.commute le_Suc_ex)
  then have "drop m p = [p ! m, p ! (m + 1), p ! (m + 2)]"
    by (intro nth_equalityI) (auto simp: less_Suc_eq numeral_3_eq_3 nth_Cons')
  then have "drop m p = [a, b, c]" using * m by (simp add: c_at_def)
  then have "p = take m p @ [a, b, c]" by (metis append_take_drop_id)
  then show "suffix [a, b, c] p" by (metis suffixI)
qed

lemma backpath_iff:
  assumes "is_cstring p"
  shows "svn_path_is_backpath_present p \<longleftrightarrow> [dot, dot] \<in> set (split_on slash p)"
proof (cases "length p < 3")
  case True
  then consider "p = []" | x where "p = [x]" | x y where "p = [x, y]"
    by (cases p; cases "tl p"; cases "tl (tl p)") auto
  then show ?thesis
    using assms by cases (auto simp: svn_path_is_backpath_present_def numeral_2_eq_2)
next
  case False
  then obtain a b c q where p: "p = a # b # c # q" by (cases p; cases "tl p"; cases "tl (tl p)") auto
  have ne: "p \<noteq> []" "slash \<notin> set [dot, dot]" by (simp_all add: p)
  have nul: "c_at p 0 \<noteq> NUL" "c_at p 1 \<noteq> NUL" "c_at p 2 \<noteq> NUL"
    using assms by (simp_all add: p numeral_2_eq_2)
  have "svn_path_is_backpath_present p \<longleftrightarrow>
    c_at p 0 = dot \<and> c_at p 1 = dot \<and> c_at p 2 = slash \<or> strstr p ''/../'' \<noteq> None \<or>
    c_at p (length p - 3) = slash \<and> c_at p (length p - 2) = dot \<and> c_at p (length p - 1) = dot"
    unfolding svn_path_is_backpath_present_def Let_def using nul by simp blast
  also have "\<dots> \<longleftrightarrow> prefix ([dot, dot] @ [slash]) (p @ [slash]) \<or> sublist (slash # [dot, dot] @ [slash]) p \<or>
    suffix (slash # [dot, dot]) p"
  proof -
    have "strstr p ''/../'' \<noteq> None \<longleftrightarrow> sublist (slash # [dot, dot] @ [slash]) p" by (simp add: strstr_None)
    moreover have "suffix (slash # [dot, dot]) p \<longleftrightarrow>
      c_at p (length p - 3) = slash \<and> c_at p (length p - 2) = dot \<and> c_at p (length p - 1) = dot"
      using False by (simp add: suffix_c_at)
    moreover have "prefix ([dot, dot] @ [slash]) (p @ [slash]) \<longleftrightarrow> c_at p 0 = dot \<and> c_at p 1 = dot \<and> c_at p 2 = slash"
      by (auto simp: p numeral_2_eq_2)
    ultimately show ?thesis by blast
  qed
  also have "\<dots> \<longleftrightarrow> [dot, dot] \<in> set (split_on slash p)" using split_on_has_seg [OF ne] by blast
  finally show ?thesis .
qed

section \<open>Absolute paths\<close>

text \<open>What the code relies on of the platform: the working directory is an absolute path, and the
  native encoding is UTF-8, so that both conversions copy.\<close>

definition utf8_platform :: "apr \<Rightarrow> bool" where
  "utf8_platform A \<longleftrightarrow>
     (\<forall>s. is_cstring s \<longrightarrow> utf_cstring_from_utf8 A s = Ok s) \<and>
     (\<forall>s. is_cstring s \<longrightarrow> utf_cstring_to_utf8 A s = Ok s) \<and>
     (\<forall>d. getcwd A = Inr d \<longrightarrow> is_cstring d \<and> c_hd d = slash)"

lemma backpath_absolute:
  assumes "merge_backpath flags e path k = Inr (path', k')" "c_hd path = slash" "is_cstring path"
  shows "c_hd path' = slash \<and> is_cstring path'"
proof (cases "length path = 1 \<or> backpathed path")
  case True
  then show ?thesis
    using assms by (cases path) (auto simp: merge_backpath_def Let_def is_cstring_def split: if_splits)
next
  case False
  obtain q where q: "path = slash # q" using assms(2) by (cases path) auto
  have "q \<noteq> []" using False q by auto
  then have "1 \<le> crop path (length path)"
    using crop_spec(3) [of "length path" 1 path] q by simp
  moreover have "path' = take (crop path (length path)) path"
    using assms(1) False by (auto simp: merge_backpath_def Let_def split: if_splits)
  ultimately show ?thesis using q assms(3) by (cases "crop path (length path)") auto
qed

lemma merge_segments_preserves:
  assumes "merge_segments flags addpath path k = Inr (path', k')" "P path" "is_cstring addpath"
    and app: "\<And>p u. P p \<Longrightarrow> is_cstring u \<Longrightarrow> P (p @ u)"
    and dots: "\<And>p e k p' k'. merge_backpath flags e p k = Inr (p', k') \<Longrightarrow> P p \<Longrightarrow> P p'"
  shows "P path'"
  using assms(1-3)
proof (induction addpath arbitrary: path k rule: length_induct)
  case (1 addpath)
  let ?seg = "takeWhile (\<lambda>c. c \<noteq> slash) addpath"
  let ?next = "drop (length ?seg) addpath"
  show ?case
  proof (cases "addpath = []")
    case False
    have short: "length (drop 1 ?next) < length addpath" using False by (cases addpath) auto
    have rest: "is_cstring (drop 1 ?next)" using "1.prems"(3) by (metis is_cstring_drop)
    note IH = "1.IH" [rule_format, OF short]
    let ?s = "take (length ?seg + (if ?next \<noteq> [] then 1 else 0)) addpath"
    have s: "is_cstring ?s" using "1.prems"(3) by simp
    consider (noop) "merge_segments flags (drop 1 ?next) path k = Inr (path', k')"
      | (dots) p l where "merge_backpath flags (?next = []) path k = Inr (p, l)"
          "merge_segments flags (drop 1 ?next) p l = Inr (path', k')"
      | (seg) "merge_segments flags (drop 1 ?next) (path @ ?s) k = Inr (path', k')"
      using "1.prems"(1) [unfolded merge_segments.simps [of flags addpath] Let_def] False
      by (auto split: if_splits sum.splits prod.splits)
    then show ?thesis
    proof cases
      case noop
      then show ?thesis using IH "1.prems"(2) rest by blast
    next
      case dots
      then show ?thesis using IH rest assms(5) "1.prems"(2) by blast
    next
      case seg
      then show ?thesis using IH app [OF "1.prems"(2) s] rest by blast
    qed
  qed (use "1.prems" in \<open>simp add: merge_segments.simps\<close>)
qed

lemma backpath_cstring:
  "merge_backpath flags e p k = Inr (p', k') \<Longrightarrow> is_cstring p \<Longrightarrow> is_cstring p'"
  by (auto simp: merge_backpath_def Let_def split: if_splits)

lemma merge_cstring:
  assumes "merge_segments flags addpath path k = Inr (path', k')" "is_cstring path" "is_cstring addpath"
  shows "is_cstring path'"
  using assms(1,2,3) by (rule merge_segments_preserves) (auto dest: backpath_cstring)

lemma merge_absolute:
  assumes "merge_segments flags addpath path k = Inr (path', k')" "c_hd path = slash"
    and "is_cstring path" "is_cstring addpath"
  shows "c_hd path' = slash \<and> is_cstring path'"
proof (rule merge_segments_preserves [where P = "\<lambda>p. c_hd p = slash \<and> is_cstring p", OF assms(1)])
  fix p u assume "c_hd p = slash \<and> is_cstring p" "is_cstring u"
  then show "c_hd (p @ u) = slash \<and> is_cstring (p @ u)" by (cases p) auto
qed (use assms backpath_absolute in blast)+

lemma merge_notrelative:
  assumes "apr_filepath_merge A None path APR_FILEPATH_NOTRELATIVE = Inr buffer"
    and "is_cstring path" "utf8_platform A"
  shows "c_hd buffer = slash \<and> is_cstring buffer"
proof -
  have f: "has_flag 4 APR_FILEPATH_NOTRELATIVE" "\<not> has_flag 4 APR_FILEPATH_NOTABOVEROOT"
    "\<not> has_flag 4 APR_FILEPATH_NOTABSOLUTE" "\<not> has_flag 4 APR_FILEPATH_SECUREROOTTEST"
    by (simp_all add: has_flag_def)
  show ?thesis
  proof (cases "c_hd path = slash")
    case True
    then obtain k where "merge_segments 4 (dropWhile (\<lambda>c. c = slash) path) [slash] 0 = Inr (buffer, k)"
      using assms(1) f by (auto simp: apr_filepath_merge_def merge_root_def split: if_splits sum.splits prod.splits)
    moreover have "is_cstring (dropWhile (\<lambda>c. c = slash) path)"
      using assms(2) by (simp add: dropWhile_eq_drop)
    ultimately show ?thesis using merge_absolute [of 4 _ "[slash]" 0] by simp
  next
    case False
    then have root: "merge_root A None path 4 = merge_cwd A" using f by (simp add: merge_root_def)
    obtain d where d: "merge_cwd A = Inr d"
      using assms(1) by (cases "merge_cwd A") (auto simp: apr_filepath_merge_def root)
    then have "getcwd A = Inr d" by (auto simp: merge_cwd_def apr_filepath_get_def split: sum.splits if_splits)
    then have abs: "c_hd d = slash" "is_cstring d" using assms(3) by (auto simp: utf8_platform_def)
    let ?d = "if length d \<noteq> 0 \<and> d ! (length d - 1) \<noteq> slash then d @ [slash] else d"
    obtain k where "merge_segments 4 path ?d (length ?d) = Inr (buffer, k)"
      using assms(1) False f unfolding apr_filepath_merge_def root d sum.case Let_def
      by (auto split: if_splits sum.splits prod.splits)
    moreover have "c_hd ?d = slash" "is_cstring ?d" using abs by (cases d; simp)+
    ultimately show ?thesis using merge_absolute assms(2) by blast
  qed
qed

lemma get_absolute_canonical:
  assumes "svn_dirent_get_absolute A relative = Ok p" "is_cstring relative" "utf8_platform A"
  shows "\<exists>xs. good_segs xs \<and> p = render (True, xs)"
proof -
  have conv: "svn_path_cstring_from_utf8 A s = Ok s" "svn_path_cstring_to_utf8 A s = Ok s" if "is_cstring s" for s
    using that assms(3)
    by (simp_all add: svn_path_cstring_from_utf8_def svn_path_cstring_to_utf8_def get_path_encoding_def
        apr_filepath_encoding_def utf8_platform_def)
  show ?thesis
  proof (cases "apr_filepath_merge A None relative APR_FILEPATH_NOTRELATIVE")
    case (Inl e)
    then have "p = relative" "svn_dirent_is_absolute relative" "svn_dirent_is_canonical relative"
      using assms(1,2) by (auto simp: svn_dirent_get_absolute_def conv asserting_Ok_iff split: if_splits)
    then show ?thesis
      using assms(2) dirent_canonical_iff [of relative] segments_good [of relative]
      by (auto simp: svn_dirent_is_absolute_def c_hd_at simp del: render_simps)
  next
    case (Inr buffer)
    note abs = merge_notrelative [OF this assms(2,3)]
    then have "svn_dirent_canonicalize buffer = Ok p"
      using assms(1,2) Inr by (auto simp: svn_dirent_get_absolute_def conv asserting_Ok_iff)
    then show ?thesis
      using abs dirent_canonicalize_eq [of buffer] segments_good [of buffer] by (auto simp del: render_simps)
  qed
qed

lemma merge_some_cstring:
  assumes "apr_filepath_merge A (Some base) path 3 = Inr full" "is_cstring base" "is_cstring path"
  shows "is_cstring full"
proof -
  have flag: "has_flag 3 APR_FILEPATH_SECUREROOTTEST" "\<not> has_flag 3 APR_FILEPATH_NOTABSOLUTE"
    by (simp_all add: has_flag_def)
  have rel: "c_hd path \<noteq> slash"
    using assms flag by (auto simp: apr_filepath_merge_def merge_root_def)
  then have mr: "merge_root A (Some base) path 3 = Inr base" using flag by (simp add: merge_root_def)
  let ?d = "if length base \<noteq> 0 \<and> base ! (length base - 1) \<noteq> slash then base @ [slash] else base"
  obtain k where "merge_segments 3 path ?d (length ?d) = Inr (full, k)"
    using assms(1) rel unfolding apr_filepath_merge_def mr sum.case Let_def
    by (auto split: if_splits sum.splits prod.splits)
  moreover have "is_cstring ?d" using assms(2) by simp
  ultimately show ?thesis using merge_cstring assms(3) by blast
qed

lemma segments_append_slash: "segments (u @ slash # t) = segments u @ segments t"
  by (simp add: segments_def split_on_append_sep)

lemma segments_continue:
  "segments (base @ (if closed base then [] else [slash]) @ t) = segments base @ segments t"
proof (cases "closed base")
  case True
  show ?thesis
  proof (cases base rule: rev_cases)
    case (snoc u c)
    then have "base = u @ [slash]" using True by (simp add: closed_def)
    then show ?thesis
      using True segments_append_slash [of u t] segments_append_slash [of u "[]"]
      by (simp add: segments_def [of "[]"] kept_def)
  qed (simp add: closed_def segments_def [of "[]"] kept_def)
qed (simp add: segments_append_slash)

section \<open>Properties of absolute paths\<close>

text \<open>The test for a backpath, which looks at the ends of the path and searches for \<^verbatim>\<open>/../\<close>,
  answers whether one of the segments is \<^verbatim>\<open>..\<close>.\<close>

theorem backpath_present_iff:
  assumes "is_cstring p"
  shows "svn_path_is_backpath_present p \<longleftrightarrow> ''..'' \<in> set (split_on slash p)"
  using backpath_iff [OF assms] by simp

text \<open>C16. When \<^verbatim>\<open>svn_dirent_is_under_root\<close> answers yes, the path it returns is the canonical base
  followed by segments none of which is \<^verbatim>\<open>..\<close>: no path, whatever backpaths it has, escapes from
  its root.\<close>

theorem under_root_is_below:
  assumes "is_cstring base" "is_cstring path" "svn_dirent_is_canonical base"
    and "svn_dirent_is_under_root A base path = Ok (True, Some r)"
  shows "\<exists>rel. svn_dirent_skip_ancestor base r = Some rel \<and> \<not> svn_path_is_backpath_present rel"
proof -
  have or3: "or 1 2 = (3 :: nat)" by simp
  obtain full where m: "apr_filepath_merge A (Some base) path 3 = Inr full"
    and r: "svn_dirent_canonicalize full = Ok r"
    using assms(4) unfolding svn_dirent_is_under_root_def or3
    by (auto simp: cbind_Ok_iff split: sum.splits apr_status.splits)
  obtain t where full: "full = base @ (if closed base then [] else [slash]) @ t" and t: "no_backpath t"
    using secure_root [OF m] by blast
  have c: "is_cstring full"
    using m assms(1,2) by (rule merge_some_cstring)
  have "is_cstring t" using c full by simp
  have segs: "segments full = segments base @ segments t"
    unfolding full by (rule segments_continue)
  have hd: "c_hd full = slash \<longleftrightarrow> c_hd base = slash"
    using t full by (cases base) (auto simp: no_backpath_def closed_def)
  have b: "base = render (c_hd base = slash, segments base)" using dirent_canonical_iff assms(1,3) by blast
  have good: "good_segs (segments base)" "good_segs (segments full)" "good_segs (segments t)"
    using segments_good assms(1) c \<open>is_cstring t\<close> by auto
  have "r = render (c_hd full = slash, segments full)" using r dirent_canonicalize_eq [OF c] by simp
  then have skip: "svn_dirent_skip_ancestor base r = Some (J (segments t))"
    using dirent_skip_render [OF good(1,2), of "c_hd base = slash" "c_hd full = slash"] b hd segs by simp
  have "''..'' \<notin> set (split_on slash (J (segments t)))"
  proof (cases "segments t = []")
    case False
    then show ?thesis
      using join_no_slash [OF good(3)] t by (auto simp: no_backpath_def segments_def)
  qed simp
  then show ?thesis
    using skip backpath_iff [OF is_cstring_join [OF good(3)]] by auto
qed

text \<open>A platform to evaluate the functions on.\<close>

definition demo_apr :: apr where
  "demo_apr =
     \<lparr>getcwd = Inr ''/w'', path_max = 4096, utf_cstring_from_utf8 = Ok, utf_cstring_to_utf8 = Ok,
      wrap_apr = (\<lambda>_. svn_error_create (SVN_ERR_APR 0) [])\<rparr>"

lemma demo_apr_platform: "utf8_platform demo_apr"
  by (simp add: utf8_platform_def demo_apr_def)

theorem under_root_is_below_witness:
  "\<exists>rel. svn_dirent_skip_ancestor ''/r'' ''/r/b'' = Some rel \<and> \<not> svn_path_is_backpath_present rel"
proof -
  have "svn_dirent_is_under_root demo_apr ''/r'' ''a/../b'' = Ok (True, Some ''/r/b'')" by code_simp
  moreover have "svn_dirent_is_canonical ''/r''" by (simp add: dirent_canonical_iff segments_def kept_def)
  ultimately show ?thesis using under_root_is_below [of "''/r''" "''a/../b''" demo_apr "''/r/b''"] by simp
qed

text \<open>Every path \<^verbatim>\<open>svn_dirent_get_absolute\<close> returns is canonical and absolute.\<close>

theorem get_absolute_is_absolute:
  assumes "svn_dirent_get_absolute A relative = Ok p" "is_cstring relative" "utf8_platform A"
  shows "svn_dirent_is_canonical p \<and> svn_dirent_is_absolute p"
  using get_absolute_canonical [OF assms] canonical_dirent [of _ True]
  by (auto simp: svn_dirent_is_absolute_def)

section \<open>Condensing absolute targets\<close>

text \<open>Canonical absolute dirents and their ancestor order.\<close>

definition absolute :: "cstring \<Rightarrow> bool" where
  "absolute t \<longleftrightarrow> good_segs (segments t) \<and> t = render (True, segments t)"

abbreviation (input) LA :: "cstring \<Rightarrow> cstring \<Rightarrow> cstring" where
  "LA \<equiv> svn_dirent_get_longest_ancestor"

lemma absolute_render [simp]: "good_segs xs \<Longrightarrow> absolute (render (True, xs))"
  using segments_render [of "(True, xs)"] by (simp add: absolute_def)

lemma absoluteE:
  assumes "absolute t"
  obtains xs where "good_segs xs" "t = render (True, xs)" "segments t = xs"
  using assms by (auto simp: absolute_def)

lemma LA_absolute: "absolute a \<Longrightarrow> absolute b \<Longrightarrow> LA a b = render (True, lcp (segments a) (segments b))"
  using dirent_ancestor_render [of "segments a" "segments b" True True] by (simp add: absolute_def)

lemma LA_closed: "absolute a \<Longrightarrow> absolute b \<Longrightarrow> absolute (LA a b)"
  by (simp add: LA_absolute absolute_def [of a] del: render_simps)

lemma LA_left: "absolute a \<Longrightarrow> absolute b \<Longrightarrow> LA a b = a \<longleftrightarrow> prefix (segments a) (segments b)"
  by (metis LA_absolute absolute_def good_segs_lcp lcp_absorb render_inj snd_conv prod.inject)

lemma LA_right: "absolute a \<Longrightarrow> absolute b \<Longrightarrow> LA a b = b \<longleftrightarrow> prefix (segments b) (segments a)"
  by (metis LA_absolute LA_left lcp_comm)

lemma ancestor_absolute:
  "absolute a \<Longrightarrow> absolute b \<Longrightarrow> svn_dirent_is_ancestor a b \<longleftrightarrow> prefix (segments a) (segments b)"
  using dirent_skip_render [of "segments a" "segments b" True True]
  by (simp add: absolute_def svn_dirent_is_ancestor_def)

lemma absolute_inj: "absolute a \<Longrightarrow> absolute b \<Longrightarrow> segments a = segments b \<longleftrightarrow> a = b"
  by (metis absolute_def)

lemma fold_establish:
  assumes "\<And>x st. x \<in> set xs \<Longrightarrow> I st \<Longrightarrow> I (f x st) \<and> Q x (f x st)"
    and "\<And>x y st. x \<in> set xs \<Longrightarrow> I st \<Longrightarrow> Q y st \<Longrightarrow> Q y (f x st)"
    and "I st"
  shows "I (fold f xs st) \<and> (\<forall>x \<in> set xs. Q x (fold f xs st)) \<and> (\<forall>y. Q y st \<longrightarrow> Q y (fold f xs st))"
  using assms
proof (induction xs arbitrary: st)
  case (Cons x xs)
  have I: "I (f x st)" and Q: "Q x (f x st)" using Cons.prems by auto
  have "I (fold f xs (f x st)) \<and> (\<forall>z \<in> set xs. Q z (fold f xs (f x st))) \<and>
    (\<forall>y. Q y (f x st) \<longrightarrow> Q y (fold f xs (f x st)))"
    by (rule Cons.IH) (use Cons.prems I in auto)
  then show ?case using Q Cons.prems by auto
qed simp

text \<open>The state of the first pass: an entry is never removed when it is the first one with a topmost
  value.\<close>

definition first_top :: "cstring list \<Rightarrow> nat \<Rightarrow> bool" where
  "first_top ts k \<longleftrightarrow>
     (\<forall>i < length ts. svn_dirent_is_ancestor (ts ! i) (ts ! k) \<longrightarrow> ts ! i = ts ! k) \<and>
     (\<forall>i < k. ts ! i \<noteq> ts ! k)"

definition removal_ok :: "cstring list \<Rightarrow> removal \<Rightarrow> bool" where
  "removal_ok ts st \<longleftrightarrow>
     length (fst st) = length ts \<and> (\<forall>k < length ts. first_top ts k \<longrightarrow> \<not> fst st ! k)"

definition settled :: "cstring list \<Rightarrow> nat \<Rightarrow> nat \<Rightarrow> removal \<Rightarrow> bool" where
  "settled ts i j st \<longleftrightarrow> fst st ! i \<or> fst st ! j \<or>
     \<not> svn_dirent_is_ancestor (ts ! i) (ts ! j) \<and> \<not> svn_dirent_is_ancestor (ts ! j) (ts ! i)"

lemma set_flag_mono: "xs ! k \<Longrightarrow> xs[j := True] ! k"
  by (cases "j < length xs"; cases "k = j") (simp_all add: list_update_beyond)

lemma condense_pair_mono: "fst st ! k \<Longrightarrow> fst (condense_pair L ts i j st) ! k"
  by (auto simp: condense_pair_def Let_def set_flag_mono)

lemma condense_pair_length: "length (fst (condense_pair L ts i j st)) = length (fst st)"
  by (simp add: condense_pair_def Let_def)

lemma condense_pair_ok:
  assumes "\<forall>t \<in> set ts. absolute t" "i < j" "j < length ts" "removal_ok ts st"
  shows "removal_ok ts (condense_pair LA ts i j st) \<and> settled ts i j (condense_pair LA ts i j st)"
proof -
  have abs: "absolute (ts ! i)" "absolute (ts ! j)" using assms by auto
  have len: "length (fst st) = length ts" using assms(4) by (simp add: removal_ok_def)
  note left = LA_left [OF abs] ancestor_absolute [OF abs]
  note right = LA_right [OF abs] ancestor_absolute [OF abs(2,1)]
  have nonempty: "c_hd (LA (ts ! i) (ts ! j)) \<noteq> NUL" using LA_absolute [OF abs] by simp
  consider (gone) "fst st ! j" | (down) "\<not> fst st ! j" "svn_dirent_is_ancestor (ts ! i) (ts ! j)"
    | (up) "\<not> fst st ! j" "\<not> svn_dirent_is_ancestor (ts ! i) (ts ! j)" "svn_dirent_is_ancestor (ts ! j) (ts ! i)"
    | (apart) "\<not> fst st ! j" "\<not> svn_dirent_is_ancestor (ts ! i) (ts ! j)" "\<not> svn_dirent_is_ancestor (ts ! j) (ts ! i)"
    by blast
  then show ?thesis
  proof cases
    case gone
    then show ?thesis using assms(4) by (simp add: condense_pair_def settled_def)
  next
    case down
    then have "condense_pair LA ts i j st = ((fst st)[j := True], snd st - 1)"
      using nonempty left by (simp add: condense_pair_def Let_def)
    moreover have "\<not> first_top ts j" using down(2) assms(2,3) by (auto simp: first_top_def)
    ultimately show ?thesis
      using assms(3,4) len by (auto simp: removal_ok_def settled_def nth_list_update)
  next
    case up
    then have "condense_pair LA ts i j st = ((fst st)[i := True], snd st - 1)"
      using nonempty left right by (simp add: condense_pair_def Let_def)
    moreover have "\<not> first_top ts i" using up(2,3) assms(2,3) by (auto simp: first_top_def)
    ultimately show ?thesis
      using assms(2,3,4) len by (auto simp: removal_ok_def settled_def nth_list_update)
  next
    case apart
    then have "condense_pair LA ts i j st = st"
      using left right by (simp add: condense_pair_def Let_def)
    then show ?thesis using apart assms(4) by (simp add: settled_def)
  qed
qed

lemma condense_row_ok:
  assumes "\<forall>t \<in> set ts. absolute t" "i < length ts" "removal_ok ts st"
  shows "removal_ok ts (condense_row LA ts i st) \<and> (\<forall>j. i < j \<and> j < length ts \<longrightarrow> settled ts i j (condense_row LA ts i st)) \<and>
    (\<forall>k l. settled ts k l st \<longrightarrow> settled ts k l (condense_row LA ts i st))"
proof (cases "fst st ! i")
  case True
  then show ?thesis using assms(3) by (simp add: condense_row_def settled_def)
next
  case False
  let ?f = "condense_pair LA ts i" and ?js = "[i + 1..<length ts]"
  have mono: "settled ts k l st' \<Longrightarrow> settled ts k l (?f j st')" for k l j st'
    by (auto simp: settled_def condense_pair_mono)
  have "removal_ok ts (fold ?f ?js st) \<and> (\<forall>j \<in> set ?js. settled ts i j (fold ?f ?js st)) \<and>
      (\<forall>j. settled ts i j st \<longrightarrow> settled ts i j (fold ?f ?js st))"
    by (rule fold_establish) (use assms condense_pair_ok mono in auto)
  moreover have "settled ts k l (fold ?f js st')" if "settled ts k l st'" for k l js st'
    using that by (induction js arbitrary: st') (auto simp: mono)
  ultimately show ?thesis using False by (auto simp: condense_row_def)
qed

lemma condense_rows_ok:
  assumes "\<forall>t \<in> set ts. absolute t"
  defines "st \<equiv> fold (condense_row LA ts) [0..<length ts] (replicate (length ts) False, int (length ts))"
  shows "removal_ok ts st \<and> (\<forall>i j. i < j \<and> j < length ts \<longrightarrow> settled ts i j st)"
proof -
  let ?Q = "\<lambda>i st. \<forall>j. i < j \<and> j < length ts \<longrightarrow> settled ts i j st"
  let ?st = "(replicate (length ts) False, int (length ts))"
  have "removal_ok ts st \<and> (\<forall>i \<in> set [0..<length ts]. ?Q i st) \<and> (\<forall>i. ?Q i ?st \<longrightarrow> ?Q i st)"
    unfolding st_def
  proof (rule fold_establish)
    show "removal_ok ts ?st" by (simp add: removal_ok_def)
  next
    fix i st' assume "i \<in> set [0..<length ts]" "removal_ok ts st'"
    then show "removal_ok ts (condense_row LA ts i st') \<and> ?Q i (condense_row LA ts i st')"
      using condense_row_ok [OF assms(1), of i st'] by auto
  next
    fix i k st' assume "i \<in> set [0..<length ts]" "removal_ok ts st'" "?Q k st'"
    then show "?Q k (condense_row LA ts i st')" using condense_row_ok [OF assms(1), of i st'] by auto
  qed
  then show ?thesis by auto
qed

lemma condense_common_fold:
  assumes "length (fst st) = length ts" "k < length ts"
  shows "fst (fold (condense_common c ts) is st) ! k \<longleftrightarrow> fst st ! k \<or> k \<in> set is \<and> ts ! k = c"
  using assms
proof (induction "is" arbitrary: st)
  case (Cons i "is")
  have "length (fst (condense_common c ts i st)) = length ts" using Cons.prems by (simp add: condense_common_def)
  moreover have "fst (condense_common c ts i st) ! k \<longleftrightarrow> fst st ! k \<or> k = i \<and> ts ! k = c"
    using Cons.prems by (cases "k = i") (auto simp: condense_common_def)
  ultimately show ?case using Cons.IH [of "condense_common c ts i st"] Cons.prems(2) by auto
qed simp

text \<open>What is kept: no kept target lies below another, and every target lies below a kept one, unless
  the common ancestor is itself a target.\<close>

lemma top_exists:
  assumes "\<forall>t \<in> set ts. absolute t" "j < length ts"
  obtains k where "k < length ts" "first_top ts k" "svn_dirent_is_ancestor (ts ! k) (ts ! j)"
proof -
  let ?P = "\<lambda>k. k < length ts \<and> svn_dirent_is_ancestor (ts ! k) (ts ! j)"
  have abs: "i < length ts \<Longrightarrow> absolute (ts ! i)" for i using assms(1) by auto
  have anc: "svn_dirent_is_ancestor (ts ! i) (ts ! k) \<longleftrightarrow> prefix (segments (ts ! i)) (segments (ts ! k))"
    if "i < length ts" "k < length ts" for i k using that abs by (simp add: ancestor_absolute)
  have "?P j" using anc assms(2) by simp
  define m where "m = Min ((\<lambda>k. length (segments (ts ! k))) ` {k. ?P k})"
  have fin: "finite ((\<lambda>k. length (segments (ts ! k))) ` {k. ?P k})" by simp
  have "m \<in> (\<lambda>k. length (segments (ts ! k))) ` {k. ?P k}"
    unfolding m_def using fin \<open>?P j\<close> by (intro Min_in) auto
  then have "\<exists>k. ?P k \<and> length (segments (ts ! k)) = m" by auto
  then obtain k where k: "?P k" "length (segments (ts ! k)) = m"
    and first: "\<And>i. i < k \<Longrightarrow> \<not> (?P i \<and> length (segments (ts ! i)) = m)"
    using exists_least_iff [of "\<lambda>k. ?P k \<and> length (segments (ts ! k)) = m"] by blast
  have least: "m \<le> length (segments (ts ! i))" if "?P i" for i
    unfolding m_def using fin that by (intro Min_le) auto
  have "first_top ts k"
    unfolding first_top_def
  proof (intro conjI allI impI)
    fix i assume i: "i < length ts" "svn_dirent_is_ancestor (ts ! i) (ts ! k)"
    have pre: "prefix (segments (ts ! i)) (segments (ts ! k))" using anc i k(1) by blast
    moreover have "?P i" using i k(1) assms(2) anc prefix_order.trans by blast
    ultimately have "segments (ts ! i) = segments (ts ! k)"
      using least k(2) by (metis prefix_length_le prefix_length_less le_antisym not_less prefix_order.le_less)
    then show "ts ! i = ts ! k" using absolute_inj abs i(1) k(1) by blast
  next
    fix i assume "i < k"
    then show "ts ! i \<noteq> ts ! k" using first [of i] k by auto
  qed
  then show ?thesis using that k(1) by blast
qed

lemma condense_removed_ok:
  fixes c :: cstring
  assumes "\<forall>t \<in> set ts. absolute t"
  defines "removed \<equiv> condense_removed LA c ts"
  shows "\<And>i j. i < length ts \<Longrightarrow> j < length ts \<Longrightarrow> i \<noteq> j \<Longrightarrow> \<not> removed ! i \<Longrightarrow> \<not> removed ! j \<Longrightarrow>
      \<not> svn_dirent_is_ancestor (ts ! i) (ts ! j)"
    and "\<And>j. j < length ts \<Longrightarrow> c \<notin> set ts \<Longrightarrow>
      \<exists>k < length ts. \<not> removed ! k \<and> svn_dirent_is_ancestor (ts ! k) (ts ! j)"
proof -
  let ?st = "fold (condense_row LA ts) [0..<length ts] (replicate (length ts) False, int (length ts))"
  note rows = condense_rows_ok [OF assms(1)]
  have len: "length (fst ?st) = length ts" using rows by (simp add: removal_ok_def)
  have rem: "removed ! k \<longleftrightarrow> fst ?st ! k \<or> ts ! k = c" if "k < length ts" for k
    using condense_common_fold [OF len that, of c "[0..<length ts]"] that
    by (simp add: removed_def condense_removed_def Let_def)
  show "\<not> svn_dirent_is_ancestor (ts ! i) (ts ! j)"
    if "i < length ts" "j < length ts" "i \<noteq> j" "\<not> removed ! i" "\<not> removed ! j" for i j
    using that rem rows unfolding settled_def by (metis linorder_neqE_nat)
  show "\<exists>k < length ts. \<not> removed ! k \<and> svn_dirent_is_ancestor (ts ! k) (ts ! j)"
    if j: "j < length ts" "c \<notin> set ts" for j
  proof -
    obtain k where k: "k < length ts" "first_top ts k" "svn_dirent_is_ancestor (ts ! k) (ts ! j)"
      using top_exists [OF assms(1) j(1)] by blast
    then have "\<not> fst ?st ! k" using rows by (simp add: removal_ok_def)
    moreover have "ts ! k \<noteq> c" using j(2) k(1) nth_mem by blast
    ultimately show ?thesis using k rem by blast
  qed
qed

lemma foldl_LA:
  assumes "absolute a" "\<forall>t \<in> set ts. absolute t"
  shows "absolute (foldl LA a ts) \<and> (\<forall>t \<in> set (a # ts). prefix (segments (foldl LA a ts)) (segments t))"
  using assms
proof (induction ts arbitrary: a)
  case (Cons t ts)
  have abs: "absolute (LA a t)" using Cons.prems LA_closed by simp
  have seg: "segments (LA a t) = lcp (segments a) (segments t)"
    using Cons.prems LA_absolute [of a t] segments_render [of "(True, lcp (segments a) (segments t))"]
    by (simp add: absolute_def del: render_simps)
  from Cons.IH [OF abs] Cons.prems have IH:
    "absolute (foldl LA (LA a t) ts)" "prefix (segments (foldl LA (LA a t) ts)) (lcp (segments a) (segments t))"
    "\<forall>u \<in> set ts. prefix (segments (foldl LA (LA a t) ts)) (segments u)"
    by (auto simp: seg)
  then show ?case using lcp_prefix1 lcp_prefix2 prefix_order.trans by fastforce
qed simp

lemma condense_item_join:
  assumes "absolute c" "absolute t" "prefix (segments c) (segments t)"
  shows "svn_dirent_join c (condense_item c t) = Ok t"
proof -
  obtain xs where c: "good_segs xs" "c = render (True, xs)" "segments c = xs" using assms(1) by (rule absoluteE)
  obtain ys where t: "good_segs ys" "t = render (True, ys)" "segments t = ys" using assms(2) by (rule absoluteE)
  obtain zs where ys: "ys = xs @ zs" using assms(3) c t by (auto simp: prefix_def)
  have zs: "good_segs zs" using t(1) ys by simp
  have "condense_item c t = J zs"
  proof (cases "xs = []")
    case True
    then show ?thesis by (simp add: condense_item_def Let_def c t ys svn_dirent_is_root_def)
  next
    case False
    have root: "\<not> svn_dirent_is_root c (length c)"
      using c False join_with_empty [of xs] by (simp add: svn_dirent_is_root_def)
    show ?thesis
      using False root
      by (cases "zs = []") (simp_all add: condense_item_def Let_def c t ys J_append)
  qed
  then show ?thesis using dirent_join_render [OF c(1) zs, of True] c t ys by simp
qed

lemma map_res_absolute:
  assumes "map_res (svn_dirent_get_absolute A) targets = Ok ts" "\<forall>t \<in> set targets. is_cstring t" "utf8_platform A"
  shows "\<forall>t \<in> set ts. absolute t"
  using assms(1,2)
proof (induction targets arbitrary: ts)
  case (Cons t targets)
  then obtain u us where us: "svn_dirent_get_absolute A t = Ok u" "map_res (svn_dirent_get_absolute A) targets = Ok us"
    "ts = u # us" by (auto simp: cbind_Ok_iff)
  have "absolute u" using get_absolute_canonical [OF us(1) _ assms(3)] Cons.prems(2) by (auto simp del: render_simps)
  then show ?case using Cons.IH [OF us(2)] Cons.prems(2) us(3) by simp
qed simp

text \<open>The result of the whole function, for more than one target.\<close>

lemma condense_unfold:
  assumes "svn_dirent_condense_targets A targets True red = Ok (Some c, Some items)"
    and "1 < length targets" "\<forall>t \<in> set targets. is_cstring t" "utf8_platform A"
  obtains ts where "map_res (svn_dirent_get_absolute A) targets = Ok ts" "\<forall>t \<in> set ts. absolute t"
    "absolute c" "\<forall>t \<in> set ts. prefix (segments c) (segments t)"
    "items = map (\<lambda>i. condense_item c (ts ! i)) (filter (\<lambda>i. \<not> (red \<and> condense_removed LA c ts ! i)) [0..<length ts])"
proof -
  obtain t rest where targets: "targets = t # rest" "rest \<noteq> []" using assms(2) by (cases targets) auto
  obtain a others where ao: "svn_dirent_get_absolute A t = Ok a" "map_res (svn_dirent_get_absolute A) rest = Ok others"
    using assms(1) targets by (auto simp: svn_dirent_condense_targets_def cbind_Ok_iff)
  let ?ts = "a # others"
  have ts: "map_res (svn_dirent_get_absolute A) targets = Ok ?ts" using ao targets by simp
  have abs: "\<forall>t \<in> set ?ts. absolute t" using map_res_absolute [OF ts assms(3,4)] .
  have c: "c = foldl LA a others"
    and items: "items = map (\<lambda>i. condense_item c (?ts ! i))
      (filter (\<lambda>i. \<not> (if red then condense_removed LA c ?ts else replicate (length ?ts) False) ! i) [0..<length ?ts])"
    using assms(1) targets ao by (auto simp: svn_dirent_condense_targets_def Let_def)
  have "filter (\<lambda>i. \<not> (if red then condense_removed LA c ?ts else replicate (length ?ts) False) ! i) [0..<length ?ts] =
    filter (\<lambda>i. \<not> (red \<and> condense_removed LA c ?ts ! i)) [0..<length ?ts]"
    by (rule filter_cong) (simp_all add: less_Suc_eq del: replicate.simps replicate_Suc length_Cons upt_Suc)
  then show ?thesis
    using that [OF ts abs] foldl_LA [of a others] abs c items by auto
qed

text \<open>Condensing more than one target returns a common ancestor of all of them, and joining it with
  a returned relative target gives the absolute path of one of the targets; without the removal of
  redundancies these are all the targets, in their order.\<close>

theorem condense_targets_rejoin:
  assumes "svn_dirent_condense_targets A targets True red = Ok (Some c, Some items)"
    and "1 < length targets" "\<forall>t \<in> set targets. is_cstring t" "utf8_platform A"
  shows "\<exists>ts. map_res (svn_dirent_get_absolute A) targets = Ok ts \<and>
    (\<forall>t \<in> set ts. svn_dirent_is_ancestor c t) \<and>
    (\<forall>x \<in> set items. \<exists>t \<in> set ts. svn_dirent_join c x = Ok t) \<and>
    (\<not> red \<longrightarrow> map_res (svn_dirent_join c) items = Ok ts)"
proof -
  obtain ts where ts: "map_res (svn_dirent_get_absolute A) targets = Ok ts" "\<forall>t \<in> set ts. absolute t"
    "absolute c" "\<forall>t \<in> set ts. prefix (segments c) (segments t)"
    "items = map (\<lambda>i. condense_item c (ts ! i)) (filter (\<lambda>i. \<not> (red \<and> condense_removed LA c ts ! i)) [0..<length ts])"
    using condense_unfold [OF assms] by blast
  have join: "svn_dirent_join c (condense_item c t) = Ok t" if "t \<in> set ts" for t
    using condense_item_join ts that by blast
  have "map_res (svn_dirent_join c) (map (condense_item c) us) = Ok us" if "set us \<subseteq> set ts" for us
    using that by (induction us) (simp_all add: join)
  moreover have "\<not> red \<Longrightarrow> items = map (condense_item c) ts"
    using ts(5) map_nth [of ts] by (metis (no_types, lifting) filter_True list.map_comp map_eq_conv o_apply)
  ultimately have "\<not> red \<longrightarrow> map_res (svn_dirent_join c) items = Ok ts" by simp
  moreover have "\<forall>x \<in> set items. \<exists>t \<in> set ts. svn_dirent_join c x = Ok t"
    unfolding ts(5) using join by (auto intro: nth_mem)
  moreover have "\<forall>t \<in> set ts. svn_dirent_is_ancestor c t" using ts(2-4) ancestor_absolute by blast
  ultimately show ?thesis using ts(1) by blast
qed

lemma condense_removed_all:
  assumes "\<forall>t \<in> set ts. absolute t" "c \<in> set ts" "\<forall>t \<in> set ts. svn_dirent_is_ancestor c t" "k < length ts"
  shows "condense_removed LA c ts ! k"
proof -
  let ?st = "fold (condense_row LA ts) [0..<length ts] (replicate (length ts) False, int (length ts))"
  note rows = condense_rows_ok [OF assms(1)]
  have len: "length (fst ?st) = length ts" using rows by (simp add: removal_ok_def)
  obtain m where m: "m < length ts" "first_top ts m" "svn_dirent_is_ancestor (ts ! m) c"
    using top_exists [OF assms(1)] assms(2) by (metis in_set_conv_nth)
  have "ts ! m = c" using m(1,2) assms(2,3) by (metis first_top_def in_set_conv_nth nth_mem)
  then have "svn_dirent_is_ancestor (ts ! m) (ts ! k)" using assms(3,4) by simp
  moreover have "\<not> fst ?st ! m" using m rows by (simp add: removal_ok_def)
  ultimately have "k = m \<or> fst ?st ! k"
    using rows m(1) assms(4) unfolding settled_def by (metis linorder_neqE_nat)
  then show ?thesis
    using condense_common_fold [OF len assms(4), of c "[0..<length ts]"] \<open>ts ! m = c\<close> assms(4)
    by (auto simp: condense_removed_def Let_def)
qed


lemma demo_condense:
  "svn_dirent_condense_targets demo_apr [''a/b'', ''a'', ''c''] True True = Ok (Some ''/w'', Some [''a'', ''c''])"
  by code_simp


end
