(* ===== verification/Dirent_Uri.thy ===== *)
theory Dirent_Uri
  imports Dirent_Abs "HOL-Library.Word"
begin

text \<open>
  The URI functions of \<^verbatim>\<open>dirent_uri.c\<close>: the canonical test and the canonicalizing of URIs, their
  directory, base name, ancestors and relative parts, condensing, the conversion between file URLs
  and dirents, and the match of a certificate name with a host name.
\<close>

section \<open>Roots and previous segments of URIs\<close>

definition uri_schema_root_length :: "cstring \<Rightarrow> nat \<Rightarrow> nat" where
  "uri_schema_root_length uri len =
     (case strchr (take len uri) slash of
        None \<Rightarrow> 0
      | Some i \<Rightarrow>
          if i > 0 \<and> c_at uri (i - 1) = CHR '':'' \<and> i < len - 1 \<and> c_at uri (i + 1) = slash then
            if i = 5 \<and> strncmp_eq ''file'' uri 4 then 7
            else
              (case strchr (drop (i + 2) (take len uri)) slash of
                 Some k \<Rightarrow> i + 2 + k
               | None \<Rightarrow> len)
          else 0)"

text \<open>The loop of \<^verbatim>\<open>uri_previous_segment\<close> tests \<^verbatim>\<open>len\<close>, which does not change, and not \<^verbatim>\<open>i\<close>: without
  a slash it runs past the start of the string.\<close>

fun uri_back :: "cstring \<Rightarrow> nat \<Rightarrow> nat cres" where
  "uri_back uri 0 = (if c_at uri 0 \<noteq> slash then Overrun else Ok 0)"
| "uri_back uri (Suc i) = (if c_at uri (Suc i) \<noteq> slash then uri_back uri i else Ok (Suc i))"

definition uri_previous_segment :: "cstring \<Rightarrow> nat \<Rightarrow> nat cres" where
  "uri_previous_segment uri len =
     (if len = 0 then Ok 0
      else
        let root_length = uri_schema_root_length uri len in
        cbind (if len > root_length then uri_back uri (len - 1) else Ok (len - 1)) (\<lambda>i.
          if i = 0 \<and> len > 1 \<and> c_at uri 0 = slash then Ok 1 else Ok i))"

section \<open>Canonical URIs\<close>

definition upper_letter :: "char \<Rightarrow> bool" where
  "upper_letter c \<longleftrightarrow> (let n = (of_char c :: nat) in 65 \<le> n \<and> n \<le> 90)"

definition ascii_digit :: "char \<Rightarrow> bool" where
  "ascii_digit c \<longleftrightarrow> (let n = (of_char c :: nat) in 48 \<le> n \<and> n \<le> 57)"

definition lower_host_char :: "char \<Rightarrow> bool" where
  "lower_host_char c \<longleftrightarrow> c = CHR '':'' \<or> ascii_digit c \<or> (let n = (of_char c :: nat) in 97 \<le> n \<and> n \<le> 102)"

definition upper_xdigit :: "char \<Rightarrow> bool" where
  "upper_xdigit c \<longleftrightarrow> ascii_digit c \<or> (let n = (of_char c :: nat) in 65 \<le> n \<and> n \<le> 70)"

text \<open>The host, from the offset \<open>seg\<close> on: the offset after it, None when the URI is not canonical.\<close>

definition uri_host_end :: "cstring \<Rightarrow> nat \<Rightarrow> nat option" where
  "uri_host_end uri seg =
     (if c_at uri seg = CHR ''['' then
        let ptr = seg + 1 + length (takeWhile lower_host_char (drop (seg + 1) uri)) in
        if c_at uri ptr \<noteq> CHR '']'' then None else Some (ptr + 1)
      else
        let h = takeWhile (\<lambda>c. c \<noteq> slash \<and> c \<noteq> CHR '':'') (drop seg uri) in
        if list_ex upper_letter h then None else Some (seg + length h))"

text \<open>The port; \<^verbatim>\<open>apr_int64_t port\<close> wraps.\<close>

definition uri_port :: "string \<Rightarrow> 64 word" where
  "uri_port ds = foldl (\<lambda>port c. 10 * port + of_nat (of_char c - 48)) 0 ds"

definition uri_port_end :: "cstring \<Rightarrow> nat \<Rightarrow> nat option" where
  "uri_port_end uri ptr =
     (if c_at uri ptr = CHR '':'' then
        let schema_data = ptr + 1; ds = takeWhile ascii_digit (drop schema_data uri);
            port = uri_port ds; ptr = schema_data + length ds in
        if ptr = schema_data \<and> (c_at uri ptr = slash \<or> c_at uri ptr = NUL) then None
        else if port = 80 \<and> strncmp_eq uri ''http:'' 5 then None
        else if port = 443 \<and> strncmp_eq uri ''https:'' 6 then None
        else if port = 3690 \<and> strncmp_eq uri ''svn:'' 4 then None
        else Some (ptr + length (takeWhile (\<lambda>c. c \<noteq> slash) (drop ptr uri)))
      else Some ptr)"

function uri_segments_ok :: "cstring \<Rightarrow> nat \<Rightarrow> bool" where
  "uri_segments_ok uri seg =
     (let ptr = seg + length (takeWhile (\<lambda>c. c \<noteq> slash) (drop seg uri)); seglen = ptr - seg in
      if seglen = 1 \<and> c_at uri seg = dot then False
      else if c_at uri ptr = slash \<and> c_at uri (ptr + 1) = slash then False
      else if length uri \<le> ptr then \<not> (c_at uri (ptr - 1) = slash \<and> ptr - 1 \<noteq> 0)
      else uri_segments_ok uri (ptr + 1))"
  by pat_completeness auto
termination
  by (relation "measure (\<lambda>(uri, seg). length uri - seg)") auto

declare uri_segments_ok.simps [simp del]

fun uri_chars_ok :: "cstring \<Rightarrow> bool" where
  "uri_chars_ok [] = True"
| "uri_chars_ok (c # s) =
     (if c = CHR ''%'' then
        if \<not> upper_xdigit (c_at s 0) then False
        else if \<not> upper_xdigit (c_at s 1) then False
        else if uri_valid (hex_byte (c_at s 0) (c_at s 1)) then False
        else uri_chars_ok (drop 2 s)
      else if c \<noteq> slash \<and> \<not> uri_valid c then False
      else uri_chars_ok s)"

definition svn_uri_is_canonical :: "cstring \<Rightarrow> bool" where
  "svn_uri_is_canonical uri =
     (let p = length (takeWhile (\<lambda>c. c \<noteq> slash \<and> c \<noteq> CHR '':'') uri);
          scheme = takeWhile (\<lambda>c. c \<noteq> CHR '':'') uri;
          ptr = length scheme + 3;
          user = ptr + length (takeWhile (\<lambda>c. c \<noteq> slash \<and> c \<noteq> CHR ''@'') (drop ptr uri));
          seg = (if c_at uri user = CHR ''@'' then user + 1 else ptr) in
      if c_at uri 0 = NUL then False
      else if \<not> svn_path_is_url uri then False
      else if \<not> (c_at uri p = CHR '':'' \<and> c_at uri (p + 1) = slash \<and> c_at uri (p + 2) = slash) then False
      else if list_ex upper_letter scheme then False
      else if c_at uri ptr = NUL then True
      else
        (case uri_host_end uri seg of
           None \<Rightarrow> False
         | Some host_end \<Rightarrow>
             (case uri_port_end uri host_end of
                None \<Rightarrow> False
              | Some schema_data \<Rightarrow>
                  if \<not> uri_segments_ok uri schema_data then False
                  else uri_chars_ok (drop schema_data uri))))"

definition svn_uri_canonicalize :: "cstring \<Rightarrow> cstring cres" where
  "svn_uri_canonicalize uri = no_error (canonicalize type_uri uri)"

definition svn_uri_canonicalize_safe :: "cstring \<Rightarrow> cstring cres \<times> cstring option" where
  "svn_uri_canonicalize_safe = checked_canonicalize ''URI'' (canonicalize type_uri) svn_uri_is_canonical"

section \<open>Operations on URIs\<close>

definition svn_uri_is_root :: "cstring \<Rightarrow> nat \<Rightarrow> bool cres" where
  "svn_uri_is_root uri len =
     asserting (svn_uri_is_canonical uri) (Ok (len = uri_schema_root_length uri len))"

definition svn_uri_dirname :: "cstring \<Rightarrow> cstring cres" where
  "svn_uri_dirname uri =
     (let len = length uri in
      asserting (svn_uri_is_canonical uri)
        (cbind (svn_uri_is_root uri len) (\<lambda>root.
           if root then Ok uri
           else cbind (uri_previous_segment uri len) (\<lambda>n. Ok (take n uri)))))"

definition svn_uri_basename :: "cstring \<Rightarrow> cstring cres" where
  "svn_uri_basename uri =
     (let len = length uri in
      asserting (svn_uri_is_canonical uri)
        (cbind (svn_uri_is_root uri len) (\<lambda>root.
           if root then Ok []
           else Ok (svn_path_uri_decode (drop (basename_start uri len) uri)))))"

definition svn_uri_split :: "cstring \<Rightarrow> (cstring \<times> cstring) cres" where
  "svn_uri_split uri =
     cbind (svn_uri_dirname uri) (\<lambda>d. cbind (svn_uri_basename uri) (\<lambda>b. Ok (d, b)))"

text \<open>The search for the colon: None when the schemes differ.\<close>

fun common_scheme :: "cstring \<Rightarrow> cstring \<Rightarrow> nat option cres" where
  "common_scheme (a # s) (b # t) =
     (if a \<noteq> b then Ok None
      else if a = CHR '':'' then Ok (Some 0)
      else cbind (common_scheme s t) (\<lambda>r. Ok (map_option Suc r)))"
| "common_scheme [] [] = Abort"
| "common_scheme _ _ = Ok None"

definition svn_uri_get_longest_ancestor :: "cstring \<Rightarrow> cstring \<Rightarrow> cstring cres" where
  "svn_uri_get_longest_ancestor uri1 uri2 =
     asserting (svn_uri_is_canonical uri1) (asserting (svn_uri_is_canonical uri2)
       (cbind (common_scheme uri1 uri2) (\<lambda>colon.
          case colon of
            None \<Rightarrow> Ok []
          | Some j \<Rightarrow>
              let i = j + 3;
                  uri_ancestor_len = get_longest_ancestor_length type_uri (drop i uri1) (drop i uri2) in
              if uri_ancestor_len = 0 \<or> uri_ancestor_len = 1 \<and> c_at uri1 i = slash then Ok []
              else Ok (take (uri_ancestor_len + i) uri1))))"

definition uri_skip_ancestor :: "cstring \<Rightarrow> cstring \<Rightarrow> cstring option cres" where
  "uri_skip_ancestor parent_uri child_uri =
     (let len = length parent_uri in
      asserting (svn_uri_is_canonical parent_uri) (asserting (svn_uri_is_canonical child_uri)
        (if \<not> strncmp_eq parent_uri child_uri len then Ok None
         else if c_at child_uri len = NUL then Ok (Some [])
         else if c_at child_uri len = slash then Ok (Some (drop (len + 1) child_uri))
         else Ok None)))"

definition svn_uri_skip_ancestor :: "cstring \<Rightarrow> cstring \<Rightarrow> cstring option cres" where
  "svn_uri_skip_ancestor parent_uri child_uri =
     cbind (uri_skip_ancestor parent_uri child_uri) (\<lambda>result. Ok (map_option svn_path_uri_decode result))"

section \<open>Condensing URIs\<close>

text \<open>The loop that canonicalizes the targets: the common ancestor and the canonical URIs.\<close>

fun condense_uris :: "cstring \<Rightarrow> cstring list \<Rightarrow> (cstring \<times> cstring list) cres" where
  "condense_uris pcommon [] = Ok (pcommon, [])"
| "condense_uris pcommon (t # targets) =
     cbind (svn_uri_canonicalize t) (\<lambda>uri.
       cbind (if c_hd pcommon \<noteq> NUL then svn_uri_get_longest_ancestor pcommon uri else Ok pcommon) (\<lambda>pcommon.
         cbind (condense_uris pcommon targets) (\<lambda>(pcommon, uris). Ok (pcommon, uri # uris))))"

definition uri_condense_pair :: "cstring list \<Rightarrow> nat \<Rightarrow> removal \<Rightarrow> nat \<Rightarrow> removal cres" where
  "uri_condense_pair ts i st j =
     (if fst st ! j then Ok st
      else
        cbind (svn_uri_get_longest_ancestor (ts ! i) (ts ! j)) (\<lambda>ancestor.
          if c_hd ancestor = NUL then Ok st
          else if ancestor = ts ! i then Ok ((fst st)[j := True], snd st - 1)
          else if ancestor = ts ! j then Ok ((fst st)[i := True], snd st - 1)
          else Ok st))"

definition uri_condense_row :: "cstring list \<Rightarrow> removal \<Rightarrow> nat \<Rightarrow> removal cres" where
  "uri_condense_row ts st i =
     (if fst st ! i then Ok st else fold_res (uri_condense_pair ts i) [i + 1..<length ts] st)"

definition uri_condense_item :: "cstring \<Rightarrow> cstring \<Rightarrow> cstring cres" where
  "uri_condense_item pcommon item =
     (let basedir_len = length pcommon; rel_item = drop basedir_len item in
      if basedir_len > 0 then
        if c_at rel_item 0 = slash then Ok (svn_path_uri_decode (drop 1 rel_item))
        else if c_at rel_item 0 \<noteq> NUL then
          cbind (svn_uri_is_root pcommon basedir_len) (\<lambda>root.
            Ok (svn_path_uri_decode (if \<not> root then drop 1 rel_item else rel_item)))
        else Ok (svn_path_uri_decode rel_item)
      else Ok (svn_path_uri_decode item))"

definition svn_uri_condense_targets ::
  "cstring list \<Rightarrow> bool \<Rightarrow> bool \<Rightarrow> (cstring option \<times> cstring list option) cres" where
  "svn_uri_condense_targets targets want_condensed remove_redundancies =
     (case targets of
        [] \<Rightarrow> Ok (None, None)
      | t # rest \<Rightarrow>
          cbind (svn_uri_canonicalize t) (\<lambda>first.
            if rest = [] then Ok (Some first, if want_condensed then Some [] else None)
            else
              cbind (condense_uris first rest) (\<lambda>(pcommon, others).
                let ts = first # others; none = (replicate (length ts) False, int (length ts)) in
                if \<not> want_condensed then Ok (Some pcommon, None)
                else
                  cbind (if remove_redundancies
                         then cbind (fold_res (uri_condense_row ts) [0..<length ts] none) (\<lambda>st.
                                Ok (fst (fold (condense_common pcommon ts) [0..<length ts] st)))
                         else Ok (fst none)) (\<lambda>removed.
                    cbind (map_res (\<lambda>i. uri_condense_item pcommon (ts ! i))
                             (filter (\<lambda>i. \<not> removed ! i) [0..<length ts])) (\<lambda>items.
                      Ok (Some pcommon, Some items))))))"

section \<open>File URLs and URL paths\<close>

definition illegal_url :: "cstring \<Rightarrow> string \<Rightarrow> svn_err" where
  "illegal_url url what =
     svn_error_create SVN_ERR_RA_ILLEGAL_URL (''Local URL '' @ [CHR 0x27] @ url @ [CHR 0x27] @ what)"

definition svn_uri_get_dirent_from_file_url :: "cstring \<Rightarrow> cstring cres" where
  "svn_uri_get_dirent_from_file_url url =
     asserting (svn_uri_is_canonical url)
       (if \<not> strncmp_eq url ''file://'' 7
        then Err (illegal_url url ('' does not contain '' @ [CHR 0x27] @ ''file://'' @ [CHR 0x27] @ '' prefix''))
        else
          let rest = drop 7 url;
              (hostname, path) = (case strchr rest slash of
                                    Some n \<Rightarrow> (take n rest, drop n rest)
                                  | None \<Rightarrow> (rest, [slash]));
              hostname = (if c_hd hostname = NUL then None
                          else if svn_path_uri_decode hostname = ''localhost'' then None
                          else Some (svn_path_uri_decode hostname)) in
          if hostname \<noteq> None then Err (illegal_url url '' contains unsupported hostname'')
          else Ok (svn_path_uri_decode path))"

definition svn_uri_get_file_url_from_dirent :: "apr \<Rightarrow> cstring \<Rightarrow> cstring cres" where
  "svn_uri_get_file_url_from_dirent A dirent =
     asserting (svn_dirent_is_canonical dirent)
       (cbind (svn_dirent_get_absolute A dirent) (\<lambda>dirent.
          cbind (svn_path_uri_encode dirent) (\<lambda>dirent.
            Ok (''file://'' @ (if c_at dirent 0 = slash \<and> c_at dirent 1 = NUL then [] else dirent)))))"

definition svn_urlpath__canonicalize :: "cstring \<Rightarrow> cstring cres" where
  "svn_urlpath__canonicalize uri =
     (if svn_path_is_url uri then svn_uri_canonicalize uri
      else
        cbind (svn_fspath__canonicalize uri) (\<lambda>uri. svn_path_uri_encode (svn_path_uri_decode uri)))"

section \<open>Certificates\<close>

text \<open>The comparison loop: what remains of both strings, None at a mismatch.\<close>

fun dns_loop :: "string \<Rightarrow> string \<Rightarrow> (string \<times> string) option" where
  "dns_loop (p # ps) (h # hs) =
     (if canonicalize_to_lower p \<noteq> canonicalize_to_lower h then None else dns_loop ps hs)"
| "dns_loop ps hs = Some (ps, hs)"

definition svn_cert__match_dns_identity :: "string \<Rightarrow> string \<Rightarrow> bool" where
  "svn_cert__match_dns_identity pattern hostname =
     (let wildcard = (length pattern \<ge> 2 \<and> c_at pattern 0 = CHR ''*'' \<and> c_at pattern 1 = dot);
          hostname_pos = (if wildcard then length (takeWhile (\<lambda>c. c \<noteq> dot) hostname) else 0) in
      if wildcard \<and> hostname_pos = 0 then False
      else
        (case dns_loop (if wildcard then drop 1 pattern else pattern) (drop hostname_pos hostname) of
           None \<Rightarrow> False
         | Some (ps, hs) \<Rightarrow>
             let hs = (if ps = [] \<and> hs = [dot] then [] else hs) in ps = [] \<and> hs = []))"

section \<open>Splitting a URI\<close>

lemma uri_back_found:
  assumes "k \<le> n" "c_at uri k = slash"
  shows "\<exists>i. uri_back uri n = Ok i \<and> k \<le> i \<and> i \<le> n \<and> c_at uri i = slash \<and>
    (\<forall>j. i < j \<and> j \<le> n \<longrightarrow> c_at uri j \<noteq> slash)"
  using assms
proof (induction n)
  case (Suc n)
  show ?case
  proof (cases "c_at uri (Suc n) = slash")
    case False
    then have "k \<le> n" using Suc.prems by (metis le_SucE)
    then obtain i where "uri_back uri n = Ok i" "k \<le> i" "i \<le> n" "c_at uri i = slash"
      "\<forall>j. i < j \<and> j \<le> n \<longrightarrow> c_at uri j \<noteq> slash" using Suc by blast
    then show ?thesis using False by (auto simp: le_Suc_eq)
  qed (use Suc.prems in auto)
qed simp

lemma canonical_scheme:
  assumes "svn_uri_is_canonical uri"
  obtains p where "0 < p" "c_at uri p = CHR '':''" "c_at uri (p + 1) = slash" "c_at uri (p + 2) = slash"
proof -
  have "svn_path_is_url uri" using assms by (simp add: svn_uri_is_canonical_def Let_def split: if_splits)
  moreover have "scheme_end s = Some j \<Longrightarrow> c_at s j = CHR '':''" for s j
    by (induction s arbitrary: j) (auto split: if_splits)
  ultimately show ?thesis
    using that by (auto simp: svn_path_is_url_def skip_uri_scheme_def split: option.splits if_splits)
qed

lemma basename_start_after:
  assumes "i < n" "c_at uri i = slash" "\<forall>j. i < j \<and> j < n \<longrightarrow> c_at uri j \<noteq> slash"
  shows "basename_start uri n = Suc i"
  using assms by (induction n) (auto simp: less_Suc_eq)

lemma strchr_less: "strchr s c = Some k \<Longrightarrow> k < length s"
  using strchr_Some by blast

lemma root_length_le: "uri_schema_root_length uri (length uri) \<le> length uri"
proof (cases "strchr uri slash")
  case (Some i)
  have "(case strchr (drop (i + 2) uri) slash of Some k \<Rightarrow> i + 2 + k | None \<Rightarrow> length uri) \<le> length uri"
  proof (cases "strchr (drop (i + 2) uri) slash")
    case (Some k)
    then show ?thesis using strchr_less [OF Some] by simp
  qed simp
  then show ?thesis
    unfolding uri_schema_root_length_def take_all [OF order_refl] Some option.case by (simp only: split: if_split) auto
qed (simp add: uri_schema_root_length_def)

text \<open>The directory and the encoded last segment of a canonical URI that is not a root: with a
  slash between them they are the URI, and the loop of \<^verbatim>\<open>uri_previous_segment\<close> stays within the
  string.\<close>

theorem uri_split_parts:
  assumes "svn_uri_is_canonical uri" "is_cstring uri" "svn_uri_is_root uri (length uri) = Ok False"
  shows "\<exists>d b. uri = d @ slash # b \<and> slash \<notin> set b \<and> svn_uri_split uri = Ok (d, svn_path_uri_decode b)"
proof -
  obtain p where p: "c_at uri (p + 1) = slash" using canonical_scheme [OF assms(1)] by blast
  let ?n = "length uri"
  have "p + 1 < ?n" using p by (simp add: c_at_def split: if_splits)
  then have le: "p + 1 \<le> ?n - 1" by simp
  obtain i where i: "uri_back uri (?n - 1) = Ok i" "p + 1 \<le> i" "i \<le> ?n - 1" "c_at uri i = slash"
    "\<forall>j. i < j \<and> j \<le> ?n - 1 \<longrightarrow> c_at uri j \<noteq> slash"
    using uri_back_found [OF le p] by blast
  have ilen: "i < ?n" using i(3) \<open>p + 1 < ?n\<close> by simp
  have root: "?n \<noteq> uri_schema_root_length uri ?n" using assms(3) by (simp add: svn_uri_is_root_def asserting_Ok_iff)
  have "uri_schema_root_length uri ?n \<le> ?n" by (rule root_length_le)
  then have prev: "uri_previous_segment uri ?n = Ok i"
    using i root \<open>p + 1 < ?n\<close> by (auto simp: uri_previous_segment_def Let_def)
  have start: "basename_start uri ?n = Suc i" by (rule basename_start_after [OF ilen i(4)]) (use i(5) in auto)
  let ?d = "take i uri" and ?b = "drop (Suc i) uri"
  have at: "uri ! i = slash" using i(4) ilen by (simp add: c_at_def)
  have "uri = ?d @ slash # ?b" by (rule id_take_nth_drop [OF ilen, unfolded at])
  moreover have "slash \<notin> set ?b"
  proof
    assume "slash \<in> set ?b"
    then obtain k where "k < length ?b" "?b ! k = slash" by (metis in_set_conv_nth)
    then have "c_at uri (Suc i + k) = slash" "Suc i + k \<le> ?n - 1" by (auto simp: c_at_def)
    then show False using i(5) by auto
  qed
  moreover have "svn_uri_split uri = Ok (?d, svn_path_uri_decode ?b)"
    using assms prev start by (simp add: svn_uri_split_def svn_uri_dirname_def svn_uri_basename_def)
  ultimately show ?thesis by blast
qed

section \<open>The match of a certificate name\<close>

text \<open>Host names are compared without case, and a final dot of the host name is ignored.\<close>

definition same_name :: "string \<Rightarrow> string \<Rightarrow> bool" where
  "same_name p h \<longleftrightarrow> map canonicalize_to_lower p = map canonicalize_to_lower h"

definition without_final_dot :: "string \<Rightarrow> string set" where
  "without_final_dot h = {h} \<union> {g. h = g @ [dot]}"

lemma dns_loop_matches:
  "(case dns_loop ps hs of None \<Rightarrow> False
    | Some (ps, hs) \<Rightarrow> let hs = (if ps = [] \<and> hs = [dot] then [] else hs) in ps = [] \<and> hs = []) \<longleftrightarrow>
   (\<exists>g \<in> without_final_dot hs. same_name ps g)"
proof (induction ps hs rule: dns_loop.induct)
  case (1 p ps h hs)
  have "(\<exists>g \<in> without_final_dot (h # hs). same_name (p # ps) g) \<longleftrightarrow>
    canonicalize_to_lower p = canonicalize_to_lower h \<and> (\<exists>g \<in> without_final_dot hs. same_name ps g)"
    by (auto simp: without_final_dot_def same_name_def Cons_eq_append_conv Cons_eq_map_conv)
  then show ?case using 1 by simp
qed (auto simp: without_final_dot_def same_name_def)

lemma wildcard_iff:
  "prefix ''*.'' p \<longleftrightarrow> length p \<ge> 2 \<and> c_at p 0 = CHR ''*'' \<and> c_at p 1 = dot"
  by (cases p; cases "tl p") auto

lemma lower_dot: "canonicalize_to_lower dot = canonicalize_to_lower c \<longleftrightarrow> c = dot"
proof -
  have "canonicalize_to_lower c \<noteq> dot" if "65 \<le> (of_char c :: nat)" "(of_char c :: nat) \<le> 90"
  proof -
    have "of_char (canonicalize_to_lower c) = (of_char c + 32 :: nat)"
      using that by (simp add: canonicalize_to_lower_def Let_def)
    then show ?thesis using that by auto
  qed
  moreover have "canonicalize_to_lower dot = dot" by (simp add: canonicalize_to_lower_def)
  moreover have "canonicalize_to_lower c = c" if "\<not> (65 \<le> (of_char c :: nat) \<and> (of_char c :: nat) \<le> 90)"
    using that by (auto simp: canonicalize_to_lower_def Let_def)
  ultimately show ?thesis by metis
qed

text \<open>A certificate name matches a host name exactly when they are the same but for case and a
  final dot of the host name; a name that starts with \<^verbatim>\<open>*.\<close> matches when the rest of the host name
  after a nonempty first label does.\<close>

theorem cert_match_iff:
  "svn_cert__match_dns_identity pattern hostname \<longleftrightarrow>
     (if prefix ''*.'' pattern
      then \<exists>label host. hostname = label @ host \<and> label \<noteq> [] \<and> dot \<notin> set label \<and>
             (\<exists>g \<in> without_final_dot host. same_name (drop 1 pattern) g)
      else \<exists>g \<in> without_final_dot hostname. same_name pattern g)"
proof (cases "prefix ''*.'' pattern")
  case False
  then have "\<not> (length pattern \<ge> 2 \<and> c_at pattern 0 = CHR ''*'' \<and> c_at pattern 1 = dot)"
    by (auto simp: wildcard_iff)
  then show ?thesis
    using False dns_loop_matches [of pattern hostname] unfolding svn_cert__match_dns_identity_def by simp
next
  case True
  then have wild: "length pattern \<ge> 2 \<and> c_at pattern 0 = CHR ''*'' \<and> c_at pattern 1 = dot"
    by (simp add: wildcard_iff)
  let ?l = "takeWhile (\<lambda>c. c \<noteq> dot) hostname" and ?h = "dropWhile (\<lambda>c. c \<noteq> dot) hostname"
  have "svn_cert__match_dns_identity pattern hostname \<longleftrightarrow>
    ?l \<noteq> [] \<and> (\<exists>g \<in> without_final_dot ?h. same_name (drop 1 pattern) g)"
    using wild dns_loop_matches [of "drop 1 pattern" ?h] unfolding svn_cert__match_dns_identity_def
    by (simp add: Let_def dropWhile_eq_drop)
  also have "\<dots> \<longleftrightarrow> (\<exists>label host. hostname = label @ host \<and> label \<noteq> [] \<and> dot \<notin> set label \<and>
             (\<exists>g \<in> without_final_dot host. same_name (drop 1 pattern) g))"
  proof
    assume "?l \<noteq> [] \<and> (\<exists>g \<in> without_final_dot ?h. same_name (drop 1 pattern) g)"
    moreover have "dot \<notin> set ?l" by (auto dest: set_takeWhileD)
    ultimately show "\<exists>label host. hostname = label @ host \<and> label \<noteq> [] \<and> dot \<notin> set label \<and>
             (\<exists>g \<in> without_final_dot host. same_name (drop 1 pattern) g)"
      by (metis takeWhile_dropWhile_id)
  next
    assume "\<exists>label host. hostname = label @ host \<and> label \<noteq> [] \<and> dot \<notin> set label \<and>
             (\<exists>g \<in> without_final_dot host. same_name (drop 1 pattern) g)"
    then obtain label host g where h: "hostname = label @ host" "label \<noteq> []" "dot \<notin> set label"
      "g \<in> without_final_dot host" "same_name (drop 1 pattern) g" by blast
    obtain ps where "drop 1 pattern = dot # ps" using True by (auto simp: prefix_def)
    then have "c_hd g = dot" using h(5) by (cases g) (auto simp: same_name_def lower_dot)
    then have "c_hd host = dot" using h(4) by (cases g) (auto simp: without_final_dot_def)
    then have "?l = label" "?h = host" using h(1,3) by (cases host; auto simp: takeWhile_append dropWhile_append)+
    then show "?l \<noteq> [] \<and> (\<exists>g \<in> without_final_dot ?h. same_name (drop 1 pattern) g)" using h by blast
  qed
  finally show ?thesis using True by simp
qed

section \<open>File URLs\<close>

abbreviation (input) uri_enc :: "string \<Rightarrow> string" where
  "uri_enc s \<equiv> escape uri_valid percent s"

lemma percent_fresh: "\<not> svn_ctype_isxdigit d \<Longrightarrow> d \<noteq> CHR ''%'' \<Longrightarrow> d \<notin> set (percent c)"
  using hex_digit_xdigit [of "of_char c div 16"] hex_digit_xdigit [of "of_char c mod 16"]
  by (auto simp: percent_def Let_def)

lemma enc_fresh: "\<not> svn_ctype_isxdigit d \<Longrightarrow> d \<noteq> CHR ''%'' \<Longrightarrow> d \<notin> set s \<Longrightarrow> d \<notin> set (uri_enc s)"
  by (induction s) (auto dest: percent_fresh)

lemma percent_length: "length (percent c) = 3"
  by (simp add: percent_def Let_def)

lemma enc_empty [simp]: "uri_enc s = [] \<longleftrightarrow> s = []"
proof (cases s)
  case (Cons c t)
  have "percent c \<noteq> []" by (simp add: percent_def Let_def)
  then show ?thesis using Cons by simp
qed simp

lemma enc_dot: "uri_enc s = [dot] \<longleftrightarrow> s = [dot]"
proof (cases s)
  case (Cons c t)
  have "percent c @ uri_enc t \<noteq> [dot]" using percent_length [of c] by (cases "percent c") auto
  then show ?thesis using Cons by auto
qed simp

lemma enc_good_seg: "good_seg s \<Longrightarrow> good_seg (uri_enc s)"
  using enc_fresh [of slash s] enc_fresh [of NUL s]
  by (simp add: good_seg_def enc_dot is_cstring_def svn_ctype_isxdigit_def)

lemma enc_good_segs: "good_segs xs \<Longrightarrow> good_segs (map uri_enc xs)"
  by (simp add: good_segs_def enc_good_seg)

lemma enc_J: "uri_enc (J xs) = J (map uri_enc xs)"
  by (induction xs rule: induct_list012) auto

lemma upper_hex_digit: "n < 16 \<Longrightarrow> upper_xdigit (hex_digit n)"
  by (auto simp: upper_xdigit_def ascii_digit_def hex_digit_def Let_def)

lemma chars_ok_enc: "uri_chars_ok (uri_enc s)"
proof (induction s)
  case (Cons c s)
  show ?case
  proof (cases "uri_valid c")
    case False
    then show ?thesis
      using Cons by (simp add: percent_def Let_def upper_hex_digit percent_digits)
  qed (use Cons in auto)
qed simp

lemma segments_ok_last:
  assumes "y \<noteq> []" "y \<noteq> [dot]" "slash \<notin> set y"
  shows "uri_segments_ok (u @ y) (length u)"
proof -
  have tw: "takeWhile (\<lambda>c. c \<noteq> slash) y = y" using assms(3) by (auto simp: takeWhile_eq_all_conv)
  have "c_at (u @ y) (length u + length y - 1) = y ! (length y - 1)"
    using assms(1) by (cases y) (auto simp: c_at_def nth_append)
  moreover have "y ! (length y - 1) \<noteq> slash" using assms(1,3) by (metis diff_less length_greater_0_conv nth_mem zero_less_one)
  moreover have "\<not> (length y = 1 \<and> c_at (u @ y) (length u) = dot)"
    using assms(2) by (auto simp: c_at_append length_Suc_conv)
  moreover have "c_at (u @ y) (length u + length y) = NUL" by (simp add: c_at_def)
  ultimately show ?thesis
    by (subst uri_segments_ok.simps) (simp add: tw Let_def)
qed

lemma segments_ok_step:
  assumes "y \<noteq> [dot]" "slash \<notin> set y" "c_hd s \<noteq> slash"
  shows "uri_segments_ok (u @ y @ slash # s) (length u) = uri_segments_ok ((u @ y @ [slash]) @ s) (length (u @ y @ [slash]))"
proof -
  have tw: "takeWhile (\<lambda>c. c \<noteq> slash) (y @ slash # s) = y" using assms(2) by (auto simp: takeWhile_tail takeWhile_append)
  have "c_at (u @ y @ slash # s) (length u + length y) = slash"
    "c_at (u @ y @ slash # s) (Suc (length u + length y)) = c_hd s"
    using c_at_shift [of "u @ y" "slash # s" 0] c_at_shift [of "u @ y" "slash # s" 1] by (simp_all add: c_hd_at)
  moreover have "\<not> (length y = 1 \<and> c_at (u @ y @ slash # s) (length u) = dot)"
    using assms(1) by (auto simp: c_at_append length_Suc_conv)
  ultimately show ?thesis
    using assms(3) by (subst uri_segments_ok.simps) (simp add: tw)
qed

lemma segments_ok_J:
  assumes "good_segs ys" "ys \<noteq> []"
  shows "uri_segments_ok (u @ J ys) (length u)"
  using assms
proof (induction ys arbitrary: u)
  case (Cons y ys)
  have y: "y \<noteq> []" "y \<noteq> [dot]" "slash \<notin> set y" using Cons.prems(1) by (auto simp: good_seg_def)
  show ?case
  proof (cases "ys = []")
    case False
    have "c_hd (J ys) \<noteq> slash" using Cons.prems(1) False by (simp add: join_with_hd)
    then show ?thesis
      using segments_ok_step [OF y(2,3)] Cons.IH [of "u @ y @ [slash]"] Cons.prems(1) False
      by (simp add: join_with_Cons)
  qed (simp add: segments_ok_last y)
qed simp

lemma file_url_canonical:
  assumes "good_segs ys" "ys \<noteq> []" "uri_chars_ok (J ys)"
  shows "svn_uri_is_canonical (''file://'' @ slash # J ys)"
proof -
  let ?u = "''file://'' @ slash # J ys"
  have hd: "c_hd (J ys) \<noteq> slash" using assms by (simp add: join_with_hd)
  have "uri_segments_ok (''file://'' @ [] @ slash # J ys) (length ''file://'')"
    using segments_ok_step [of "[]" "J ys" "''file://''"] hd segments_ok_J [OF assms(1,2), of "''file:///''"] by simp
  moreover have "svn_path_is_url ?u"
    using skip_uri_scheme_url [of "''file''" "slash # J ys"] by (simp add: svn_path_is_url_def)
  ultimately show ?thesis
    using assms(3) by (simp add: svn_uri_is_canonical_def uri_host_end_def uri_port_end_def upper_letter_def numeral_nat)
qed

lemma file_url_from_absolute:
  assumes "good_segs xs" "svn_dirent_get_absolute A d = Ok (render (True, xs))" "svn_dirent_is_canonical d"
  shows "svn_uri_get_file_url_from_dirent A d = Ok (''file://'' @ (if xs = [] then [] else slash # J (map uri_enc xs)))"
proof -
  have "J (map uri_enc xs) = [] \<longleftrightarrow> xs = []"
    using join_with_empty [OF enc_good_segs [OF assms(1)]] by simp
  then have "c_at (J (map uri_enc xs)) 0 = NUL \<longleftrightarrow> xs = []"
    using c_at_J [OF enc_good_segs [OF assms(1)], of 0] by simp
  then show ?thesis
    using assms by (simp add: svn_uri_get_file_url_from_dirent_def encode_eq enc_J)
qed



section \<open>Where the canonical test and canonicalizing disagree\<close>

text \<open>The canonical test accepts upper case letters in the text after the colon of a port, which
  canonicalizing converts; and a port with leading zeros is a default port for the test and not for
  canonicalizing.\<close>

lemma uri_port_case_differs:
  "svn_uri_is_canonical ''http://h:A/x'' \<and> svn_uri_canonicalize ''http://h:A/x'' = Ok ''http://h:a/x''"
  by code_simp

lemma uri_port_zeros_differ:
  "svn_uri_canonicalize ''http://h:080/x'' = Ok ''http://h:080/x'' \<and> \<not> svn_uri_is_canonical ''http://h:080/x''"
  by code_simp

end
