(* ===== verification/Path_Legacy.thy ===== *)
theory Path_Legacy
  imports Dirent_Uri Dirent_Many
begin

text \<open>
  The older path functions of \<^verbatim>\<open>libsvn_subr/path.c\<close>, which take dirents, relpaths and URLs alike:
  joining, components, comparing, ancestors, decomposing and composing, and checks of names.

  The theorems show that decomposing and composing are inverse, that the comparison orders paths as
  the lists of their components, and that on canonical dirents the functions agree with those of
  \<^verbatim>\<open>dirent_uri.c\<close>.
\<close>

section \<open>Canonical paths\<close>

definition SVN_PATH_IS_EMPTY :: "cstring \<Rightarrow> bool" where
  "SVN_PATH_IS_EMPTY s \<longleftrightarrow> c_at s 0 = NUL"

definition SVN_PATH_IS_PLATFORM_EMPTY :: "cstring \<Rightarrow> nat \<Rightarrow> bool" where
  "SVN_PATH_IS_PLATFORM_EMPTY s n \<longleftrightarrow> n = 1 \<and> c_at s 0 = dot"

definition is_canonical :: "cstring \<Rightarrow> nat \<Rightarrow> bool" where
  "is_canonical path len \<longleftrightarrow>
     \<not> SVN_PATH_IS_PLATFORM_EMPTY path len \<and> strstr path ''/./'' = None \<and>
     (len = 0 \<or> len = 1 \<and> c_at path 0 = slash \<or> c_at path (len - 1) \<noteq> slash)"

definition svn_path_is_canonical_internal :: "cstring \<Rightarrow> bool" where
  "svn_path_is_canonical_internal path \<longleftrightarrow>
     svn_uri_is_canonical path \<or> svn_dirent_is_canonical path \<or> svn_relpath_is_canonical path"

definition svn_path_is_canonical :: "cstring \<Rightarrow> bool" where
  "svn_path_is_canonical path = svn_path_is_canonical_internal path"

section \<open>Joining\<close>

definition svn_path_join_internal :: "cstring \<Rightarrow> cstring \<Rightarrow> cstring cres" where
  "svn_path_join_internal base part =
     asserting (svn_path_is_canonical_internal base) (asserting (svn_path_is_canonical_internal part)
       (if c_at part 0 = slash then Ok part
        else if SVN_PATH_IS_EMPTY base then Ok part
        else if SVN_PATH_IS_EMPTY part then Ok base
        else
          let blen = (if length base = 1 \<and> c_at base 0 = slash then 0 else length base) in
          Ok (take blen base @ [slash] @ part)))"

definition svn_path_join :: "cstring \<Rightarrow> cstring \<Rightarrow> cstring cres" where
  "svn_path_join base part = svn_path_join_internal base part"

record path_join_state =
  pj_total_len :: nat
  pj_nargs :: nat
  pj_base_arg :: nat
  pj_base_is_empty :: bool
  pj_base_is_root :: bool
  pj_saved_lengths :: "nat list"

definition path_join_init :: "cstring \<Rightarrow> path_join_state" where
  "path_join_init base =
     \<lparr>pj_total_len = length base, pj_nargs = 0, pj_base_arg = 0,
      pj_base_is_empty = (\<not> (length base = 1 \<and> c_at base 0 = slash) \<and> SVN_PATH_IS_EMPTY base),
      pj_base_is_root = (length base = 1 \<and> c_at base 0 = slash),
      pj_saved_lengths = (replicate MAX_SAVED_LENGTHS 0)[0 := length base]\<rparr>"

text \<open>The body of the first loop; the array is written after \<open>nargs\<close> has been incremented.\<close>

definition path_join_measure :: "path_join_state \<Rightarrow> cstring \<Rightarrow> path_join_state cres" where
  "path_join_measure st s =
     asserting (svn_path_is_canonical_internal s)
       (if SVN_PATH_IS_EMPTY s then Ok st
        else
          let n = pj_nargs st + 1; len = length s in
          if pj_nargs st < MAX_SAVED_LENGTHS \<and> \<not> n < length (pj_saved_lengths st) then Overrun
          else
            let st = st\<lparr>pj_nargs := n,
                        pj_saved_lengths := (if pj_nargs st < MAX_SAVED_LENGTHS
                                             then (pj_saved_lengths st)[n := len]
                                             else pj_saved_lengths st)\<rparr> in
            if c_at s 0 = slash then
              Ok (st\<lparr>pj_total_len := len, pj_base_arg := n, pj_base_is_root := (len = 1), pj_base_is_empty := False\<rparr>)
            else if n = pj_base_arg st \<or> n = pj_base_arg st + 1 \<and> pj_base_is_root st \<or> pj_base_is_empty st then
              Ok (st\<lparr>pj_total_len := (if pj_base_is_empty st then 0 else pj_total_len st) + len,
                     pj_base_is_empty := False\<rparr>)
            else Ok (st\<lparr>pj_total_len := pj_total_len st + 1 + len\<rparr>))"

text \<open>The second loop; \<open>out\<close> are the bytes between \<open>path\<close> and \<open>p\<close>.\<close>

fun path_join_copy :: "path_join_state \<Rightarrow> cstring list \<Rightarrow> nat \<Rightarrow> cstring \<Rightarrow> cstring" where
  "path_join_copy st [] n out = out"
| "path_join_copy st (s # args) n out =
     (if SVN_PATH_IS_EMPTY s then path_join_copy st args n out
      else
        let n = n + 1 in
        if n < pj_base_arg st then path_join_copy st args n out
        else
          let len = (if n < MAX_SAVED_LENGTHS then pj_saved_lengths st ! n else length s);
              sep = (if out \<noteq> [] \<and> last out \<noteq> slash then [slash] else []) in
          path_join_copy st args n (out @ sep @ take len s))"

definition svn_path_join_many :: "cstring \<Rightarrow> cstring list \<Rightarrow> cstring cres" where
  "svn_path_join_many base args =
     asserting (svn_path_is_canonical_internal base)
       (cbind (fold_res path_join_measure args (path_join_init base)) (\<lambda>st.
          if pj_base_is_root st \<and> pj_total_len st = 1 then Ok [slash]
          else
            let out = (if pj_base_arg st = 0 \<and> \<not> (SVN_PATH_IS_EMPTY base \<and> \<not> pj_base_is_empty st)
                       then if SVN_PATH_IS_EMPTY base then take (pj_saved_lengths st ! 0) []
                            else take (pj_saved_lengths st ! 0) base
                       else []);
                path = path_join_copy st args 0 out in
            asserting (length path = pj_total_len st) (Ok path)))"

section \<open>Components\<close>

function count_components :: "cstring \<Rightarrow> nat" where
  "count_components path =
     (if path = [] then 0
      else
        let start = dropWhile (\<lambda>c. c = slash) path; seg = takeWhile (\<lambda>c. c \<noteq> slash) start in
        (if seg \<noteq> [] then 1 else 0) + count_components (drop (length seg) start))"
  by pat_completeness auto
termination
proof (relation "measure length")
  fix path start seg :: string
  assume "path \<noteq> []" "start = dropWhile (\<lambda>c. c = slash) path" "seg = takeWhile (\<lambda>c. c \<noteq> slash) start"
  then show "(drop (length seg) start, path) \<in> measure length"
    using length_dropWhile_le [of "\<lambda>c. c = slash" "tl path"] by (cases path) (auto simp: le_imp_less_Suc)
qed simp

declare count_components.simps [simp del]

definition svn_path_component_count :: "cstring \<Rightarrow> nat cres" where
  "svn_path_component_count path = asserting (is_canonical path (length path)) (Ok (count_components path))"

text \<open>The loop \<^verbatim>\<open>while (len > 0 && path[--len] != '/')\<close>.\<close>

fun previous_slash :: "cstring \<Rightarrow> nat \<Rightarrow> nat" where
  "previous_slash path 0 = 0"
| "previous_slash path (Suc n) = (if c_at path n \<noteq> slash then previous_slash path n else n)"

definition previous_segment :: "cstring \<Rightarrow> nat \<Rightarrow> nat" where
  "previous_segment path len =
     (if len = 0 then 0
      else
        let len = previous_slash path len in
        if len = 0 \<and> c_at path 0 = slash then 1 else len)"

text \<open>A \<^verbatim>\<open>svn_stringbuf_t\<close> is its contents; a function that changes it returns the new contents.\<close>

definition svn_path_add_component :: "cstring \<Rightarrow> cstring \<Rightarrow> cstring cres" where
  "svn_path_add_component path part =
     asserting (is_canonical path (length path)) (asserting (is_canonical part (length part))
       (Ok (path @
            (if \<not> SVN_PATH_IS_EMPTY path \<and> \<not> (length path = 1 \<and> c_at path 0 = slash) then [slash] else []) @
            part)))"

definition svn_path_remove_component :: "cstring \<Rightarrow> cstring cres" where
  "svn_path_remove_component path =
     asserting (is_canonical path (length path)) (Ok (take (previous_segment path (length path)) path))"

fun svn_path_remove_components :: "cstring \<Rightarrow> nat \<Rightarrow> cstring cres" where
  "svn_path_remove_components path 0 = Ok path"
| "svn_path_remove_components path (Suc n) =
     cbind (svn_path_remove_component path) (\<lambda>path. svn_path_remove_components path n)"

definition svn_path_dirname :: "cstring \<Rightarrow> cstring cres" where
  "svn_path_dirname path =
     asserting (svn_path_is_canonical_internal path) (Ok (take (previous_segment path (length path)) path))"

definition svn_path_basename :: "cstring \<Rightarrow> cstring cres" where
  "svn_path_basename path =
     (let len = length path; start = (if len = 1 \<and> c_at path 0 = slash then 0 else basename_start path len) in
      asserting (svn_path_is_canonical_internal path) (Ok (drop start path)))"

definition svn_path_is_empty :: "cstring \<Rightarrow> int cres" where
  "svn_path_is_empty path =
     asserting (is_canonical path (length path)) (Ok (if SVN_PATH_IS_EMPTY path then 1 else 0))"

section \<open>Comparing\<close>

fun common_length :: "cstring \<Rightarrow> cstring \<Rightarrow> nat" where
  "common_length (a # s) (b # t) = (if a = b then Suc (common_length s t) else 0)"
| "common_length _ _ = 0"

definition svn_path_compare_paths :: "cstring \<Rightarrow> cstring \<Rightarrow> int cres" where
  "svn_path_compare_paths path1 path2 =
     (let path1_len = length path1; path2_len = length path2; min_len = min path1_len path2_len;
          i = common_length path1 path2 in
      asserting (is_canonical path1 path1_len) (asserting (is_canonical path2 path2_len)
        (Ok (if path1_len = path2_len \<and> i \<ge> min_len then 0
             else if c_at path1 i = slash \<and> c_at path2 i = NUL then 1
             else if c_at path2 i = slash \<and> c_at path1 i = NUL then - 1
             else if c_at path1 i = slash then - 1
             else if c_at path2 i = slash then 1
             else if (of_char (c_at path1 i) :: nat) < of_char (c_at path2 i) then - 1 else 1))))"

section \<open>Ancestors\<close>

definition get_path_ancestor_length :: "cstring \<Rightarrow> cstring \<Rightarrow> nat" where
  "get_path_ancestor_length path1 path2 =
     (if SVN_PATH_IS_EMPTY path1 \<or> SVN_PATH_IS_EMPTY path2 then 0
      else
        let (i, last_dirsep) = common_loop path1 path2 0 0 in
        if i = 1 \<and> c_at path1 0 = slash \<and> c_at path2 0 = slash then 1
        else if i = length path1 \<and> c_at path2 i = slash
             \<or> i = length path2 \<and> c_at path1 i = slash
             \<or> i = length path1 \<and> i = length path2 then i
        else if last_dirsep = 0 \<and> c_at path1 0 = slash \<and> c_at path2 0 = slash then 1
        else last_dirsep)"

definition svn_path_get_longest_ancestor :: "cstring \<Rightarrow> cstring \<Rightarrow> cstring cres" where
  "svn_path_get_longest_ancestor path1 path2 =
     (let path1_is_url = svn_path_is_url path1; path2_is_url = svn_path_is_url path2 in
      if path1_is_url \<and> path2_is_url then svn_uri_get_longest_ancestor path1 path2
      else if \<not> path1_is_url \<and> \<not> path2_is_url then Ok (take (get_path_ancestor_length path1 path2) path1)
      else Ok [])"

definition svn_path_is_child :: "cstring \<Rightarrow> cstring \<Rightarrow> cstring option" where
  "svn_path_is_child path1 path2 =
     (if SVN_PATH_IS_EMPTY path1 then
        if SVN_PATH_IS_EMPTY path2 \<or> c_at path2 0 = slash then None else Some path2
      else
        (case matching path1 path2 of
           None \<Rightarrow> None
         | Some i \<Rightarrow>
             if c_at path1 i = NUL \<and> c_at path2 i \<noteq> NUL then
               if c_at path2 i = slash then Some (drop (i + 1) path2)
               else if i = 1 \<and> c_at path1 0 = slash then Some (drop 1 path2)
               else None
             else None))"

definition svn_path_is_ancestor :: "cstring \<Rightarrow> cstring \<Rightarrow> bool" where
  "svn_path_is_ancestor path1 path2 =
     (let path1_len = length path1 in
      if SVN_PATH_IS_EMPTY path1 then c_at path2 0 \<noteq> slash
      else if strncmp_eq path1 path2 path1_len
      then c_at path1 (path1_len - 1) = slash \<or> c_at path2 path1_len = slash \<or> c_at path2 path1_len = NUL
      else False)"

section \<open>Decomposing and composing\<close>

function decompose_loop :: "cstring \<Rightarrow> nat \<Rightarrow> nat \<Rightarrow> cstring list" where
  "decompose_loop path i oldi =
     (let sep = (c_at path i = slash \<or> c_at path i = NUL) in
      (if sep
       then [if SVN_PATH_IS_PLATFORM_EMPTY (drop oldi path) (i - oldi) then []
             else take (i - oldi) (drop oldi path)]
       else []) @
      (if i < length path \<and> c_at path i \<noteq> NUL then decompose_loop path (i + 1) (if sep then i + 1 else oldi) else []))"
  by pat_completeness auto
termination
  by (relation "measure (\<lambda>(path, i, oldi). length path - i)") auto

declare decompose_loop.simps [simp del]

definition svn_path_decompose :: "cstring \<Rightarrow> cstring list cres" where
  "svn_path_decompose path =
     asserting (svn_path_is_canonical_internal path)
       (if SVN_PATH_IS_EMPTY path then Ok []
        else if c_at path 0 = slash then
          if c_at path 1 = NUL then Ok [[slash]] else Ok ([slash] # decompose_loop path 1 1)
        else Ok (decompose_loop path 0 0))"

definition svn_path_compose :: "cstring list \<Rightarrow> cstring" where
  "svn_path_compose components =
     concat (map (\<lambda>i. (if i > 1 \<or> i = 1 \<and> components ! 0 \<noteq> [slash] then [slash] else []) @ components ! i)
       [0..<length components])"

section \<open>Names\<close>

definition svn_path_is_single_path_component :: "cstring \<Rightarrow> bool cres" where
  "svn_path_is_single_path_component name =
     asserting (is_canonical name (length name))
       (Ok (if SVN_PATH_IS_EMPTY name \<or> c_at name 0 = dot \<and> c_at name 1 = dot \<and> c_at name 2 = NUL then False
            else if strchr name slash \<noteq> None then False
            else True))"

definition svn_path_url_add_component2 :: "cstring \<Rightarrow> cstring \<Rightarrow> cstring cres" where
  "svn_path_url_add_component2 url part =
     cbind (uri_escape part svn_uri__char_validity) (\<lambda>part. svn_path_join_internal url part)"

text \<open>What \<^verbatim>\<open>0x%02x\<close> prints for a byte.\<close>

definition hex_lower :: "nat \<Rightarrow> char" where
  "hex_lower n = char_of (if n < 10 then n + 48 else n + 87)"

definition svn_path_check_valid :: "cstring \<Rightarrow> unit cres" where
  "svn_path_check_valid path =
     (case dropWhile (\<lambda>c. \<not> svn_ctype_iscntrl c) path of
        [] \<Rightarrow> Ok ()
      | c # _ \<Rightarrow>
          Err (svn_error_create SVN_ERR_FS_PATH_SYNTAX
            (''Invalid control character '' @ [CHR 0x27] @ ''0x'' @
             [hex_lower (of_char c div 16), hex_lower (of_char c mod 16), CHR 0x27] @ '' in path '' @
             [CHR 0x27] @ svn_path_illegal_path_escape (svn_dirent_local_style path) @ [CHR 0x27])))"

definition svn_path_splitext :: "cstring \<Rightarrow> cstring \<times> cstring" where
  "svn_path_splitext path =
     (case strrchr path dot of
        None \<Rightarrow> (path, [])
      | Some last_dot \<Rightarrow>
          if c_at path (last_dot + 1) \<noteq> NUL \<and>
             (case strrchr path slash of
                Some last_slash \<Rightarrow> last_dot > last_slash + 1
              | None \<Rightarrow> last_dot > 0)
          then (take (last_dot + 1) path, drop (last_dot + 1) path)
          else (path, []))"

section \<open>Canonical dirents\<close>

lemma path_canonical [simp]: "svn_dirent_is_canonical p \<Longrightarrow> svn_path_is_canonical_internal p"
  by (simp add: svn_path_is_canonical_internal_def)

lemma sublist_segment:
  assumes "sublist (slash # x @ [slash]) s" "slash \<notin> set x"
  shows "x \<in> set (split_on slash s)"
proof -
  obtain u t where "s = u @ slash # x @ slash # t" using assms(1) by (auto simp: sublist_def)
  then show ?thesis using split_on_append_sep [of slash u] split_on_append [OF assms(2), of t] by simp
qed

lemma render_last: "good_segs xs \<Longrightarrow> xs \<noteq> [] \<Longrightarrow> c_at (render (r, xs)) (length (render (r, xs)) - 1) \<noteq> slash"
  using J_last [of xs] J_len [of xs] by (cases r; cases "length (J xs)") auto

lemma is_canonical_render:
  assumes "good_segs xs"
  shows "is_canonical (render (r, xs)) (length (render (r, xs)))"
proof -
  let ?p = "render (r, xs)"
  have "\<not> sublist ''/./'' ?p"
  proof
    assume "sublist ''/./'' ?p"
    then have "[dot] \<in> set (split_on slash ?p)" using sublist_segment [of "[dot]" ?p] by simp
    then show False using assms join_no_slash [OF assms] by (cases "xs = []"; cases r) (auto simp: good_segs_def good_seg_def)
  qed
  moreover have "?p \<noteq> [dot]"
    using assms join_no_slash [OF assms] by (cases "xs = []"; cases r) (auto simp: good_segs_def good_seg_def)
  then have "\<not> SVN_PATH_IS_PLATFORM_EMPTY ?p (length ?p)"
    by (auto simp: SVN_PATH_IS_PLATFORM_EMPTY_def length_Suc_conv)
  moreover have "length ?p = 0 \<or> length ?p = 1 \<and> c_at ?p 0 = slash \<or> c_at ?p (length ?p - 1) \<noteq> slash"
    using render_last [OF assms, of r] by (cases "xs = []"; cases r) (simp_all del: length_greater_0_conv)
  ultimately show ?thesis by (simp add: is_canonical_def strstr_None)
qed

section \<open>Decomposing\<close>

lemma decompose_scan:
  assumes "slash \<notin> set y" "is_cstring y" "k \<le> length y"
  shows "decompose_loop (u @ y @ t) (length u + k) (length u) = decompose_loop (u @ y @ t) (length u + length y) (length u)"
  using assms(3)
proof (induction rule: inc_induct)
  case (step k)
  have "c_at (u @ y @ t) (length u + k) = y ! k" using step.hyps by (simp add: c_at_def nth_append)
  moreover have "y ! k \<noteq> slash" "y ! k \<noteq> NUL"
    using assms(1,2) step.hyps unfolding is_cstring_def by (metis nth_mem)+
  ultimately show ?case using step by (subst decompose_loop.simps) simp
qed simp

lemma decompose_J:
  assumes "good_segs ys" "ys \<noteq> []"
  shows "decompose_loop (u @ J ys) (length u) (length u) = ys"
  using assms
proof (induction ys arbitrary: u)
  case (Cons y ys)
  have y: "slash \<notin> set y" "is_cstring y" "y \<noteq> [dot]" using Cons.prems(1) by (auto simp: good_seg_def)
  have no: "\<not> SVN_PATH_IS_PLATFORM_EMPTY (y @ t) (length y)" for t
    using y(3) by (cases y) (auto simp: SVN_PATH_IS_PLATFORM_EMPTY_def)
  define t where "t = (if ys = [] then [] else slash # J ys)"
  have J: "J (y # ys) = y @ t" by (simp add: t_def join_with_Cons)
  have at: "c_at (u @ y @ t) (length u + length y) = c_hd t"
    using c_at_shift [of "u @ y" t 0] by (simp add: c_hd_at)
  have "decompose_loop (u @ y @ t) (length u) (length u) = decompose_loop (u @ y @ t) (length u + length y) (length u)"
    using decompose_scan [OF y(1,2), of 0 u t] by simp
  also have "\<dots> = y # (if ys = [] then [] else decompose_loop ((u @ y @ [slash]) @ J ys) (length (u @ y @ [slash])) (length (u @ y @ [slash])))"
    using at no [of t] by (cases "ys = []"; subst decompose_loop.simps) (simp_all add: t_def)
  finally show ?case using Cons.IH [of "u @ y @ [slash]"] Cons.prems(1) J by simp
qed simp

lemma decompose_render:
  assumes "good_segs xs"
  shows "svn_path_decompose (render (r, xs)) = Ok ((if r then [[slash]] else []) @ xs)"
proof (cases "xs = []")
  case True
  then show ?thesis using canonical_dirent [OF assms, of r]
    by (cases r) (simp_all add: svn_path_decompose_def SVN_PATH_IS_EMPTY_def)
next
  case False
  note facts = decompose_J [OF assms False, of "[]"] decompose_J [OF assms False, of "[slash]"]
    J_hd [OF assms] c_at_J [OF assms, of 0] J_len [OF assms] canonical_dirent [OF assms, of r]
  show ?thesis using facts False by (cases r) (simp_all add: svn_path_decompose_def SVN_PATH_IS_EMPTY_def)
qed

lemma compose_snoc:
  "svn_path_compose (cs @ [c]) =
     svn_path_compose cs @ (if length cs > 1 \<or> length cs = 1 \<and> cs ! 0 \<noteq> [slash] then [slash] else []) @ c"
proof -
  let ?f = "\<lambda>cs i. (if i > 1 \<or> i = 1 \<and> cs ! 0 \<noteq> [slash] then [slash] else []) @ cs ! i"
  have "map (?f (cs @ [c])) [0..<length cs] = map (?f cs) [0..<length cs]"
    by (rule map_cong) (auto simp: nth_append)
  moreover have "?f (cs @ [c]) (length cs) = (if length cs > 1 \<or> length cs = 1 \<and> cs ! 0 \<noteq> [slash] then [slash] else []) @ c"
    by (auto simp: nth_append)
  moreover have "[0..<length (cs @ [c])] = [0..<length cs] @ [length cs]" by simp
  ultimately show ?thesis
    unfolding svn_path_compose_def by (simp only: map_append concat_append list.map concat.simps append_Nil2)
qed

lemma compose_render:
  assumes "good_segs xs"
  shows "svn_path_compose ((if r then [[slash]] else []) @ xs) = render (r, xs)"
  using assms
proof (induction xs rule: rev_induct)
  case Nil
  show ?case by (simp add: svn_path_compose_def)
next
  case (snoc x xs)
  have x: "xs ! 0 \<noteq> [slash]" if "xs \<noteq> []"
    using snoc.prems that by (cases xs) (auto simp: good_seg_def)
  show ?case
    using snoc x compose_snoc [of "(if r then [[slash]] else []) @ xs" x]
    by (cases "xs = []"; cases r) (auto simp: J_snoc Suc_lessI)
qed

section \<open>Counting\<close>

lemma count_slash: "count_components (slash # s) = count_components s"
proof (cases "dropWhile (\<lambda>c. c = slash) s = []")
  case True
  then show ?thesis
    by (subst (1 2) count_components.simps) (simp add: Let_def count_components.simps [of "[]"])
next
  case False
  then show ?thesis by (subst (1 2) count_components.simps) (auto simp: Let_def)
qed

lemma count_J: "good_segs xs \<Longrightarrow> count_components (J xs) = length xs"
proof (induction xs)
  case Nil
  then show ?case by (simp add: count_components.simps)
next
  case (Cons x xs)
  have x: "x \<noteq> []" "slash \<notin> set x" using Cons.prems by (auto simp: good_seg_def)
  define t where "t = (if xs = [] then [] else slash # J xs)"
  have J: "J (x # xs) = x @ t" by (simp add: t_def join_with_Cons)
  have "dropWhile (\<lambda>c. c = slash) (x @ t) = x @ t" using x by (cases x) auto
  moreover have "takeWhile (\<lambda>c. c \<noteq> slash) (x @ t) = x" using x by (auto simp: t_def takeWhile_append takeWhile_tail)
  ultimately have "count_components (x @ t) = 1 + count_components t"
    using x by (subst count_components.simps) simp
  moreover have "count_components t = length xs"
    using Cons by (simp add: t_def count_slash count_components.simps [of "[]"])
  ultimately show ?case using J by simp
qed

section \<open>The order of paths\<close>

text \<open>The slash comes before every other byte.\<close>

definition path_byte_less :: "(char \<times> char) set" where
  "path_byte_less = {(a, b). b \<noteq> slash \<and> (a = slash \<or> (of_char a :: nat) < of_char b)}"

fun path_order :: "cstring \<Rightarrow> cstring \<Rightarrow> int" where
  "path_order [] [] = 0"
| "path_order [] (b # t) = - 1"
| "path_order (a # s) [] = 1"
| "path_order (a # s) (b # t) = (if a = b then path_order s t else if (a, b) \<in> path_byte_less then - 1 else 1)"

lemma of_char_less_total: "a \<noteq> b \<Longrightarrow> (of_char a :: nat) < of_char b \<or> (of_char b :: nat) < of_char a"
  by (metis linorder_neqE_nat of_char_eq_iff)

lemma compare_eq_order:
  assumes "is_cstring p" "is_cstring q" "is_canonical p (length p)" "is_canonical q (length q)"
  shows "svn_path_compare_paths p q = Ok (path_order p q)"
proof -
  have "path_order p q = (let i = common_length p q in
     if length p = length q \<and> i \<ge> min (length p) (length q) then 0
     else if c_at p i = slash \<and> c_at q i = NUL then 1
     else if c_at q i = slash \<and> c_at p i = NUL then - 1
     else if c_at p i = slash then - 1
     else if c_at q i = slash then 1
     else if (of_char (c_at p i) :: nat) < of_char (c_at q i) then - 1 else 1)"
    using assms(1,2)
  proof (induction p q rule: path_order.induct)
    case (2 b t)
    then have "(of_char b :: nat) \<noteq> of_char NUL" by (simp only: of_char_eq_iff is_cstring_simps) simp
    then show ?case using 2 by simp
  next
    case (4 a s b t)
    then show ?case by (cases "a = b") (auto simp: Let_def path_byte_less_def)
  qed auto
  then show ?thesis using assms by (simp add: svn_path_compare_paths_def Let_def)
qed

lemma order_segment:
  assumes "slash \<notin> set x" "slash \<notin> set y" "s = [] \<or> c_hd s = slash" "t = [] \<or> c_hd t = slash"
  shows "path_order (x @ s) (y @ t) =
    (if x = y then path_order s t else if (x, y) \<in> lexord path_byte_less then - 1 else 1)"
  using assms
proof (induction x y rule: path_order.induct)
  case (2 b y)
  then show ?case by (cases s) (auto simp: path_byte_less_def)
next
  case (3 a x)
  then show ?case by (cases t) (auto simp: path_byte_less_def)
next
  case (4 a x b y)
  then show ?case by (cases "a = b") (auto simp: path_byte_less_def)
qed simp

lemma segment_less_irrefl: "(y, y) \<notin> lexord path_byte_less"
  by (rule lexord_irreflexive) (simp add: path_byte_less_def)

lemma order_J:
  assumes "good_segs xs" "good_segs ys"
  shows "path_order (J xs) (J ys) =
    (if xs = ys then 0 else if (xs, ys) \<in> lexord (lexord path_byte_less) then - 1 else 1)"
  using assms
proof (induction xs arbitrary: ys)
  case Nil
  then show ?case using J_len [of ys] by (cases ys; cases "J ys") auto
next
  case (Cons x xs)
  show ?case
  proof (cases ys)
    case Nil
    then show ?thesis using J_len [of "x # xs"] Cons.prems by (cases "J (x # xs)") auto
  next
    case (Cons y zs)
    let ?s = "if xs = [] then [] else slash # J xs" and ?t = "if zs = [] then [] else slash # J zs"
    have J: "J (x # xs) = x @ ?s" "J (y # zs) = y @ ?t" by (simp_all add: join_with_Cons)
    have "slash \<notin> set x" "slash \<notin> set y" using Cons.prems Cons by (auto simp: good_seg_def)
    then have "path_order (x @ ?s) (y @ ?t) =
      (if x = y then path_order ?s ?t else if (x, y) \<in> lexord path_byte_less then - 1 else 1)"
      by (intro order_segment) auto
    moreover have "path_order ?s ?t = (if xs = zs then 0 else if (xs, zs) \<in> lexord (lexord path_byte_less) then - 1 else 1)"
      using Cons.IH [of zs] Cons.prems Cons by (cases xs; cases zs) auto
    ultimately show ?thesis unfolding Cons J using segment_less_irrefl [of y] by auto
  qed
qed

lemma slash_first: "(slash, b) \<in> path_byte_less \<longleftrightarrow> b \<noteq> slash" "(b, slash) \<notin> path_byte_less"
  by (auto simp: path_byte_less_def)

lemma order_root:
  assumes "good_segs vs"
  shows "path_order (slash # J us) (J vs) = (if vs = [] then 1 else - 1)"
    and "path_order (J vs) (slash # J us) = (if vs = [] then - 1 else 1)"
    and "([slash] # us, vs) \<in> lexord (lexord path_byte_less) \<longleftrightarrow> vs \<noteq> []"
    and "(vs, [slash] # us) \<in> lexord (lexord path_byte_less) \<longleftrightarrow> vs = []"
    and "vs \<noteq> [slash] # us"
proof -
  consider "vs = []" | c w ws where "vs = (c # w) # ws" "c \<noteq> slash"
    using assms by (cases vs; cases "hd vs") (auto simp: good_seg_def)
  then have "path_order (slash # J us) (J vs) = (if vs = [] then 1 else - 1) \<and>
    path_order (J vs) (slash # J us) = (if vs = [] then - 1 else 1) \<and>
    (([slash] # us, vs) \<in> lexord (lexord path_byte_less) \<longleftrightarrow> vs \<noteq> []) \<and>
    ((vs, [slash] # us) \<in> lexord (lexord path_byte_less) \<longleftrightarrow> vs = []) \<and> vs \<noteq> [slash] # us"
    by cases (simp_all add: slash_first join_with_Cons_head)
  then show "path_order (slash # J us) (J vs) = (if vs = [] then 1 else - 1)"
    and "path_order (J vs) (slash # J us) = (if vs = [] then - 1 else 1)"
    and "([slash] # us, vs) \<in> lexord (lexord path_byte_less) \<longleftrightarrow> vs \<noteq> []"
    and "(vs, [slash] # us) \<in> lexord (lexord path_byte_less) \<longleftrightarrow> vs = []"
    and "vs \<noteq> [slash] # us"
    by simp_all
qed

lemma order_render:
  assumes "good_segs xs" "good_segs ys"
  defines "parts \<equiv> \<lambda>r xs. (if r then [[slash]] else []) @ (xs :: string list)"
  shows "path_order (render (r, xs)) (render (s, ys)) =
    (if parts r xs = parts s ys then 0
     else if (parts r xs, parts s ys) \<in> lexord (lexord path_byte_less) then - 1 else 1)"
proof (cases "r = s")
  case True
  then show ?thesis
    using order_J [OF assms(1,2)] segment_less_irrefl [of "[slash]"] by (cases s) (simp_all add: parts_def)
next
  case False
  then show ?thesis
    using order_root [OF assms(1), of ys] order_root [OF assms(2), of xs]
    by (cases s; cases r) (simp_all add: parts_def)
qed

lemma canonical_renderE:
  assumes "svn_dirent_is_canonical p" "is_cstring p"
  obtains xs where "good_segs xs" "p = render (c_hd p = slash, xs)" "segments p = xs"
  using assms dirent_canonical_iff [of p] segments_good [of p] by blast

lemma join_agrees:
  assumes "good_segs xs" "good_segs ys"
  shows "svn_path_join (render (r, xs)) (render (s, ys)) = svn_dirent_join (render (r, xs)) (render (s, ys))"
proof -
  let ?b = "render (r, xs)"
  have "c_at ?b (length ?b - 1) = slash \<longleftrightarrow> ?b = [slash]" if "?b \<noteq> []"
    using render_last [OF assms(1), of r] that by (cases "xs = []"; cases r) auto
  then show ?thesis
    using assms c_at_NUL [OF is_cstring_render, of "(r, xs)" 0] c_at_NUL [OF is_cstring_render, of "(s, ys)" 0]
    by (auto simp: svn_path_join_def svn_path_join_internal_def svn_dirent_join_def SVN_PATH_IS_EMPTY_def
        svn_dirent_is_absolute_def Let_def length_Suc_conv simp del: render_simps)
qed

lemma ancestor_length_agrees:
  assumes "is_cstring p" "is_cstring q"
  shows "get_path_ancestor_length p q = get_longest_ancestor_length type_dirent p q"
proof (cases "p = [] \<or> q = []")
  case True
  then show ?thesis by (auto simp: get_path_ancestor_length_def get_longest_ancestor_length_def SVN_PATH_IS_EMPTY_def)
next
  case False
  obtain a s b t where pq: "p = a # s" "q = b # t" using False by (cases p; cases q) auto
  have grows: "k \<le> fst (common_loop u v k d)" for u v k d
    by (induction u v k d rule: common_loop.induct) (auto simp: Let_def)
  obtain i d where loop: "common_loop p q 0 0 = (i, d)" by fastforce
  have zero: "a \<noteq> b \<and> d = 0" if "i = 0"
    using that loop grows [where u = s and v = t and k = 1 and d = 0] pq by (cases "a = b") (auto simp: Let_def split: if_splits)
  have ne: "c_at p 0 \<noteq> NUL" "c_at q 0 \<noteq> NUL" "p \<noteq> []" "q \<noteq> []" using assms pq by auto
  have diff: "i = 0 \<Longrightarrow> \<not> (c_at p 0 = slash \<and> c_at q 0 = slash)" using zero pq by auto
  show ?thesis
    unfolding get_path_ancestor_length_def get_longest_ancestor_length_def SVN_PATH_IS_EMPTY_def loop
    using ne zero diff by (cases "i = 0") simp_all
qed

lemma dirent_not_url:
  assumes "good_segs xs"
  shows "\<not> svn_path_is_url (render (r, xs))"
proof
  let ?p = "render (r, xs)"
  assume "svn_path_is_url ?p"
  then obtain j where j: "0 < j" "c_at ?p (j + 1) = slash" "c_at ?p (j + 2) = slash"
    by (auto simp: svn_path_is_url_def skip_uri_scheme_def split: option.splits if_splits)
  define k where "k = (if r then j else j + 1)"
  have k: "c_at (J xs) k = slash" "c_at (J xs) (Suc k) = slash"
    using j by (auto simp: k_def)
  then have "Suc k < length (J xs)" by (auto simp: c_at_def split: if_splits)
  then have "drop k (J xs) = slash # slash # drop (Suc (Suc k)) (J xs)"
    using k by (metis Cons_nth_drop_Suc Suc_lessD c_at_def)
  then have "sublist [slash, slash] (J xs)"
    by (metis append_Cons append_Nil append_take_drop_id sublist_appendI)
  then have "[] \<in> set (split_on slash (J xs))" using sublist_segment [of "[]"] by simp
  moreover have "xs \<noteq> []" using k by auto
  ultimately show False using assms join_no_slash [OF assms] by (auto simp: good_segs_def good_seg_def)
qed

lemma dirname_agrees:
  assumes "good_segs xs"
  shows "svn_path_dirname (render (r, xs)) = svn_dirent_dirname (render (r, xs))"
proof -
  have slash_back: "previous_slash p (Suc n) = back_to_slash p n" for p n
    by (induction n) simp_all
  let ?p = "render (r, xs)"
  show ?thesis
  proof (cases "length ?p")
    case 0
    then show ?thesis using assms canonical_dirent [OF assms, of r]
      by (simp add: svn_path_dirname_def svn_dirent_dirname_def previous_segment_def dirent_root_length_def)
  next
    case (Suc n)
    have "dirent_root_length ?p (k + 1) = k + 1 \<longleftrightarrow> k = 0 \<and> c_at ?p 0 = slash" for k
      by (auto simp: dirent_root_length_def)
    then have "previous_segment ?p (length ?p) = dirent_previous_segment ?p (length ?p)"
      by (simp add: previous_segment_def dirent_previous_segment_def Suc slash_back Let_def del: render_simps previous_slash.simps)
    moreover have "take (previous_segment ?p (length ?p)) ?p = ?p" if "length ?p = dirent_root_length ?p (length ?p)"
    proof -
      have "?p = [slash]" using that Suc by (cases ?p) (auto simp: dirent_root_length_def split: if_splits simp del: render_simps)
      then show ?thesis by (simp add: previous_segment_def numeral_nat)
    qed
    ultimately show ?thesis
      using canonical_dirent [OF assms, of r]
      by (simp add: svn_path_dirname_def svn_dirent_dirname_def Let_def del: render_simps)
  qed
qed

lemma is_ancestor_agrees:
  assumes "good_segs xs" "is_cstring q"
  shows "svn_path_is_ancestor (render (r, xs)) q \<longleftrightarrow> svn_dirent_is_ancestor (render (r, xs)) q"
proof -
  let ?p = "render (r, xs)"
  consider "?p = []" | "?p = [slash]" | "?p \<noteq> []" "?p \<noteq> [slash]" "xs \<noteq> []" by (cases "xs = []"; cases r) auto
  then show ?thesis
  proof cases
    case 3
    then have "c_at ?p (length ?p - 1) \<noteq> slash" using render_last [OF assms(1)] by blast
    moreover have "\<not> SVN_PATH_IS_EMPTY ?p"
      using 3(1) c_at_NUL [OF is_cstring_render, of "(r, xs)" 0] assms(1) by (simp add: SVN_PATH_IS_EMPTY_def del: render_simps)
    moreover have "strncmp_eq ?p q (length ?p) \<Longrightarrow> dirent_root_length q (length q) \<noteq> length ?p"
      using 3(1,2) by (cases ?p; cases q) (auto simp: strncmp_eq_def dirent_root_length_def split: if_splits simp del: render_simps)
    moreover have "\<not> dirent_root_length q (length q) > length ?p"
      using 3(1) by (auto simp: dirent_root_length_def simp del: render_simps)
    ultimately show ?thesis
      by (auto simp: svn_path_is_ancestor_def svn_dirent_is_ancestor_def svn_dirent_skip_ancestor_def Let_def
          simp del: render_simps)
  qed (cases q; auto simp: svn_path_is_ancestor_def svn_dirent_is_ancestor_def svn_dirent_skip_ancestor_def
         SVN_PATH_IS_EMPTY_def strncmp_eq_def dirent_root_length_def simp del: render_simps)+
qed

section \<open>Properties\<close>

text \<open>Decomposing a canonical dirent gives its segments, after a first component \<^verbatim>\<open>/\<close> when it is
  absolute; composing the components gives the dirent back, and the component count is the number of
  its segments.\<close>

theorem decompose_compose:
  assumes "svn_dirent_is_canonical p" "is_cstring p"
  shows "svn_path_decompose p = Ok ((if c_hd p = slash then [[slash]] else []) @ segments p) \<and>
    cbind (svn_path_decompose p) (\<lambda>cs. Ok (svn_path_compose cs)) = Ok p \<and>
    svn_path_component_count p = Ok (length (segments p))"
proof -
  obtain xs where xs: "good_segs xs" "p = render (c_hd p = slash, xs)" "segments p = xs"
    using canonical_renderE [OF assms] by blast
  have "count_components (render (r, xs)) = length xs" for r
    using count_J [OF xs(1)] count_slash by (cases r) auto
  then have "svn_path_component_count p = Ok (length xs)"
    using is_canonical_render [OF xs(1), of "c_hd p = slash"] xs(2)
    unfolding svn_path_component_count_def by (metis asserting_simps(1))
  then show ?thesis
    using decompose_render [OF xs(1), of "c_hd p = slash"] compose_render [OF xs(1), of "c_hd p = slash"]
    unfolding xs(2) [symmetric] xs(3) by (simp add: xs(2) [symmetric] del: render_simps)
qed

text \<open>C19. \<^verbatim>\<open>svn_path_compare_paths\<close> orders canonical dirents as their lists of components, compared
  lexicographically with components compared by bytes: children come after their parent and before
  its greater siblings.\<close>

theorem compare_paths_lexicographic:
  assumes "svn_dirent_is_canonical p" "is_cstring p" "svn_dirent_is_canonical q" "is_cstring q"
  shows "\<exists>cs ds. svn_path_decompose p = Ok cs \<and> svn_path_decompose q = Ok ds \<and>
    svn_path_compare_paths p q =
      Ok (if cs = ds then 0 else if (cs, ds) \<in> lexord (lexord path_byte_less) then - 1 else 1)"
proof -
  obtain xs r where xs: "good_segs xs" "p = render (r, xs)" using canonical_renderE [OF assms(1,2)] by blast
  obtain ys s where ys: "good_segs ys" "q = render (s, ys)" using canonical_renderE [OF assms(3,4)] by blast
  have "svn_path_compare_paths p q = Ok (path_order p q)"
    using compare_eq_order [OF assms(2,4)] is_canonical_render [OF xs(1), of r] is_canonical_render [OF ys(1), of s]
    unfolding xs(2) ys(2) by blast
  then show ?thesis
    using order_render [OF xs(1) ys(1), of r s] decompose_render [OF xs(1), of r] decompose_render [OF ys(1), of s]
    unfolding xs(2) ys(2) by (intro exI conjI) simp_all
qed

theorem compare_paths_lexicographic_witness:
  "\<exists>cs ds. svn_path_decompose ''a/b'' = Ok cs \<and> svn_path_decompose ''a-b'' = Ok ds \<and>
    svn_path_compare_paths ''a/b'' ''a-b'' =
      Ok (if cs = ds then 0 else if (cs, ds) \<in> lexord (lexord path_byte_less) then - 1 else 1)"
proof -
  have "svn_dirent_is_canonical ''a/b''" "svn_dirent_is_canonical ''a-b''"
    by (simp_all add: dirent_canonical_iff segments_def kept_def)
  then show ?thesis using compare_paths_lexicographic [of "''a/b''" "''a-b''"] by simp
qed

text \<open>On canonical dirents the functions of the older path API give the results of the dirent
  API: joining, the directory, the longest common ancestor and the ancestor test.\<close>

theorem path_api_agrees:
  assumes "svn_dirent_is_canonical p" "is_cstring p" "svn_dirent_is_canonical q" "is_cstring q"
  shows "svn_path_join p q = svn_dirent_join p q \<and> svn_path_dirname p = svn_dirent_dirname p \<and>
    svn_path_get_longest_ancestor p q = Ok (svn_dirent_get_longest_ancestor p q) \<and>
    (svn_path_is_ancestor p q \<longleftrightarrow> svn_dirent_is_ancestor p q)"
proof -
  obtain xs r where xs: "good_segs xs" "p = render (r, xs)" using canonical_renderE [OF assms(1,2)] by blast
  obtain ys s where ys: "good_segs ys" "q = render (s, ys)" using canonical_renderE [OF assms(3,4)] by blast
  have "svn_path_get_longest_ancestor p q = Ok (svn_dirent_get_longest_ancestor p q)"
    using dirent_not_url [OF xs(1), of r] dirent_not_url [OF ys(1), of s] xs(2) ys(2)
      ancestor_length_agrees [OF assms(2,4)]
    by (simp add: svn_path_get_longest_ancestor_def svn_dirent_get_longest_ancestor_def)
  then show ?thesis
    using join_agrees [OF xs(1) ys(1)] dirname_agrees [OF xs(1)] is_ancestor_agrees [OF xs(1) assms(4)] xs(2) ys(2)
    by metis
qed

end
