(* ===== verification/Svn_Sort.thy ===== *)
theory Svn_Sort
  imports Path_Legacy "HOL-Library.Multiset"
begin

text \<open>
  \<^verbatim>\<open>libsvn_subr/sorts.c\<close>: comparison functions, sorting of arrays and hashes, binary search with a
  hint, insertion into and deletion from arrays, and the priority queue.

  A comparison function of the C code that can run into an \<^verbatim>\<open>assert\<close> is a function into \<open>int cres\<close>.
  \<^verbatim>\<open>qsort\<close> is a stable sort, as the merge sort of the GNU C library.
\<close>

section \<open>Comparison functions\<close>

record svn_merge_range_t =
  range_start :: svn_revnum_t
  range_end :: svn_revnum_t
  inheritable :: bool

type_synonym svn_rangelist_t = "svn_merge_range_t list"

text \<open>An item of a sorted hash: its key and its value. The keys are C strings, so the byte at the
  key length is the terminator.\<close>

type_synonym 'v svn_sort__item_t = "cstring \<times> 'v"

definition svn_sort_compare_items_as_paths :: "'v svn_sort__item_t \<Rightarrow> 'v svn_sort__item_t \<Rightarrow> int cres" where
  "svn_sort_compare_items_as_paths a b = svn_path_compare_paths (fst a) (fst b)"

text \<open>\<^verbatim>\<open>memcmp\<close> of the first \<open>n\<close> bytes.\<close>

fun memcmp :: "string \<Rightarrow> string \<Rightarrow> nat \<Rightarrow> int" where
  "memcmp (a # s) (b # t) (Suc n) =
     (if a = b then memcmp s t n else if (of_char a :: nat) < of_char b then - 1 else 1)"
| "memcmp _ _ _ = 0"

definition svn_sort_compare_items_lexically :: "'v svn_sort__item_t \<Rightarrow> 'v svn_sort__item_t \<Rightarrow> int" where
  "svn_sort_compare_items_lexically a b =
     (let len = (if length (fst a) < length (fst b) then length (fst a) else length (fst b));
          val = memcmp (fst a) (fst b) len in
      if val \<noteq> 0 then val
      else if length (fst a) < length (fst b) then - 1
      else if length (fst a) > length (fst b) then 1 else 0)"

definition svn_sort_compare_revisions :: "svn_revnum_t \<Rightarrow> svn_revnum_t \<Rightarrow> int" where
  "svn_sort_compare_revisions a_rev b_rev =
     (if a_rev = b_rev then 0 else if a_rev < b_rev then 1 else - 1)"

definition svn_sort_compare_paths :: "cstring \<Rightarrow> cstring \<Rightarrow> int cres" where
  "svn_sort_compare_paths item1 item2 = svn_path_compare_paths item1 item2"

definition svn_sort_compare_ranges :: "svn_merge_range_t \<Rightarrow> svn_merge_range_t \<Rightarrow> int" where
  "svn_sort_compare_ranges item1 item2 =
     (if range_start item1 = range_start item2 \<and> range_end item1 = range_end item2 then 0
      else if range_start item1 = range_start item2
      then if range_end item1 < range_end item2 then - 1 else 1
      else if range_start item1 < range_start item2 then - 1 else 1)"

section \<open>Sorting\<close>

fun insert_by :: "('a \<Rightarrow> 'a \<Rightarrow> int cres) \<Rightarrow> 'a \<Rightarrow> 'a list \<Rightarrow> 'a list cres" where
  "insert_by comparison_func x [] = Ok [x]"
| "insert_by comparison_func x (y # ys) =
     cbind (comparison_func x y) (\<lambda>c.
       if c \<le> 0 then Ok (x # y # ys)
       else cbind (insert_by comparison_func x ys) (\<lambda>zs. Ok (y # zs)))"

fun svn_sort__array :: "('a \<Rightarrow> 'a \<Rightarrow> int cres) \<Rightarrow> 'a list \<Rightarrow> 'a list cres" where
  "svn_sort__array comparison_func [] = Ok []"
| "svn_sort__array comparison_func (x # xs) =
     cbind (svn_sort__array comparison_func xs) (insert_by comparison_func x)"

text \<open>The flag \<^verbatim>\<open>sorted\<close> of the loop over the hash: once it is false, no item is compared any more.\<close>

fun already_sorted :: "('a \<Rightarrow> 'a \<Rightarrow> int cres) \<Rightarrow> 'a list \<Rightarrow> bool cres" where
  "already_sorted comparison_func (prev # item # items) =
     cbind (comparison_func prev item) (\<lambda>c.
       if c < 0 then already_sorted comparison_func (item # items) else Ok False)"
| "already_sorted comparison_func _ = Ok True"

definition svn_sort__hash ::
  "'v hash \<Rightarrow> ('v svn_sort__item_t \<Rightarrow> 'v svn_sort__item_t \<Rightarrow> int cres) \<Rightarrow> 'v svn_sort__item_t list cres" where
  "svn_sort__hash ht comparison_func =
     cbind (already_sorted comparison_func ht) (\<lambda>sorted.
       if sorted then Ok ht else svn_sort__array comparison_func ht)"

section \<open>Arrays\<close>

function bsearch_loop :: "('a \<Rightarrow> 'b \<Rightarrow> int) \<Rightarrow> 'b \<Rightarrow> 'a list \<Rightarrow> int \<Rightarrow> int \<Rightarrow> int \<times> int" where
  "bsearch_loop compare_func key base lower upper =
     (if lower \<le> upper then
        let try = lower + (upper - lower) div 2 in
        if compare_func (base ! nat try) key < 0
        then bsearch_loop compare_func key base (try + 1) upper
        else bsearch_loop compare_func key base lower (try - 1)
      else (lower, upper))"
  by pat_completeness auto
termination
  by (relation "measure (\<lambda>(cmp, key, base, lower, upper). nat (upper - lower + 1))") auto

declare bsearch_loop.simps [simp del]

definition bsearch_lower_bound :: "'b \<Rightarrow> 'a list \<Rightarrow> ('a \<Rightarrow> 'b \<Rightarrow> int) \<Rightarrow> int cres" where
  "bsearch_lower_bound key base compare_func =
     (case bsearch_loop compare_func key base 0 (int (length base) - 1) of (lower, upper) \<Rightarrow>
        asserting (lower = upper + 1) (Ok lower))"

definition svn_sort__bsearch_lower_bound :: "'a list \<Rightarrow> 'b \<Rightarrow> ('a \<Rightarrow> 'b \<Rightarrow> int) \<Rightarrow> int cres" where
  "svn_sort__bsearch_lower_bound array key compare_func = bsearch_lower_bound key array compare_func"

text \<open>The first part of \<^verbatim>\<open>svn_sort__array_lookup\<close>, with a hint: \<open>Inl\<close> when the hint did not help,
  \<open>Inr\<close> the result with which the function returns early, and the new hint. The comparison with the
  first entry of an empty array, with a hint below \<open>-1\<close>, reads outside it.\<close>

definition lookup_hinted ::
  "'a list \<Rightarrow> 'b \<Rightarrow> int \<Rightarrow> ('a \<Rightarrow> 'b \<Rightarrow> int) \<Rightarrow> (unit + 'a option \<times> int) cres" where
  "lookup_hinted array key hint compare_func =
     (let idx = hint + 1; nelts = int (length array) in
      if idx \<ge> nelts then
        if nelts = 0 then Ok (Inr (None, nelts))
        else if compare_func (array ! nat (nelts - 1)) key < 0 then Ok (Inr (None, nelts))
        else Ok (Inl ())
      else if idx > 0 then
        if compare_func (array ! nat (idx - 1)) key \<noteq> 0 \<and> compare_func (array ! nat idx) key = 0
        then Ok (Inr (Some (array ! nat idx), idx)) else Ok (Inl ())
      else if array = [] then Overrun
      else if compare_func (array ! 0) key = 0 then Ok (Inr (Some (array ! 0), 0))
      else Ok (Inl ()))"

definition svn_sort__array_lookup ::
  "'a list \<Rightarrow> 'b \<Rightarrow> int option \<Rightarrow> ('a \<Rightarrow> 'b \<Rightarrow> int) \<Rightarrow> ('a option \<times> int option) cres" where
  "svn_sort__array_lookup array key hint compare_func =
     cbind (case hint of None \<Rightarrow> Ok (Inl ()) | Some h \<Rightarrow> lookup_hinted array key h compare_func) (\<lambda>early.
       case early of
         Inr (result, h) \<Rightarrow> Ok (result, Some h)
       | Inl _ \<Rightarrow>
           cbind (bsearch_lower_bound key array compare_func) (\<lambda>idx.
             let hint = map_option (\<lambda>_. idx) hint in
             if idx \<ge> int (length array) then Ok (None, hint)
             else
               let result = array ! nat idx in
               Ok (if compare_func result key \<noteq> 0 then None else Some result, hint)))"

definition svn_sort__array_insert2 :: "'a list \<Rightarrow> 'a \<Rightarrow> int \<Rightarrow> 'a list cres" where
  "svn_sort__array_insert2 array new_element insert_index =
     (if insert_index < 0 \<or> insert_index > int (length array)
      then Err (svn_error_create SVN_ERR_INCORRECT_PARAMS
             (''svn_sort__array_insert2: Attempted insert at index '' @ decimal insert_index @
              '' in array length '' @ decimal (int (length array))))
      else Ok (take (nat insert_index) array @ [new_element] @ drop (nat insert_index) array))"

definition svn_sort__array_delete2 :: "'a list \<Rightarrow> int \<Rightarrow> int \<Rightarrow> 'a list cres" where
  "svn_sort__array_delete2 arr delete_index elements_to_delete =
     (if \<not> (delete_index \<ge> 0 \<and> delete_index < int (length arr) \<and> elements_to_delete > 0
            \<and> int (length arr) - delete_index \<ge> elements_to_delete)
      then Err (svn_error_create SVN_ERR_INCORRECT_PARAMS
             (''svn_sort__array_delete2: Attempted delete at index '' @ decimal delete_index @ '', '' @
              decimal elements_to_delete @ '' elements, in array length '' @ decimal (int (length arr))))
      else Ok (take (nat delete_index) arr @ drop (nat (delete_index + elements_to_delete)) arr))"

text \<open>The swaps of \<^verbatim>\<open>svn_sort__array_reverse\<close> from index \<open>i\<close> on; both branches of the function, for
  pointers and for other elements, swap whole elements.\<close>

function reverse_loop :: "nat \<Rightarrow> 'a list \<Rightarrow> 'a list" where
  "reverse_loop i array =
     (if i < length array div 2 then
        let swap_index = length array - i - 1; tmp = array ! i in
        reverse_loop (i + 1) (array[i := array ! swap_index, swap_index := tmp])
      else array)"
  by pat_completeness auto
termination
  by (relation "measure (\<lambda>(i, array). length array div 2 - i)") auto

declare reverse_loop.simps [simp del]

definition svn_sort__array_reverse :: "'a list \<Rightarrow> 'a list" where
  "svn_sort__array_reverse array = reverse_loop 0 array"

section \<open>The priority queue\<close>

definition heap_is_less :: "('a \<Rightarrow> 'a \<Rightarrow> int) \<Rightarrow> 'a list \<Rightarrow> nat \<Rightarrow> nat \<Rightarrow> bool cres" where
  "heap_is_less compare_func elements lhs rhs =
     asserting (lhs < length elements) (asserting (rhs < length elements)
       (Ok (compare_func (elements ! lhs) (elements ! rhs) < 0)))"

definition heap_swap :: "'a list \<Rightarrow> nat \<Rightarrow> nat \<Rightarrow> 'a list" where
  "heap_swap elements lhs rhs = elements[lhs := elements ! rhs, rhs := elements ! lhs]"

fun heap_bubble_down :: "('a \<Rightarrow> 'a \<Rightarrow> int) \<Rightarrow> 'a list \<Rightarrow> nat \<Rightarrow> 'a list cres" where
  "heap_bubble_down compare_func elements idx =
     (if idx > 0 then
        cbind (heap_is_less compare_func elements idx ((idx - 1) div 2)) (\<lambda>less.
          if less
          then heap_bubble_down compare_func (heap_swap elements idx ((idx - 1) div 2)) ((idx - 1) div 2)
          else Ok elements)
      else Ok elements)"

declare heap_bubble_down.simps [simp del]

function heap_bubble_up :: "('a \<Rightarrow> 'a \<Rightarrow> int) \<Rightarrow> 'a list \<Rightarrow> nat \<Rightarrow> 'a list cres" where
  "heap_bubble_up compare_func elements idx =
     (if 2 * idx + 2 < length elements then
        cbind (heap_is_less compare_func elements (2 * idx + 1) (2 * idx + 2)) (\<lambda>left.
          let child = (if left then 2 * idx + 1 else 2 * idx + 2) in
          cbind (heap_is_less compare_func elements idx child) (\<lambda>less.
            if less then Ok elements
            else heap_bubble_up compare_func (heap_swap elements idx child) child))
      else if 2 * idx + 1 < length elements then
        cbind (heap_is_less compare_func elements (2 * idx + 1) idx) (\<lambda>less.
          Ok (if less then heap_swap elements (2 * idx + 1) idx else elements))
      else Ok elements)"
  by pat_completeness auto
termination
  by (relation "measure (\<lambda>(cmp, elements, idx). length elements - idx)") (auto simp: heap_swap_def split: if_splits)

declare heap_bubble_up.simps [simp del]

text \<open>The loop of \<^verbatim>\<open>svn_priority_queue__create\<close>, down to index \<open>0\<close>.\<close>

fun heapify :: "('a \<Rightarrow> 'a \<Rightarrow> int) \<Rightarrow> 'a list \<Rightarrow> nat \<Rightarrow> 'a list cres" where
  "heapify compare_func elements 0 = heap_bubble_up compare_func elements 0"
| "heapify compare_func elements (Suc i) =
     cbind (heap_bubble_up compare_func elements (Suc i)) (\<lambda>elements. heapify compare_func elements i)"

definition svn_priority_queue__create :: "('a \<Rightarrow> 'a \<Rightarrow> int) \<Rightarrow> 'a list \<Rightarrow> 'a list cres" where
  "svn_priority_queue__create compare_func elements = heapify compare_func elements (length elements div 2)"

definition svn_priority_queue__size :: "'a list \<Rightarrow> nat" where
  "svn_priority_queue__size queue = length queue"

definition svn_priority_queue__peek :: "'a list \<Rightarrow> 'a option" where
  "svn_priority_queue__peek queue = (if length queue \<noteq> 0 then Some (queue ! 0) else None)"

definition svn_priority_queue__update :: "('a \<Rightarrow> 'a \<Rightarrow> int) \<Rightarrow> 'a list \<Rightarrow> 'a list cres" where
  "svn_priority_queue__update compare_func queue = heap_bubble_up compare_func queue 0"

definition svn_priority_queue__pop :: "('a \<Rightarrow> 'a \<Rightarrow> int) \<Rightarrow> 'a list \<Rightarrow> 'a list cres" where
  "svn_priority_queue__pop compare_func queue =
     (if length queue \<noteq> 0
      then heap_bubble_up compare_func (butlast (queue[0 := queue ! (length queue - 1)])) 0
      else Ok queue)"

text \<open>The element is a value here: that the pointer to it is not null and does not point into the queue
  is what the \<^verbatim>\<open>assert\<close> requires.\<close>

definition svn_priority_queue__push :: "('a \<Rightarrow> 'a \<Rightarrow> int) \<Rightarrow> 'a list \<Rightarrow> 'a \<Rightarrow> 'a list cres" where
  "svn_priority_queue__push compare_func queue element =
     heap_bubble_down compare_func (queue @ [element]) (length queue)"

section \<open>Comparison functions as orders\<close>

definition ordered_by :: "('a \<Rightarrow> 'a \<Rightarrow> int) \<Rightarrow> 'a list \<Rightarrow> bool" where
  "ordered_by c xs \<longleftrightarrow> sorted_wrt (\<lambda>x y. c x y \<le> 0) xs"

text \<open>What the callers of this file promise of a comparison function: on the elements they compare it is
  a total preorder.\<close>

locale comparison =
  fixes compare_func :: "'a \<Rightarrow> 'a \<Rightarrow> int" and valid :: "'a \<Rightarrow> bool"
  assumes compare_swap: "valid x \<Longrightarrow> valid y \<Longrightarrow> compare_func x y < 0 \<longleftrightarrow> 0 < compare_func y x"
    and compare_trans: "valid x \<Longrightarrow> valid y \<Longrightarrow> valid z \<Longrightarrow>
      compare_func x y \<le> 0 \<Longrightarrow> compare_func y z \<le> 0 \<Longrightarrow> compare_func x z \<le> 0"
begin

lemma compare_total: "valid x \<Longrightarrow> valid y \<Longrightarrow> \<not> compare_func x y < 0 \<longleftrightarrow> compare_func y x \<le> 0"
  using compare_swap [of x y] by linarith

lemma compare_refl: "valid x \<Longrightarrow> compare_func x x \<le> 0"
  using compare_swap [of x x] by linarith

end

locale checked_comparison = comparison compare_func valid
  for compare_func :: "'a \<Rightarrow> 'a \<Rightarrow> int" and valid +
  fixes cmp :: "'a \<Rightarrow> 'a \<Rightarrow> int cres"
  assumes cmp_ok: "valid x \<Longrightarrow> valid y \<Longrightarrow> cmp x y = Ok (compare_func x y)"
begin

lemma insert_by_ok:
  assumes "valid x" "\<forall>y \<in> set ys. valid y" "ordered_by compare_func ys"
  shows "\<exists>zs. insert_by cmp x ys = Ok zs \<and> mset zs = add_mset x (mset ys) \<and> ordered_by compare_func zs"
  using assms
proof (induction ys)
  case (Cons y ys)
  show ?case
  proof (cases "compare_func x y \<le> 0")
    case True
    then have "\<forall>z \<in> set ys. compare_func x z \<le> 0"
      using Cons.prems compare_trans [of x y] by (auto simp: ordered_by_def)
    then show ?thesis using True Cons.prems by (simp add: cmp_ok ordered_by_def)
  next
    case False
    then have yx: "compare_func y x \<le> 0" using compare_swap [of y x] Cons.prems by auto
    obtain zs where zs: "insert_by cmp x ys = Ok zs" "mset zs = add_mset x (mset ys)" "ordered_by compare_func zs"
      using Cons by (auto simp: ordered_by_def)
    then have "set zs = insert x (set ys)" by (metis set_mset_mset set_mset_add_mset_insert)
    then show ?thesis using zs False Cons.prems yx by (simp add: cmp_ok ordered_by_def)
  qed
qed (simp add: ordered_by_def)

lemma sort_array_ok:
  assumes "\<forall>x \<in> set xs. valid x"
  shows "\<exists>ys. svn_sort__array cmp xs = Ok ys \<and> mset ys = mset xs \<and> ordered_by compare_func ys"
  using assms
proof (induction xs)
  case (Cons x xs)
  then obtain ys where ys: "svn_sort__array cmp xs = Ok ys" "mset ys = mset xs" "ordered_by compare_func ys" by auto
  then have "\<forall>y \<in> set ys. valid y" using Cons.prems by (metis list.set_intros(2) set_mset_mset)
  then show ?case using insert_by_ok [of x ys] ys Cons.prems by auto
qed (simp add: ordered_by_def)

lemma already_sorted_ok:
  assumes "\<forall>x \<in> set xs. valid x"
  shows "already_sorted cmp xs = Ok (successively (\<lambda>x y. compare_func x y < 0) xs)"
  using assms
proof (induction xs rule: induct_list012)
  case (3 x y zs)
  then show ?case by (simp add: cmp_ok)
qed simp_all

lemma successively_ordered:
  assumes "\<forall>x \<in> set xs. valid x" "successively (\<lambda>x y. compare_func x y < 0) xs"
  shows "ordered_by compare_func xs"
  using assms
proof (induction xs)
  case (Cons x xs)
  then have IH: "ordered_by compare_func xs" by (cases xs) auto
  have "compare_func x z \<le> 0" if "z \<in> set xs" for z
  proof (cases xs)
    case (Cons y ys)
    then have "compare_func x y \<le> 0" "z = y \<or> compare_func y z \<le> 0"
      using Cons.prems IH that by (auto simp: ordered_by_def)
    then show ?thesis using compare_trans [of x y z] Cons.prems Cons that by auto
  qed (use that in simp)
  then show ?case using IH by (simp add: ordered_by_def)
qed (simp add: ordered_by_def)

end

section \<open>Binary search\<close>

text \<open>The array is ordered as far as comparisons with the key can tell.\<close>

definition ordered_for :: "('a \<Rightarrow> 'b \<Rightarrow> int) \<Rightarrow> 'b \<Rightarrow> 'a list \<Rightarrow> bool" where
  "ordered_for c key xs \<longleftrightarrow>
     sorted_wrt (\<lambda>x y. (c y key < 0 \<longrightarrow> c x key < 0) \<and> (c y key \<le> 0 \<longrightarrow> c x key \<le> 0)) xs"

definition lower_bound :: "('a \<Rightarrow> 'b \<Rightarrow> int) \<Rightarrow> 'b \<Rightarrow> 'a list \<Rightarrow> nat" where
  "lower_bound c key xs = length (takeWhile (\<lambda>x. c x key < 0) xs)"

lemma lower_bound_unique:
  assumes "k \<le> length xs" "\<And>i. i < k \<Longrightarrow> c (xs ! i) key < 0" "k < length xs \<Longrightarrow> \<not> c (xs ! k) key < 0"
  shows "lower_bound c key xs = k"
proof -
  have "takeWhile (\<lambda>x. c x key < 0) xs = take k xs"
    using assms by (intro takeWhile_eq_take_P_nth) auto
  then show ?thesis using assms(1) by (simp add: lower_bound_def)
qed

lemma bsearch_loop_ok:
  assumes "ordered_for c key xs" "0 \<le> lower" "upper < int (length xs)" "lower \<le> upper + 1"
    and "\<And>i. int i < lower \<Longrightarrow> c (xs ! i) key < 0"
    and "\<And>i. upper < int i \<Longrightarrow> i < length xs \<Longrightarrow> \<not> c (xs ! i) key < 0"
  shows "bsearch_loop c key xs lower upper = (int (lower_bound c key xs), int (lower_bound c key xs) - 1)"
  using assms
proof (induction c key xs lower upper rule: bsearch_loop.induct)
  case (1 c key xs lower upper)
  show ?case
  proof (cases "lower \<le> upper")
    case False
    then have "lower = upper + 1" using 1 by linarith
    moreover have "lower_bound c key xs = nat lower"
      using 1 False by (intro lower_bound_unique) auto
    ultimately show ?thesis using 1 by (subst bsearch_loop.simps) auto
  next
    case True
    define m where "m = lower + (upper - lower) div 2"
    have m: "lower \<le> m" "m \<le> upper" using True by (auto simp: m_def)
    then have nm: "nat m < length xs" using 1 by linarith
    have ord: "c (xs ! j) key < 0 \<longrightarrow> c (xs ! i) key < 0" if "i < j" "j < length xs" for i j
      using 1(3) that by (auto simp: ordered_for_def sorted_wrt_iff_nth_less)
    show ?thesis
    proof (cases "c (xs ! nat m) key < 0")
      case less: True
      have "c (xs ! i) key < 0" if "int i < m + 1" for i
        using ord [of i "nat m"] less nm that by (cases "i = nat m") auto
      then have "bsearch_loop c key xs (m + 1) upper = (int (lower_bound c key xs), int (lower_bound c key xs) - 1)"
        using 1(1) [OF True m_def less] 1(3-) m by auto
      then show ?thesis using True less by (subst bsearch_loop.simps) (simp add: m_def [symmetric])
    next
      case less: False
      have "\<not> c (xs ! i) key < 0" if "m - 1 < int i" "i < length xs" for i
        using ord [of "nat m" i] less that by (cases "i = nat m") auto
      then have "bsearch_loop c key xs lower (m - 1) = (int (lower_bound c key xs), int (lower_bound c key xs) - 1)"
        using 1(2) [OF True m_def less] 1(3-) m by auto
      then show ?thesis using True less by (subst bsearch_loop.simps) (simp add: m_def [symmetric])
    qed
  qed
qed

lemma bsearch_ok:
  assumes "ordered_for c key xs"
  shows "bsearch_lower_bound key xs c = Ok (int (lower_bound c key xs))"
  using bsearch_loop_ok [OF assms, of 0 "int (length xs) - 1"] by (simp add: bsearch_lower_bound_def)

lemma lower_bound_le: "lower_bound c key xs \<le> length xs"
  by (simp add: lower_bound_def length_takeWhile_le)

lemma hint_ok:
  assumes "ordered_for c key xs" "h \<ge> - 1"
  shows "lookup_hinted xs key h c = Ok (Inl ()) \<or>
    (let k = lower_bound c key xs in
     lookup_hinted xs key h c =
       Ok (Inr (if k < length xs \<and> c (xs ! k) key = 0 then Some (xs ! k) else None, int k)))"
proof -
  define idx where "idx = h + 1"
  have ord: "(c (xs ! j) key < 0 \<longrightarrow> c (xs ! i) key < 0) \<and> (c (xs ! j) key \<le> 0 \<longrightarrow> c (xs ! i) key \<le> 0)"
    if "i < j" "j < length xs" for i j
    using assms(1) that by (auto simp: ordered_for_def sorted_wrt_iff_nth_less)
  consider (past) "idx \<ge> int (length xs)" | (inside) "idx < int (length xs)" "idx > 0"
    | (first) "idx < int (length xs)" "idx \<le> 0" by linarith
  then show ?thesis
  proof cases
    case past
    have n: "nat (int (length xs) - 1) = length xs - 1" by simp
    show ?thesis
    proof (cases "xs \<noteq> [] \<and> \<not> c (last xs) key < 0")
      case True
      then show ?thesis using past unfolding lookup_hinted_def idx_def [symmetric] Let_def n
        by (auto simp: last_conv_nth)
    next
      case False
      have "c (xs ! i) key < 0" if "i < length xs" for i
      proof -
        have "xs \<noteq> []" using that by auto
        then show ?thesis
          using ord [of i "length xs - 1"] False that by (cases "i = length xs - 1") (auto simp: last_conv_nth)
      qed
      then have "lower_bound c key xs = length xs" by (intro lower_bound_unique) auto
      then show ?thesis using past False unfolding lookup_hinted_def idx_def [symmetric] Let_def n
        by (auto simp: last_conv_nth)
    qed
  next
    case inside
    show ?thesis
    proof (cases "c (xs ! nat (idx - 1)) key \<noteq> 0 \<and> c (xs ! nat idx) key = 0")
      case True
      have "nat idx < length xs" "nat (idx - 1) < nat idx" using inside by auto
      then have "c (xs ! nat (idx - 1)) key \<le> 0" using ord [of "nat (idx - 1)" "nat idx"] True by simp
      then have prev: "c (xs ! nat (idx - 1)) key < 0" using True by linarith
      have "c (xs ! i) key < 0" if "i < nat idx" for i
        using ord [of i "nat (idx - 1)"] prev that inside by (cases "i = nat (idx - 1)") auto
      then have "lower_bound c key xs = nat idx" using True inside by (intro lower_bound_unique) auto
      then show ?thesis using inside True by (simp add: lookup_hinted_def idx_def [symmetric] Let_def)
    qed (use inside in \<open>auto simp: lookup_hinted_def idx_def [symmetric] Let_def\<close>)
  next
    case first
    then have "xs \<noteq> []" "idx = 0" using assms(2) by (auto simp: idx_def)
    moreover have "lower_bound c key xs = 0" if "c (xs ! 0) key = 0"
      using that by (intro lower_bound_unique) auto
    ultimately show ?thesis using first by (auto simp: lookup_hinted_def idx_def [symmetric] Let_def)
  qed
qed

lemma lookup_ok:
  assumes "ordered_for c key xs" "\<forall>h \<in> set_option hint. h \<ge> - 1"
  defines "k \<equiv> lower_bound c key xs"
  shows "svn_sort__array_lookup xs key hint c =
    Ok (if k < length xs \<and> c (xs ! k) key = 0 then Some (xs ! k) else None, map_option (\<lambda>_. int k) hint)"
proof -
  have plain: "(\<lambda>idx. let hint = map_option (\<lambda>_. idx) hint in
      if idx \<ge> int (length xs) then Ok (None, hint)
      else let result = xs ! nat idx in Ok (if c result key \<noteq> 0 then None else Some result, hint)) (int k) =
    Ok (if k < length xs \<and> c (xs ! k) key = 0 then Some (xs ! k) else None, map_option (\<lambda>_. int k) hint)"
    by (simp add: Let_def)
  show ?thesis
  proof (cases hint)
    case None
    then show ?thesis using bsearch_ok [OF assms(1)] plain by (simp add: svn_sort__array_lookup_def k_def)
  next
    case (Some h)
    then have "h \<ge> - 1" using assms(2) by simp
    from hint_ok [OF assms(1) this] show ?thesis
      using Some bsearch_ok [OF assms(1)] plain
      by (auto simp: svn_sort__array_lookup_def k_def Let_def)
  qed
qed

section \<open>Reversal\<close>

lemma reverse_loop_ok:
  assumes "i \<le> length xs div 2" "length ys = length xs"
    and "\<And>j. j < length xs \<Longrightarrow> ys ! j = (if j < i \<or> length xs - i \<le> j then xs ! (length xs - j - 1) else xs ! j)"
  shows "reverse_loop i ys = rev xs"
  using assms
proof (induction i ys rule: reverse_loop.induct)
  case (1 i ys)
  show ?case
  proof (cases "i < length ys div 2")
    case True
    let ?s = "length ys - i - 1"
    have "reverse_loop (i + 1) (ys[i := ys ! ?s, ?s := ys ! i]) = rev xs"
      using True 1(2,3) 1(4) by (intro 1(1) [OF True refl refl]) (auto simp: nth_list_update)
    then show ?thesis using True by (subst reverse_loop.simps) (simp add: Let_def)
  next
    case False
    then have i: "i = length xs div 2" using 1 by simp
    have "ys ! j = rev xs ! j" if "j < length xs" for j
    proof (cases "j < i \<or> length xs - i \<le> j")
      case True
      then show ?thesis using 1(4) that by (simp add: rev_nth)
    next
      case False
      then have "j = length xs - j - 1" using i that by presburger
      then show ?thesis using 1(4) that False by (simp add: rev_nth)
    qed
    then have "ys = rev xs" using 1(3) by (intro nth_equalityI) auto
    then show ?thesis using False by (subst reverse_loop.simps) simp
  qed
qed

lemma array_reverse_rev: "svn_sort__array_reverse xs = rev xs"
  by (simp add: svn_sort__array_reverse_def reverse_loop_ok)

section \<open>Heaps\<close>

text \<open>Index \<open>i\<close> is not smaller than its parent, which is index \<open>lo\<close> or a later one.\<close>

definition heap_at :: "('a \<Rightarrow> 'a \<Rightarrow> int) \<Rightarrow> nat \<Rightarrow> 'a list \<Rightarrow> nat \<Rightarrow> bool" where
  "heap_at c lo xs i \<longleftrightarrow>
     (0 < i \<and> i < length xs \<and> lo \<le> (i - 1) div 2 \<longrightarrow> c (xs ! ((i - 1) div 2)) (xs ! i) \<le> 0)"

definition is_heap :: "('a \<Rightarrow> 'a \<Rightarrow> int) \<Rightarrow> 'a list \<Rightarrow> bool" where
  "is_heap c xs \<longleftrightarrow> (\<forall>i < length xs. 0 < i \<longrightarrow> c (xs ! ((i - 1) div 2)) (xs ! i) \<le> 0)"

lemma is_heap_iff: "is_heap c xs \<longleftrightarrow> (\<forall>i. heap_at c 0 xs i)"
  by (auto simp: is_heap_def heap_at_def)

lemma parent_iff: "0 < (i :: nat) \<Longrightarrow> (i - 1) div 2 = k \<longleftrightarrow> i = 2 * k + 1 \<or> i = 2 * k + 2"
  by presburger

lemma length_heap_swap [simp]: "length (heap_swap xs i j) = length xs"
  by (simp add: heap_swap_def)

lemma nth_heap_swap:
  "i < length xs \<Longrightarrow> j < length xs \<Longrightarrow>
   heap_swap xs i j ! k = (if k = i then xs ! j else if k = j then xs ! i else xs ! k)"
  by (cases "k = j"; cases "k = i") (simp_all add: heap_swap_def nth_list_update)

lemma mset_heap_swap [simp]: "i < length xs \<Longrightarrow> j < length xs \<Longrightarrow> mset (heap_swap xs i j) = mset xs"
  by (simp add: heap_swap_def mset_swap)

lemma set_heap_swap [simp]: "i < length xs \<Longrightarrow> j < length xs \<Longrightarrow> set (heap_swap xs i j) = set xs"
  by (metis mset_heap_swap set_mset_mset)

text \<open>A heap but for the index that moves: towards the leaves, and towards the root.\<close>

definition sinking :: "('a \<Rightarrow> 'a \<Rightarrow> int) \<Rightarrow> nat \<Rightarrow> 'a list \<Rightarrow> nat \<Rightarrow> bool" where
  "sinking c lo xs idx \<longleftrightarrow>
     (\<forall>i. (i - 1) div 2 \<noteq> idx \<longrightarrow> heap_at c lo xs i) \<and>
     (\<forall>i. 0 < i \<and> i < length xs \<and> (i - 1) div 2 = idx \<and> 0 < idx \<and> lo \<le> (idx - 1) div 2 \<longrightarrow>
          c (xs ! ((idx - 1) div 2)) (xs ! i) \<le> 0)"

definition rising :: "('a \<Rightarrow> 'a \<Rightarrow> int) \<Rightarrow> 'a list \<Rightarrow> nat \<Rightarrow> bool" where
  "rising c xs idx \<longleftrightarrow>
     (\<forall>i. i \<noteq> idx \<longrightarrow> heap_at c 0 xs i) \<and>
     (\<forall>i. 0 < i \<and> i < length xs \<and> (i - 1) div 2 = idx \<and> 0 < idx \<longrightarrow> c (xs ! ((idx - 1) div 2)) (xs ! i) \<le> 0)"

context comparison
begin

lemma heap_is_less_ok [simp]:
  "i < length xs \<Longrightarrow> j < length xs \<Longrightarrow> heap_is_less compare_func xs i j = Ok (compare_func (xs ! i) (xs ! j) < 0)"
  by (simp add: heap_is_less_def)

lemma sinking_swap:
  assumes s: "sinking compare_func lo xs idx" and lo: "lo \<le> idx"
    and ch: "child = 2 * idx + 1 \<or> child = 2 * idx + 2" "child < length xs"
    and le: "compare_func (xs ! child) (xs ! idx) \<le> 0"
    and sib: "\<And>i. i = 2 * idx + 1 \<or> i = 2 * idx + 2 \<Longrightarrow> i < length xs \<Longrightarrow> compare_func (xs ! child) (xs ! i) \<le> 0"
  shows "sinking compare_func lo (heap_swap xs idx child) child"
proof -
  let ?ys = "heap_swap xs idx child"
  have idx: "idx < length xs" "idx < child" "(child - 1) div 2 = idx" using ch by auto
  have nth: "?ys ! k = (if k = idx then xs ! child else if k = child then xs ! idx else xs ! k)" for k
    using nth_heap_swap idx ch(2) by metis
  have "heap_at compare_func lo ?ys i" if ne: "(i - 1) div 2 \<noteq> child" for i
  proof (cases "0 < i \<and> i < length xs \<and> lo \<le> (i - 1) div 2")
    case True
    then consider (up) "(i - 1) div 2 = idx" | (self) "(i - 1) div 2 \<noteq> idx" "i = idx"
      | (other) "(i - 1) div 2 \<noteq> idx" "i \<noteq> idx" by blast
    then show ?thesis
    proof cases
      case up
      then have "i = 2 * idx + 1 \<or> i = 2 * idx + 2" using parent_iff True by blast
      then show ?thesis using True up sib [of i] le idx by (auto simp: heap_at_def nth)
    next
      case self
      have "compare_func (xs ! ((idx - 1) div 2)) (xs ! child) \<le> 0"
        using s True self idx ch(2) by (auto simp: sinking_def)
      then show ?thesis using True self ne by (simp add: heap_at_def nth)
    next
      case other
      then have "i \<noteq> child" using idx(3) by auto
      moreover have "heap_at compare_func lo xs i" using s other by (simp add: sinking_def)
      ultimately show ?thesis using other ne by (simp add: heap_at_def nth)
    qed
  qed (auto simp: heap_at_def)
  moreover have "compare_func (?ys ! ((child - 1) div 2)) (?ys ! i) \<le> 0"
    if i: "0 < i" "i < length ?ys" "(i - 1) div 2 = child" for i
  proof -
    have "heap_at compare_func lo xs i" using s i idx(2) by (simp add: sinking_def)
    moreover have "i \<noteq> idx" "i \<noteq> child" using i idx(2) by auto
    ultimately show ?thesis using i lo idx by (simp add: heap_at_def nth)
  qed
  ultimately show ?thesis by (auto simp: sinking_def)
qed

lemma sinking_done:
  assumes s: "sinking compare_func lo xs idx"
    and "\<And>i. i = 2 * idx + 1 \<or> i = 2 * idx + 2 \<Longrightarrow> i < length xs \<Longrightarrow> compare_func (xs ! idx) (xs ! i) \<le> 0"
  shows "heap_at compare_func lo xs i"
proof (cases "0 < i \<and> (i - 1) div 2 = idx")
  case True
  then show ?thesis using assms(2) [of i] parent_iff [of i idx] by (auto simp: heap_at_def)
qed (use s in \<open>auto simp: sinking_def heap_at_def\<close>)

lemma bubble_up_ok:
  assumes "sinking compare_func lo xs idx" "lo \<le> idx" "\<forall>x \<in> set xs. valid x"
  shows "\<exists>ys. heap_bubble_up compare_func xs idx = Ok ys \<and> mset ys = mset xs \<and> (\<forall>i. heap_at compare_func lo ys i)"
  using assms
proof (induction "length xs - idx" arbitrary: xs idx rule: less_induct)
  case less
  have v: "i < length xs \<Longrightarrow> valid (xs ! i)" for i using less.prems(3) by auto
  consider (two) "2 * idx + 2 < length xs" | (one) "2 * idx + 2 = length xs" | (none) "2 * idx + 2 > length xs" by linarith
  then show ?case
  proof cases
    case none
    then have "heap_at compare_func lo xs i" for i using sinking_done [OF less.prems(1)] by auto
    then show ?thesis using none by (subst heap_bubble_up.simps) auto
  next
    case one
    then have len: "2 * idx + 1 < length xs" "idx < length xs" by auto
    show ?thesis
    proof (cases "compare_func (xs ! (2 * idx + 1)) (xs ! idx) < 0")
      case True
      let ?ys = "heap_swap xs idx (2 * idx + 1)"
      have "sinking compare_func lo ?ys (2 * idx + 1)"
        using less.prems len True one compare_refl [OF v] by (intro sinking_swap) auto
      then have "heap_at compare_func lo ?ys i" for i by (rule sinking_done) (use one in auto)
      moreover have "heap_swap xs (2 * idx + 1) idx = ?ys" using len by (simp add: heap_swap_def list_update_swap)
      ultimately show ?thesis using one len True by (subst heap_bubble_up.simps) auto
    next
      case False
      have "compare_func (xs ! idx) (xs ! (2 * idx + 1)) \<le> 0" using False compare_total v len by blast
      then have "heap_at compare_func lo xs i" for i using one by (intro sinking_done [OF less.prems(1)]) auto
      then show ?thesis using one len False by (subst heap_bubble_up.simps) auto
    qed
  next
    case two
    define child where "child = (if compare_func (xs ! (2 * idx + 1)) (xs ! (2 * idx + 2)) < 0 then 2 * idx + 1 else 2 * idx + 2)"
    have ch: "child = 2 * idx + 1 \<or> child = 2 * idx + 2" "child < length xs" using two by (auto simp: child_def)
    have sib: "compare_func (xs ! child) (xs ! i) \<le> 0" if "i = 2 * idx + 1 \<or> i = 2 * idx + 2" for i
      using that two compare_total [OF v v] compare_refl [OF v] by (auto simp: child_def split: if_splits)
    have step: "heap_bubble_up compare_func xs idx =
      (if compare_func (xs ! idx) (xs ! child) < 0 then Ok xs
       else heap_bubble_up compare_func (heap_swap xs idx child) child)"
      using two ch(2) by (subst heap_bubble_up.simps) (simp add: child_def Let_def)
    show ?thesis
    proof (cases "compare_func (xs ! idx) (xs ! child) < 0")
      case True
      have "compare_func (xs ! idx) (xs ! i) \<le> 0" if i: "i = 2 * idx + 1 \<or> i = 2 * idx + 2" for i
        using compare_trans [OF v v v, of idx child i] True sib [OF i] i ch(2) two by auto
      then have "heap_at compare_func lo xs i" for i by (intro sinking_done [OF less.prems(1)]) auto
      then show ?thesis using step True by auto
    next
      case False
      then have le: "compare_func (xs ! child) (xs ! idx) \<le> 0" using compare_total v ch by auto
      have "sinking compare_func lo (heap_swap xs idx child) child"
        using sinking_swap [OF less.prems(1,2) ch le sib] by blast
      moreover have "length (heap_swap xs idx child) - child < length xs - idx" "idx < length xs" "lo \<le> child"
        using ch two less.prems(2) by auto
      ultimately show ?thesis using less.hyps [of "heap_swap xs idx child" child] less.prems(3) ch(2) False step
        by auto
    qed
  qed
qed

lemma rising_swap:
  assumes s: "rising compare_func xs idx" and idx: "0 < idx" "idx < length xs"
    and le: "compare_func (xs ! idx) (xs ! ((idx - 1) div 2)) \<le> 0" and v: "\<forall>x \<in> set xs. valid x"
  shows "rising compare_func (heap_swap xs idx ((idx - 1) div 2)) ((idx - 1) div 2)"
proof -
  define par where "par = (idx - 1) div 2"
  let ?ys = "heap_swap xs idx par"
  have par: "par < idx" "par < length xs" using idx by (auto simp: par_def)
  have vn: "valid (xs ! k)" if "k < length xs" for k using v that by auto
  have nth: "?ys ! k = (if k = idx then xs ! par else if k = par then xs ! idx else xs ! k)" for k
    using nth_heap_swap idx par by metis
  have old: "compare_func (xs ! ((i - 1) div 2)) (xs ! i) \<le> 0" if "0 < i" "i < length xs" "i \<noteq> idx" for i
    using s that by (auto simp: rising_def heap_at_def)
  have "heap_at compare_func 0 ?ys i" if ne: "i \<noteq> par" for i
  proof (cases "0 < i \<and> i < length xs")
    case True
    then consider (self) "i = idx" | (below) "i \<noteq> idx" "(i - 1) div 2 = idx" | (sibling) "i \<noteq> idx" "(i - 1) div 2 = par"
      | (other) "i \<noteq> idx" "(i - 1) div 2 \<noteq> idx" "(i - 1) div 2 \<noteq> par" by blast
    then show ?thesis
    proof cases
      case self
      then show ?thesis using le par by (simp add: heap_at_def nth) (simp add: par_def)
    next
      case below
      have "compare_func (xs ! par) (xs ! i) \<le> 0" using s True below idx by (auto simp: rising_def par_def)
      then show ?thesis using below ne by (simp add: heap_at_def nth)
    next
      case sibling
      have "compare_func (xs ! idx) (xs ! i) \<le> 0"
        using compare_trans [OF vn vn vn, of idx par i] le old [of i] True sibling idx par by (auto simp: par_def)
      then show ?thesis using sibling ne par by (simp add: heap_at_def nth)
    next
      case other
      then show ?thesis using old [of i] True ne by (simp add: heap_at_def nth)
    qed
  qed (auto simp: heap_at_def)
  moreover have "compare_func (?ys ! ((par - 1) div 2)) (?ys ! i) \<le> 0"
    if i: "0 < i" "i < length ?ys" "(i - 1) div 2 = par" "0 < par" for i
  proof -
    have gp: "compare_func (xs ! ((par - 1) div 2)) (xs ! par) \<le> 0" using old [of par] i par by simp
    have "(par - 1) div 2 < par" using i by auto
    moreover have "compare_func (xs ! ((par - 1) div 2)) (xs ! i) \<le> 0" if "i \<noteq> idx"
      using compare_trans [OF vn vn vn, of "(par - 1) div 2" par i] gp old [of i] i that par by auto
    ultimately show ?thesis using gp par i by (auto simp: nth)
  qed
  ultimately have "rising compare_func ?ys par" by (auto simp: rising_def)
  then show ?thesis by (simp add: par_def)
qed

lemma bubble_down_ok:
  assumes "rising compare_func xs idx" "idx < length xs" "\<forall>x \<in> set xs. valid x"
  shows "\<exists>ys. heap_bubble_down compare_func xs idx = Ok ys \<and> mset ys = mset xs \<and> is_heap compare_func ys"
  using assms
proof (induction idx arbitrary: xs rule: less_induct)
  case (less idx)
  define par where "par = (idx - 1) div 2"
  show ?case
  proof (cases "0 < idx \<and> compare_func (xs ! idx) (xs ! par) < 0")
    case True
    then have par: "par < idx" "par < length xs" using less.prems by (auto simp: par_def)
    have "rising compare_func (heap_swap xs idx par) par"
      unfolding par_def by (rule rising_swap) (use True less.prems in \<open>auto simp: par_def\<close>)
    then obtain ys where ys: "heap_bubble_down compare_func (heap_swap xs idx par) par = Ok ys"
      "mset ys = mset xs" "is_heap compare_func ys"
      using less.IH [OF par(1), of "heap_swap xs idx par"] less.prems par by auto
    have "heap_bubble_down compare_func xs idx = heap_bubble_down compare_func (heap_swap xs idx par) par"
      using True par less.prems by (subst heap_bubble_down.simps) (simp add: par_def)
    then show ?thesis using ys by simp
  next
    case False
    have par: "par < length xs" using less.prems(2) by (auto simp: par_def)
    have "heap_at compare_func 0 xs idx"
      using False less.prems par compare_total [of "xs ! idx" "xs ! par"] by (auto simp: heap_at_def par_def)
    then have "is_heap compare_func xs" using less.prems by (auto simp: is_heap_iff rising_def)
    moreover have "heap_bubble_down compare_func xs idx = Ok xs"
      using False par less.prems by (subst heap_bubble_down.simps) (auto simp: par_def)
    ultimately show ?thesis by simp
  qed
qed

end

context comparison
begin

lemma heapify_ok:
  assumes "\<forall>i. heap_at compare_func (Suc k) xs i" "\<forall>x \<in> set xs. valid x"
  shows "\<exists>ys. heapify compare_func xs k = Ok ys \<and> mset ys = mset xs \<and> is_heap compare_func ys"
  using assms
proof (induction k arbitrary: xs)
  case 0
  then have "sinking compare_func 0 xs 0" by (auto simp: sinking_def heap_at_def Suc_le_eq)
  then show ?case using bubble_up_ok [of 0 xs 0] 0 by (auto simp: is_heap_iff)
next
  case (Suc k)
  have "lo \<noteq> (i - 1) div 2 \<Longrightarrow> heap_at compare_func (Suc lo) xs i \<Longrightarrow> heap_at compare_func lo xs i" for lo i
    by (auto simp: heap_at_def)
  then have "sinking compare_func (Suc k) xs (Suc k)"
    using Suc.prems(1) by (fastforce simp: sinking_def)
  then obtain ys where ys: "heap_bubble_up compare_func xs (Suc k) = Ok ys" "mset ys = mset xs"
    "\<forall>i. heap_at compare_func (Suc k) ys i"
    using bubble_up_ok [of "Suc k" xs "Suc k"] Suc.prems by auto
  moreover from ys(2) have "set ys = set xs" by (metis set_mset_mset)
  ultimately show ?case using Suc.IH [of ys] Suc.prems(2) by auto
qed

lemma create_ok:
  assumes "\<forall>x \<in> set xs. valid x"
  shows "\<exists>q. svn_priority_queue__create compare_func xs = Ok q \<and> mset q = mset xs \<and> is_heap compare_func q"
proof -
  have "heap_at compare_func (Suc (length xs div 2)) xs i" for i by (auto simp: heap_at_def)
  then show ?thesis using heapify_ok assms by (simp add: svn_priority_queue__create_def)
qed

lemma push_ok:
  assumes "is_heap compare_func q" "\<forall>x \<in> set q. valid x" "valid e"
  shows "\<exists>r. svn_priority_queue__push compare_func q e = Ok r \<and> mset r = add_mset e (mset q) \<and> is_heap compare_func r"
proof -
  have "i < length (q @ [e]) \<Longrightarrow> 0 < i \<Longrightarrow> (i - 1) div 2 < length q" for i by auto
  then have "rising compare_func (q @ [e]) (length q)"
    using assms(1) by (fastforce simp: rising_def heap_at_def is_heap_def nth_append)
  then show ?thesis using bubble_down_ok [of "q @ [e]" "length q"] assms by (auto simp: svn_priority_queue__push_def)
qed

lemma sinking_root:
  assumes "is_heap compare_func q" "length r \<le> length q" "\<And>i. 0 < i \<Longrightarrow> i < length r \<Longrightarrow> r ! i = q ! i"
  shows "sinking compare_func 0 r 0"
proof -
  have "compare_func (r ! ((i - 1) div 2)) (r ! i) \<le> 0" if "0 < i" "i < length r" "0 < (i - 1) div 2" for i
    using assms that by (simp add: is_heap_def)
  then show ?thesis by (auto simp: sinking_def heap_at_def)
qed

lemma update_ok:
  assumes "is_heap compare_func q" "q \<noteq> []" "\<forall>x \<in> set q. valid x" "valid e"
  shows "\<exists>r. svn_priority_queue__update compare_func (q[0 := e]) = Ok r \<and> mset r = mset (q[0 := e]) \<and>
    is_heap compare_func r"
proof -
  have "sinking compare_func 0 (q[0 := e]) 0" using assms by (intro sinking_root [OF assms(1)]) auto
  moreover have "\<forall>x \<in> set (q[0 := e]). valid x" using assms set_update_subset_insert by fastforce
  ultimately show ?thesis using bubble_up_ok [of 0 "q[0 := e]" 0] by (auto simp: svn_priority_queue__update_def is_heap_iff)
qed

lemma pop_ok:
  assumes "is_heap compare_func q" "q \<noteq> []" "\<forall>x \<in> set q. valid x"
  shows "\<exists>r. svn_priority_queue__pop compare_func q = Ok r \<and> mset q = add_mset (q ! 0) (mset r) \<and>
    is_heap compare_func r"
proof -
  define r where "r = butlast (q[0 := last q])"
  have "sinking compare_func 0 r 0" unfolding r_def
    by (rule sinking_root [OF assms(1)]) (auto simp: nth_butlast)
  moreover have q: "mset q = add_mset (q ! 0) (mset r)"
  proof (cases q)
    case (Cons x xs)
    then show ?thesis by (cases xs rule: rev_cases) (auto simp: r_def butlast_append)
  qed (use assms in simp)
  moreover from q have "set r \<subseteq> set q" by (metis set_mset_mset set_mset_add_mset_insert subset_insertI)
  ultimately obtain s where "heap_bubble_up compare_func r 0 = Ok s" "mset s = mset r" "is_heap compare_func s"
    using bubble_up_ok [of 0 r 0] assms(3) by (auto simp: is_heap_iff)
  moreover have "svn_priority_queue__pop compare_func q = heap_bubble_up compare_func r 0"
    using assms(2) by (simp add: svn_priority_queue__pop_def r_def last_conv_nth)
  ultimately show ?thesis using q by simp
qed

lemma heap_root_minimal:
  assumes "is_heap compare_func q" "\<forall>x \<in> set q. valid x" "i < length q"
  shows "compare_func (q ! 0) (q ! i) \<le> 0"
  using assms(3)
proof (induction i rule: less_induct)
  case (less i)
  show ?case
  proof (cases "i = 0")
    case True
    then show ?thesis using compare_refl less.prems assms(2) by auto
  next
    case False
    then have par: "(i - 1) div 2 < i" "(i - 1) div 2 < length q" using less.prems by auto
    have "compare_func (q ! ((i - 1) div 2)) (q ! i) \<le> 0"
      using assms(1) less.prems False by (simp add: is_heap_def)
    moreover have "0 < length q" using less.prems by linarith
    then have "valid (q ! 0)" "valid (q ! i)" "valid (q ! ((i - 1) div 2))"
      using assms(2) less.prems par nth_mem by blast+
    ultimately show ?thesis using less.IH [OF par] compare_trans by blast
  qed
qed

end

section \<open>The comparison functions are orders\<close>

interpretation revisions: comparison svn_sort_compare_revisions "\<lambda>_. True"
  by unfold_locales (auto simp: svn_sort_compare_revisions_def split: if_splits)

interpretation ranges: checked_comparison svn_sort_compare_ranges "\<lambda>_. True"
  "\<lambda>a b. Ok (svn_sort_compare_ranges a b)"
  by unfold_locales (auto simp: svn_sort_compare_ranges_def split: if_splits)

lemma memcmp_lexical:
  "svn_sort_compare_items_lexically (s, v) (t, w) =
    (if s = t then 0 else if (s, t) \<in> lexord {(a, b). (of_char a :: nat) < of_char b} then - 1 else 1)"
proof (induction s arbitrary: t)
  case Nil
  show ?case by (cases t) (auto simp: svn_sort_compare_items_lexically_def)
next
  case (Cons a s)
  show ?case
  proof (cases t)
    case (Cons b t')
    have "svn_sort_compare_items_lexically (a # s, v) (b # t', w) =
      (if a = b then svn_sort_compare_items_lexically (s, v) (t', w) else if (of_char a :: nat) < of_char b then - 1 else 1)"
      by (auto simp: svn_sort_compare_items_lexically_def Let_def)
    then show ?thesis using Cons.IH Cons by auto
  qed (simp add: svn_sort_compare_items_lexically_def)
qed

lemma path_byte_linear:
  "a \<noteq> b \<Longrightarrow> (a, b) \<in> path_byte_less \<longleftrightarrow> (b, a) \<notin> path_byte_less"
  "(a, b) \<in> path_byte_less \<Longrightarrow> (b, c) \<in> path_byte_less \<Longrightarrow> (a, c) \<in> path_byte_less"
  "(a, a) \<notin> path_byte_less"
  using of_char_less_total [of a b] by (auto simp: path_byte_less_def)

lemma path_order_swap: "path_order s t < 0 \<longleftrightarrow> 0 < path_order t s"
proof (induction s t rule: path_order.induct)
  case (4 a s b t)
  then show ?case using path_byte_linear(1) [of a b] by auto
qed auto

lemma path_order_trans: "path_order s t \<le> 0 \<Longrightarrow> path_order t u \<le> 0 \<Longrightarrow> path_order s u \<le> 0"
proof (induction s t arbitrary: u rule: path_order.induct)
  case (2 b t)
  then show ?case by (cases u) auto
next
  case (4 a s b t)
  show ?case
  proof (cases u)
    case (Cons c u')
    then consider "a = b" "b = c" | "a = b" "b \<noteq> c" | "a \<noteq> b" "b = c" | "a \<noteq> b" "b \<noteq> c" by blast
    then show ?thesis
    proof cases
      case 4
      then have "(a, b) \<in> path_byte_less" "(b, c) \<in> path_byte_less"
        using "4.prems" Cons by (auto split: if_splits)
      then have "(a, c) \<in> path_byte_less" "a \<noteq> c" using path_byte_linear by blast+
      then show ?thesis using Cons by simp
    qed (use 4 Cons in \<open>auto split: if_splits\<close>)
  qed (use 4 in auto)
qed auto

definition path_key :: "cstring \<Rightarrow> bool" where
  "path_key p \<longleftrightarrow> is_cstring p \<and> is_canonical p (length p)"

interpretation path_items: checked_comparison "\<lambda>a b. path_order (fst a) (fst b)" "\<lambda>a. path_key (fst a)"
  svn_sort_compare_items_as_paths
  using path_order_swap path_order_trans
  by unfold_locales (auto simp: svn_sort_compare_items_as_paths_def path_key_def compare_eq_order)

interpretation paths: checked_comparison path_order path_key svn_sort_compare_paths
  using path_order_swap path_order_trans
  by unfold_locales (auto simp: svn_sort_compare_paths_def path_key_def compare_eq_order)

lemma sort_hash_ok:
  assumes "\<forall>k \<in> fst ` set ht. path_key k"
  shows "\<exists>items. svn_sort__hash ht svn_sort_compare_items_as_paths = Ok items \<and> mset items = mset ht \<and>
    ordered_by (\<lambda>a b. path_order (fst a) (fst b)) items"
proof (cases "successively (\<lambda>a b. path_order (fst a) (fst b) < 0) ht")
  case True
  then show ?thesis
    using assms path_items.already_sorted_ok [of ht] path_items.successively_ordered [of ht]
    by (auto simp: svn_sort__hash_def)
next
  case False
  then show ?thesis
    using assms path_items.already_sorted_ok [of ht] path_items.sort_array_ok [of ht]
    by (auto simp: svn_sort__hash_def)
qed

lemma lower_bound_below:
  assumes "i < lower_bound c key xs"
  shows "c (xs ! i) key < 0"
proof -
  let ?ys = "takeWhile (\<lambda>x. c x key < 0) xs"
  have i: "i < length ?ys" using assms by (simp add: lower_bound_def)
  then have "c (?ys ! i) key < 0" using set_takeWhileD [OF nth_mem [OF i]] by simp
  then show ?thesis using takeWhile_nth [OF i] by simp
qed

section \<open>Properties\<close>

text \<open>C31. The priority queue keeps its contract for every comparison function that is a total preorder:
  creating it keeps the elements and establishes the heap, pushing adds the element, the element
  \<^verbatim>\<open>svn_priority_queue__peek\<close> shows is not greater than any other, popping removes just that one, and no
  assertion on the indices fails.\<close>

theorem priority_queue_contract:
  assumes "comparison c valid" "\<forall>x \<in> set q. valid x" "valid e"
  shows "(\<exists>r. svn_priority_queue__create c q = Ok r \<and> is_heap c r \<and> mset r = mset q) \<and>
    (is_heap c q \<longrightarrow>
      (\<exists>r. svn_priority_queue__push c q e = Ok r \<and> is_heap c r \<and> mset r = add_mset e (mset q))) \<and>
    (is_heap c q \<and> q \<noteq> [] \<longrightarrow>
      (\<exists>m r. svn_priority_queue__peek q = Some m \<and> (\<forall>x \<in> set q. c m x \<le> 0) \<and>
        svn_priority_queue__pop c q = Ok r \<and> is_heap c r \<and> mset q = add_mset m (mset r)) \<and>
      (\<exists>r. svn_priority_queue__update c (q[0 := e]) = Ok r \<and> is_heap c r \<and> mset r = mset (q[0 := e])))"
proof (intro conjI impI)
  show "\<exists>r. svn_priority_queue__create c q = Ok r \<and> is_heap c r \<and> mset r = mset q"
    using comparison.create_ok [OF assms(1,2)] by blast
  show "\<exists>r. svn_priority_queue__push c q e = Ok r \<and> is_heap c r \<and> mset r = add_mset e (mset q)" if "is_heap c q"
    using comparison.push_ok [OF assms(1) that assms(2,3)] by blast
  assume q: "is_heap c q \<and> q \<noteq> []"
  then have "\<forall>x \<in> set q. c (q ! 0) x \<le> 0"
    using comparison.heap_root_minimal [OF assms(1) _ assms(2)] by (auto simp: in_set_conv_nth)
  then show "\<exists>m r. svn_priority_queue__peek q = Some m \<and> (\<forall>x \<in> set q. c m x \<le> 0) \<and>
      svn_priority_queue__pop c q = Ok r \<and> is_heap c r \<and> mset q = add_mset m (mset r)"
    using comparison.pop_ok [OF assms(1) _ _ assms(2)] q by (auto simp: svn_priority_queue__peek_def)
  show "\<exists>r. svn_priority_queue__update c (q[0 := e]) = Ok r \<and> is_heap c r \<and> mset r = mset (q[0 := e])"
    using comparison.update_ok [OF assms(1) _ _ assms(2,3)] q by blast
qed

lemma revisions_comparison: "comparison svn_sort_compare_revisions (\<lambda>_. True)"
  by unfold_locales

theorem priority_queue_contract_witness:
  "(\<exists>r. svn_priority_queue__create svn_sort_compare_revisions [9, 3, 5] = Ok r \<and>
      is_heap svn_sort_compare_revisions r \<and> mset r = mset [9, 3, 5]) \<and>
    (\<exists>r. svn_priority_queue__push svn_sort_compare_revisions [9, 3, 5] 7 = Ok r \<and>
      is_heap svn_sort_compare_revisions r \<and> mset r = add_mset 7 (mset [9, 3, 5]))"
proof -
  have "is_heap svn_sort_compare_revisions [9, 3, 5]"
    by (auto simp: is_heap_def svn_sort_compare_revisions_def less_Suc_eq)
  then show ?thesis
    using priority_queue_contract [OF revisions_comparison, of "[9, 3, 5]" 7] by simp
qed

text \<open>In an ordered array \<^verbatim>\<open>svn_sort__array_lookup\<close> finds the key with the binary search of
  \<^verbatim>\<open>bsearch_lower_bound\<close> at the first entry that is not smaller, and a hint never changes the answer:
  without a hint, with one that is right and with one that is wrong, the result is the same entry, and
  the hint becomes the position at which the key belongs.\<close>

theorem array_lookup_any_hint:
  assumes "ordered_for c key xs" "h \<ge> - 1"
  shows "\<exists>k result. bsearch_lower_bound key xs c = Ok (int k) \<and> k \<le> length xs \<and>
    (\<forall>i < k. c (xs ! i) key < 0) \<and> (\<forall>i. k \<le> i \<and> i < length xs \<longrightarrow> \<not> c (xs ! i) key < 0) \<and>
    svn_sort__array_lookup xs key None c = Ok (result, None) \<and>
    svn_sort__array_lookup xs key (Some h) c = Ok (result, Some (int k)) \<and>
    (case result of None \<Rightarrow> \<forall>x \<in> set xs. c x key \<noteq> 0 | Some x \<Rightarrow> x \<in> set xs \<and> c x key = 0)"
proof -
  define k where "k = lower_bound c key xs"
  define result where "result = (if k < length xs \<and> c (xs ! k) key = 0 then Some (xs ! k) else None)"
  have below: "\<forall>i < k. c (xs ! i) key < 0" by (auto simp: k_def intro: lower_bound_below)
  have ord: "(c (xs ! j) key < 0 \<longrightarrow> c (xs ! i) key < 0) \<and> (c (xs ! j) key \<le> 0 \<longrightarrow> c (xs ! i) key \<le> 0)"
    if "i < j" "j < length xs" for i j
    using assms(1) that by (auto simp: ordered_for_def sorted_wrt_iff_nth_less)
  have at: "k < length xs \<Longrightarrow> \<not> c (xs ! k) key < 0"
    using nth_length_takeWhile [of "\<lambda>x. c x key < 0" xs] by (simp add: k_def lower_bound_def)
  have above: "\<not> c (xs ! i) key < 0" if "k \<le> i" "i < length xs" for i
    using ord [of k i] at that by (cases "i = k") auto
  have "\<forall>x \<in> set xs. c x key \<noteq> 0" if none: "\<not> (k < length xs \<and> c (xs ! k) key = 0)"
  proof
    fix x assume "x \<in> set xs"
    then obtain i where i: "i < length xs" "x = xs ! i" by (auto simp: in_set_conv_nth)
    show "c x key \<noteq> 0"
    proof
      assume "c x key = 0"
      then have "\<not> i < k" using below i by auto
      then have k: "k < length xs" using i by simp
      then have "c (xs ! k) key \<le> 0"
        using ord [of k i] i \<open>c x key = 0\<close> \<open>\<not> i < k\<close> by (cases "i = k") simp_all
      then show False using at none k by simp
    qed
  qed
  then have "case result of None \<Rightarrow> \<forall>x \<in> set xs. c x key \<noteq> 0 | Some x \<Rightarrow> x \<in> set xs \<and> c x key = 0"
    by (simp add: result_def)
  moreover have "k \<le> length xs" unfolding k_def by (rule lower_bound_le)
  moreover have "svn_sort__array_lookup xs key None c = Ok (result, None)"
    using lookup_ok [OF assms(1), of None] by (simp add: k_def result_def)
  moreover have "svn_sort__array_lookup xs key (Some h) c = Ok (result, Some (int k))"
    using lookup_ok [OF assms(1), of "Some h"] assms(2) by (simp add: k_def result_def)
  ultimately show ?thesis
    using bsearch_ok [OF assms(1)] below above
    by (intro exI [of _ k] exI [of _ result] conjI) (simp_all add: k_def [symmetric])
qed

end
