(* ===== verification/Range_List.thy ===== *)
theory Range_List
  imports Svn_Sort
begin

text \<open>
  Revision ranges and range lists of \<^verbatim>\<open>libsvn_subr/mergeinfo.c\<close>: how two ranges are combined, the
  canonical form of a range list and its computation.

  A range \<open>(start, end]\<close> stands for the revisions after \<open>start\<close> up to and including \<open>end\<close>. A range list
  is the array of ranges as the C code has it; the objects behind its pointers are not shared between
  lists here, which is how the functions of this file allocate them. Revision numbers are unbounded:
  the parser admits none above \<open>2^31 - 1\<close>.
\<close>

section \<open>Ranges\<close>

definition combine_ranges ::
  "svn_merge_range_t \<Rightarrow> svn_merge_range_t \<Rightarrow> bool \<Rightarrow> svn_merge_range_t option" where
  "combine_ranges in1 in2 consider_inheritance =
     (if range_start in1 \<le> range_end in2 \<and> range_start in2 \<le> range_end in1 then
        if \<not> consider_inheritance \<or> consider_inheritance \<and> inheritable in1 = inheritable in2
        then Some \<lparr>range_start = min (range_start in1) (range_start in2),
                   range_end = max (range_end in1) (range_end in2),
                   inheritable = (inheritable in1 \<or> inheritable in2)\<rparr>
        else None
      else None)"

definition IS_VALID_FORWARD_RANGE :: "svn_merge_range_t \<Rightarrow> bool" where
  "IS_VALID_FORWARD_RANGE r \<longleftrightarrow> SVN_IS_VALID_REVNUM (range_start r) \<and> range_start r < range_end r"

datatype intersection_type_t =
    svn__no_intersection
  | svn__equal_intersection
  | svn__adjoining_intersection
  | svn__overlapping_intersection
  | svn__proper_subset_intersection

definition get_type_of_intersection ::
  "svn_merge_range_t \<Rightarrow> svn_merge_range_t \<Rightarrow> intersection_type_t cres" where
  "get_type_of_intersection r1 r2 =
     asserting (IS_VALID_FORWARD_RANGE r1) (asserting (IS_VALID_FORWARD_RANGE r2)
       (Ok (if \<not> (range_start r1 \<le> range_end r2 \<and> range_start r2 \<le> range_end r1) then svn__no_intersection
            else if range_start r1 = range_start r2 \<and> range_end r1 = range_end r2 then svn__equal_intersection
            else if range_end r1 = range_start r2 \<or> range_end r2 = range_start r1 then svn__adjoining_intersection
            else if range_start r1 \<le> range_start r2 \<and> range_end r1 \<ge> range_end r2
            then svn__proper_subset_intersection
            else if range_start r2 \<le> range_start r1 \<and> range_end r2 \<ge> range_end r1
            then svn__proper_subset_intersection
            else svn__overlapping_intersection)))"

section \<open>Adding a range to the end of a list\<close>

abbreviation sort_ranges :: "svn_rangelist_t \<Rightarrow> svn_rangelist_t cres" where
  "sort_ranges \<equiv> svn_sort__array (\<lambda>a b. Ok (svn_sort_compare_ranges a b))"

text \<open>The flag \<^verbatim>\<open>sorted\<close> at the end of \<^verbatim>\<open>combine_with_lastrange\<close>: every range pushed is greater than
  the one before, where the first one is compared with the old last range.\<close>

definition pushed_in_order :: "svn_merge_range_t \<Rightarrow> svn_rangelist_t \<Rightarrow> bool" where
  "pushed_in_order lastrange pushed =
     successively (\<lambda>a b. svn_sort_compare_ranges a b < 0) (lastrange # pushed)"

definition resort :: "bool \<Rightarrow> svn_rangelist_t \<Rightarrow> svn_rangelist_t cres" where
  "resort in_order rangelist = (if \<not> in_order then sort_ranges rangelist else Ok rangelist)"

text \<open>The ranges that replace the last one in the two cases with an overlap.\<close>

definition overlapping_parts :: "svn_merge_range_t \<Rightarrow> svn_merge_range_t \<Rightarrow> svn_rangelist_t" where
  "overlapping_parts lastrange new_range =
     (let (r1, r2) = (if range_start new_range < range_start lastrange then (new_range, lastrange)
                      else (lastrange, new_range)) in
      if inheritable r1 then [r1, r2\<lparr>range_start := range_end r1\<rparr>]
      else [r1\<lparr>range_end := range_start r2\<rparr>, r2])"

text \<open>A range \<open>r1\<close> that contains \<open>r2\<close>.\<close>

definition split_superset :: "svn_merge_range_t \<Rightarrow> svn_merge_range_t \<Rightarrow> svn_rangelist_t" where
  "split_superset r1 r2 =
     (if inheritable r1 then
        [r1\<lparr>range_start := min (range_start r1) (range_start r2),
            range_end := max (range_end r1) (range_end r2)\<rparr>]
      else if range_start r1 = range_start r2 then
        [r1\<lparr>range_end := range_end r2, inheritable := True\<rparr>,
         r2\<lparr>range_start := range_end r2, range_end := range_end r1, inheritable := inheritable r1\<rparr>]
      else if range_end r1 = range_end r2 then
        [r1\<lparr>range_end := range_start r2\<rparr>, r2\<lparr>inheritable := True\<rparr>]
      else
        [r1\<lparr>range_end := range_start r2\<rparr>, r2\<lparr>inheritable := True\<rparr>,
         \<lparr>range_start = range_end r2, range_end = range_end r1, inheritable = inheritable r1\<rparr>])"

definition subset_parts :: "svn_merge_range_t \<Rightarrow> svn_merge_range_t \<Rightarrow> svn_rangelist_t" where
  "subset_parts lastrange new_range =
     (if range_start new_range < range_start lastrange \<or> range_end new_range > range_end lastrange
      then split_superset new_range lastrange else split_superset lastrange new_range)"

definition combine_with_lastrange ::
  "svn_merge_range_t \<Rightarrow> svn_rangelist_t \<Rightarrow> bool \<Rightarrow> svn_rangelist_t cres" where
  "combine_with_lastrange new_range rangelist consider_inheritance =
     (if rangelist = [] then Ok [new_range]
      else
        let lastrange = last rangelist; others = butlast rangelist in
        case combine_ranges lastrange new_range consider_inheritance of
          Some combined_range \<Rightarrow> Ok (others @ [combined_range])
        | None \<Rightarrow>
            if \<not> consider_inheritance then Ok (rangelist @ [new_range])
            else
              cbind (get_type_of_intersection new_range lastrange) (\<lambda>intersection_type.
                case intersection_type of
                  svn__no_intersection \<Rightarrow>
                    resort (pushed_in_order lastrange [new_range]) (rangelist @ [new_range])
                | svn__equal_intersection \<Rightarrow> Ok (others @ [lastrange\<lparr>inheritable := True\<rparr>])
                | svn__adjoining_intersection \<Rightarrow>
                    resort (pushed_in_order lastrange [new_range]) (rangelist @ [new_range])
                | svn__overlapping_intersection \<Rightarrow>
                    let parts = overlapping_parts lastrange new_range in
                    resort (pushed_in_order lastrange parts) (others @ parts)
                | svn__proper_subset_intersection \<Rightarrow>
                    let parts = subset_parts lastrange new_range in
                    resort (pushed_in_order lastrange parts) (others @ parts)))"

section \<open>Text of a range\<close>

definition range_to_string :: "svn_merge_range_t \<Rightarrow> string cres" where
  "range_to_string r =
     (let mark = (if inheritable r then '''' else ''*'') in
      if range_start r = range_end r - 1 then Ok (decimal (range_end r) @ mark)
      else if range_start r - 1 = range_end r then Ok (''-'' @ decimal (range_start r) @ mark)
      else if range_start r < range_end r
      then Ok (decimal (range_start r + 1) @ ''-'' @ decimal (range_end r) @ mark)
      else if range_start r > range_end r
      then Ok (decimal (range_start r) @ ''-'' @ decimal (range_end r + 1) @ mark)
      else Err (svn_error_create SVN_ERR_ASSERTION_FAIL
             (''bad range {start='' @ decimal (range_start r) @ '',end='' @ decimal (range_end r) @
              '',inheritable='' @ (if inheritable r then ''1'' else ''0'') @ ''}'')))"

definition range_to_string_debug :: "svn_merge_range_t \<Rightarrow> string" where
  "range_to_string_debug r =
     (case range_to_string r of
        Ok s \<Rightarrow> s
      | _ \<Rightarrow> ''bad range {start='' @ decimal (range_start r) @ '',end='' @ decimal (range_end r) @
              '',inheritable='' @ (if inheritable r then ''1'' else ''0'') @ ''}'')"

section \<open>Canonical lists\<close>

fun no_overlapping_range :: "svn_rangelist_t \<Rightarrow> bool" where
  "no_overlapping_range (r # s # rs) =
     (if range_end r > range_start s then False
      else if range_end r = range_start s \<and> inheritable r = inheritable s then False
      else no_overlapping_range (s # rs))"
| "no_overlapping_range _ = True"

definition svn_rangelist__is_canonical :: "svn_rangelist_t \<Rightarrow> bool" where
  "svn_rangelist__is_canonical rangelist \<longleftrightarrow>
     list_all (\<lambda>r. \<not> range_start r \<ge> range_end r) rangelist \<and> no_overlapping_range rangelist"

text \<open>The loop of \<^verbatim>\<open>svn_rangelist__canonicalize\<close> after \<open>lastrange\<close>: the rest of the array from it on.\<close>

fun canonicalize_loop :: "svn_merge_range_t \<Rightarrow> svn_rangelist_t \<Rightarrow> svn_rangelist_t cres" where
  "canonicalize_loop lastrange [] = Ok [lastrange]"
| "canonicalize_loop lastrange (r # rs) =
     (if range_start lastrange \<le> range_end r \<and> range_start r \<le> range_end lastrange then
        if range_start r < range_end lastrange \<and> inheritable r \<noteq> inheritable lastrange
        then Err (svn_error_create SVN_ERR_MERGEINFO_PARSE_ERROR
               (''Unable to parse overlapping revision ranges '' @ CHR 0x27 # range_to_string_debug lastrange @
                CHR 0x27 # '' and '' @ CHR 0x27 # range_to_string_debug r @ CHR 0x27 #
                '' with different inheritance types''))
        else if inheritable lastrange = inheritable r
        then canonicalize_loop (lastrange\<lparr>range_end := max (range_end r) (range_end lastrange)\<rparr>) rs
        else cbind (canonicalize_loop r rs) (\<lambda>out. Ok (lastrange # out))
      else cbind (canonicalize_loop r rs) (\<lambda>out. Ok (lastrange # out)))"

definition svn_rangelist__canonicalize :: "svn_rangelist_t \<Rightarrow> svn_rangelist_t cres" where
  "svn_rangelist__canonicalize rangelist =
     (if svn_rangelist__is_canonical rangelist then Ok rangelist
      else
        cbind (sort_ranges rangelist) (\<lambda>sorted_list.
          case sorted_list of [] \<Rightarrow> Overrun | lastrange # rs \<Rightarrow> canonicalize_loop lastrange rs))"

definition rangelist_is_sorted :: "svn_rangelist_t \<Rightarrow> bool" where
  "rangelist_is_sorted rangelist = successively (\<lambda>a b. \<not> svn_sort_compare_ranges a b > 0) rangelist"

section \<open>Operations on whole lists\<close>

definition svn_rangelist__initialize :: "svn_revnum_t \<Rightarrow> svn_revnum_t \<Rightarrow> bool \<Rightarrow> svn_rangelist_t" where
  "svn_rangelist__initialize start_rev end_rev inherit =
     [\<lparr>range_start = start_rev, range_end = end_rev, inheritable = inherit\<rparr>]"

definition range_swap_endpoints :: "svn_merge_range_t \<Rightarrow> svn_merge_range_t" where
  "range_swap_endpoints r = r\<lparr>range_start := range_end r, range_end := range_start r\<rparr>"

definition svn_rangelist_reverse :: "svn_rangelist_t \<Rightarrow> svn_rangelist_t" where
  "svn_rangelist_reverse rangelist = map range_swap_endpoints (svn_sort__array_reverse rangelist)"

definition svn_rangelist__set_inheritance :: "svn_rangelist_t \<Rightarrow> bool \<Rightarrow> svn_rangelist_t" where
  "svn_rangelist__set_inheritance rangelist inherit = map (\<lambda>r. r\<lparr>inheritable := inherit\<rparr>) rangelist"

definition svn_merge_range_contains_rev :: "svn_merge_range_t \<Rightarrow> svn_revnum_t \<Rightarrow> bool cres" where
  "svn_merge_range_contains_rev r revnum =
     asserting (SVN_IS_VALID_REVNUM (range_start r)) (asserting (SVN_IS_VALID_REVNUM (range_end r))
       (asserting (range_start r \<noteq> range_end r)
         (Ok (if range_start r < range_end r then revnum > range_start r \<and> revnum \<le> range_end r
              else revnum > range_end r \<and> revnum \<le> range_start r))))"

section \<open>What a list says of a revision\<close>

text \<open>A revision is in none of the ranges, in one that is not inheritable, or in an inheritable one. The
  kinds are ordered as the enumeration of the C code is.\<close>

datatype rangelist_interval_kind_t = MI_NONE | MI_NON_INHERITABLE | MI_INHERITABLE

instantiation rangelist_interval_kind_t :: linorder
begin

fun kind_index :: "rangelist_interval_kind_t \<Rightarrow> nat" where
  "kind_index MI_NONE = 0"
| "kind_index MI_NON_INHERITABLE = 1"
| "kind_index MI_INHERITABLE = 2"

definition less_eq_rangelist_interval_kind_t :: "rangelist_interval_kind_t \<Rightarrow> rangelist_interval_kind_t \<Rightarrow> bool" where
  "a \<le> b \<longleftrightarrow> kind_index a \<le> kind_index b"

definition less_rangelist_interval_kind_t :: "rangelist_interval_kind_t \<Rightarrow> rangelist_interval_kind_t \<Rightarrow> bool" where
  "a < b \<longleftrightarrow> kind_index a < kind_index b"

instance
proof
  fix a b :: rangelist_interval_kind_t
  show "a = b" if "a \<le> b" "b \<le> a"
    using that by (cases a; cases b) (simp_all add: less_eq_rangelist_interval_kind_t_def)
qed (auto simp: less_eq_rangelist_interval_kind_t_def less_rangelist_interval_kind_t_def)

end

lemma kind_le [simp]:
  "MI_NONE \<le> k" "k \<le> MI_INHERITABLE" "MI_NON_INHERITABLE \<le> k \<longleftrightarrow> k \<noteq> MI_NONE" "k \<le> MI_NONE \<longleftrightarrow> k = MI_NONE"
  "MI_INHERITABLE \<le> k \<longleftrightarrow> k = MI_INHERITABLE" "MI_NONE < k \<longleftrightarrow> k \<noteq> MI_NONE"
  by (cases k; simp add: less_eq_rangelist_interval_kind_t_def less_rangelist_interval_kind_t_def)+

lemma kind_max [simp]: "max MI_NONE k = k" "max k MI_NONE = k" "max MI_INHERITABLE k = MI_INHERITABLE"
  "max k MI_INHERITABLE = MI_INHERITABLE" "max (k :: rangelist_interval_kind_t) k = k"
  by (cases k; simp add: max_def)+

definition kind_of :: "svn_merge_range_t \<Rightarrow> rangelist_interval_kind_t" where
  "kind_of r = (if inheritable r then MI_INHERITABLE else MI_NON_INHERITABLE)"

fun kind_at :: "svn_rangelist_t \<Rightarrow> svn_revnum_t \<Rightarrow> rangelist_interval_kind_t" where
  "kind_at [] n = MI_NONE"
| "kind_at (r # rs) n = (if range_start r < n \<and> n \<le> range_end r then kind_of r else kind_at rs n)"

definition revisions :: "svn_rangelist_t \<Rightarrow> svn_revnum_t set" where
  "revisions rl = (\<Union>r \<in> set rl. {range_start r <.. range_end r})"

text \<open>The lists in order: forward ranges after revision \<open>lo\<close> without overlaps.\<close>

fun ranges_ok :: "svn_revnum_t \<Rightarrow> svn_rangelist_t \<Rightarrow> bool" where
  "ranges_ok lo [] = True"
| "ranges_ok lo (r # rs) = (lo \<le> range_start r \<and> range_start r < range_end r \<and> ranges_ok (range_end r) rs)"

definition last_end :: "svn_revnum_t \<Rightarrow> svn_rangelist_t \<Rightarrow> svn_revnum_t" where
  "last_end lo rl = (if rl = [] then lo else range_end (last rl))"

lemma kind_of_simps [simp]: "kind_of r \<noteq> MI_NONE" "MI_NONE \<noteq> kind_of r" "kind_of r = kind_of s \<longleftrightarrow> inheritable r = inheritable s"
  "kind_of r = MI_INHERITABLE \<longleftrightarrow> inheritable r" "kind_of r = MI_NON_INHERITABLE \<longleftrightarrow> \<not> inheritable r"
  by (auto simp: kind_of_def)

lemma kind_at_none: "kind_at rl n = MI_NONE \<longleftrightarrow> n \<notin> revisions rl"
  by (induction rl) (auto simp: revisions_def)

lemma revisions_simps [simp]:
  "revisions [] = {}" "revisions (r # rs) = {range_start r <.. range_end r} \<union> revisions rs"
  "revisions (xs @ ys) = revisions xs \<union> revisions ys"
  by (auto simp: revisions_def)

lemma kind_at_append: "kind_at (xs @ ys) n = (if kind_at xs n = MI_NONE then kind_at ys n else kind_at xs n)"
  by (induction xs) auto

lemma last_end_simps [simp]: "last_end lo [] = lo" "last_end lo (r # rs) = last_end (range_end r) rs"
  "last_end lo (rs @ [r]) = range_end r"
  by (auto simp: last_end_def)

lemma ranges_ok_append [simp]: "ranges_ok lo (xs @ ys) \<longleftrightarrow> ranges_ok lo xs \<and> ranges_ok (last_end lo xs) ys"
  by (induction xs arbitrary: lo) auto

lemma ranges_ok_le: "ranges_ok lo rl \<Longrightarrow> lo \<le> last_end lo rl"
  by (induction rl arbitrary: lo) force+

lemma ranges_ok_bounds: "ranges_ok lo rl \<Longrightarrow> n \<in> revisions rl \<Longrightarrow> lo < n \<and> n \<le> last_end lo rl"
proof (induction rl arbitrary: lo)
  case (Cons r rs)
  then show ?case using ranges_ok_le [of "range_end r" rs] by fastforce
qed simp

lemma ranges_ok_mono: "ranges_ok lo rl \<Longrightarrow> lo' \<le> lo \<Longrightarrow> ranges_ok lo' rl"
  by (cases rl) auto

lemma kind_at_low: "ranges_ok lo rl \<Longrightarrow> n \<le> lo \<Longrightarrow> kind_at rl n = MI_NONE"
  using ranges_ok_bounds by (force simp: kind_at_none)

lemma kind_at_high: "ranges_ok lo rl \<Longrightarrow> last_end lo rl < n \<Longrightarrow> kind_at rl n = MI_NONE"
  using ranges_ok_bounds by (force simp: kind_at_none)

lemma ranges_ok_forward: "ranges_ok lo rl \<Longrightarrow> 0 \<le> lo \<Longrightarrow> r \<in> set rl \<Longrightarrow> IS_VALID_FORWARD_RANGE r"
  by (induction rl arbitrary: lo) (auto simp: IS_VALID_FORWARD_RANGE_def SVN_IS_VALID_REVNUM_def)

lemma canonical_Cons:
  "svn_rangelist__is_canonical (r # rs) \<longleftrightarrow>
     range_start r < range_end r \<and> svn_rangelist__is_canonical rs \<and>
     (rs \<noteq> [] \<longrightarrow> range_end r \<le> range_start (hd rs) \<and>
        (range_end r = range_start (hd rs) \<longrightarrow> inheritable r \<noteq> inheritable (hd rs)))"
  by (cases rs) (auto simp: svn_rangelist__is_canonical_def)

lemma canonical_Nil [simp]: "svn_rangelist__is_canonical []"
  by (simp add: svn_rangelist__is_canonical_def)

lemma canonical_ranges_ok:
  assumes "svn_rangelist__is_canonical rl" "rl \<noteq> [] \<Longrightarrow> lo \<le> range_start (hd rl)"
  shows "ranges_ok lo rl"
  using assms
proof (induction rl arbitrary: lo)
  case (Cons r rs)
  then show ?case by (auto simp: canonical_Cons)
qed simp

lemma canonical_snoc:
  "svn_rangelist__is_canonical (rs @ [r]) \<longleftrightarrow>
     range_start r < range_end r \<and> svn_rangelist__is_canonical rs \<and>
     (rs \<noteq> [] \<longrightarrow> range_end (last rs) \<le> range_start r \<and>
        (range_end (last rs) = range_start r \<longrightarrow> inheritable (last rs) \<noteq> inheritable r))"
  by (induction rs) (auto simp: canonical_Cons hd_append)

text \<open>Two canonical lists that say the same of every revision are the same.\<close>

lemma canonical_first:
  assumes "svn_rangelist__is_canonical (r # rs)" "n \<le> range_start r"
  shows "kind_at (r # rs) n = MI_NONE"
  using assms canonical_ranges_ok [of "r # rs" "range_start r"] kind_at_low by auto

lemma canonical_after:
  assumes "svn_rangelist__is_canonical (r # rs)"
  shows "kind_at (r # rs) (range_end r + 1) \<noteq> kind_of r"
proof (cases rs)
  case (Cons s ss)
  then show ?thesis
    using assms canonical_first [of s ss "range_end r + 1"] by (auto simp: canonical_Cons)
qed simp

lemma canonical_rest:
  assumes "svn_rangelist__is_canonical (r # rs)" "n \<le> range_end r"
  shows "kind_at rs n = MI_NONE"
  using assms canonical_ranges_ok [of rs "range_end r"] kind_at_low by (auto simp: canonical_Cons)

lemma canonical_head_unique:
  assumes "svn_rangelist__is_canonical (r # rs)" "svn_rangelist__is_canonical (s # ss)"
    and same: "\<And>n. kind_at (r # rs) n = kind_at (s # ss) n"
  shows "range_start r \<ge> range_start s" "range_start r = range_start s \<Longrightarrow> range_end r \<ge> range_end s"
    "range_start r = range_start s \<Longrightarrow> inheritable r = inheritable s"
proof -
  have fw: "range_start r < range_end r" "range_start s < range_end s" using assms by (auto simp: canonical_Cons)
  show "range_start r \<ge> range_start s"
    using same [of "range_start r + 1"] canonical_first [OF assms(2), of "range_start r + 1"] fw by fastforce
  assume eq: "range_start r = range_start s"
  show inh: "inheritable r = inheritable s" using same [of "range_start r + 1"] fw eq by auto
  show "range_end r \<ge> range_end s"
  proof (rule ccontr)
    assume "\<not> range_end r \<ge> range_end s"
    then have "kind_at (s # ss) (range_end r + 1) = kind_of s" using fw eq by simp
    then show False using canonical_after [OF assms(1)] same [of "range_end r + 1"] inh by simp
  qed
qed

lemma canonical_unique:
  assumes "svn_rangelist__is_canonical xs" "svn_rangelist__is_canonical ys" "\<And>n. kind_at xs n = kind_at ys n"
  shows "xs = ys"
  using assms
proof (induction xs arbitrary: ys)
  case Nil
  then show ?case
  proof (cases ys)
    case (Cons s ss)
    then have "kind_at ys (range_end s) \<noteq> MI_NONE" using Nil by (simp add: canonical_Cons)
    then show ?thesis using Nil(3) [of "range_end s"] by simp
  qed simp
next
  case (Cons r rs)
  show ?case
  proof (cases ys)
    case Nil
    then show ?thesis using Cons.prems(1) Cons.prems(3) [of "range_end r"] by (simp add: canonical_Cons)
  next
    case ys: (Cons s ss)
    have c: "svn_rangelist__is_canonical (r # rs)" "svn_rangelist__is_canonical (s # ss)"
      and same: "\<And>n. kind_at (r # rs) n = kind_at (s # ss) n" using Cons.prems by (simp_all only: ys)
    note rs = canonical_head_unique [OF c same] and sr = canonical_head_unique [OF c(2,1) same [symmetric]]
    have start: "range_start r = range_start s" using rs(1) sr(1) by (rule antisym [rotated])
    then have eq: "range_end r = range_end s" "inheritable r = inheritable s" using rs sr by auto
    have tails: "kind_at rs n = kind_at ss n" for n
      using same [of n] canonical_rest [OF c(1), of n] canonical_rest [OF c(2), of n] eq
      by (cases "n \<le> range_end r") auto
    have "rs = ss" by (rule Cons.IH [OF _ _ tails]) (use c in \<open>simp_all add: canonical_Cons\<close>)
    moreover have "r = s" using start eq by simp
    ultimately show ?thesis using ys by simp
  qed
qed

section \<open>Canonicalization\<close>

text \<open>Some range with the given inheritability contains the revision.\<close>

definition covers :: "svn_rangelist_t \<Rightarrow> bool \<Rightarrow> svn_revnum_t \<Rightarrow> bool" where
  "covers rl inherit n \<longleftrightarrow> (\<exists>r \<in> set rl. inheritable r = inherit \<and> range_start r < n \<and> n \<le> range_end r)"

definition conflicting :: "svn_rangelist_t \<Rightarrow> bool" where
  "conflicting rl \<longleftrightarrow> (\<exists>n. covers rl True n \<and> covers rl False n)"

lemma conflictingI: "covers rl b n \<Longrightarrow> covers rl (\<not> b) n \<Longrightarrow> conflicting rl"
  by (cases b) (auto simp: conflicting_def)

lemma covers_simps [simp]:
  "\<not> covers [] b n"
  "covers (r # rs) b n \<longleftrightarrow> inheritable r = b \<and> range_start r < n \<and> n \<le> range_end r \<or> covers rs b n"
  by (auto simp: covers_def)

lemma covers_mset: "mset xs = mset ys \<Longrightarrow> covers xs = covers ys"
  by (intro ext) (metis covers_def set_mset_mset)

lemma covers_kind: "ranges_ok lo rl \<Longrightarrow> covers rl b n \<longleftrightarrow> kind_at rl n = (if b then MI_INHERITABLE else MI_NON_INHERITABLE)"
proof (induction rl arbitrary: lo)
  case (Cons r rs)
  have "\<not> covers rs b n" if "n \<le> range_end r"
    using Cons kind_at_low [of "range_end r" rs n] that by (cases b) auto
  then show ?case using Cons by (auto simp: kind_of_def)
qed simp

lemma canonical_not_conflicting: "svn_rangelist__is_canonical rl \<Longrightarrow> \<not> conflicting rl"
  using covers_kind [OF canonical_ranges_ok, of rl "range_start (hd rl)"] by (auto simp: conflicting_def)

lemma canonicalize_loop_ok:
  assumes "range_start l < range_end l" "\<forall>r \<in> set rs. range_start r < range_end r \<and> range_start l \<le> range_start r"
    and "sorted_wrt (\<lambda>a b. range_start a \<le> range_start b) rs"
  shows "(\<exists>out. canonicalize_loop l rs = Ok out \<and> svn_rangelist__is_canonical out \<and> out \<noteq> [] \<and>
      range_start (hd out) = range_start l \<and> inheritable (hd out) = inheritable l \<and> covers out = covers (l # rs)) \<or>
    (\<exists>msg. canonicalize_loop l rs = Err (svn_error_create SVN_ERR_MERGEINFO_PARSE_ERROR msg) \<and> conflicting (l # rs))"
  using assms
proof (induction rs arbitrary: l)
  case Nil
  then show ?case by (simp add: canonical_Cons fun_eq_iff)
next
  case (Cons r rs)
  have fw: "range_start r < range_end r" "range_start l \<le> range_start r" using Cons.prems by auto
  have IH: "(\<exists>out. canonicalize_loop r rs = Ok out \<and> svn_rangelist__is_canonical out \<and> out \<noteq> [] \<and>
      range_start (hd out) = range_start r \<and> inheritable (hd out) = inheritable r \<and> covers out = covers (r # rs)) \<or>
    (\<exists>msg. canonicalize_loop r rs = Err (svn_error_create SVN_ERR_MERGEINFO_PARSE_ERROR msg) \<and> conflicting (r # rs))"
    using Cons.prems by (intro Cons.IH) auto
  have keep: ?case
    if loop: "canonicalize_loop l (r # rs) = cbind (canonicalize_loop r rs) (\<lambda>out. Ok (l # out))"
      and gap: "range_end l \<le> range_start r" "range_end l = range_start r \<longrightarrow> inheritable l \<noteq> inheritable r"
    using IH
  proof (elim disjE exE conjE)
    fix out assume "canonicalize_loop r rs = Ok out" "svn_rangelist__is_canonical out" "out \<noteq> []"
      "range_start (hd out) = range_start r" "inheritable (hd out) = inheritable r" "covers out = covers (r # rs)"
    then show ?thesis using loop gap Cons.prems(1) by (auto simp: canonical_Cons fun_eq_iff)
  next
    fix msg assume "canonicalize_loop r rs = Err (svn_error_create SVN_ERR_MERGEINFO_PARSE_ERROR msg)"
      "conflicting (r # rs)"
    then show ?thesis using loop by (auto simp: conflicting_def)
  qed
  consider (gap) "range_end l < range_start r" | (error) "range_start r < range_end l" "inheritable r \<noteq> inheritable l"
    | (join) "range_start r \<le> range_end l" "inheritable r = inheritable l"
    | (touch) "range_start r = range_end l" "inheritable r \<noteq> inheritable l" by linarith
  then show ?case
  proof cases
    case gap
    then show ?thesis using fw by (intro keep) auto
  next
    case touch
    then show ?thesis using fw by (intro keep) auto
  next
    case error
    have "conflicting (l # r # rs)"
      by (rule conflictingI [of _ "inheritable l" "range_start r + 1"]) (use error fw in auto)
    then show ?thesis using error fw by auto
  next
    case join
    let ?l = "l\<lparr>range_end := max (range_end r) (range_end l)\<rparr>"
    have cov: "covers (?l # rs) = covers (l # r # rs)" using join fw by (auto simp: fun_eq_iff)
    have "canonicalize_loop l (r # rs) = canonicalize_loop ?l rs" using join fw by auto
    moreover have "conflicting (?l # rs) = conflicting (l # r # rs)" by (simp only: conflicting_def cov)
    moreover have "(\<exists>out. canonicalize_loop ?l rs = Ok out \<and> svn_rangelist__is_canonical out \<and> out \<noteq> [] \<and>
        range_start (hd out) = range_start ?l \<and> inheritable (hd out) = inheritable ?l \<and> covers out = covers (?l # rs)) \<or>
      (\<exists>msg. canonicalize_loop ?l rs = Err (svn_error_create SVN_ERR_MERGEINFO_PARSE_ERROR msg) \<and> conflicting (?l # rs))"
      using Cons.prems by (intro Cons.IH) auto
    ultimately show ?thesis using cov by auto
  qed
qed

lemma ordered_starts:
  "ordered_by svn_sort_compare_ranges xs \<Longrightarrow> sorted_wrt (\<lambda>a b. range_start a \<le> range_start b) xs"
  unfolding ordered_by_def
  by (rule sorted_wrt_mono_rel) (auto simp: svn_sort_compare_ranges_def split: if_splits)

lemma rangelist_canonicalize_ok:
  assumes "\<forall>r \<in> set rl. range_start r < range_end r"
  shows "if conflicting rl
    then \<exists>msg. svn_rangelist__canonicalize rl = Err (svn_error_create SVN_ERR_MERGEINFO_PARSE_ERROR msg)
    else \<exists>out. svn_rangelist__canonicalize rl = Ok out \<and> svn_rangelist__is_canonical out \<and> covers out = covers rl"
proof (cases "svn_rangelist__is_canonical rl")
  case True
  then show ?thesis using canonical_not_conflicting by (simp add: svn_rangelist__canonicalize_def)
next
  case False
  obtain ys where ys: "sort_ranges rl = Ok ys" "mset ys = mset rl" "ordered_by svn_sort_compare_ranges ys"
    using ranges.sort_array_ok [of rl] by auto
  have set: "set ys = set rl" using ys(2) by (metis set_mset_mset)
  have "ys \<noteq> []" using False set by auto
  then obtain l rs where l: "ys = l # rs" by (cases ys) auto
  have sorted: "sorted_wrt (\<lambda>a b. range_start a \<le> range_start b) (l # rs)" using ordered_starts ys(3) l by blast
  have "(\<exists>out. canonicalize_loop l rs = Ok out \<and> svn_rangelist__is_canonical out \<and> out \<noteq> [] \<and>
      range_start (hd out) = range_start l \<and> inheritable (hd out) = inheritable l \<and> covers out = covers (l # rs)) \<or>
    (\<exists>msg. canonicalize_loop l rs = Err (svn_error_create SVN_ERR_MERGEINFO_PARSE_ERROR msg) \<and> conflicting (l # rs))"
    using assms sorted set l by (intro canonicalize_loop_ok) auto
  moreover have cov: "covers (l # rs) = covers rl" using covers_mset ys(2) l by metis
  moreover have "svn_rangelist__canonicalize rl = canonicalize_loop l rs"
    using False ys(1) l by (simp add: svn_rangelist__canonicalize_def)
  moreover have "\<not> conflicting rl" if "svn_rangelist__is_canonical out" "covers out = covers rl" for out
    using canonical_not_conflicting [OF that(1)] that(2) by (simp add: conflicting_def)
  moreover have "conflicting (l # rs) = conflicting rl" by (simp only: conflicting_def cov)
  ultimately show ?thesis by auto
qed

section \<open>Combination with the last range\<close>

lemma sort_tail:
  assumes "sort_ranges ys = Ok zs" "ordered_by svn_sort_compare_ranges (xs @ zs)"
  shows "sort_ranges (xs @ ys) = Ok (xs @ zs)"
  using assms(2)
proof (induction xs)
  case (Cons x xs)
  then have IH: "sort_ranges (xs @ ys) = Ok (xs @ zs)" by (simp add: ordered_by_def)
  have "insert_by (\<lambda>a b. Ok (svn_sort_compare_ranges a b)) x (xs @ zs) = Ok (x # xs @ zs)"
    using Cons.prems by (cases "xs @ zs") (auto simp: ordered_by_def)
  then show ?case using IH by simp
qed (use assms in simp)

lemma ranges_ok_starts: "ranges_ok lo rs \<Longrightarrow> s \<in> set rs \<Longrightarrow> lo \<le> range_start s"
  by (induction rs arbitrary: lo) force+

lemma ranges_ok_ordered: "ranges_ok lo rl \<Longrightarrow> ordered_by svn_sort_compare_ranges rl"
proof (induction rl arbitrary: lo)
  case (Cons r rs)
  have "svn_sort_compare_ranges r s \<le> 0" if "s \<in> set rs" for s
    using Cons.prems ranges_ok_starts [of "range_end r" rs s] that by (auto simp: svn_sort_compare_ranges_def)
  then show ?case using Cons by (auto simp: ordered_by_def)
qed (simp add: ordered_by_def)

lemma resort_same: "ranges_ok lo rl \<Longrightarrow> resort b rl = Ok rl"
  using sort_tail [of "[]" "[]" rl] ranges_ok_ordered [of lo rl] by (auto simp: resort_def)

lemma resort_swap:
  assumes "ranges_ok lo (xs @ [a, b])" "\<not> in_order"
  shows "resort in_order (xs @ [b, a]) = Ok (xs @ [a, b])"
proof -
  have "range_start a < range_start b" using assms by auto
  then have "sort_ranges [b, a] = Ok [a, b]" by (simp add: svn_sort_compare_ranges_def)
  then show ?thesis using sort_tail ranges_ok_ordered [OF assms(1)] assms(2) by (simp add: resort_def)
qed

lemma overlapping_parts_ok:
  assumes "lo \<le> range_start l" "range_start l < range_end l" "lo \<le> range_start r" "range_start r < range_end r"
    and "inheritable l \<noteq> inheritable r" "range_start l < range_start r \<and> range_start r < range_end l \<and> range_end l < range_end r \<or>
      range_start r < range_start l \<and> range_start l < range_end r \<and> range_end r < range_end l"
  shows "ranges_ok lo (overlapping_parts l r) \<and>
    kind_at (overlapping_parts l r) n = max (kind_at [l] n) (kind_at [r] n)"
proof (cases "range_start r < range_start l")
  case True
  then show ?thesis using assms by (cases "inheritable l") (simp_all add: overlapping_parts_def kind_of_def)
next
  case False
  then show ?thesis using assms by (cases "inheritable l") (simp_all add: overlapping_parts_def kind_of_def)
qed

lemma split_superset_ok:
  assumes "lo \<le> range_start l" "range_start l < range_end l" "range_start r < range_end r"
    and "inheritable l \<noteq> inheritable r" "\<not> (range_start l = range_start r \<and> range_end l = range_end r)"
    and "range_start l \<le> range_start r" "range_end r \<le> range_end l"
  shows "ranges_ok lo (split_superset l r)" "kind_at (split_superset l r) n = max (kind_at [l] n) (kind_at [r] n)"
proof -
  show "ranges_ok lo (split_superset l r)" using assms by (auto simp: split_superset_def)
  show "kind_at (split_superset l r) n = max (kind_at [l] n) (kind_at [r] n)"
  proof (cases "inheritable l")
    case True
    then show ?thesis using assms by (simp add: split_superset_def min_def max_def kind_of_def)
  next
    case False
    then have "kind_of l = MI_NON_INHERITABLE" "kind_of r = MI_INHERITABLE" using assms(4) by (simp_all add: kind_of_def)
    then show ?thesis using assms False by (simp add: split_superset_def kind_of_def)
  qed
qed
lemma subset_parts_ok:
  assumes "lo \<le> range_start l" "range_start l < range_end l" "lo \<le> range_start r" "range_start r < range_end r"
    and "inheritable l \<noteq> inheritable r" "\<not> (range_start l = range_start r \<and> range_end l = range_end r)"
    and "range_start l \<le> range_start r \<and> range_end r \<le> range_end l \<or>
      range_start r \<le> range_start l \<and> range_end l \<le> range_end r"
  shows "ranges_ok lo (subset_parts l r) \<and> kind_at (subset_parts l r) n = max (kind_at [l] n) (kind_at [r] n)"
proof (cases "range_start r < range_start l \<or> range_end r > range_end l")
  case True
  then have sub: "range_start r \<le> range_start l" "range_end l \<le> range_end r" using assms(7) by auto
  have "subset_parts l r = split_superset r l" using True by (simp add: subset_parts_def)
  moreover have "inheritable r \<noteq> inheritable l" "\<not> (range_start r = range_start l \<and> range_end r = range_end l)"
    using assms(5,6) by auto
  ultimately show ?thesis
    using split_superset_ok [OF assms(3,4,2) _ _ sub] by (simp only: max.commute simp_thms)
next
  case False
  then have sub: "range_start l \<le> range_start r" "range_end r \<le> range_end l" using assms(7) by auto
  have "subset_parts l r = split_superset l r" using False by (simp add: subset_parts_def)
  then show ?thesis using split_superset_ok [OF assms(1,2,4,5,6) sub] by (simp only: simp_thms)
qed

text \<open>The last range and the new one, after the other ranges.\<close>

lemma combine_parts:
  assumes ok: "ranges_ok 0 others" "ranges_ok (last_end 0 others) [l]" "ranges_ok (last_end 0 others) [r]"
    and diff: "inheritable l \<noteq> inheritable r"
  shows "\<exists>parts. combine_with_lastrange r (others @ [l]) True = Ok (others @ parts) \<and>
    ranges_ok (last_end 0 others) parts \<and> (\<forall>n. kind_at parts n = max (kind_at [l] n) (kind_at [r] n))"
proof -
  let ?lo = "last_end 0 others"
  have lo: "0 \<le> ?lo" using ranges_ok_le ok(1) by blast
  have valid: "IS_VALID_FORWARD_RANGE l" "IS_VALID_FORWARD_RANGE r"
    using ok lo by (auto simp: IS_VALID_FORWARD_RANGE_def SVN_IS_VALID_REVNUM_def)
  have start: "combine_with_lastrange r (others @ [l]) True =
    cbind (get_type_of_intersection r l) (\<lambda>t. case t of
        svn__no_intersection \<Rightarrow> resort (pushed_in_order l [r]) (others @ [l, r])
      | svn__equal_intersection \<Rightarrow> Ok (others @ [l\<lparr>inheritable := True\<rparr>])
      | svn__adjoining_intersection \<Rightarrow> resort (pushed_in_order l [r]) (others @ [l, r])
      | svn__overlapping_intersection \<Rightarrow>
          resort (pushed_in_order l (overlapping_parts l r)) (others @ overlapping_parts l r)
      | svn__proper_subset_intersection \<Rightarrow>
          resort (pushed_in_order l (subset_parts l r)) (others @ subset_parts l r))"
    using diff by (auto simp: combine_with_lastrange_def combine_ranges_def Let_def cong: intersection_type_t.case_cong)
  have apart: ?thesis if "combine_with_lastrange r (others @ [l]) True = resort (pushed_in_order l [r]) (others @ [l, r])"
    "range_end l \<le> range_start r \<or> range_end r \<le> range_start l"
  proof (cases "range_end l \<le> range_start r")
    case True
    then have "ranges_ok 0 (others @ [l, r])" using ok by simp
    then show ?thesis using that(1) resort_same [of 0] True ok
      by (intro exI [of _ "[l, r]"]) (auto simp: max_def)
  next
    case False
    then have rl: "range_end r \<le> range_start l" using that by simp
    then have "ranges_ok 0 (others @ [r, l])" using ok by simp
    moreover have "\<not> pushed_in_order l [r]" using rl ok by (auto simp: pushed_in_order_def svn_sort_compare_ranges_def)
    ultimately show ?thesis using that(1) resort_swap rl ok
      by (intro exI [of _ "[r, l]"]) (auto simp: max_def)
  qed
  consider (none) "\<not> (range_start r \<le> range_end l \<and> range_start l \<le> range_end r)"
    | (equal) "range_start r = range_start l" "range_end r = range_end l"
    | (adjoin) "range_end r = range_start l \<or> range_end l = range_start r"
    | (subset) "\<not> (range_start l = range_start r \<and> range_end l = range_end r)"
        "\<not> (range_end r = range_start l \<or> range_end l = range_start r)"
        "range_start l \<le> range_start r \<and> range_end r \<le> range_end l \<or>
         range_start r \<le> range_start l \<and> range_end l \<le> range_end r"
    | (overlap) "range_start l < range_start r \<and> range_start r < range_end l \<and> range_end l < range_end r \<or>
         range_start r < range_start l \<and> range_start l < range_end r \<and> range_end r < range_end l"
    by linarith
  then show ?thesis
  proof cases
    case none
    then have "get_type_of_intersection r l = Ok svn__no_intersection" using valid by (auto simp: get_type_of_intersection_def)
    then show ?thesis using start none by (intro apart) auto
  next
    case equal
    then have "get_type_of_intersection r l = Ok svn__equal_intersection"
      using valid ok by (auto simp: get_type_of_intersection_def)
    then show ?thesis using start equal ok diff
      by (intro exI [of _ "[l\<lparr>inheritable := True\<rparr>]"]) (auto simp: kind_of_def)
  next
    case adjoin
    then have "get_type_of_intersection r l = Ok svn__adjoining_intersection"
      using valid ok by (auto simp: get_type_of_intersection_def)
    then show ?thesis using start adjoin by (intro apart) auto
  next
    case subset
    then have "get_type_of_intersection r l = Ok svn__proper_subset_intersection"
      using valid ok by (auto simp: get_type_of_intersection_def)
    moreover have parts: "ranges_ok ?lo (subset_parts l r) \<and>
      kind_at (subset_parts l r) n = max (kind_at [l] n) (kind_at [r] n)" for n
      using ok diff subset by (intro subset_parts_ok) auto
    ultimately show ?thesis using start resort_same [of 0 "others @ subset_parts l r"] ok(1) by auto
  next
    case overlap
    then have "get_type_of_intersection r l = Ok svn__overlapping_intersection"
      using valid ok by (auto simp: get_type_of_intersection_def)
    moreover have parts: "ranges_ok ?lo (overlapping_parts l r) \<and>
      kind_at (overlapping_parts l r) n = max (kind_at [l] n) (kind_at [r] n)" for n
      using ok diff overlap by (intro overlapping_parts_ok) auto
    ultimately show ?thesis using start resort_same [of 0 "others @ overlapping_parts l r"] ok(1) by auto
  qed
qed

lemma combine_same:
  assumes "inheritable l = inheritable r \<or> \<not> consider" "range_start l \<le> range_end r" "range_start r \<le> range_end l"
  shows "combine_with_lastrange r (others @ [l]) consider =
    Ok (others @ [\<lparr>range_start = min (range_start l) (range_start r), range_end = max (range_end l) (range_end r),
                   inheritable = (inheritable l \<or> inheritable r)\<rparr>])"
  using assms by (auto simp: combine_with_lastrange_def combine_ranges_def)

lemma combine_apart:
  assumes "\<not> (range_start l \<le> range_end r \<and> range_start r \<le> range_end l)"
  shows "combine_with_lastrange r (others @ [l]) False = Ok (others @ [l, r])"
    "IS_VALID_FORWARD_RANGE l \<Longrightarrow> IS_VALID_FORWARD_RANGE r \<Longrightarrow>
     combine_with_lastrange r (others @ [l]) True = resort (pushed_in_order l [r]) (others @ [l, r])"
proof -
  have none: "combine_ranges l r b = None" for b using assms by (simp add: combine_ranges_def)
  then show "combine_with_lastrange r (others @ [l]) False = Ok (others @ [l, r])"
    by (simp add: combine_with_lastrange_def)
  assume "IS_VALID_FORWARD_RANGE l" "IS_VALID_FORWARD_RANGE r"
  then have "get_type_of_intersection r l = Ok svn__no_intersection"
    using assms by (auto simp: get_type_of_intersection_def)
  then show "combine_with_lastrange r (others @ [l]) True = resort (pushed_in_order l [r]) (others @ [l, r])"
    using none by (simp add: combine_with_lastrange_def)
qed

text \<open>With inheritance considered, the new range is added to the list revision by revision: a revision
  has the greater of the two kinds.\<close>

lemma combine_considering:
  assumes ok: "ranges_ok 0 others" "ranges_ok (last_end 0 others) [l]" "ranges_ok (last_end 0 others) [r]"
  shows "\<exists>parts. combine_with_lastrange r (others @ [l]) True = Ok (others @ parts) \<and>
    ranges_ok (last_end 0 others) parts \<and> (\<forall>n. kind_at parts n = max (kind_at [l] n) (kind_at [r] n))"
proof -
  have lo: "0 \<le> last_end 0 others" using ranges_ok_le ok(1) by blast
  have valid: "IS_VALID_FORWARD_RANGE l" "IS_VALID_FORWARD_RANGE r"
    using ok lo by (auto simp: IS_VALID_FORWARD_RANGE_def SVN_IS_VALID_REVNUM_def)
  consider (diff) "inheritable l \<noteq> inheritable r"
    | (join) "inheritable l = inheritable r" "range_start l \<le> range_end r" "range_start r \<le> range_end l"
    | (apart) "inheritable l = inheritable r" "\<not> (range_start l \<le> range_end r \<and> range_start r \<le> range_end l)"
    by blast
  then show ?thesis
  proof cases
    case diff
    then show ?thesis using combine_parts ok by blast
  next
    case join
    let ?c = "\<lparr>range_start = min (range_start l) (range_start r), range_end = max (range_end l) (range_end r),
       inheritable = (inheritable l \<or> inheritable r)\<rparr>"
    have "kind_at [?c] n = max (kind_at [l] n) (kind_at [r] n)" for n
      using join ok by (auto simp: kind_of_def)
    moreover have "ranges_ok (last_end 0 others) [?c]" using ok by auto
    ultimately show ?thesis using combine_same [of l r True others] join by auto
  next
    case apart
    show ?thesis
    proof (cases "range_end l < range_start r")
      case True
      then have "ranges_ok 0 (others @ [l, r])" using ok by simp
      then show ?thesis using resort_same [of 0] True ok combine_apart(2) [OF apart(2) valid]
        by (intro exI [of _ "[l, r]"]) (auto simp: max_def)
    next
      case False
      then have rl: "range_end r < range_start l" using apart by simp
      then have "ranges_ok 0 (others @ [r, l])" using ok by simp
      moreover have "\<not> pushed_in_order l [r]" using rl ok by (auto simp: pushed_in_order_def svn_sort_compare_ranges_def)
      ultimately show ?thesis using resort_swap rl ok combine_apart(2) [OF apart(2) valid]
        by (intro exI [of _ "[r, l]"]) (auto simp: max_def)
    qed
  qed
qed

lemma combine_ignoring:
  assumes "ranges_ok (last_end 0 others) [l]" "range_start l \<le> range_start r" "range_start r < range_end r"
  shows "\<exists>parts. combine_with_lastrange r (others @ [l]) False = Ok (others @ parts) \<and> parts \<noteq> [] \<and>
    ranges_ok (last_end 0 others) parts \<and> revisions parts = revisions [l, r]"
proof (cases "range_start r \<le> range_end l")
  case True
  then show ?thesis using assms combine_same [of l r False others] by auto
next
  case False
  then show ?thesis using assms combine_apart(1) [of l r others] by auto
qed

section \<open>Properties\<close>

text \<open>\<^verbatim>\<open>combine_with_lastrange\<close> adds a range to a list in order, whatever the way it intersects the last
  range of the list and as long as it does not reach back before it. With inheritance considered, every
  revision of the result has the greater of the kinds it has in the list and in the new range. Without
  it, a range that does not start before the last one gives the union of the revisions. In both cases
  the result is in order again and no assertion fails.\<close>

theorem combine_with_lastrange_adds:
  assumes "ranges_ok 0 rl" "ranges_ok (last_end 0 (butlast rl)) [r]"
  shows "(\<exists>out. combine_with_lastrange r rl True = Ok out \<and> ranges_ok 0 out \<and>
      (\<forall>n. kind_at out n = max (kind_at rl n) (kind_at [r] n))) \<and>
    (rl = [] \<or> range_start (last rl) \<le> range_start r \<longrightarrow>
      (\<exists>out. combine_with_lastrange r rl False = Ok out \<and> ranges_ok 0 out \<and>
        revisions out = revisions rl \<union> revisions [r]))"
proof (cases rl rule: rev_cases)
  case Nil
  then show ?thesis using assms by (auto simp: combine_with_lastrange_def)
next
  case (snoc others l)
  then have ok: "ranges_ok 0 others" "ranges_ok (last_end 0 others) [l]" "ranges_ok (last_end 0 others) [r]"
    using assms by simp_all
  obtain parts where parts: "combine_with_lastrange r rl True = Ok (others @ parts)"
    "ranges_ok (last_end 0 others) parts" "\<And>n. kind_at parts n = max (kind_at [l] n) (kind_at [r] n)"
    using combine_considering [OF ok] snoc by blast
  have "kind_at (others @ parts) n = max (kind_at rl n) (kind_at [r] n)" for n
  proof (cases "kind_at others n = MI_NONE")
    case True
    then show ?thesis using parts(3) snoc by (simp add: kind_at_append)
  next
    case False
    then have "n \<le> last_end 0 others" using kind_at_high [OF ok(1)] by force
    then have "kind_at [r] n = MI_NONE" using kind_at_low [OF ok(3)] by blast
    then show ?thesis using False snoc by (simp add: kind_at_append)
  qed
  moreover have "\<exists>out. combine_with_lastrange r rl False = Ok out \<and> ranges_ok 0 out \<and>
      revisions out = revisions rl \<union> revisions [r]" if "range_start l \<le> range_start r"
    using combine_ignoring [OF ok(2) that] ok snoc by auto
  ultimately show ?thesis using parts ok(1) snoc by auto
qed

text \<open>\<^verbatim>\<open>svn_rangelist__canonicalize\<close> on any list of forward ranges, in any order and with any overlaps:
  it fails with \<^verbatim>\<open>SVN_ERR_MERGEINFO_PARSE_ERROR\<close> exactly when some revision is in an inheritable range
  and in one that is not, and otherwise gives a list that \<^verbatim>\<open>svn_rangelist__is_canonical\<close> accepts and
  whose ranges of either kind contain the same revisions as before.\<close>

theorem rangelist_canonicalize:
  assumes "\<forall>r \<in> set rl. range_start r < range_end r"
  shows "case svn_rangelist__canonicalize rl of
      Ok out \<Rightarrow> svn_rangelist__is_canonical out \<and>
        (\<forall>n. (kind_at out n = MI_INHERITABLE \<longleftrightarrow>
               (\<exists>r \<in> set rl. inheritable r \<and> range_start r < n \<and> n \<le> range_end r)) \<and>
             (kind_at out n = MI_NON_INHERITABLE \<longleftrightarrow>
               (\<exists>r \<in> set rl. \<not> inheritable r \<and> range_start r < n \<and> n \<le> range_end r)))
    | Err e \<Rightarrow> err_code_of e = SVN_ERR_MERGEINFO_PARSE_ERROR \<and>
        (\<exists>r \<in> set rl. \<exists>s \<in> set rl. inheritable r \<and> \<not> inheritable s \<and>
          range_start r < range_end s \<and> range_start s < range_end r)
    | _ \<Rightarrow> False"
proof (cases "conflicting rl")
  case True
  then obtain n where "covers rl True n" "covers rl False n" by (auto simp: conflicting_def)
  then have "\<exists>r \<in> set rl. \<exists>s \<in> set rl. inheritable r \<and> \<not> inheritable s \<and>
      range_start r < range_end s \<and> range_start s < range_end r"
    unfolding covers_def by force
  moreover obtain msg where
    "svn_rangelist__canonicalize rl = Err (svn_error_create SVN_ERR_MERGEINFO_PARSE_ERROR msg)"
    using rangelist_canonicalize_ok [OF assms] True by auto
  ultimately show ?thesis by (simp only: svn_error_create_def cres.case err_code_of.simps simp_thms)
next
  case False
  then obtain out where out: "svn_rangelist__canonicalize rl = Ok out" "svn_rangelist__is_canonical out" "covers out = covers rl"
    using rangelist_canonicalize_ok [OF assms] by auto
  have "covers rl b n \<longleftrightarrow> kind_at out n = (if b then MI_INHERITABLE else MI_NON_INHERITABLE)" for b n
    using covers_kind [OF canonical_ranges_ok [OF out(2) order.refl]] out(3) by metis
  from this [of True] this [of False] show ?thesis using out by (auto simp: covers_def)
qed

end
