(* ===== verification/Range_Merge.thy ===== *)
theory Range_Merge
  imports Range_List
begin

text \<open>
  Merging of range lists (\<^verbatim>\<open>rangelist_merge\<close> and \<^verbatim>\<open>svn_rangelist_merge2\<close> of \<^verbatim>\<open>mergeinfo.c\<close>): two
  iterators walk over the ranges and gaps of the inputs, and a builder puts the pieces together.
  \<^verbatim>\<open>SVN_DEBUG\<close> is not defined.
\<close>

section \<open>Iterators\<close>

record rangelist_interval_t =
  iv_start :: svn_revnum_t
  iv_end :: svn_revnum_t
  iv_kind :: rangelist_interval_kind_t

record rangelist_interval_iterator_t =
  it_rl :: svn_rangelist_t
  it_i :: nat
  it_in_range :: bool
  it_interval :: rangelist_interval_t

definition rlii_update :: "rangelist_interval_iterator_t \<Rightarrow> rangelist_interval_iterator_t option" where
  "rlii_update it =
     (if it_i it < length (it_rl it) then
        let r = it_rl it ! it_i it in
        if \<not> it_in_range it then
          Some (it\<lparr>it_interval := \<lparr>iv_start = (if it_i it > 0 then range_end (it_rl it ! (it_i it - 1)) else 0),
                                  iv_end = range_start r, iv_kind = MI_NONE\<rparr>\<rparr>)
        else
          Some (it\<lparr>it_interval := \<lparr>iv_start = range_start r, iv_end = range_end r,
                                  iv_kind = (if inheritable r then MI_INHERITABLE else MI_NON_INHERITABLE)\<rparr>\<rparr>)
      else None)"

definition rlii_next_any_interval :: "rangelist_interval_iterator_t \<Rightarrow> rangelist_interval_iterator_t option" where
  "rlii_next_any_interval it =
     (if it_i it \<ge> length (it_rl it) then None
      else
        let it = (if it_in_range it then it\<lparr>it_i := it_i it + 1\<rparr> else it) in
        Some (it\<lparr>it_in_range := \<not> it_in_range it\<rparr>))"

definition intervals_left :: "rangelist_interval_iterator_t \<Rightarrow> nat" where
  "intervals_left it = 2 * (length (it_rl it) - it_i it) - (if it_in_range it then 1 else 0)"

text \<open>The loop that skips empty intervals, of \<^verbatim>\<open>rlii_first\<close> and \<^verbatim>\<open>rlii_next\<close>. The body runs only when
  the update has found a range, so that \<^verbatim>\<open>rlii_next_any_interval\<close> does not return a null pointer there.\<close>

function rlii_skip :: "rangelist_interval_iterator_t \<Rightarrow> rangelist_interval_iterator_t option" where
  "rlii_skip it =
     (case rlii_update it of
        None \<Rightarrow> None
      | Some it \<Rightarrow>
          if iv_start (it_interval it) = iv_end (it_interval it)
          then (case rlii_next_any_interval it of None \<Rightarrow> None | Some it \<Rightarrow> rlii_skip it)
          else Some it)"
  by pat_completeness auto
termination
proof (relation "measure intervals_left", goal_cases)
  case (2 it it1 it2)
  then show ?case
    by (auto simp: rlii_update_def rlii_next_any_interval_def intervals_left_def Let_def split: if_splits)
qed simp

declare rlii_skip.simps [simp del]

definition rlii_first :: "svn_rangelist_t \<Rightarrow> rangelist_interval_iterator_t option" where
  "rlii_first rl =
     rlii_skip \<lparr>it_rl = rl, it_i = 0, it_in_range = False,
                it_interval = \<lparr>iv_start = 0, iv_end = 0, iv_kind = MI_NONE\<rparr>\<rparr>"

definition rlii_next :: "rangelist_interval_iterator_t \<Rightarrow> rangelist_interval_iterator_t option" where
  "rlii_next it = (case rlii_next_any_interval it of None \<Rightarrow> None | Some it \<Rightarrow> rlii_skip it)"

section \<open>The builder\<close>

record rangelist_builder_t =
  b_rl :: svn_rangelist_t
  accu_interval :: rangelist_interval_t

definition rl_builder_new :: "svn_rangelist_t \<Rightarrow> rangelist_builder_t" where
  "rl_builder_new rl = \<lparr>b_rl = rl, accu_interval = \<lparr>iv_start = 0, iv_end = 0, iv_kind = MI_NONE\<rparr>\<rparr>"

definition rl_builder_flush :: "rangelist_builder_t \<Rightarrow> rangelist_builder_t" where
  "rl_builder_flush b =
     (if iv_kind (accu_interval b) > MI_NONE then
        b\<lparr>b_rl := b_rl b @ [\<lparr>range_start = iv_start (accu_interval b), range_end = iv_end (accu_interval b),
                              inheritable = (iv_kind (accu_interval b) = MI_INHERITABLE)\<rparr>]\<rparr>
      else b)"

definition rl_builder_add_interval :: "rangelist_builder_t \<Rightarrow> rangelist_interval_t \<Rightarrow> rangelist_builder_t cres" where
  "rl_builder_add_interval b interval =
     asserting (iv_start interval < iv_end interval)
       (asserting (iv_start interval = iv_end (accu_interval b))
         (Ok (if iv_kind interval = iv_kind (accu_interval b)
              then b\<lparr>accu_interval := (accu_interval b)\<lparr>iv_end := iv_end interval\<rparr>\<rparr>
              else (rl_builder_flush b)\<lparr>accu_interval := interval\<rparr>)))"

section \<open>Merging\<close>

lemma skip_less:
  "rlii_skip it = Some it' \<Longrightarrow> intervals_left it' \<le> intervals_left it \<and> it_i it' < length (it_rl it')"
proof (induction it arbitrary: it' rule: rlii_skip.induct)
  case (1 it)
  show ?case
  proof (cases "rlii_update it")
    case None
    then show ?thesis using 1 by (simp add: rlii_skip.simps)
  next
    case (Some it1)
    have it1: "it_i it1 = it_i it" "it_rl it1 = it_rl it" "it_in_range it1 = it_in_range it" "it_i it < length (it_rl it)"
      using Some by (auto simp: rlii_update_def Let_def split: if_splits)
    show ?thesis
    proof (cases "iv_start (it_interval it1) = iv_end (it_interval it1)")
      case True
      obtain it2 where it2: "rlii_next_any_interval it1 = Some it2" using it1 by (auto simp: rlii_next_any_interval_def)
      then have "rlii_skip it2 = Some it'" using 1(2) Some True by (simp add: rlii_skip.simps [of it])
      moreover have "intervals_left it2 \<le> intervals_left it"
        using it1 it2 by (auto simp: rlii_next_any_interval_def intervals_left_def Let_def split: if_splits)
      ultimately show ?thesis using 1(1) [OF Some True it2] by fastforce
    next
      case False
      then show ?thesis using 1(2) Some it1 by (auto simp: rlii_skip.simps [of it] intervals_left_def)
    qed
  qed
qed

lemma next_less: "rlii_next it = Some it' \<Longrightarrow> intervals_left it' < intervals_left it \<and> it_i it' < length (it_rl it')"
proof -
  assume "rlii_next it = Some it'"
  then obtain it1 where it1: "rlii_next_any_interval it = Some it1" "rlii_skip it1 = Some it'"
    by (auto simp: rlii_next_def split: option.splits)
  have "intervals_left it1 < intervals_left it"
    using it1(1) by (auto simp: rlii_next_any_interval_def intervals_left_def Let_def split: if_splits)
  then show ?thesis using skip_less [OF it1(2)] by simp
qed

definition iterator_left :: "rangelist_interval_iterator_t option \<Rightarrow> nat" where
  "iterator_left o_it = (case o_it of None \<Rightarrow> 0 | Some it \<Rightarrow> Suc (intervals_left it))"

lemma iterator_left_next: "iterator_left (rlii_next it) < iterator_left (Some it)"
  using next_less [of it] by (cases "rlii_next it") (auto simp: iterator_left_def)

text \<open>An iterator moves on when the piece reaches the end of its interval.\<close>

definition advance :: "rangelist_interval_iterator_t option \<Rightarrow> svn_revnum_t \<Rightarrow> rangelist_interval_iterator_t option" where
  "advance o_it r_next =
     (case o_it of
        None \<Rightarrow> None
      | Some it \<Rightarrow> if iv_end (it_interval it) \<le> r_next then rlii_next it else Some it)"

definition next_interval ::
  "rangelist_interval_iterator_t option \<Rightarrow> rangelist_interval_iterator_t option \<Rightarrow> svn_revnum_t \<Rightarrow> rangelist_interval_t" where
  "next_interval it0 it1 r_last =
     (case (it0, it1) of
        (Some i0, None) \<Rightarrow>
          \<lparr>iv_start = r_last, iv_end = iv_end (it_interval i0), iv_kind = iv_kind (it_interval i0)\<rparr>
      | (None, Some i1) \<Rightarrow>
          \<lparr>iv_start = r_last, iv_end = iv_end (it_interval i1), iv_kind = iv_kind (it_interval i1)\<rparr>
      | (Some i0, Some i1) \<Rightarrow>
          \<lparr>iv_start = r_last, iv_end = min (iv_end (it_interval i0)) (iv_end (it_interval i1)),
           iv_kind = max (iv_kind (it_interval i0)) (iv_kind (it_interval i1))\<rparr>
      | (None, None) \<Rightarrow> \<lparr>iv_start = r_last, iv_end = r_last, iv_kind = MI_NONE\<rparr>)"

function merge_loop ::
  "rangelist_interval_iterator_t option \<Rightarrow> rangelist_interval_iterator_t option \<Rightarrow> rangelist_builder_t \<Rightarrow>
   svn_revnum_t \<Rightarrow> rangelist_builder_t cres" where
  "merge_loop it0 it1 rl_builder r_last =
     (if it0 \<noteq> None \<or> it1 \<noteq> None then
        let interval = next_interval it0 it1 r_last in
        asserting (iv_start interval < iv_end interval)
          (cbind (rl_builder_add_interval rl_builder interval) (\<lambda>rl_builder.
             merge_loop (advance it0 (iv_end interval)) (advance it1 (iv_end interval)) rl_builder (iv_end interval)))
      else Ok rl_builder)"
  by pat_completeness auto
termination
proof (relation "measure (\<lambda>(it0, it1, b, r). iterator_left it0 + iterator_left it1)", goal_cases)
  case (2 it0 it1 b r_last interval b')
  have mono: "iterator_left (advance it r) \<le> iterator_left it" for it r
    using iterator_left_next by (auto simp: advance_def less_imp_le split: option.splits)
  have strict: "iterator_left (advance (Some it) r) < iterator_left (Some it)" if "iv_end (it_interval it) \<le> r" for it r
    using iterator_left_next that by (simp add: advance_def)
  have "iterator_left (advance it0 (iv_end interval)) < iterator_left it0 \<or>
    iterator_left (advance it1 (iv_end interval)) < iterator_left it1"
    using 2(1) strict unfolding 2(2) by (cases it0; cases it1) (auto simp: next_interval_def min_def)
  then show ?case using mono [of it0 "iv_end interval"] mono [of it1 "iv_end interval"] by auto
qed simp

declare merge_loop.simps [simp del]

definition rangelist_merge :: "svn_rangelist_t \<Rightarrow> svn_rangelist_t \<Rightarrow> svn_rangelist_t \<Rightarrow> svn_rangelist_t cres" where
  "rangelist_merge rl_out rl1 rl2 =
     asserting (rangelist_is_sorted rl1) (asserting (rangelist_is_sorted rl2) (asserting (length rl_out = 0)
       (cbind (merge_loop (rlii_first rl1) (rlii_first rl2) (rl_builder_new rl_out) 0) (\<lambda>rl_builder.
          Ok (b_rl (rl_builder_flush rl_builder))))))"

definition svn_rangelist_merge2 :: "svn_rangelist_t \<Rightarrow> svn_rangelist_t \<Rightarrow> svn_rangelist_t cres" where
  "svn_rangelist_merge2 rangelist chg = rangelist_merge [] rangelist chg"

section \<open>The intervals of a list\<close>

definition range_interval :: "svn_merge_range_t \<Rightarrow> rangelist_interval_t" where
  "range_interval r = \<lparr>iv_start = range_start r, iv_end = range_end r, iv_kind = kind_of r\<rparr>"

definition gap_interval :: "svn_revnum_t \<Rightarrow> svn_merge_range_t \<Rightarrow> rangelist_interval_t" where
  "gap_interval lo r = \<lparr>iv_start = lo, iv_end = range_start r, iv_kind = MI_NONE\<rparr>"

definition nonempty :: "rangelist_interval_t \<Rightarrow> rangelist_interval_t list" where
  "nonempty v = (if iv_start v = iv_end v then [] else [v])"

fun intervals :: "svn_revnum_t \<Rightarrow> svn_rangelist_t \<Rightarrow> rangelist_interval_t list" where
  "intervals lo [] = []"
| "intervals lo (r # rs) = nonempty (gap_interval lo r) @ nonempty (range_interval r) @ intervals (range_end r) rs"

text \<open>The intervals an iterator has not reached, and those from the current position on.\<close>

definition after_position :: "rangelist_interval_iterator_t \<Rightarrow> rangelist_interval_t list" where
  "after_position it =
     (let r = it_rl it ! it_i it; rest = intervals (range_end r) (drop (Suc (it_i it)) (it_rl it)) in
      if it_in_range it then rest else nonempty (range_interval r) @ rest)"

definition at_position :: "rangelist_interval_iterator_t \<Rightarrow> rangelist_interval_t list" where
  "at_position it =
     (if it_i it < length (it_rl it) then
        let r = it_rl it ! it_i it; lo = (if it_i it > 0 then range_end (it_rl it ! (it_i it - 1)) else 0) in
        nonempty (if it_in_range it then range_interval r else gap_interval lo r) @ after_position it
      else [])"

definition it_list :: "rangelist_interval_iterator_t option \<Rightarrow> rangelist_interval_t list" where
  "it_list o_it = (case o_it of None \<Rightarrow> [] | Some it \<Rightarrow> it_interval it # after_position it)"

lemma next_any_position:
  assumes "rlii_next_any_interval it = Some it'" "it_i it < length (it_rl it)"
  shows "at_position it' = after_position it"
proof (cases "it_in_range it")
  case False
  then show ?thesis using assms
    by (auto simp: rlii_next_any_interval_def at_position_def after_position_def Let_def)
next
  case True
  then have it': "it_i it' = Suc (it_i it)" "it_rl it' = it_rl it" "\<not> it_in_range it'"
    using assms by (auto simp: rlii_next_any_interval_def Let_def)
  show ?thesis
  proof (cases "Suc (it_i it) < length (it_rl it)")
    case less: True
    have "drop (Suc (it_i it)) (it_rl it) = it_rl it ! Suc (it_i it) # drop (Suc (Suc (it_i it))) (it_rl it)"
      using less by (simp add: Cons_nth_drop_Suc)
    then show ?thesis using it' True less by (simp add: at_position_def after_position_def Let_def)
  next
    case False
    then show ?thesis using it' True by (simp add: at_position_def after_position_def Let_def)
  qed
qed

lemma update_position:
  assumes "rlii_update it = Some it'"
  shows "at_position it = nonempty (it_interval it') @ after_position it'" "it_i it' < length (it_rl it')"
  using assms
  by (auto simp: rlii_update_def at_position_def after_position_def Let_def range_interval_def gap_interval_def
      kind_of_def split: if_splits)

lemma skip_position: "it_list (rlii_skip it) = at_position it"
proof (induction it rule: rlii_skip.induct)
  case (1 it)
  show ?case
  proof (cases "rlii_update it")
    case None
    then have "at_position it = []" by (auto simp: rlii_update_def at_position_def Let_def split: if_splits)
    then show ?thesis using None by (simp add: rlii_skip.simps [of it] it_list_def)
  next
    case (Some it1)
    note upd = update_position [OF Some]
    show ?thesis
    proof (cases "iv_start (it_interval it1) = iv_end (it_interval it1)")
      case True
      obtain it2 where it2: "rlii_next_any_interval it1 = Some it2" using upd(2) by (auto simp: rlii_next_any_interval_def Let_def)
      have "it_list (rlii_skip it2) = at_position it2" using 1 [OF Some True it2] .
      then show ?thesis
        using Some True it2 next_any_position [OF it2 upd(2)] upd(1) by (simp add: rlii_skip.simps [of it] nonempty_def)
    next
      case False
      then show ?thesis using Some upd(1) by (simp add: rlii_skip.simps [of it] it_list_def nonempty_def)
    qed
  qed
qed

lemma first_list: "it_list (rlii_first rl) = intervals 0 rl"
  by (cases rl) (simp_all add: rlii_first_def skip_position at_position_def after_position_def Let_def)

lemma next_list: "it_i it < length (it_rl it) \<Longrightarrow> it_list (rlii_next it) = after_position it"
  using skip_position next_any_position
  by (auto simp: rlii_next_def rlii_next_any_interval_def split: option.splits)

definition it_valid :: "rangelist_interval_iterator_t option \<Rightarrow> bool" where
  "it_valid o_it \<longleftrightarrow> (\<forall>it. o_it = Some it \<longrightarrow> it_i it < length (it_rl it))"

lemma it_valid_first: "it_valid (rlii_first rl)"
  using skip_less by (auto simp: it_valid_def rlii_first_def)

lemma it_valid_advance: "it_valid o_it \<Longrightarrow> it_valid (advance o_it r)"
  using next_less by (auto simp: it_valid_def advance_def split: option.splits)

text \<open>What is left of a list of intervals after a piece that ends at \<open>r\<close>.\<close>

definition cut :: "svn_revnum_t \<Rightarrow> rangelist_interval_t list \<Rightarrow> rangelist_interval_t list" where
  "cut r vs = (case vs of [] \<Rightarrow> [] | v # ws \<Rightarrow> if iv_end v \<le> r then ws else vs)"

lemma advance_list:
  assumes "it_valid o_it"
  shows "it_list (advance o_it r) = cut r (it_list o_it)"
proof (cases o_it)
  case (Some it)
  then show ?thesis using assms next_list [of it]
    by (simp add: advance_def cut_def it_valid_def it_list_def [of "Some it"])
qed (simp add: advance_def cut_def it_list_def)

lemma it_list_Nil: "it_list o_it = [] \<longleftrightarrow> o_it = None"
  by (auto simp: it_list_def split: option.splits)

section \<open>Intervals and kinds\<close>

text \<open>A list of adjacent intervals whose first one reaches beyond \<open>r\<close>, and the kind it gives a revision
  after \<open>r\<close>.\<close>

fun chain :: "svn_revnum_t \<Rightarrow> rangelist_interval_t list \<Rightarrow> bool" where
  "chain r [] = True"
| "chain r (v # vs) = (r < iv_end v \<and> chain (iv_end v) vs)"

fun chain_kind :: "rangelist_interval_t list \<Rightarrow> svn_revnum_t \<Rightarrow> rangelist_interval_kind_t" where
  "chain_kind [] n = MI_NONE"
| "chain_kind (v # vs) n = (if n \<le> iv_end v then iv_kind v else chain_kind vs n)"

lemma intervals_chain:
  "ranges_ok lo rl \<Longrightarrow> chain lo (intervals lo rl) \<and> (\<forall>n > lo. chain_kind (intervals lo rl) n = kind_at rl n)"
proof (induction rl arbitrary: lo)
  case (Cons r rs)
  have "kind_at rs n = MI_NONE" if "n \<le> range_end r" for n using kind_at_low Cons.prems that by auto
  then show ?case using Cons by (auto simp: nonempty_def gap_interval_def range_interval_def)
qed simp

lemma cut_chain:
  assumes "chain r vs" "r < r'" "vs \<noteq> [] \<Longrightarrow> r' \<le> iv_end (hd vs)"
  shows "chain r' (cut r' vs)" "\<And>n. r' < n \<Longrightarrow> chain_kind (cut r' vs) n = chain_kind vs n"
  using assms by (cases vs; auto simp: cut_def)+

section \<open>The builder\<close>

definition built :: "rangelist_builder_t \<Rightarrow> svn_rangelist_t" where
  "built b = b_rl (rl_builder_flush b)"

definition builder_ok :: "rangelist_builder_t \<Rightarrow> svn_revnum_t \<Rightarrow> bool" where
  "builder_ok b r \<longleftrightarrow> iv_end (accu_interval b) = r \<and> 0 \<le> r \<and>
     svn_rangelist__is_canonical (built b) \<and> ranges_ok 0 (built b) \<and>
     (iv_kind (accu_interval b) = MI_NONE \<longrightarrow> built b = [] \<or> last_end 0 (built b) < r)"

lemma built_simps:
  "iv_kind (accu_interval b) = MI_NONE \<Longrightarrow> built b = b_rl b"
  "iv_kind (accu_interval b) \<noteq> MI_NONE \<Longrightarrow> built b =
     b_rl b @ [\<lparr>range_start = iv_start (accu_interval b), range_end = iv_end (accu_interval b),
                inheritable = (iv_kind (accu_interval b) = MI_INHERITABLE)\<rparr>]"
  by (simp_all add: built_def rl_builder_flush_def)

lemma builder_bound:
  assumes "builder_ok b r"
  shows "last_end 0 (built b) \<le> r"
  using assms by (cases "iv_kind (accu_interval b) = MI_NONE") (auto simp: builder_ok_def built_simps)

lemma builder_high: "builder_ok b r \<Longrightarrow> r < n \<Longrightarrow> kind_at (built b) n = MI_NONE"
  using kind_at_high [of 0 "built b" n] builder_bound [of b r] by (simp add: builder_ok_def)

lemma kind_of_kind: "k \<noteq> MI_NONE \<Longrightarrow> kind_of \<lparr>range_start = s, range_end = e, inheritable = (k = MI_INHERITABLE)\<rparr> = k"
  by (cases k) (simp_all add: kind_of_def)

lemma add_interval_ok:
  assumes b: "builder_ok b r" and r: "r < r'"
  shows "\<exists>b'. rl_builder_add_interval b \<lparr>iv_start = r, iv_end = r', iv_kind = k\<rparr> = Ok b' \<and> builder_ok b' r' \<and>
    (\<forall>n. kind_at (built b') n = (if r < n \<and> n \<le> r' then k else kind_at (built b) n))"
proof (cases "k = iv_kind (accu_interval b)")
  case same: True
  let ?b = "b\<lparr>accu_interval := (accu_interval b)\<lparr>iv_end := r'\<rparr>\<rparr>"
  have add: "rl_builder_add_interval b \<lparr>iv_start = r, iv_end = r', iv_kind = k\<rparr> = Ok ?b"
    using same b r by (simp add: rl_builder_add_interval_def builder_ok_def)
  show ?thesis
  proof (cases "k = MI_NONE")
    case True
    then have "built ?b = built b" using same by (simp add: built_simps)
    then show ?thesis using add b r True same builder_high [OF b] by (auto simp: builder_ok_def)
  next
    case False
    then have "kind_at (built ?b) n = (if r < n \<and> n \<le> r' then k else kind_at (built b) n)" for n
      using b r same kind_at_high [of 0 "b_rl b" n]
      by (auto simp: built_simps builder_ok_def kind_at_append kind_of_kind canonical_snoc)
    moreover have "builder_ok ?b r'"
      using b r same False by (auto simp: built_simps builder_ok_def canonical_snoc)
    ultimately show ?thesis using add by auto
  qed
next
  case diff: False
  let ?v = "\<lparr>iv_start = r, iv_end = r', iv_kind = k\<rparr>"
  let ?b = "(rl_builder_flush b)\<lparr>accu_interval := ?v\<rparr>"
  let ?r = "\<lparr>range_start = r, range_end = r', inheritable = (k = MI_INHERITABLE)\<rparr>"
  have add: "rl_builder_add_interval b ?v = Ok ?b"
    using diff b r by (simp add: rl_builder_add_interval_def builder_ok_def)
  have rl: "b_rl ?b = built b" by (simp add: built_def)
  show ?thesis
  proof (cases "k = MI_NONE")
    case True
    then have "built ?b = built b" using rl by (simp add: built_simps)
    then show ?thesis using add b r True builder_high [OF b] builder_bound [OF b] by (auto simp: builder_ok_def)
  next
    case False
    then have out: "built ?b = built b @ [?r]" using rl by (simp add: built_simps)
    have "built b \<noteq> [] \<and> range_end (last (built b)) = r \<longrightarrow> inheritable (last (built b)) \<noteq> inheritable ?r"
      using b diff False by (cases "iv_kind (accu_interval b)"; cases k) (auto simp: builder_ok_def built_simps last_end_def)
    moreover have "built b \<noteq> [] \<longrightarrow> range_end (last (built b)) \<le> r" "last_end 0 (built b) \<le> r"
      using builder_bound [OF b] by (auto simp: last_end_def)
    ultimately have "builder_ok ?b r'"
      using out b r False by (simp add: builder_ok_def canonical_snoc)
    moreover have "kind_at (built ?b) n = (if r < n \<and> n \<le> r' then k else kind_at (built b) n)" for n
      using out builder_high [OF b, of n] False by (auto simp: kind_at_append kind_of_kind)
    ultimately show ?thesis using add by blast
  qed
qed

section \<open>The loop\<close>

lemma next_interval_ok:
  assumes "chain r (it_list it0)" "chain r (it_list it1)" "it0 \<noteq> None \<or> it1 \<noteq> None"
  defines "v \<equiv> next_interval it0 it1 r"
  shows "iv_start v = r" "r < iv_end v"
    "it_list it0 \<noteq> [] \<Longrightarrow> iv_end v \<le> iv_end (hd (it_list it0))"
    "it_list it1 \<noteq> [] \<Longrightarrow> iv_end v \<le> iv_end (hd (it_list it1))"
    "\<And>n. n \<le> iv_end v \<Longrightarrow> iv_kind v = max (chain_kind (it_list it0) n) (chain_kind (it_list it1) n)"
  using assms(1-3) unfolding v_def
  by (cases it0; cases it1; auto simp: next_interval_def it_list_def)+

lemma merge_loop_ok:
  assumes "it_valid it0" "it_valid it1" "chain r (it_list it0)" "chain r (it_list it1)" "builder_ok b r"
  shows "\<exists>b'. merge_loop it0 it1 b r = Ok b' \<and> svn_rangelist__is_canonical (built b') \<and> ranges_ok 0 (built b') \<and>
    (\<forall>n. kind_at (built b') n =
      (if n \<le> r then kind_at (built b) n else max (chain_kind (it_list it0) n) (chain_kind (it_list it1) n)))"
  using assms
proof (induction it0 it1 b r rule: merge_loop.induct)
  case (1 it0 it1 b r)
  show ?case
  proof (cases "it0 \<noteq> None \<or> it1 \<noteq> None")
    case False
    then have "merge_loop it0 it1 b r = Ok b" by (subst merge_loop.simps) simp
    then show ?thesis using False 1(6) builder_high [OF 1(6)]
      by (auto simp: builder_ok_def it_list_def)
  next
    case True
    define v where "v = next_interval it0 it1 r"
    let ?e = "iv_end v"
    note v = next_interval_ok [OF 1(4,5) True, folded v_def]
    have vv: "v = \<lparr>iv_start = r, iv_end = ?e, iv_kind = iv_kind v\<rparr>" using v(1) by simp
    obtain b1 where b1: "rl_builder_add_interval b v = Ok b1" "builder_ok b1 ?e"
      "\<And>n. kind_at (built b1) n = (if r < n \<and> n \<le> ?e then iv_kind v else kind_at (built b) n)"
      using add_interval_ok [OF 1(6) v(2), of "iv_kind v"] vv by metis
    have step: "merge_loop it0 it1 b r = merge_loop (advance it0 ?e) (advance it1 ?e) b1 ?e"
      using True v(1,2) b1(1) by (subst merge_loop.simps) (simp add: v_def [symmetric])
    have l0: "it_list (advance it0 ?e) = cut ?e (it_list it0)" and l1: "it_list (advance it1 ?e) = cut ?e (it_list it1)"
      using advance_list 1(2,3) by blast+
    note c0 = cut_chain [OF 1(4) v(2,3)] and c1 = cut_chain [OF 1(5) v(2,4)]
    have "iv_start v < ?e" using v(1,2) by simp
    then obtain b' where b': "merge_loop (advance it0 ?e) (advance it1 ?e) b1 ?e = Ok b'"
      "svn_rangelist__is_canonical (built b')" "ranges_ok 0 (built b')"
      "\<And>n. kind_at (built b') n = (if n \<le> ?e then kind_at (built b1) n
         else max (chain_kind (it_list (advance it0 ?e)) n) (chain_kind (it_list (advance it1 ?e)) n))"
      using 1(1) [OF True v_def, of b1] b1(1) it_valid_advance [OF 1(2)] it_valid_advance [OF 1(3)] c0(1) c1(1) b1(2)
      unfolding l0 l1 by blast
    have "kind_at (built b') n = (if n \<le> r then kind_at (built b) n
        else max (chain_kind (it_list it0) n) (chain_kind (it_list it1) n))" for n
      using b'(4) [of n] b1(3) [of n] v(2) v(5) [of n] c0(2) [of n] c1(2) [of n] unfolding l0 l1
      by (cases "n \<le> r"; cases "n \<le> ?e") simp_all
    then show ?thesis using step b'(1-3) by auto
  qed
qed

lemma ordered_is_sorted: "ranges_ok lo rl \<Longrightarrow> rangelist_is_sorted rl"
proof (induction rl arbitrary: lo)
  case (Cons r rs)
  then have "rangelist_is_sorted rs" by auto
  moreover have "rs \<noteq> [] \<Longrightarrow> \<not> svn_sort_compare_ranges r (hd rs) > 0"
    using Cons.prems by (cases rs) (auto simp: svn_sort_compare_ranges_def)
  ultimately show ?case by (cases rs) (auto simp: rangelist_is_sorted_def)
qed (simp add: rangelist_is_sorted_def)

lemma merge2_ok:
  assumes "ranges_ok 0 rl" "ranges_ok 0 chg"
  shows "\<exists>out. svn_rangelist_merge2 rl chg = Ok out \<and> svn_rangelist__is_canonical out \<and> ranges_ok 0 out \<and>
    (\<forall>n. kind_at out n = max (kind_at rl n) (kind_at chg n))"
proof -
  let ?b = "rl_builder_new []"
  have b: "builder_ok ?b 0" "built ?b = []" by (simp_all add: builder_ok_def rl_builder_new_def built_simps)
  note c = intervals_chain [OF assms(1)] intervals_chain [OF assms(2)]
  obtain b' where b': "merge_loop (rlii_first rl) (rlii_first chg) ?b 0 = Ok b'"
    "svn_rangelist__is_canonical (built b')" "ranges_ok 0 (built b')"
    "\<And>n. kind_at (built b') n = (if n \<le> 0 then kind_at (built ?b) n
       else max (chain_kind (intervals 0 rl) n) (chain_kind (intervals 0 chg) n))"
    using merge_loop_ok [of "rlii_first rl" "rlii_first chg" 0 ?b] it_valid_first b(1) c first_list by auto
  have "kind_at (built b') n = max (kind_at rl n) (kind_at chg n)" for n
    using b'(4) [of n] b(2) c kind_at_low [OF assms(1), of n] kind_at_low [OF assms(2), of n]
    by (cases "n \<le> 0") auto
  moreover have "svn_rangelist_merge2 rl chg = Ok (built b')"
    using b'(1) assms ordered_is_sorted by (simp add: svn_rangelist_merge2_def rangelist_merge_def built_def)
  ultimately show ?thesis using b'(2,3) by blast
qed

section \<open>Properties\<close>

text \<open>C29. \<^verbatim>\<open>svn_rangelist_merge2\<close> implements the union of range lists: for lists in order it always succeeds,
  none of the assertions of the loop and of the builder fails, the result is canonical, and every
  revision has in it the greater of the kinds it has in the two inputs (in no range, in one that is not
  inheritable, in an inheritable one).\<close>

theorem rangelist_merge_is_union:
  assumes "ranges_ok 0 rangelist" "ranges_ok 0 chg"
  shows "\<exists>out. svn_rangelist_merge2 rangelist chg = Ok out \<and> svn_rangelist__is_canonical out \<and>
    (\<forall>n. kind_at out n = max (kind_at rangelist n) (kind_at chg n))"
  using merge2_ok [OF assms] by blast

theorem rangelist_merge_is_union_witness:
  "\<exists>out. svn_rangelist_merge2 [\<lparr>range_start = 0, range_end = 4, inheritable = False\<rparr>]
      [\<lparr>range_start = 2, range_end = 9, inheritable = True\<rparr>] = Ok out \<and> svn_rangelist__is_canonical out \<and>
    (\<forall>n. kind_at out n = max (kind_at [\<lparr>range_start = 0, range_end = 4, inheritable = False\<rparr>] n)
      (kind_at [\<lparr>range_start = 2, range_end = 9, inheritable = True\<rparr>] n))"
  by (rule rangelist_merge_is_union) simp_all

end
