(* ===== verification/Range_Remove.thy ===== *)
theory Range_Remove
  imports Range_Merge
begin

text \<open>
  Intersection and difference of range lists (\<^verbatim>\<open>rangelist_intersect_or_remove\<close> of \<^verbatim>\<open>mergeinfo.c\<close>), and
  the functions on top of it.
\<close>

section \<open>Two ranges\<close>

definition range_intersect :: "svn_merge_range_t \<Rightarrow> svn_merge_range_t \<Rightarrow> bool \<Rightarrow> bool cres" where
  "range_intersect r1 r2 consider_inheritance =
     asserting (IS_VALID_FORWARD_RANGE r1) (asserting (IS_VALID_FORWARD_RANGE r2)
       (Ok (range_start r1 + 1 \<le> range_end r2 \<and> range_start r2 + 1 \<le> range_end r1 \<and>
            (\<not> consider_inheritance \<or> (\<not> inheritable r1) = (\<not> inheritable r2)))))"

definition range_contains :: "svn_merge_range_t \<Rightarrow> svn_merge_range_t \<Rightarrow> bool \<Rightarrow> bool cres" where
  "range_contains r1 r2 consider_inheritance =
     asserting (IS_VALID_FORWARD_RANGE r1) (asserting (IS_VALID_FORWARD_RANGE r2)
       (Ok (range_start r1 \<le> range_start r2 \<and> range_end r2 \<le> range_end r1 \<and>
            (\<not> consider_inheritance \<or> (\<not> inheritable r1) = (\<not> inheritable r2)))))"

section \<open>The loop over both lists\<close>

text \<open>The part of the second range that is kept to the left of the first range, or the part they share.\<close>

definition left_part :: "bool \<Rightarrow> svn_merge_range_t \<Rightarrow> svn_merge_range_t \<Rightarrow> svn_merge_range_t" where
  "left_part do_remove elt1 elt2 =
     (if do_remove
      then \<lparr>range_start = range_start elt2, range_end = range_start elt1, inheritable = inheritable elt2\<rparr>
      else \<lparr>range_start = range_start elt1, range_end = min (range_end elt2) (range_end elt1),
            inheritable = (inheritable elt2 \<or> inheritable elt1)\<rparr>)"

text \<open>The branch for a range that lies before the first one: it is combined with the last range of the
  output in place, or pushed.\<close>

definition push_unless_combined :: "svn_merge_range_t \<Rightarrow> svn_rangelist_t \<Rightarrow> bool \<Rightarrow> svn_rangelist_t" where
  "push_unless_combined elt2 output consider_inheritance =
     (case (if output = [] then None else combine_ranges (last output) elt2 consider_inheritance) of
        Some combined \<Rightarrow> butlast output @ [combined]
      | None \<Rightarrow> output @ [elt2])"

text \<open>The two lists from \<^verbatim>\<open>i1\<close> and \<^verbatim>\<open>i2\<close> on, where the second one starts with \<^verbatim>\<open>working_elt2\<close>: the
  copy of the current range which the loop shortens.\<close>

function (sequential) intersect_loop ::
  "bool \<Rightarrow> bool \<Rightarrow> svn_rangelist_t \<Rightarrow> svn_rangelist_t \<Rightarrow> svn_rangelist_t \<Rightarrow> (svn_rangelist_t \<times> svn_rangelist_t) cres" where
  "intersect_loop do_remove consider_inheritance (elt1 # rl1) (elt2 # rl2) output =
     cbind (range_contains elt1 elt2 consider_inheritance) (\<lambda>elt1_contains_elt2.
     cbind (range_intersect elt1 elt2 consider_inheritance) (\<lambda>elt1_intersects_elt2.
       if elt1_contains_elt2 then
         cbind (if \<not> do_remove
                then combine_with_lastrange
                       \<lparr>range_start = range_start elt2, range_end = range_end elt2,
                        inheritable = (inheritable elt2 \<or> inheritable elt1)\<rparr> output consider_inheritance
                else Ok output) (\<lambda>output.
           if range_start elt2 = range_start elt1 \<and> range_end elt2 = range_end elt1
           then intersect_loop do_remove consider_inheritance rl1 rl2 output
           else intersect_loop do_remove consider_inheritance (elt1 # rl1) rl2 output)
       else if elt1_intersects_elt2 then
         cbind (if range_start elt2 < range_start elt1
                then combine_with_lastrange (left_part do_remove elt1 elt2) output consider_inheritance
                else Ok output) (\<lambda>output.
           if range_end elt2 > range_end elt1 then
             cbind (if \<not> do_remove
                    then combine_with_lastrange
                           \<lparr>range_start = max (range_start elt2) (range_start elt1), range_end = range_end elt1,
                            inheritable = (inheritable elt2 \<or> inheritable elt1)\<rparr> output consider_inheritance
                    else Ok output) (\<lambda>output.
               intersect_loop do_remove consider_inheritance (elt1 # rl1)
                 (elt2\<lparr>range_start := range_end elt1\<rparr> # rl2) output)
           else intersect_loop do_remove consider_inheritance (elt1 # rl1) rl2 output)
       else if svn_sort_compare_ranges elt1 elt2 < 0
       then intersect_loop do_remove consider_inheritance rl1 (elt2 # rl2) output
       else intersect_loop do_remove consider_inheritance (elt1 # rl1) rl2
              (if do_remove then push_unless_combined elt2 output consider_inheritance else output)))"
| "intersect_loop do_remove consider_inheritance rl1 rl2 output = Ok (rl2, output)"
  by pat_completeness auto
termination
  by (relation "measure (\<lambda>(d, c, rl1, rl2, out). 2 * (length rl1 + length rl2) +
        (case (rl1, rl2) of (e1 # _, e2 # _) \<Rightarrow> if range_start e2 < range_end e1 then 1 else 0 | _ \<Rightarrow> 0))")
     (auto simp: range_intersect_def asserting_def split: list.splits if_splits)

declare intersect_loop.simps(1) [simp del]

text \<open>The ranges of the second list that are left over.\<close>

fun append_rest :: "svn_rangelist_t \<Rightarrow> svn_rangelist_t \<Rightarrow> bool \<Rightarrow> svn_rangelist_t cres" where
  "append_rest [] output consider_inheritance = Ok output"
| "append_rest (elt # rl2) output consider_inheritance =
     cbind (combine_with_lastrange elt output consider_inheritance) (\<lambda>output.
       append_rest rl2 output consider_inheritance)"

definition rangelist_intersect_or_remove ::
  "svn_rangelist_t \<Rightarrow> svn_rangelist_t \<Rightarrow> bool \<Rightarrow> bool \<Rightarrow> svn_rangelist_t cres" where
  "rangelist_intersect_or_remove rangelist1 rangelist2 do_remove consider_inheritance =
     cbind (intersect_loop do_remove consider_inheritance rangelist1 rangelist2 []) (\<lambda>(rl2, output).
       if do_remove then append_rest rl2 output consider_inheritance else Ok output)"

definition svn_rangelist_intersect :: "svn_rangelist_t \<Rightarrow> svn_rangelist_t \<Rightarrow> bool \<Rightarrow> svn_rangelist_t cres" where
  "svn_rangelist_intersect rangelist1 rangelist2 consider_inheritance =
     rangelist_intersect_or_remove rangelist1 rangelist2 False consider_inheritance"

definition svn_rangelist_remove :: "svn_rangelist_t \<Rightarrow> svn_rangelist_t \<Rightarrow> bool \<Rightarrow> svn_rangelist_t cres" where
  "svn_rangelist_remove eraser whiteboard consider_inheritance =
     rangelist_intersect_or_remove eraser whiteboard True consider_inheritance"

text \<open>The deleted and the added ranges.\<close>

definition svn_rangelist_diff ::
  "svn_rangelist_t \<Rightarrow> svn_rangelist_t \<Rightarrow> bool \<Rightarrow> (svn_rangelist_t \<times> svn_rangelist_t) cres" where
  "svn_rangelist_diff from_list to_list consider_inheritance =
     cbind (svn_rangelist_remove to_list from_list consider_inheritance) (\<lambda>deleted.
     cbind (svn_rangelist_remove from_list to_list consider_inheritance) (\<lambda>added.
       Ok (deleted, added)))"

definition svn_rangelist_inheritable2 ::
  "svn_rangelist_t \<Rightarrow> svn_revnum_t \<Rightarrow> svn_revnum_t \<Rightarrow> bool \<Rightarrow> svn_rangelist_t cres" where
  "svn_rangelist_inheritable2 rangelist start_rev end_rev inherit =
     (if length rangelist \<noteq> 0 then
        if \<not> SVN_IS_VALID_REVNUM start_rev \<or> \<not> SVN_IS_VALID_REVNUM end_rev \<or> end_rev < start_rev
        then Ok (filter (\<lambda>r. inheritable r = inherit) rangelist)
        else svn_rangelist_remove (svn_rangelist__initialize start_rev end_rev inherit) rangelist True
      else Ok [])"

section \<open>What the lists say, with or without inheritance\<close>

definition kind_seen :: "bool \<Rightarrow> svn_merge_range_t \<Rightarrow> rangelist_interval_kind_t" where
  "kind_seen consider_inheritance r = (if consider_inheritance then kind_of r else MI_INHERITABLE)"

fun seen_at :: "bool \<Rightarrow> svn_rangelist_t \<Rightarrow> svn_revnum_t \<Rightarrow> rangelist_interval_kind_t" where
  "seen_at c [] n = MI_NONE"
| "seen_at c (r # rs) n = (if range_start r < n \<and> n \<le> range_end r then kind_seen c r else seen_at c rs n)"

lemma seen_at_True: "seen_at True rl n = kind_at rl n"
  by (induction rl) (auto simp: kind_seen_def)

lemma seen_at_False: "seen_at False rl n = (if n \<in> revisions rl then MI_INHERITABLE else MI_NONE)"
  by (induction rl) (auto simp: kind_seen_def)

lemma kind_seen_simps [simp]: "kind_seen c r \<noteq> MI_NONE" "MI_NONE \<noteq> kind_seen c r"
  by (auto simp: kind_seen_def)

lemma seen_at_none: "seen_at c rl n = MI_NONE \<longleftrightarrow> n \<notin> revisions rl"
  by (induction rl) auto

lemma seen_at_append: "seen_at c (xs @ ys) n = (if seen_at c xs n = MI_NONE then seen_at c ys n else seen_at c xs n)"
  by (induction xs) auto

lemma seen_at_low: "ranges_ok lo rl \<Longrightarrow> n \<le> lo \<Longrightarrow> seen_at c rl n = MI_NONE"
  using ranges_ok_bounds by (force simp: seen_at_none)

lemma seen_at_high: "ranges_ok lo rl \<Longrightarrow> last_end lo rl < n \<Longrightarrow> seen_at c rl n = MI_NONE"
  using ranges_ok_bounds by (force simp: seen_at_none)

section \<open>Growing the output\<close>

text \<open>A range after the last one of the output: what is pushed, and how it is seen.\<close>

definition grown :: "bool \<Rightarrow> svn_rangelist_t \<Rightarrow> svn_merge_range_t \<Rightarrow> svn_rangelist_t \<Rightarrow> bool" where
  "grown c out r out' \<longleftrightarrow> ranges_ok 0 out' \<and> out' \<noteq> [] \<and> last_end 0 out' = range_end r \<and>
     range_start (last out') \<le> range_start r \<and> (c \<longrightarrow> inheritable (last out') = inheritable r) \<and>
     (inheritable r \<longrightarrow> inheritable (last out')) \<and>
     (\<forall>n. seen_at c out' n = (if range_start r < n \<and> n \<le> range_end r then kind_seen c r else seen_at c out n))"

lemma grown_append:
  assumes "ranges_ok 0 out" "last_end 0 out \<le> range_start r" "range_start r < range_end r"
  shows "grown c out r (out @ [r])"
proof -
  have "seen_at c out n = MI_NONE" if "range_start r < n" for n using seen_at_high assms that by fastforce
  then show ?thesis using assms by (auto simp: grown_def seen_at_append)
qed

lemma grown_join:
  assumes "ranges_ok 0 (others @ [l])" "range_end l = range_start r" "range_start r < range_end r"
    "inheritable l = inheritable r \<or> \<not> c"
  shows "grown c (others @ [l]) r (others @ [\<lparr>range_start = range_start l, range_end = range_end r,
    inheritable = (inheritable l \<or> inheritable r)\<rparr>])"
proof -
  have "seen_at c others n = MI_NONE" if "range_start l < n" for n using seen_at_high [of 0 others n] assms that by auto
  then show ?thesis using assms by (auto simp: grown_def seen_at_append kind_seen_def kind_of_def)
qed

lemma combine_ranges_after:
  assumes "range_start l < range_end l" "range_start r < range_end r" "range_end l \<le> range_start r"
  shows "combine_ranges l r c =
    (if range_end l = range_start r \<and> (inheritable l = inheritable r \<or> \<not> c)
     then Some \<lparr>range_start = range_start l, range_end = range_end r, inheritable = (inheritable l \<or> inheritable r)\<rparr>
     else None)"
  using assms by (auto simp: combine_ranges_def)

lemma push_unless_combined_grown:
  assumes "ranges_ok 0 out" "last_end 0 out \<le> range_start r" "range_start r < range_end r"
  shows "grown c out r (push_unless_combined r out c)"
proof (cases out rule: rev_cases)
  case Nil
  then show ?thesis using grown_append [of out r c] assms by (simp add: push_unless_combined_def)
next
  case (snoc others l)
  then have "combine_ranges l r c = (if range_end l = range_start r \<and> (inheritable l = inheritable r \<or> \<not> c)
     then Some \<lparr>range_start = range_start l, range_end = range_end r, inheritable = (inheritable l \<or> inheritable r)\<rparr>
     else None)" using assms by (intro combine_ranges_after) auto
  then show ?thesis using snoc assms grown_append [of out r c] grown_join [of others l r c]
    by (auto simp: push_unless_combined_def)
qed

lemma combine_with_lastrange_push:
  assumes "ranges_ok 0 out" "last_end 0 out \<le> range_start r" "range_start r < range_end r"
  shows "combine_with_lastrange r out c = Ok (push_unless_combined r out c)"
proof (cases out rule: rev_cases)
  case Nil
  then show ?thesis by (simp add: push_unless_combined_def combine_with_lastrange_def)
next
  case (snoc others l)
  have fw: "range_start l < range_end l" "range_end l \<le> range_start r" "0 \<le> range_start l" "0 \<le> range_start r"
    using assms snoc ranges_ok_le [of 0 others] by auto
  show ?thesis
  proof (cases "combine_ranges l r c")
    case (Some l')
    then show ?thesis using snoc by (simp add: push_unless_combined_def combine_with_lastrange_def)
  next
    case None
    then have gap: "c \<Longrightarrow> \<not> (range_end l = range_start r \<and> inheritable l = inheritable r)"
      using combine_ranges_after [of l r c] fw assms(3) by (auto split: if_splits)
    have valid: "IS_VALID_FORWARD_RANGE l" "IS_VALID_FORWARD_RANGE r"
      using fw assms(3) by (simp_all add: IS_VALID_FORWARD_RANGE_def SVN_IS_VALID_REVNUM_def)
    have "get_type_of_intersection r l = Ok svn__no_intersection \<or> get_type_of_intersection r l = Ok svn__adjoining_intersection"
      using valid fw assms(3) by (auto simp: get_type_of_intersection_def)
    moreover have "resort b (others @ [l, r]) = Ok (others @ [l, r])" for b
      using assms snoc by (intro resort_same [of 0]) auto
    ultimately show ?thesis using snoc None
      by (auto simp: push_unless_combined_def combine_with_lastrange_def)
  qed
qed

lemma combine_grows:
  assumes "ranges_ok 0 out" "last_end 0 out \<le> range_start r" "range_start r < range_end r"
  shows "\<exists>out'. combine_with_lastrange r out c = Ok out' \<and> grown c out r out'"
  using combine_with_lastrange_push [OF assms] push_unless_combined_grown [OF assms] by blast

lemma combine_again:
  assumes "grown c out r out'" "range_start r < range_end r"
  shows "combine_with_lastrange r out' c = Ok out'"
proof -
  obtain others l where out': "out' = others @ [l]" using assms by (cases out' rule: rev_cases) (auto simp: grown_def)
  then have "range_end l = range_end r" "range_start l \<le> range_start r" "inheritable l = inheritable r \<or> \<not> c"
    "inheritable r \<longrightarrow> inheritable l" using assms by (auto simp: grown_def)
  then show ?thesis using out' combine_same [of l r c others] assms(2) by (cases l) auto
qed

section \<open>What the loop computes\<close>

text \<open>A revision of the second list that is in the first one with the same kind is a hit: it is dropped
  by a removal and kept by an intersection.\<close>

definition hit :: "bool \<Rightarrow> rangelist_interval_kind_t \<Rightarrow> rangelist_interval_kind_t" where
  "hit d k = (if d then MI_NONE else k)"

definition miss :: "bool \<Rightarrow> rangelist_interval_kind_t \<Rightarrow> rangelist_interval_kind_t" where
  "miss d k = (if d then k else MI_NONE)"

text \<open>No revision is in both lists with different kinds.\<close>

definition compatible :: "bool \<Rightarrow> svn_rangelist_t \<Rightarrow> svn_rangelist_t \<Rightarrow> bool" where
  "compatible c rl1 rl2 \<longleftrightarrow>
     (\<forall>n. seen_at c rl1 n \<noteq> MI_NONE \<and> seen_at c rl2 n \<noteq> MI_NONE \<longrightarrow> seen_at c rl1 n = seen_at c rl2 n)"

definition decided ::
  "bool \<Rightarrow> bool \<Rightarrow> rangelist_interval_kind_t \<Rightarrow> rangelist_interval_kind_t \<Rightarrow> rangelist_interval_kind_t \<Rightarrow> bool" where
  "decided d agree k1 k2 res \<longleftrightarrow>
     res = (if k1 = k2 then hit d k2 else miss d k2) \<or> \<not> agree \<and> res = miss d k2"

definition result_ok ::
  "bool \<Rightarrow> bool \<Rightarrow> bool \<Rightarrow> svn_rangelist_t \<Rightarrow> svn_rangelist_t \<Rightarrow> svn_rangelist_t \<Rightarrow> svn_rangelist_t \<Rightarrow> bool" where
  "result_ok d c agree rl1 rl2 out res \<longleftrightarrow>
     (\<forall>n. if seen_at c rl2 n = MI_NONE then seen_at c res n = seen_at c out n
          else decided d agree (seen_at c rl1 n) (seen_at c rl2 n) (seen_at c res n))"

text \<open>One step of the loop, revision by revision.\<close>

definition step_ok ::
  "bool \<Rightarrow> bool \<Rightarrow> bool \<Rightarrow> svn_rangelist_t \<Rightarrow> svn_rangelist_t \<Rightarrow> svn_rangelist_t \<Rightarrow>
   svn_rangelist_t \<Rightarrow> svn_rangelist_t \<Rightarrow> svn_rangelist_t \<Rightarrow> svn_revnum_t \<Rightarrow> bool" where
  "step_ok d c agree rl1 rl2 out rl1' rl2' out' n \<longleftrightarrow>
     (if seen_at c rl2' n \<noteq> MI_NONE then
        seen_at c rl2 n = seen_at c rl2' n \<and>
        (seen_at c rl1' n = seen_at c rl2 n \<longrightarrow> seen_at c rl1 n = seen_at c rl2 n) \<and>
        (agree \<longrightarrow> seen_at c rl1 n = seen_at c rl2 n \<longrightarrow> seen_at c rl1' n = seen_at c rl2 n)
      else if seen_at c rl2 n = MI_NONE then seen_at c out' n = seen_at c out n
      else decided d agree (seen_at c rl1 n) (seen_at c rl2 n) (seen_at c out' n))"

lemma step_result:
  assumes "\<And>n. step_ok d c agree rl1 rl2 out rl1' rl2' out' n" "result_ok d c agree rl1' rl2' out' res"
  shows "result_ok d c agree rl1 rl2 out res"
  unfolding result_ok_def
proof
  fix n
  have s: "step_ok d c agree rl1 rl2 out rl1' rl2' out' n" using assms(1) .
  have r: "if seen_at c rl2' n = MI_NONE then seen_at c res n = seen_at c out' n
    else decided d agree (seen_at c rl1' n) (seen_at c rl2' n) (seen_at c res n)"
    using assms(2) unfolding result_ok_def by blast
  show "if seen_at c rl2 n = MI_NONE then seen_at c res n = seen_at c out n
    else decided d agree (seen_at c rl1 n) (seen_at c rl2 n) (seen_at c res n)"
  proof (cases "seen_at c rl2' n = MI_NONE")
    case True
    then show ?thesis using s r by (simp add: step_ok_def split: if_splits)
  next
    case False
    then show ?thesis using s r by (auto simp: step_ok_def decided_def split: if_splits)
  qed
qed

lemma append_rest_ok:
  assumes "ranges_ok 0 out" "ranges_ok (last_end 0 out) rl"
  shows "\<exists>res. append_rest rl out c = Ok res \<and> ranges_ok 0 res \<and>
    (\<forall>n. seen_at c res n = (if seen_at c rl n = MI_NONE then seen_at c out n else seen_at c rl n))"
  using assms
proof (induction rl arbitrary: out)
  case (Cons r rl)
  obtain out1 where out1: "combine_with_lastrange r out c = Ok out1" "grown c out r out1"
    using combine_grows [of out r c] Cons.prems by auto
  then obtain res where res: "append_rest rl out1 c = Ok res" "ranges_ok 0 res"
    "\<And>n. seen_at c res n = (if seen_at c rl n = MI_NONE then seen_at c out1 n else seen_at c rl n)"
    using Cons.IH [of out1] Cons.prems by (auto simp: grown_def)
  have "seen_at c rl n = MI_NONE" if "n \<le> range_end r" for n using seen_at_low Cons.prems that by auto
  then show ?case using out1 res by (auto simp: grown_def)
qed simp

text \<open>The steps of the loop: the heads of the lists, their tails, and the output before them.\<close>

definition heads_ok :: "svn_merge_range_t \<Rightarrow> svn_rangelist_t \<Rightarrow> svn_merge_range_t \<Rightarrow> svn_rangelist_t \<Rightarrow> svn_rangelist_t \<Rightarrow> bool" where
  "heads_ok e1 t1 e2 t2 out \<longleftrightarrow> ranges_ok 0 (e1 # t1) \<and> ranges_ok (last_end 0 out) (e2 # t2) \<and> ranges_ok 0 out"

lemma heads_forward:
  assumes "heads_ok e1 t1 e2 t2 out"
  shows "range_start e1 < range_end e1" "range_start e2 < range_end e2" "0 \<le> range_start e1"
    "0 \<le> range_start e2" "last_end 0 out \<le> range_start e2" "IS_VALID_FORWARD_RANGE e1" "IS_VALID_FORWARD_RANGE e2"
  using assms ranges_ok_le [of 0 out] by (auto simp: heads_ok_def IS_VALID_FORWARD_RANGE_def SVN_IS_VALID_REVNUM_def)

lemma heads_seen:
  assumes "heads_ok e1 t1 e2 t2 out"
  shows "n \<le> range_end e1 \<Longrightarrow> seen_at c t1 n = MI_NONE" "n \<le> range_end e2 \<Longrightarrow> seen_at c t2 n = MI_NONE"
    "range_start e2 < n \<Longrightarrow> seen_at c out n = MI_NONE"
    "n \<le> range_start e1 \<Longrightarrow> seen_at c (e1 # t1) n = MI_NONE" "n \<le> range_start e2 \<Longrightarrow> seen_at c (e2 # t2) n = MI_NONE"
  using assms seen_at_low seen_at_high [of 0 out n c]
    seen_at_low [of "range_start e1" "e1 # t1" n c] seen_at_low [of "range_start e2" "e2 # t2" n c]
  by (auto simp: heads_ok_def)

lemma same_kind: "\<not> c \<or> inheritable e1 = inheritable e2 \<longleftrightarrow> kind_seen c e1 = kind_seen c e2"
  by (auto simp: kind_seen_def)

lemma heads_tests:
  assumes "heads_ok e1 t1 e2 t2 out"
  shows "range_contains e1 e2 c = Ok (range_start e1 \<le> range_start e2 \<and> range_end e2 \<le> range_end e1 \<and>
      kind_seen c e1 = kind_seen c e2)"
    "range_intersect e1 e2 c = Ok (range_start e1 < range_end e2 \<and> range_start e2 < range_end e1 \<and>
      kind_seen c e1 = kind_seen c e2)"
  using heads_forward(6,7) [OF assms] same_kind [of c e1 e2] by (auto simp: range_contains_def range_intersect_def)

lemma both_kind:
  "kind_seen c e1 = kind_seen c e2 \<Longrightarrow>
   kind_seen c \<lparr>range_start = a, range_end = b, inheritable = (inheritable e2 \<or> inheritable e1)\<rparr> = kind_seen c e2"
  by (auto simp: kind_seen_def kind_of_def split: if_splits)

lemma step_contained:
  assumes h: "heads_ok e1 t1 e2 t2 out"
    and "range_start e1 \<le> range_start e2" "range_end e2 \<le> range_end e1" "kind_seen c e1 = kind_seen c e2"
    and "if d then out' = out else grown c out \<lparr>range_start = range_start e2, range_end = range_end e2,
      inheritable = (inheritable e2 \<or> inheritable e1)\<rparr> out'"
    and "rl1' = (if range_start e2 = range_start e1 \<and> range_end e2 = range_end e1 then t1 else e1 # t1)"
  shows "step_ok d c agree (e1 # t1) (e2 # t2) out rl1' t2 out' n"
proof -
  have "seen_at c out' n = (if range_start e2 < n \<and> n \<le> range_end e2 then hit d (kind_seen c e2) else seen_at c out n)"
    using assms(4,5) both_kind heads_seen(3) [OF h, of n c] by (auto simp: hit_def grown_def split: if_splits)
  then show ?thesis
    using assms(2-4,6) heads_seen(1,2) [OF h, of n c] heads_forward [OF h]
    by (auto simp: step_ok_def decided_def)
qed

lemma step_before:
  assumes h: "heads_ok e1 t1 e2 t2 out"
    and "\<not> (range_start e1 < range_end e2 \<and> range_start e2 < range_end e1 \<and> kind_seen c e1 = kind_seen c e2)"
    and "svn_sort_compare_ranges e1 e2 < 0" "agree \<longrightarrow> compatible c (e1 # t1) (e2 # t2)"
  shows "step_ok d c agree (e1 # t1) (e2 # t2) out t1 (e2 # t2) out n"
proof -
  have le: "range_start e1 \<le> range_start e2" using assms(3) by (auto simp: svn_sort_compare_ranges_def split: if_splits)
  have "range_end e1 \<le> range_start e2" if agree
  proof (rule ccontr)
    assume "\<not> range_end e1 \<le> range_start e2"
    then show False using assms(2,4) le heads_forward [OF h] that unfolding compatible_def
      by (elim impE allE [of _ "range_start e2 + 1"]) auto
  qed
  then show ?thesis using heads_seen(1,5) [OF h, of n c] by (auto simp: step_ok_def)
qed

lemma step_after:
  assumes h: "heads_ok e1 t1 e2 t2 out"
    and "\<not> (range_start e1 < range_end e2 \<and> range_start e2 < range_end e1 \<and> kind_seen c e1 = kind_seen c e2)"
    and "\<not> svn_sort_compare_ranges e1 e2 < 0" "agree \<longrightarrow> compatible c (e1 # t1) (e2 # t2)"
    and "if d then grown c out e2 out' else out' = out"
  shows "step_ok d c agree (e1 # t1) (e2 # t2) out (e1 # t1) t2 out' n"
proof -
  have le: "range_start e2 \<le> range_start e1" using assms(3) by (auto simp: svn_sort_compare_ranges_def split: if_splits)
  have apart: "range_end e2 \<le> range_start e1" if agree
  proof (rule ccontr)
    assume "\<not> range_end e2 \<le> range_start e1"
    then show False using assms(2,4) le heads_forward [OF h] that unfolding compatible_def
      by (elim impE allE [of _ "range_start e1 + 1"]) auto
  qed
  have "seen_at c out' n = (if range_start e2 < n \<and> n \<le> range_end e2 then miss d (kind_seen c e2) else seen_at c out n)"
    using assms(5) heads_seen(3) [OF h, of n c] by (auto simp: miss_def grown_def split: if_splits)
  then show ?thesis using heads_seen(2,4) [OF h, of n c] apart by (auto simp: step_ok_def decided_def)
qed

lemma step_overlap:
  assumes h: "heads_ok e1 t1 e2 t2 out"
    and "range_start e1 < range_end e2" "range_start e2 < range_end e1" "kind_seen c e1 = kind_seen c e2"
    and "rl2' = (if range_end e2 > range_end e1 then e2\<lparr>range_start := range_end e1\<rparr> # t2 else t2)"
    and "\<And>n. seen_at c out' n =
      (if d then if range_start e2 < n \<and> n \<le> range_start e1 then kind_seen c e2 else seen_at c out n
       else if max (range_start e2) (range_start e1) < n \<and> n \<le> min (range_end e1) (range_end e2)
         then kind_seen c e2 else seen_at c out n)"
  shows "step_ok d c agree (e1 # t1) (e2 # t2) out (e1 # t1) rl2' out' n"
proof -
  have kind: "kind_seen c (e2\<lparr>range_start := range_end e1\<rparr>) = kind_seen c e2" by (simp add: kind_seen_def kind_of_def)
  show ?thesis
  proof (cases "range_end e1 < range_end e2")
    case True
    then show ?thesis
      using assms(2-4) assms(6) [of n] heads_seen(1-4) [OF h, of n c] kind unfolding assms(5)
      by (auto simp: step_ok_def decided_def hit_def miss_def)
  next
    case False
    then show ?thesis
      using assms(2-4) assms(6) [of n] heads_seen(1-4) [OF h, of n c] unfolding assms(5)
      by (auto simp: step_ok_def decided_def hit_def miss_def)
  qed
qed

text \<open>The rest of \<^verbatim>\<open>rangelist_intersect_or_remove\<close> from a state of its loop on.\<close>

definition finish ::
  "bool \<Rightarrow> bool \<Rightarrow> svn_rangelist_t \<Rightarrow> svn_rangelist_t \<Rightarrow> svn_rangelist_t \<Rightarrow> svn_rangelist_t cres" where
  "finish d c rl1 rl2 out =
     cbind (intersect_loop d c rl1 rl2 out) (\<lambda>(rl2, out). if d then append_rest rl2 out c else Ok out)"

definition finishes :: "bool \<Rightarrow> bool \<Rightarrow> bool \<Rightarrow> svn_rangelist_t \<Rightarrow> svn_rangelist_t \<Rightarrow> svn_rangelist_t \<Rightarrow> bool" where
  "finishes d c agree rl1 rl2 out \<longleftrightarrow>
     (\<exists>res. finish d c rl1 rl2 out = Ok res \<and> ranges_ok 0 res \<and> result_ok d c agree rl1 rl2 out res)"

lemma finishes_step:
  assumes "finishes d c agree rl1' rl2' out'" "finish d c rl1 rl2 out = finish d c rl1' rl2' out'"
    and "\<And>n. step_ok d c agree rl1 rl2 out rl1' rl2' out' n"
  shows "finishes d c agree rl1 rl2 out"
  using assms step_result unfolding finishes_def by metis

lemma finishes_end:
  assumes "rl1 = [] \<or> rl2 = []" "ranges_ok 0 out" "ranges_ok (last_end 0 out) rl2"
  shows "finishes d c agree rl1 rl2 out"
proof -
  have loop: "intersect_loop d c rl1 rl2 out = Ok (rl2, out)" using assms(1) by (cases rl1; cases rl2) simp_all
  have "seen_at c out n = MI_NONE" if "seen_at c rl2 n \<noteq> MI_NONE" for n
    using seen_at_high [OF assms(2), of n] seen_at_low [OF assms(3), of n] that by force
  then have "result_ok False c agree rl1 rl2 out out"
    using assms(1) by (auto simp: result_ok_def decided_def miss_def)
  moreover obtain res where "append_rest rl2 out c = Ok res" "ranges_ok 0 res"
    "\<And>n. seen_at c res n = (if seen_at c rl2 n = MI_NONE then seen_at c out n else seen_at c rl2 n)"
    using append_rest_ok [OF assms(2,3)] by blast
  moreover from this have "result_ok True c agree rl1 rl2 out res"
    using assms(1) by (auto simp: result_ok_def decided_def miss_def)
  ultimately show ?thesis using loop assms(2) by (cases d) (auto simp: finishes_def finish_def)
qed

lemma compatible_sub:
  assumes "compatible c rl1 rl2" "\<And>n. seen_at c rl1' n = MI_NONE \<or> seen_at c rl1' n = seen_at c rl1 n"
    "\<And>n. seen_at c rl2' n = MI_NONE \<or> seen_at c rl2' n = seen_at c rl2 n"
  shows "compatible c rl1' rl2'"
  using assms unfolding compatible_def by metis

lemma seen_tail:
  "ranges_ok lo (e # t) \<Longrightarrow> seen_at c t n = MI_NONE \<or> seen_at c t n = seen_at c (e # t) n"
  using seen_at_low [of "range_end e" t n c] by auto

lemma left_part_grows:
  assumes h: "heads_ok e1 t1 e2 t2 out" and o: "range_start e1 < range_end e2" "range_start e2 < range_start e1"
  shows "\<exists>out'. combine_with_lastrange (left_part d e1 e2) out c = Ok out' \<and> grown c out (left_part d e1 e2) out'"
  using heads_forward [OF h] o h by (intro combine_grows) (auto simp: left_part_def heads_ok_def)

text \<open>The output of the branch for intersecting ranges.\<close>

definition overlap_output ::
  "bool \<Rightarrow> bool \<Rightarrow> svn_merge_range_t \<Rightarrow> svn_merge_range_t \<Rightarrow> svn_rangelist_t \<Rightarrow> svn_rangelist_t cres" where
  "overlap_output d c e1 e2 out =
     cbind (if range_start e2 < range_start e1 then combine_with_lastrange (left_part d e1 e2) out c else Ok out) (\<lambda>out.
       if range_end e2 > range_end e1 then
         if \<not> d then combine_with_lastrange
           \<lparr>range_start = max (range_start e2) (range_start e1), range_end = range_end e1,
            inheritable = (inheritable e2 \<or> inheritable e1)\<rparr> out c
         else Ok out
       else Ok out)"

lemma overlap_output_ok:
  assumes h: "heads_ok e1 t1 e2 t2 out"
    and o: "range_start e1 < range_end e2" "range_start e2 < range_end e1" "kind_seen c e1 = kind_seen c e2"
    and nc: "\<not> (range_start e1 \<le> range_start e2 \<and> range_end e2 \<le> range_end e1)"
  shows "\<exists>out'. overlap_output d c e1 e2 out = Ok out' \<and> ranges_ok 0 out' \<and>
    last_end 0 out' \<le> min (range_end e1) (range_end e2) \<and>
    (\<forall>n. seen_at c out' n =
      (if d then if range_start e2 < n \<and> n \<le> range_start e1 then kind_seen c e2 else seen_at c out n
       else if max (range_start e2) (range_start e1) < n \<and> n \<le> min (range_end e1) (range_end e2)
         then kind_seen c e2 else seen_at c out n))"
proof -
  note fw = heads_forward [OF h]
  let ?both = "\<lparr>range_start = max (range_start e2) (range_start e1), range_end = range_end e1,
            inheritable = (inheritable e2 \<or> inheritable e1)\<rparr>"
  note kind = both_kind [OF o(3)]
  have left: "kind_seen c (left_part d e1 e2) = kind_seen c e2"
    using kind by (auto simp: left_part_def kind_seen_def kind_of_def)
  show ?thesis
  proof (cases "range_start e2 < range_start e1")
    case True
    obtain out' where out': "combine_with_lastrange (left_part d e1 e2) out c = Ok out'" "grown c out (left_part d e1 e2) out'"
      using left_part_grows [OF h o(1) True] by blast
    have "combine_with_lastrange ?both out' c = Ok out'" if "\<not> d" "range_end e2 > range_end e1"
    proof -
      have "?both = left_part d e1 e2" using that True by (simp add: left_part_def)
      then show ?thesis using combine_again [OF out'(2)] fw o(1) that by (simp add: left_part_def)
    qed
    then have "overlap_output d c e1 e2 out = Ok out'" using out'(1) True by (simp add: overlap_output_def)
    moreover have "last_end 0 out' \<le> min (range_end e1) (range_end e2)"
      using out'(2) fw o by (auto simp: grown_def left_part_def)
    ultimately show ?thesis using out'(2) left True by (auto simp: grown_def left_part_def)
  next
    case False
    then have "range_end e2 > range_end e1" using nc by simp
    moreover have "last_end 0 out \<le> max (range_start e2) (range_start e1)" using fw by simp
    then obtain out' where "combine_with_lastrange ?both out c = Ok out'" "grown c out ?both out'"
      using combine_grows [of out ?both c] h fw o by (auto simp: heads_ok_def)
    ultimately show ?thesis using False kind h fw o
      by (cases d) (auto simp: overlap_output_def grown_def heads_ok_def)
  qed
qed

lemma overlap_loop:
  assumes h: "heads_ok e1 t1 e2 t2 out"
    and o: "range_start e1 < range_end e2" "range_start e2 < range_end e1" "kind_seen c e1 = kind_seen c e2"
    and nc: "\<not> (range_start e1 \<le> range_start e2 \<and> range_end e2 \<le> range_end e1)"
    and out': "overlap_output d c e1 e2 out = Ok out'"
  shows "intersect_loop d c (e1 # t1) (e2 # t2) out =
    intersect_loop d c (e1 # t1) (if range_end e2 > range_end e1 then e2\<lparr>range_start := range_end e1\<rparr> # t2 else t2) out'"
proof -
  have "intersect_loop d c (e1 # t1) (e2 # t2) out =
    cbind (overlap_output d c e1 e2 out) (\<lambda>out. intersect_loop d c (e1 # t1)
      (if range_end e2 > range_end e1 then e2\<lparr>range_start := range_end e1\<rparr> # t2 else t2) out)"
    using o nc by (subst intersect_loop.simps(1), unfold heads_tests [OF h] overlap_output_def,
      cases "range_start e2 < range_start e1"; cases "range_end e2 > range_end e1"; cases d)
      (simp_all add: cbind_assoc del: de_Morgan_conj)
  then show ?thesis using out' by simp
qed

definition loop_size :: "svn_rangelist_t \<Rightarrow> svn_rangelist_t \<Rightarrow> nat" where
  "loop_size rl1 rl2 = 2 * (length rl1 + length rl2) +
     (case (rl1, rl2) of (e1 # _, e2 # _) \<Rightarrow> if range_start e2 < range_end e1 then 1 else 0 | _ \<Rightarrow> 0)"

lemma loop_size_less:
  "loop_size t1 rl2 < loop_size (e1 # t1) rl2" "loop_size rl1 t2 < loop_size rl1 (e2 # t2)"
  "loop_size t1 t2 < loop_size (e1 # t1) (e2 # t2)"
  "range_start e2 < range_end e1 \<Longrightarrow> \<not> range_start e2' < range_end e1 \<Longrightarrow>
   loop_size (e1 # t1) (e2' # t2) < loop_size (e1 # t1) (e2 # t2)"
  by (auto simp: loop_size_def split: list.splits)

text \<open>That all smaller states finish.\<close>

definition smaller_finish :: "bool \<Rightarrow> bool \<Rightarrow> bool \<Rightarrow> svn_rangelist_t \<Rightarrow> svn_rangelist_t \<Rightarrow> bool" where
  "smaller_finish d c agree rl1 rl2 \<longleftrightarrow>
     (\<forall>rl1' rl2' out'. loop_size rl1' rl2' < loop_size rl1 rl2 \<longrightarrow> ranges_ok 0 rl1' \<longrightarrow> ranges_ok 0 out' \<longrightarrow>
        ranges_ok (last_end 0 out') rl2' \<longrightarrow> (agree \<longrightarrow> compatible c rl1' rl2') \<longrightarrow> finishes d c agree rl1' rl2' out')"

lemma heads_compatible:
  assumes "heads_ok e1 t1 e2 t2 out" "compatible c (e1 # t1) (e2 # t2)"
  shows "compatible c t1 (e2 # t2)" "compatible c (e1 # t1) t2" "compatible c t1 t2"
    "range_start e2 \<le> s \<Longrightarrow> compatible c (e1 # t1) (e2\<lparr>range_start := s\<rparr> # t2)"
proof -
  have t1: "seen_at c t1 n = MI_NONE \<or> seen_at c t1 n = seen_at c (e1 # t1) n" for n
    using seen_tail assms(1) unfolding heads_ok_def by blast
  have t2: "seen_at c t2 n = MI_NONE \<or> seen_at c t2 n = seen_at c (e2 # t2) n" for n
    using seen_tail assms(1) unfolding heads_ok_def by blast
  show "compatible c t1 (e2 # t2)" "compatible c (e1 # t1) t2" "compatible c t1 t2"
    using compatible_sub [OF assms(2)] t1 t2 by blast+
  assume "range_start e2 \<le> s"
  then have "seen_at c (e2\<lparr>range_start := s\<rparr> # t2) n = MI_NONE \<or>
    seen_at c (e2\<lparr>range_start := s\<rparr> # t2) n = seen_at c (e2 # t2) n" for n
    using t2 [of n] by (auto simp: kind_seen_def kind_of_def)
  then show "compatible c (e1 # t1) (e2\<lparr>range_start := s\<rparr> # t2)"
    using compatible_sub [OF assms(2)] by blast
qed

lemma finishes_contained:
  assumes h: "heads_ok e1 t1 e2 t2 out" and IH: "smaller_finish d c agree (e1 # t1) (e2 # t2)"
    and agree: "agree \<longrightarrow> compatible c (e1 # t1) (e2 # t2)"
    and contains: "range_start e1 \<le> range_start e2" "range_end e2 \<le> range_end e1" "kind_seen c e1 = kind_seen c e2"
  shows "finishes d c agree (e1 # t1) (e2 # t2) out"
proof -
  define rl1 where "rl1 = (if range_start e2 = range_start e1 \<and> range_end e2 = range_end e1 then t1 else e1 # t1)"
  let ?both = "\<lparr>range_start = range_start e2, range_end = range_end e2, inheritable = (inheritable e2 \<or> inheritable e1)\<rparr>"
  note fw = heads_forward [OF h]
  obtain out' where out': "(if \<not> d then combine_with_lastrange ?both out c else Ok out) = Ok out'"
    "if d then out' = out else grown c out ?both out'"
    using combine_grows [of out ?both c] h fw by (cases d) (auto simp: heads_ok_def)
  have ok: "ranges_ok 0 out'" "last_end 0 out' \<le> range_end e2"
    using out'(2) h fw by (auto simp: grown_def heads_ok_def split: if_splits)
  then have "ranges_ok (last_end 0 out') t2" using h ranges_ok_mono [of "range_end e2" t2] by (simp add: heads_ok_def)
  moreover have "loop_size rl1 t2 < loop_size (e1 # t1) (e2 # t2)" "ranges_ok 0 rl1" "agree \<longrightarrow> compatible c rl1 t2"
    using loop_size_less h heads_compatible [OF h] agree ranges_ok_mono [of "range_end e1" t1 0] fw
    by (auto simp: rl1_def heads_ok_def)
  ultimately have "finishes d c agree rl1 t2 out'" using IH ok(1) unfolding smaller_finish_def by blast
  moreover have "finish d c (e1 # t1) (e2 # t2) out = finish d c rl1 t2 out'"
    using contains out'(1) unfolding finish_def rl1_def
    by (subst intersect_loop.simps(1)) (simp add: heads_tests [OF h])
  ultimately show ?thesis by (rule finishes_step) (rule step_contained [OF h contains out'(2) rl1_def])
qed

lemma finishes_overlap:
  assumes h: "heads_ok e1 t1 e2 t2 out" and IH: "smaller_finish d c agree (e1 # t1) (e2 # t2)"
    and agree: "agree \<longrightarrow> compatible c (e1 # t1) (e2 # t2)"
    and overlap: "range_start e1 < range_end e2" "range_start e2 < range_end e1" "kind_seen c e1 = kind_seen c e2"
      "\<not> (range_start e1 \<le> range_start e2 \<and> range_end e2 \<le> range_end e1)"
  shows "finishes d c agree (e1 # t1) (e2 # t2) out"
proof -
  define rl2 where "rl2 = (if range_end e2 > range_end e1 then e2\<lparr>range_start := range_end e1\<rparr> # t2 else t2)"
  obtain out' where out': "overlap_output d c e1 e2 out = Ok out'" "ranges_ok 0 out'"
    "last_end 0 out' \<le> min (range_end e1) (range_end e2)"
    "\<And>n. seen_at c out' n =
      (if d then if range_start e2 < n \<and> n \<le> range_start e1 then kind_seen c e2 else seen_at c out n
       else if max (range_start e2) (range_start e1) < n \<and> n \<le> min (range_end e1) (range_end e2)
         then kind_seen c e2 else seen_at c out n)"
    using overlap_output_ok [OF h overlap, of d] by blast
  have "ranges_ok (last_end 0 out') rl2"
    using out'(3) h ranges_ok_mono [of "range_end e2" t2] by (auto simp: rl2_def heads_ok_def)
  moreover have "loop_size (e1 # t1) rl2 < loop_size (e1 # t1) (e2 # t2)" "agree \<longrightarrow> compatible c (e1 # t1) rl2"
    using loop_size_less overlap(2) heads_compatible [OF h] agree by (auto simp: rl2_def)
  ultimately have "finishes d c agree (e1 # t1) rl2 out'"
    using IH out'(2) h unfolding smaller_finish_def heads_ok_def by blast
  moreover have "finish d c (e1 # t1) (e2 # t2) out = finish d c (e1 # t1) rl2 out'"
    unfolding finish_def using overlap_loop [OF h overlap out'(1)] by (simp add: rl2_def)
  ultimately show ?thesis by (rule finishes_step) (rule step_overlap [OF h overlap(1-3) rl2_def out'(4)])
qed

lemma finishes_before:
  assumes h: "heads_ok e1 t1 e2 t2 out" and IH: "smaller_finish d c agree (e1 # t1) (e2 # t2)"
    and agree: "agree \<longrightarrow> compatible c (e1 # t1) (e2 # t2)"
    and before: "\<not> (range_start e1 < range_end e2 \<and> range_start e2 < range_end e1 \<and> kind_seen c e1 = kind_seen c e2)"
      "svn_sort_compare_ranges e1 e2 < 0"
  shows "finishes d c agree (e1 # t1) (e2 # t2) out"
proof -
  note fw = heads_forward [OF h]
  have "ranges_ok 0 t1" using h ranges_ok_mono [of "range_end e1" t1 0] fw by (auto simp: heads_ok_def)
  then have "finishes d c agree t1 (e2 # t2) out"
    using IH h agree heads_compatible(1) [OF h] loop_size_less(1) unfolding smaller_finish_def heads_ok_def by blast
  moreover have "finish d c (e1 # t1) (e2 # t2) out = finish d c t1 (e2 # t2) out"
    using before fw unfolding finish_def
    by (subst intersect_loop.simps(1)) (auto simp: heads_tests [OF h])
  ultimately show ?thesis by (rule finishes_step) (rule step_before [OF h before agree])
qed

lemma finishes_after:
  assumes h: "heads_ok e1 t1 e2 t2 out" and IH: "smaller_finish d c agree (e1 # t1) (e2 # t2)"
    and agree: "agree \<longrightarrow> compatible c (e1 # t1) (e2 # t2)"
    and after: "\<not> (range_start e1 < range_end e2 \<and> range_start e2 < range_end e1 \<and> kind_seen c e1 = kind_seen c e2)"
      "\<not> svn_sort_compare_ranges e1 e2 < 0"
  shows "finishes d c agree (e1 # t1) (e2 # t2) out"
proof -
  note fw = heads_forward [OF h]
  define out' where "out' = (if d then push_unless_combined e2 out c else out)"
  have out': "if d then grown c out e2 out' else out' = out"
    using push_unless_combined_grown [of out e2 c] h fw by (auto simp: heads_ok_def out'_def)
  then have ok: "ranges_ok 0 out'" "last_end 0 out' \<le> range_end e2"
    using h fw by (auto simp: grown_def heads_ok_def split: if_splits)
  then have "ranges_ok (last_end 0 out') t2" using h ranges_ok_mono [of "range_end e2" t2] by (simp add: heads_ok_def)
  then have "finishes d c agree (e1 # t1) t2 out'"
    using IH h agree heads_compatible(2) [OF h] loop_size_less(2) ok(1) unfolding smaller_finish_def heads_ok_def by blast
  moreover have "finish d c (e1 # t1) (e2 # t2) out = finish d c (e1 # t1) t2 out'"
    using after fw unfolding finish_def out'_def
    by (subst intersect_loop.simps(1)) (auto simp: heads_tests [OF h])
  ultimately show ?thesis by (rule finishes_step) (rule step_after [OF h after agree out'])
qed

lemma loop_finishes:
  assumes "ranges_ok 0 rl1" "ranges_ok 0 out" "ranges_ok (last_end 0 out) rl2" "agree \<longrightarrow> compatible c rl1 rl2"
  shows "finishes d c agree rl1 rl2 out"
  using assms
proof (induction "loop_size rl1 rl2" arbitrary: rl1 rl2 out rule: less_induct)
  case less
  show ?case
  proof (cases "rl1 = [] \<or> rl2 = []")
    case True
    then show ?thesis using finishes_end less.prems by blast
  next
    case False
    then obtain e1 t1 e2 t2 where lists: "rl1 = e1 # t1" "rl2 = e2 # t2" by (meson list.exhaust)
    have "heads_ok e1 t1 e2 t2 out" using less.prems lists by (simp add: heads_ok_def)
    moreover have "smaller_finish d c agree (e1 # t1) (e2 # t2)"
      using less.hyps unfolding smaller_finish_def lists by blast
    moreover have "agree \<longrightarrow> compatible c (e1 # t1) (e2 # t2)" using less.prems(4) unfolding lists .
    ultimately show ?thesis unfolding lists
      using finishes_contained finishes_overlap finishes_before finishes_after by metis
  qed
qed

lemma intersect_or_remove_finish: "rangelist_intersect_or_remove a b d c = finish d c a b []"
  by (simp add: rangelist_intersect_or_remove_def finish_def)

lemma compatible_False: "compatible False a b"
  by (simp add: compatible_def seen_at_False)

lemma intersect_or_remove_revisions:
  assumes "ranges_ok 0 a" "ranges_ok 0 b"
  shows "\<exists>out. rangelist_intersect_or_remove a b d False = Ok out \<and> ranges_ok 0 out \<and>
    revisions out = (if d then revisions b - revisions a else revisions b \<inter> revisions a)"
proof -
  have "finishes d False True a b []" using assms compatible_False by (intro loop_finishes) auto
  then obtain out where out: "rangelist_intersect_or_remove a b d False = Ok out" "ranges_ok 0 out"
    "result_ok d False True a b [] out" unfolding finishes_def intersect_or_remove_finish by blast
  have "revisions out = (if d then revisions b - revisions a else revisions b \<inter> revisions a)"
  proof (rule set_eqI)
    fix n
    have "if seen_at False b n = MI_NONE then seen_at False out n = seen_at False [] n
      else decided d True (seen_at False a n) (seen_at False b n) (seen_at False out n)"
      using out(3) unfolding result_ok_def by blast
    then show "n \<in> revisions out \<longleftrightarrow> n \<in> (if d then revisions b - revisions a else revisions b \<inter> revisions a)"
      unfolding seen_at_False decided_def hit_def miss_def
      by (cases "n \<in> revisions b"; cases "n \<in> revisions a"; cases "n \<in> revisions out"; cases d) simp_all
  qed
  then show ?thesis using out(1,2) by blast
qed

lemma intersect_or_remove_kinds:
  assumes "ranges_ok 0 a" "ranges_ok 0 b" "agree \<longrightarrow> compatible True a b"
  shows "\<exists>out. rangelist_intersect_or_remove a b d True = Ok out \<and> ranges_ok 0 out \<and>
    (\<forall>n. if kind_at b n = MI_NONE then kind_at out n = MI_NONE
         else decided d agree (kind_at a n) (kind_at b n) (kind_at out n))"
proof -
  have "finishes d True agree a b []" using assms by (intro loop_finishes) auto
  then show ?thesis unfolding finishes_def intersect_or_remove_finish result_ok_def seen_at_True by auto
qed

lemma remove_revisions:
  assumes "ranges_ok 0 eraser" "ranges_ok 0 whiteboard"
  shows "\<exists>out. svn_rangelist_remove eraser whiteboard False = Ok out \<and> ranges_ok 0 out \<and>
    revisions out = revisions whiteboard - revisions eraser"
  using intersect_or_remove_revisions [OF assms, of True] by (simp add: svn_rangelist_remove_def)

lemma remove_kinds:
  assumes "ranges_ok 0 eraser" "ranges_ok 0 whiteboard"
  shows "\<exists>out. svn_rangelist_remove eraser whiteboard True = Ok out \<and> ranges_ok 0 out \<and>
    (\<forall>n. kind_at out n = kind_at whiteboard n \<or>
         kind_at out n = MI_NONE \<and> kind_at eraser n = kind_at whiteboard n)"
proof -
  obtain out where out: "svn_rangelist_remove eraser whiteboard True = Ok out" "ranges_ok 0 out"
    "\<And>n. if kind_at whiteboard n = MI_NONE then kind_at out n = MI_NONE
         else decided True False (kind_at eraser n) (kind_at whiteboard n) (kind_at out n)"
    using intersect_or_remove_kinds [OF assms, of False True] by (auto simp: svn_rangelist_remove_def)
  have "kind_at out n = kind_at whiteboard n \<or> kind_at out n = MI_NONE \<and> kind_at eraser n = kind_at whiteboard n" for n
    using out(3) [of n] by (auto simp: decided_def hit_def miss_def split: if_splits)
  then show ?thesis using out(1,2) by blast
qed

section \<open>Properties\<close>

text \<open>Without regard to inheritance \<^verbatim>\<open>svn_rangelist_remove\<close> and \<^verbatim>\<open>svn_rangelist_intersect\<close> compute the
  difference and the intersection of the sets of revisions: for lists in order both succeed and their
  results are in order again.\<close>

theorem rangelist_remove_intersect_sets:
  assumes "ranges_ok 0 rl1" "ranges_ok 0 rl2"
  shows "(\<exists>out. svn_rangelist_remove rl1 rl2 False = Ok out \<and> ranges_ok 0 out \<and>
      revisions out = revisions rl2 - revisions rl1) \<and>
    (\<exists>out. svn_rangelist_intersect rl1 rl2 False = Ok out \<and> ranges_ok 0 out \<and>
      revisions out = revisions rl1 \<inter> revisions rl2)"
  using remove_revisions [OF assms] intersect_or_remove_revisions [OF assms, of False]
  by (auto simp: svn_rangelist_intersect_def Int_commute)

text \<open>With inheritance considered, and for lists in which no revision has two different kinds, a
  removal drops exactly the revisions that the eraser has with the same kind and an intersection keeps
  exactly those; for arbitrary lists in order a removal never drops and an intersection never keeps any
  other revision, and no revision changes its kind.\<close>

theorem rangelist_remove_intersect_kinds:
  assumes "ranges_ok 0 rl1" "ranges_ok 0 rl2"
  shows "\<exists>removed shared.
    svn_rangelist_remove rl1 rl2 True = Ok removed \<and> svn_rangelist_intersect rl1 rl2 True = Ok shared \<and>
    (\<forall>n. kind_at removed n \<noteq> kind_at rl2 n \<longrightarrow> kind_at removed n = MI_NONE \<and> kind_at rl1 n = kind_at rl2 n) \<and>
    (\<forall>n. kind_at shared n \<noteq> MI_NONE \<longrightarrow> kind_at shared n = kind_at rl2 n \<and> kind_at rl1 n = kind_at rl2 n) \<and>
    ((\<forall>n. kind_at rl1 n = MI_NONE \<or> kind_at rl2 n = MI_NONE \<or> kind_at rl1 n = kind_at rl2 n) \<longrightarrow>
      (\<forall>n. kind_at removed n = (if kind_at rl1 n = kind_at rl2 n then MI_NONE else kind_at rl2 n)) \<and>
      (\<forall>n. kind_at shared n = (if kind_at rl1 n = kind_at rl2 n then kind_at rl2 n else MI_NONE)))"
proof -
  define agree where "agree \<longleftrightarrow> compatible True rl1 rl2"
  have agree: "agree \<longleftrightarrow> (\<forall>n. kind_at rl1 n = MI_NONE \<or> kind_at rl2 n = MI_NONE \<or> kind_at rl1 n = kind_at rl2 n)"
    unfolding agree_def compatible_def seen_at_True by blast
  obtain removed where removed: "svn_rangelist_remove rl1 rl2 True = Ok removed"
    "\<And>n. if kind_at rl2 n = MI_NONE then kind_at removed n = MI_NONE
      else decided True agree (kind_at rl1 n) (kind_at rl2 n) (kind_at removed n)"
    using intersect_or_remove_kinds [OF assms, of agree True] agree_def by (auto simp: svn_rangelist_remove_def)
  obtain shared where shared: "svn_rangelist_intersect rl1 rl2 True = Ok shared"
    "\<And>n. if kind_at rl2 n = MI_NONE then kind_at shared n = MI_NONE
      else decided False agree (kind_at rl1 n) (kind_at rl2 n) (kind_at shared n)"
    using intersect_or_remove_kinds [OF assms, of agree False] agree_def by (auto simp: svn_rangelist_intersect_def)
  have 1: "kind_at removed n = MI_NONE \<and> kind_at rl1 n = kind_at rl2 n" if "kind_at removed n \<noteq> kind_at rl2 n" for n
    using removed(2) [of n] that by (auto simp: decided_def hit_def miss_def split: if_splits)
  have 2: "kind_at shared n = kind_at rl2 n \<and> kind_at rl1 n = kind_at rl2 n" if "kind_at shared n \<noteq> MI_NONE" for n
    using shared(2) [of n] that by (auto simp: decided_def hit_def miss_def split: if_splits)
  have 3: "kind_at removed n = (if kind_at rl1 n = kind_at rl2 n then MI_NONE else kind_at rl2 n)" if agree for n
    using removed(2) [of n] that by (auto simp: decided_def hit_def miss_def split: if_splits)
  have 4: "kind_at shared n = (if kind_at rl1 n = kind_at rl2 n then kind_at rl2 n else MI_NONE)" if agree for n
    using shared(2) [of n] that by (auto simp: decided_def hit_def miss_def split: if_splits)
  show ?thesis unfolding agree [symmetric] using removed(1) shared(1) 1 2 3 4 by blast
qed

text \<open>The restriction in the exact part is necessary. When a range of the eraser overlaps one of the
  whiteboard with the other inheritability, the loop moves past it, although it also covers a later
  range of the whiteboard with its own inheritability: removing \<open>1-10*\<close> from \<open>5-8,9-10*\<close> leaves
  \<open>9-10*\<close> in the result, both lists being canonical.\<close>

theorem remove_leaves_listed_range:
  "\<exists>eraser whiteboard out n. svn_rangelist__is_canonical eraser \<and> svn_rangelist__is_canonical whiteboard \<and>
    svn_rangelist_remove eraser whiteboard True = Ok out \<and>
    kind_at eraser n = MI_NON_INHERITABLE \<and> kind_at whiteboard n = MI_NON_INHERITABLE \<and>
    kind_at out n = MI_NON_INHERITABLE"
proof -
  let ?e = "[\<lparr>range_start = 0, range_end = 10, inheritable = False\<rparr>] :: svn_rangelist_t"
  let ?w = "[\<lparr>range_start = 4, range_end = 8, inheritable = True\<rparr>,
    \<lparr>range_start = 8, range_end = 10, inheritable = False\<rparr>] :: svn_rangelist_t"
  have "svn_rangelist_remove ?e ?w True = Ok ?w" by code_simp
  moreover have "svn_rangelist__is_canonical ?e" "svn_rangelist__is_canonical ?w"
    by (simp_all add: svn_rangelist__is_canonical_def)
  ultimately show ?thesis
    by (intro exI [of _ ?e] exI [of _ ?w] exI [of _ 9]) (simp add: kind_of_def)
qed

end
