(* ===== verification/Range_Text.thy ===== *)
theory Range_Text
  imports Range_Remove "HOL-Library.Word"
begin

text \<open>
  The text of range lists: reading revision numbers (\<^verbatim>\<open>svn__strtoul\<close> of \<^verbatim>\<open>string.c\<close> and
  \<^verbatim>\<open>svn_revnum_parse\<close> of \<^verbatim>\<open>types.c\<close>), and parsing and printing of range lists in \<^verbatim>\<open>mergeinfo.c\<close>.

  A position in the input is the rest of the string from there on, so that the end is the empty
  string, where the C code reads the terminator.
\<close>

section \<open>Numbers\<close>

text \<open>\<^verbatim>\<open>unsigned long\<close> has 64 bits and its arithmetic wraps around.\<close>

fun strtoul_loop :: "64 word \<Rightarrow> cstring \<Rightarrow> 64 word \<times> cstring" where
  "strtoul_loop result [] = (result, [])"
| "strtoul_loop result (b # buffer) =
     (let c = word_of_int (int (of_char b) - 48) in
      if c > 9 then (result, b # buffer) else strtoul_loop (result * 10 + c) buffer)"

definition svn__strtoul :: "cstring \<Rightarrow> 64 word \<times> cstring" where
  "svn__strtoul buffer = strtoul_loop 0 buffer"

definition svn_revnum_parse :: "cstring \<Rightarrow> (svn_revnum_t \<times> cstring) cres" where
  "svn_revnum_parse str =
     (case svn__strtoul str of (result, end_pos) \<Rightarrow>
        let digits = length str - length end_pos in
        if digits = 0
        then Err (svn_error_create SVN_ERR_REVNUM_PARSE_FAILURE
               ((if c_hd str = CHR ''-'' then ''Negative revision number found parsing ''
                 else ''Invalid revision number found parsing '') @ CHR 0x27 # str @ [CHR 0x27]))
        else if 10 < digits
        then Err (svn_error_create SVN_ERR_REVNUM_PARSE_FAILURE
               (''Revision number longer than 10 digits '' @ CHR 0x27 # str @ [CHR 0x27]))
        else if digits = 10 \<and> ((of_char (c_hd str) :: nat) > 50 \<or> (ucast result :: 32 word) > 2147483647)
        then Err (svn_error_create SVN_ERR_REVNUM_PARSE_FAILURE
               (''Revision number too large '' @ CHR 0x27 # str @ [CHR 0x27]))
        else Ok (sint result, end_pos))"

section \<open>Parsing\<close>

definition parse_error :: "string \<Rightarrow> 'a cres" where
  "parse_error msg = Err (svn_error_create SVN_ERR_MERGEINFO_PARSE_ERROR msg)"

text \<open>The end of a range after its first revision.\<close>

definition parse_range_end :: "svn_revnum_t \<Rightarrow> cstring \<Rightarrow> (svn_revnum_t \<times> cstring) cres" where
  "parse_range_end firstrev pos =
     (if c_hd pos = CHR ''-'' then
        cbind (svn_revnum_parse (tl pos)) (\<lambda>(secondrev, pos).
          if firstrev > secondrev
          then parse_error (''Unable to parse reversed revision range '' @ CHR 0x27 # decimal firstrev @ ''-'' @
                 decimal secondrev @ [CHR 0x27])
          else if firstrev = secondrev
          then parse_error (''Unable to parse revision range '' @ CHR 0x27 # decimal firstrev @ ''-'' @
                 decimal secondrev @ CHR 0x27 # '' with same start and end revisions'')
          else Ok (secondrev, pos))
      else Ok (firstrev, pos))"

text \<open>One revision or range, without its mark: the range and the position after it.\<close>

definition parse_range :: "cstring \<Rightarrow> (svn_merge_range_t \<times> cstring) cres" where
  "parse_range pos =
     cbind (svn_revnum_parse pos) (\<lambda>(firstrev, pos).
       if c_hd pos \<noteq> CHR ''-'' \<and> c_hd pos \<noteq> newline \<and> c_hd pos \<noteq> CHR '','' \<and> c_hd pos \<noteq> CHR ''*'' \<and> pos \<noteq> []
       then parse_error (''Invalid character '' @ CHR 0x27 # c_hd pos # CHR 0x27 # '' found in revision list'')
       else if firstrev = 0
       then parse_error (''Invalid revision number '' @ CHR 0x27 # CHR ''0'' # CHR 0x27 # '' found in range list'')
       else
         cbind (parse_range_end firstrev pos) (\<lambda>(end_rev, pos).
           Ok (\<lparr>range_start = firstrev - 1, range_end = end_rev, inheritable = True\<rparr>, pos)))"

lemma strtoul_suffix: "strtoul_loop w s = (w', r) \<Longrightarrow> length r \<le> length s"
  by (induction w s rule: strtoul_loop.induct) (force simp: Let_def split: if_splits)+

lemma revnum_parse_shorter: "svn_revnum_parse s = Ok (n, r) \<Longrightarrow> length r < length s"
  using strtoul_suffix [of 0 s]
  by (auto simp: svn_revnum_parse_def svn__strtoul_def Let_def split: prod.splits if_splits)

lemma parse_range_end_shorter: "parse_range_end n s = Ok (m, r) \<Longrightarrow> length r \<le> length s"
  by (cases s) (auto simp: parse_range_end_def parse_error_def cbind_Ok_iff split: if_splits dest!: revnum_parse_shorter)

lemma parse_range_shorter: "parse_range s = Ok (x, r) \<Longrightarrow> length r < length s"
  by (auto simp: parse_range_def parse_error_def cbind_Ok_iff split: if_splits dest!: revnum_parse_shorter parse_range_end_shorter)

function parse_ranges :: "cstring \<Rightarrow> svn_rangelist_t \<Rightarrow> (svn_rangelist_t \<times> cstring) cres" where
  "parse_ranges pos rangelist =
     (if pos = [] \<or> c_hd pos = newline then
        if c_hd pos \<noteq> newline then parse_error ''Range list parsing ended before hitting newline''
        else Ok (rangelist, pos)
      else
        cbind (parse_range pos) (\<lambda>(mrange, pos).
          if c_hd pos = newline \<or> pos = [] then Ok (rangelist @ [mrange], pos)
          else if c_hd pos = CHR '','' then parse_ranges (tl pos) (rangelist @ [mrange])
          else if c_hd pos = CHR ''*'' then
            let mrange = mrange\<lparr>inheritable := False\<rparr>; pos = tl pos in
            if c_hd pos = CHR '','' \<or> c_hd pos = newline \<or> pos = [] then
              if c_hd pos = CHR '','' then parse_ranges (tl pos) (rangelist @ [mrange])
              else Ok (rangelist @ [mrange], pos)
            else parse_error (''Invalid character '' @ CHR 0x27 # c_hd pos # CHR 0x27 # '' found in range list'')
          else parse_error (''Invalid character '' @ CHR 0x27 # c_hd pos # CHR 0x27 # '' found in range list'')))"
  by pat_completeness auto
termination
  by (relation "measure (\<lambda>(pos, rl). length pos)") (auto dest!: parse_range_shorter)

declare parse_ranges.simps [simp del]

text \<open>\<^verbatim>\<open>isspace\<close> in the C locale.\<close>

definition isspace :: "char \<Rightarrow> bool" where
  "isspace c \<longleftrightarrow> (let n = (of_char c :: nat) in 9 \<le> n \<and> n \<le> 13 \<or> n = 32)"

definition parse_rangelist :: "cstring \<Rightarrow> (svn_rangelist_t \<times> cstring) cres" where
  "parse_rangelist input =
     (let pos = dropWhile (\<lambda>c. c \<noteq> newline \<and> isspace c) input in
      if c_hd pos = newline \<or> pos = [] then Ok ([], pos) else parse_ranges pos [])"

definition svn_rangelist__parse :: "cstring \<Rightarrow> svn_rangelist_t cres" where
  "svn_rangelist__parse str = cbind (parse_rangelist str) (\<lambda>(rangelist, s). Ok rangelist)"

section \<open>Printing\<close>

text \<open>The loop over all ranges but the last one, then the last one.\<close>

fun ranges_to_string :: "svn_rangelist_t \<Rightarrow> string cres" where
  "ranges_to_string [] = Ok []"
| "ranges_to_string [r] = range_to_string r"
| "ranges_to_string (r # rs) =
     cbind (range_to_string r) (\<lambda>s. cbind (ranges_to_string rs) (\<lambda>t. Ok (s @ '','' @ t)))"

definition svn_rangelist_to_string :: "svn_rangelist_t \<Rightarrow> string cres" where
  "svn_rangelist_to_string rangelist = ranges_to_string rangelist"

definition rangelist_to_string_debug :: "svn_rangelist_t \<Rightarrow> string" where
  "rangelist_to_string_debug rl =
     (case svn_rangelist_to_string rl of
        Ok s \<Rightarrow> s
      | Err (svn_error code msg child) \<Rightarrow>
          ''<bad rangelist ['' @ decimal (int (length rl)) @ '' ranges]: '' @ msg @ ''>''
      | _ \<Rightarrow> [])"

section \<open>Decimal numbers\<close>

definition digits_value :: "string \<Rightarrow> nat" where
  "digits_value ds = foldl (\<lambda>v c. v * 10 + (of_char c - 48)) 0 ds"

lemma small_word_greater:
  assumes "- 48 \<le> k" "k < 208"
  shows "(word_of_int k :: 64 word) > 9 \<longleftrightarrow> k < 0 \<or> 9 < k"
proof (cases "k < 0")
  case True
  then have "k mod 2 ^ 64 = k + 2 ^ 64"
    using assms by (intro mod_pos_pos_trivial [of "k + 2 ^ 64" "2 ^ 64", simplified mod_add_self2]) auto
  then show ?thesis using True assms by (simp add: word_less_def uint_word_of_int take_bit_eq_mod)
next
  case False
  then show ?thesis using assms by (simp add: word_less_def uint_word_of_int take_bit_eq_mod)
qed

lemma digit_word: "(word_of_int (int (of_char b) - 48) :: 64 word) > 9 \<longleftrightarrow> \<not> ascii_digit b"
proof -
  have "(of_char b :: nat) < 256" by simp
  then have "- 48 \<le> int (of_char b) - 48" "int (of_char b) - 48 < 208" by linarith+
  from small_word_greater [OF this] show ?thesis by (auto simp: ascii_digit_def Let_def)
qed

lemma digit_word_value:
  "ascii_digit b \<Longrightarrow> (word_of_int (int (of_char b) - 48) :: 64 word) = of_nat (of_char b - 48)"
  by (auto simp: ascii_digit_def Let_def of_nat_diff)

lemma strtoul_loop_eq:
  "strtoul_loop (of_nat v) s =
     (of_nat (foldl (\<lambda>v c. v * 10 + (of_char c - 48)) v (takeWhile ascii_digit s)), dropWhile ascii_digit s)"
proof (induction s arbitrary: v)
  case (Cons b s)
  show ?case
  proof (cases "ascii_digit b")
    case True
    have "strtoul_loop (of_nat v) (b # s) = strtoul_loop (of_nat (v * 10 + (of_char b - 48))) s"
      using True digit_word [of b] digit_word_value [OF True] by (simp add: Let_def)
    then show ?thesis using True Cons.IH [of "v * 10 + (of_char b - 48)"] by (simp only: takeWhile.simps dropWhile.simps foldl.simps if_True)
  next
    case False
    then show ?thesis using digit_word [of b] by (simp add: Let_def)
  qed
qed simp

lemma strtoul_eq: "svn__strtoul s = (of_nat (digits_value (takeWhile ascii_digit s)), dropWhile ascii_digit s)"
  using strtoul_loop_eq [of 0 s] by (simp add: svn__strtoul_def digits_value_def)

lemma digits_value_snoc [simp]: "digits_value (ds @ [c]) = digits_value ds * 10 + (of_char c - 48)"
  by (simp add: digits_value_def)

lemma digits_value_Nil [simp]: "digits_value [] = 0"
  by (simp add: digits_value_def)

lemma digits_value_bound: "\<forall>c \<in> set ds. ascii_digit c \<Longrightarrow> digits_value ds < 10 ^ length ds"
proof (induction ds rule: rev_induct)
  case (snoc c ds)
  then have "of_char c - 48 < (10 :: nat)" by (auto simp: ascii_digit_def Let_def)
  then show ?case using snoc by auto
qed simp

lemma digits_value_Cons: "digits_value (c # ds) = (of_char c - 48) * 10 ^ length ds + digits_value ds"
  by (induction ds rule: rev_induct) (auto simp: append_Cons [symmetric] algebra_simps simp del: append_Cons,
      simp add: digits_value_def)

lemma sint_of_nat_small: "v < 2 ^ 63 \<Longrightarrow> sint (of_nat v :: 64 word) = int v"
  by (simp add: signed_of_nat signed_take_bit_int_eq_self)

lemma low_word_greater:
  assumes "v < 2 ^ 32"
  shows "(ucast (of_nat v :: 64 word) :: 32 word) > 2147483647 \<longleftrightarrow> v > 2147483647"
proof -
  have "unat (ucast (of_nat v :: 64 word) :: 32 word) = v"
    using assms by (simp add: unsigned_of_nat unsigned_ucast_eq take_bit_nat_eq_self)
  then show ?thesis by (simp add: word_less_nat_alt)
qed

text \<open>What \<^verbatim>\<open>svn_revnum_parse\<close> accepts: up to ten digits whose value fits into 31 bits.\<close>

lemma revnum_parse_eq:
  fixes s :: cstring
  defines "ds \<equiv> takeWhile ascii_digit s"
  shows "if ds \<noteq> [] \<and> length ds \<le> 10 \<and> digits_value ds \<le> 2147483647
    then svn_revnum_parse s = Ok (int (digits_value ds), dropWhile ascii_digit s)
    else \<exists>msg. svn_revnum_parse s = Err (svn_error_create SVN_ERR_REVNUM_PARSE_FAILURE msg)"
proof -
  have len: "length s - length (dropWhile ascii_digit s) = length ds"
    by (metis add_diff_cancel_right' ds_def length_append takeWhile_dropWhile_id)
  have parse: "svn_revnum_parse s =
    (if length ds = 0
     then Err (svn_error_create SVN_ERR_REVNUM_PARSE_FAILURE
            ((if c_hd s = CHR ''-'' then ''Negative revision number found parsing ''
              else ''Invalid revision number found parsing '') @ CHR 0x27 # s @ [CHR 0x27]))
     else if 10 < length ds
     then Err (svn_error_create SVN_ERR_REVNUM_PARSE_FAILURE
            (''Revision number longer than 10 digits '' @ CHR 0x27 # s @ [CHR 0x27]))
     else if length ds = 10 \<and> ((of_char (c_hd s) :: nat) > 50 \<or> (ucast (of_nat (digits_value ds) :: 64 word) :: 32 word) > 2147483647)
     then Err (svn_error_create SVN_ERR_REVNUM_PARSE_FAILURE
            (''Revision number too large '' @ CHR 0x27 # s @ [CHR 0x27]))
     else Ok (sint (of_nat (digits_value ds) :: 64 word), dropWhile ascii_digit s))"
    unfolding svn_revnum_parse_def strtoul_eq prod.case Let_def len [unfolded ds_def] ds_def ..
  have digits: "\<forall>c \<in> set ds. ascii_digit c" unfolding ds_def using set_takeWhileD by metis
  have bound: "length ds \<le> 10 \<Longrightarrow> digits_value ds < 10 ^ 10"
    using digits_value_bound [OF digits] by (metis less_le_trans one_le_numeral power_increasing)
  have short: "length ds < 10 \<Longrightarrow> digits_value ds \<le> 2147483647"
    using digits_value_bound [OF digits] power_increasing [of "length ds" 9 "10 :: nat"] by fastforce
  have ten: "length ds = 10 \<Longrightarrow>
    (of_char (c_hd s) :: nat) > 50 \<or> (ucast (of_nat (digits_value ds) :: 64 word) :: 32 word) > 2147483647 \<longleftrightarrow>
    digits_value ds > 2147483647"
  proof -
    assume l: "length ds = 10"
    then obtain c cs where cs: "ds = c # cs" by (cases ds) auto
    then have hd: "c_hd s = c" unfolding ds_def by (cases s) (auto split: if_splits)
    have c: "48 \<le> (of_char c :: nat)" "(of_char c :: nat) \<le> 57" using digits cs by (auto simp: ascii_digit_def Let_def)
    have v: "digits_value ds = (of_char c - 48) * 10 ^ 9 + digits_value cs" using digits_value_Cons [of c cs] cs l by simp
    have "digits_value cs < 10 ^ 9" using digits_value_bound [of cs] digits cs l by auto
    show ?thesis
    proof (cases "(of_char c :: nat) > 50")
      case True
      then have "3 * 10 ^ 9 \<le> (of_char c - 48) * (10 :: nat) ^ 9" by (intro mult_right_mono) auto
      then show ?thesis using True v hd by simp
    next
      case False
      then have "(of_char c - 48) * (10 :: nat) ^ 9 \<le> 2 * 10 ^ 9" using c by (intro mult_right_mono) auto
      then have "digits_value ds < 2 ^ 32" using v \<open>digits_value cs < 10 ^ 9\<close> by simp
      from low_word_greater [OF this] show ?thesis using False hd by simp
    qed
  qed
  have "sint (of_nat (digits_value ds) :: 64 word) = int (digits_value ds)" if "length ds \<le> 10"
    using bound [OF that] by (intro sint_of_nat_small) simp
  then show ?thesis using parse short ten by (cases "length ds = 10") auto
qed

section \<open>Reading back what is printed\<close>

lemma digit_octal: "n < 10 \<Longrightarrow> ascii_digit (octal_digit n)" "n < 10 \<Longrightarrow> of_char (octal_digit n) - 48 = n"
  by (simp_all add: ascii_digit_def octal_digit_def Let_def)

lemma decimal_nat_ok:
  "digits_value (decimal_nat n) = n \<and> (\<forall>c \<in> set (decimal_nat n). ascii_digit c) \<and> decimal_nat n \<noteq> []"
proof (induction n rule: decimal_nat.induct)
  case (1 n)
  show ?case
  proof (cases "n < 10")
    case True
    then show ?thesis using digits_value_snoc [of "[]"] by (simp add: decimal_nat.simps [of n] digit_octal)
  next
    case False
    then show ?thesis using 1 by (simp add: decimal_nat.simps [of n] digit_octal)
  qed
qed

lemma decimal_nat_length: "n < 10 ^ k \<Longrightarrow> 0 < k \<Longrightarrow> length (decimal_nat n) \<le> k"
proof (induction n arbitrary: k rule: decimal_nat.induct)
  case (1 n)
  show ?case
  proof (cases "n < 10")
    case True
    then show ?thesis using 1 by (simp add: decimal_nat.simps [of n])
  next
    case False
    obtain j where k: "k = Suc j" using 1(3) gr0_conv_Suc by blast
    then have "0 < j" using 1(2) False by (cases j) auto
    with k have j: "k = Suc j" "0 < j" by simp_all
    then have "n div 10 < 10 ^ j" using 1(2) by auto
    then show ?thesis using 1(1) [OF False, of j] j False by (simp add: decimal_nat.simps [of n])
  qed
qed

lemma decimal_ok:
  assumes "0 \<le> n"
  shows "decimal n \<noteq> []" "\<forall>c \<in> set (decimal n). ascii_digit c" "int (digits_value (decimal n)) = n"
    "n \<le> 2147483647 \<Longrightarrow> length (decimal n) \<le> 10"
  using assms decimal_nat_ok [of "nat n"] decimal_nat_length [of "nat n" 10] by (auto simp: decimal_def)

lemma takeWhile_prefix:
  "\<forall>c \<in> set ds. P c \<Longrightarrow> rest = [] \<or> \<not> P (hd rest) \<Longrightarrow> takeWhile P (ds @ rest) = ds \<and> dropWhile P (ds @ rest) = rest"
  by (cases rest) auto

lemma revnum_parse_decimal:
  assumes "0 \<le> n" "n \<le> 2147483647" "rest = [] \<or> \<not> ascii_digit (hd rest)"
  shows "svn_revnum_parse (decimal n @ rest) = Ok (n, rest)"
proof -
  note d = decimal_ok [OF assms(1)] and t = takeWhile_prefix [OF decimal_ok(2) [OF assms(1)] assms(3)]
  have "digits_value (decimal n) \<le> 2147483647" using d(3) assms(2) by linarith
  then show ?thesis using revnum_parse_eq [of "decimal n @ rest"] t d(1,3) d(4) [OF assms(2)] by simp
qed

text \<open>Ranges the parser can read.\<close>

definition revision_limit :: svn_revnum_t where
  "revision_limit = 2147483647"

definition readable :: "svn_merge_range_t \<Rightarrow> bool" where
  "readable r \<longleftrightarrow> 0 \<le> range_start r \<and> range_start r < range_end r \<and> range_end r \<le> revision_limit"

definition bare_text :: "svn_merge_range_t \<Rightarrow> string" where
  "bare_text r = (if range_start r = range_end r - 1 then decimal (range_end r)
     else decimal (range_start r + 1) @ ''-'' @ decimal (range_end r))"

definition mark :: "svn_merge_range_t \<Rightarrow> string" where
  "mark r = (if inheritable r then '''' else ''*'')"

lemma range_to_string_readable: "readable r \<Longrightarrow> range_to_string r = Ok (bare_text r @ mark r)"
  by (auto simp: readable_def range_to_string_def bare_text_def mark_def)

lemma parse_range_text:
  assumes "readable r" "rest = [] \<or> hd rest \<in> {newline, CHR '','', CHR ''*''}"
  shows "parse_range (bare_text r @ rest) = Ok (r\<lparr>inheritable := True\<rparr>, rest)"
proof -
  have r: "0 \<le> range_start r" "range_start r < range_end r" "range_end r \<le> 2147483647"
    using assms(1) by (auto simp: readable_def revision_limit_def)
  have stop: "rest = [] \<or> \<not> ascii_digit (hd rest)" using assms(2) by (auto simp: ascii_digit_def)
  have hd: "c_hd rest \<noteq> CHR ''-''" "rest \<noteq> [] \<longrightarrow> c_hd rest \<in> {newline, CHR '','', CHR ''*''}"
    using assms(2) by (cases rest; auto)+
  show ?thesis
  proof (cases "range_start r = range_end r - 1")
    case True
    have "svn_revnum_parse (decimal (range_end r) @ rest) = Ok (range_end r, rest)"
      using revnum_parse_decimal r stop by simp
    then show ?thesis using True r hd by (cases r) (auto simp: bare_text_def parse_range_def parse_range_end_def)
  next
    case False
    have "svn_revnum_parse (decimal (range_start r + 1) @ CHR ''-'' # decimal (range_end r) @ rest) =
      Ok (range_start r + 1, CHR ''-'' # decimal (range_end r) @ rest)"
      using r by (intro revnum_parse_decimal) (auto simp: ascii_digit_def)
    moreover have "svn_revnum_parse (decimal (range_end r) @ rest) = Ok (range_end r, rest)"
      using revnum_parse_decimal r stop by simp
    ultimately show ?thesis using False r
      by (cases r) (auto simp: bare_text_def parse_range_def parse_range_end_def)
  qed
qed

lemma bare_text_hd:
  assumes "readable r"
  shows "bare_text r \<noteq> []" "ascii_digit (hd (bare_text r))"
proof -
  have "0 \<le> range_start r + 1" "0 \<le> range_end r" using assms by (auto simp: readable_def)
  from decimal_ok(1,2) [OF this(1)] decimal_ok(1,2) [OF this(2)]
  show "bare_text r \<noteq> []" "ascii_digit (hd (bare_text r))" by (auto simp: bare_text_def hd_append)
qed

lemma digit_not_space: "ascii_digit c \<Longrightarrow> c \<noteq> newline \<and> \<not> isspace c"
  by (auto simp: ascii_digit_def isspace_def Let_def)

lemma keep_inheritable [simp]:
  "inheritable r \<Longrightarrow> r\<lparr>inheritable := True\<rparr> = r" "\<not> inheritable r \<Longrightarrow> r\<lparr>inheritable := False\<rparr> = r"
  by (cases r; simp)+

lemma parse_ranges_text:
  assumes "rl \<noteq> []" "\<forall>r \<in> set rl. readable r" "rest = [] \<or> hd rest = newline"
  shows "\<exists>s. ranges_to_string rl = Ok s \<and> s \<noteq> [] \<and> ascii_digit (hd s) \<and> parse_ranges (s @ rest) acc = Ok (acc @ rl, rest)"
  using assms(1,2)
proof (induction rl arbitrary: acc rule: ranges_to_string.induct)
  case (2 r)
  have r: "readable r" using 2 by simp
  have "rest = [] \<or> hd rest \<in> {newline, CHR '','', CHR ''*''}" using assms(3) by auto
  then have p: "parse_range (bare_text r @ rest) = Ok (r\<lparr>inheritable := True\<rparr>, rest)" by (rule parse_range_text [OF r])
  have p': "parse_range (bare_text r @ CHR ''*'' # rest) = Ok (r\<lparr>inheritable := True\<rparr>, CHR ''*'' # rest)"
    by (rule parse_range_text [OF r]) simp
  have hd: "c_hd rest = newline \<or> rest = []" using assms(3) by (cases rest) auto
  have "c_hd (bare_text r @ x) \<noteq> newline" "bare_text r @ x \<noteq> []" for x
    using bare_text_hd [OF r] digit_not_space by (cases "bare_text r"; auto)+
  then have "parse_ranges ((bare_text r @ mark r) @ rest) acc = Ok (acc @ [r], rest)"
    using p p' hd by (subst parse_ranges.simps, cases "inheritable r") (auto simp: mark_def)
  then show ?case using bare_text_hd [OF r] range_to_string_readable [OF r] by auto
next
  case (3 r r' rs)
  have r: "readable r" using 3 by simp
  let ?acc = "acc @ [r]"
  obtain s where s: "ranges_to_string (r' # rs) = Ok s" "parse_ranges (s @ rest) ?acc = Ok (?acc @ r' # rs, rest)"
    using 3(1) [of "bare_text r @ mark r" ?acc] 3(3) range_to_string_readable [OF r] by auto
  have p: "parse_range (bare_text r @ CHR '','' # s @ rest) = Ok (r\<lparr>inheritable := True\<rparr>, CHR '','' # s @ rest)"
    by (rule parse_range_text [OF r]) simp
  have p': "parse_range (bare_text r @ CHR ''*'' # CHR '','' # s @ rest) =
    Ok (r\<lparr>inheritable := True\<rparr>, CHR ''*'' # CHR '','' # s @ rest)"
    by (rule parse_range_text [OF r]) simp
  have "c_hd (bare_text r @ x) \<noteq> newline" "bare_text r @ x \<noteq> []" for x
    using bare_text_hd [OF r] digit_not_space by (cases "bare_text r"; auto)+
  then have "parse_ranges ((bare_text r @ mark r @ '','' @ s) @ rest) acc = Ok (acc @ r # r' # rs, rest)"
    using p p' s(2) by (subst parse_ranges.simps, cases "inheritable r") (auto simp: mark_def)
  then show ?case using bare_text_hd [OF r] range_to_string_readable [OF r] s(1) by auto
qed simp

lemma parse_rangelist_text:
  assumes "rl \<noteq> []" "\<forall>r \<in> set rl. readable r" "rest = [] \<or> hd rest = newline"
  shows "\<exists>s. svn_rangelist_to_string rl = Ok s \<and> s \<noteq> [] \<and> ascii_digit (hd s) \<and> parse_rangelist (s @ rest) = Ok (rl, rest)"
proof -
  obtain s where s: "ranges_to_string rl = Ok s" "s \<noteq> []" "ascii_digit (hd s)" "parse_ranges (s @ rest) [] = Ok (rl, rest)"
    using parse_ranges_text [OF assms, of "[]"] by auto
  then obtain c cs where "s = c # cs" "ascii_digit c" by (cases s) auto
  then show ?thesis using s digit_not_space [of c] by (auto simp: parse_rangelist_def svn_rangelist_to_string_def)
qed

section \<open>What the parser returns\<close>

lemma revnum_parse_Ok: "svn_revnum_parse s = Ok (n, r) \<Longrightarrow> 0 \<le> n \<and> n \<le> revision_limit"
  using revnum_parse_eq [of s] by (auto simp: revision_limit_def split: if_splits)

lemma parse_range_Ok: "parse_range s = Ok (x, r) \<Longrightarrow> readable x"
  by (auto simp: parse_range_def parse_range_end_def parse_error_def cbind_Ok_iff readable_def
      dest!: revnum_parse_Ok split: if_splits)

lemma readable_mark [simp]: "readable (r\<lparr>inheritable := b\<rparr>) = readable r"
  by (simp add: readable_def)

lemma strtoul_suffix_of: "strtoul_loop w s = (w', r) \<Longrightarrow> suffix r s"
  by (induction w s rule: strtoul_loop.induct) (auto simp: Let_def suffix_Cons split: if_splits)

lemma revnum_parse_suffix: "svn_revnum_parse s = Ok (n, r) \<Longrightarrow> suffix r s"
  using strtoul_suffix_of [of 0 s]
  by (auto simp: svn_revnum_parse_def svn__strtoul_def Let_def split: prod.splits if_splits)

lemma suffix_tl_trans: "suffix r (tl s) \<Longrightarrow> suffix r s"
  using suffix_tl suffix_order.order_trans by blast

lemma parse_range_suffix: "parse_range s = Ok (x, r) \<Longrightarrow> suffix r s"
  by (auto simp: parse_range_def parse_range_end_def parse_error_def cbind_Ok_iff split: if_splits
      dest!: revnum_parse_suffix suffix_tl_trans)

lemma parse_ranges_Ok:
  assumes "parse_ranges s acc = Ok (rl, rest)" "\<forall>r \<in> set acc. readable r"
  shows "(\<forall>r \<in> set rl. readable r) \<and> (rest = [] \<or> hd rest = newline) \<and> suffix rest s"
  using assms
proof (induction s acc arbitrary: rl rest rule: parse_ranges.induct)
  case (1 s acc)
  show ?case
  proof (cases "s = [] \<or> c_hd s = newline")
    case True
    then have "rl = acc \<and> rest = s \<and> c_hd s = newline"
      using 1(3) by (simp add: parse_ranges.simps [of s acc] parse_error_def split: if_splits)
    then show ?thesis using 1(4) by (cases s) auto
  next
    case False
    then obtain x p where p: "parse_range s = Ok (x, p)"
      using 1(3) by (subst (asm) parse_ranges.simps) (auto simp: cbind_Ok_iff)
    have x: "readable x" "suffix p s" "suffix (tl p) s" "suffix (tl (tl p)) s"
      using parse_range_Ok parse_range_suffix p suffix_tl suffix_order.order_trans by metis+
    have step:
      "(if c_hd p = newline \<or> p = [] then Ok (acc @ [x], p)
       else if c_hd p = CHR '','' then parse_ranges (tl p) (acc @ [x])
       else if c_hd p = CHR ''*'' then
         if c_hd (tl p) = CHR '','' \<or> c_hd (tl p) = newline \<or> tl p = [] then
           if c_hd (tl p) = CHR '','' then parse_ranges (tl (tl p)) (acc @ [x\<lparr>inheritable := False\<rparr>])
           else Ok (acc @ [x\<lparr>inheritable := False\<rparr>], tl p)
         else parse_error (''Invalid character '' @ CHR 0x27 # c_hd (tl p) # CHR 0x27 # '' found in range list'')
       else parse_error (''Invalid character '' @ CHR 0x27 # c_hd p # CHR 0x27 # '' found in range list'')) = Ok (rl, rest)"
      using 1(3) unfolding parse_ranges.simps [of s acc] p if_not_P [OF False] cbind_simps prod.case Let_def .
    have hd: "c_hd q = newline \<or> q = [] \<Longrightarrow> q = [] \<or> hd q = newline" for q by (cases q) auto
    consider (stop) "c_hd p = newline \<or> p = []" | (comma) "\<not> (c_hd p = newline \<or> p = [])" "c_hd p = CHR '',''"
      | (star_comma) "\<not> (c_hd p = newline \<or> p = [])" "c_hd p \<noteq> CHR '',''" "c_hd p = CHR ''*''" "c_hd (tl p) = CHR '',''"
      | (star_stop) "c_hd p = CHR ''*''" "c_hd (tl p) \<noteq> CHR '',''" "c_hd (tl p) = newline \<or> tl p = []"
      using step by (auto simp: parse_error_def split: if_splits)
    then show ?thesis
    proof cases
      case stop
      then show ?thesis using step x 1(4) hd [of p] by auto
    next
      case comma
      then have "parse_ranges (tl p) (acc @ [x]) = Ok (rl, rest)" using step by simp
      from 1(1) [OF False p refl comma this] show ?thesis using x 1(4) suffix_order.order_trans [OF _ x(3)] by auto
    next
      case star_comma
      then have "parse_ranges (tl (tl p)) (acc @ [x\<lparr>inheritable := False\<rparr>]) = Ok (rl, rest)" using step by simp
      from 1(2) [OF False p refl star_comma(1-3) refl refl disjI1 [OF star_comma(4)] star_comma(4) this]
      show ?thesis using x 1(4) suffix_order.order_trans [OF _ x(4)] by auto
    next
      case star_stop
      then have "p \<noteq> []" by auto
      then have "rl = acc @ [x\<lparr>inheritable := False\<rparr>] \<and> rest = tl p"
        using star_stop step by (auto split: if_splits)
      then show ?thesis using x 1(4) star_stop(3) hd [of "tl p"] by auto
    qed
  qed
qed

lemma c_hd_hd: "s \<noteq> [] \<Longrightarrow> c_hd s = hd s"
  by (cases s) auto

lemma parse_rangelist_Ok:
  assumes "parse_rangelist s = Ok (rl, rest)"
  shows "\<forall>r \<in> set rl. readable r" "rest = [] \<or> hd rest = newline" "suffix rest s"
proof -
  let ?p = "dropWhile (\<lambda>c. c \<noteq> newline \<and> isspace c) s"
  have len: "suffix ?p s" by (rule suffix_dropWhile)
  have "(\<forall>r \<in> set rl. readable r) \<and> (rest = [] \<or> hd rest = newline) \<and> suffix rest ?p"
  proof (cases "c_hd ?p = newline \<or> ?p = []")
    case True
    then have "rl = [] \<and> rest = ?p" using assms by (simp add: parse_rangelist_def Let_def)
    moreover have "?p = [] \<or> hd ?p = newline" using True c_hd_hd [of ?p] by metis
    ultimately show ?thesis by simp
  next
    case False
    then have "parse_ranges ?p [] = Ok (rl, rest)" using False assms by (simp only: parse_rangelist_def Let_def if_False)
    then show ?thesis using parse_ranges_Ok by force
  qed
  then show "\<forall>r \<in> set rl. readable r" "rest = [] \<or> hd rest = newline" "suffix rest s" using len suffix_order.order_trans by blast+
qed

section \<open>Properties\<close>

text \<open>C30. \<^verbatim>\<open>svn_revnum_parse\<close> reads the longest sequence of digits and succeeds exactly when there are
  between one and ten of them and their value fits into a signed 32 bit integer; then the result is
  that value, although \<^verbatim>\<open>svn__strtoul\<close> computes modulo \<open>2^64\<close> and the test for overflow looks at the low
  32 bits and the first digit only. Otherwise it fails with \<^verbatim>\<open>SVN_ERR_REVNUM_PARSE_FAILURE\<close>.\<close>

theorem revnum_parse_bounds:
  "case svn_revnum_parse s of
     Ok (n, rest) \<Rightarrow> s = takeWhile ascii_digit s @ rest \<and> takeWhile ascii_digit s \<noteq> [] \<and>
       n = int (digits_value (takeWhile ascii_digit s)) \<and> 0 \<le> n \<and> n < 2 ^ 31
   | Err e \<Rightarrow> err_code_of e = SVN_ERR_REVNUM_PARSE_FAILURE \<and>
       (takeWhile ascii_digit s = [] \<or> length (takeWhile ascii_digit s) > 10 \<or>
        digits_value (takeWhile ascii_digit s) \<ge> 2 ^ 31)
   | _ \<Rightarrow> False"
proof (cases "takeWhile ascii_digit s \<noteq> [] \<and> length (takeWhile ascii_digit s) \<le> 10 \<and>
    digits_value (takeWhile ascii_digit s) \<le> 2147483647")
  case True
  then show ?thesis using revnum_parse_eq [of s] by simp
next
  case False
  then obtain msg where "svn_revnum_parse s = Err (svn_error_create SVN_ERR_REVNUM_PARSE_FAILURE msg)"
    using revnum_parse_eq [of s] by auto
  then show ?thesis using False by (auto simp: svn_error_create_def)
qed

text \<open>A range list of forward ranges with revisions up to \<open>2^31 - 1\<close>, whatever their order, is printed
  by \<^verbatim>\<open>svn_rangelist_to_string\<close>, and \<^verbatim>\<open>svn_rangelist__parse\<close> reads the text back as the same list.\<close>

theorem rangelist_text_roundtrip:
  assumes "\<forall>r \<in> set rl. 0 \<le> range_start r \<and> range_start r < range_end r \<and> range_end r < 2 ^ 31"
  shows "\<exists>s. svn_rangelist_to_string rl = Ok s \<and> svn_rangelist__parse s = Ok rl"
proof (cases "rl = []")
  case True
  then show ?thesis by (simp add: svn_rangelist_to_string_def svn_rangelist__parse_def parse_rangelist_def)
next
  case False
  have "\<forall>r \<in> set rl. readable r" using assms by (auto simp: readable_def revision_limit_def)
  then show ?thesis using parse_rangelist_text [OF False, of "[]"] by (auto simp: svn_rangelist__parse_def)
qed

end
