(* ===== verification/Mergeinfo_Text.thy ===== *)
theory Mergeinfo_Text
  imports Range_Text Dirent_Ops
begin

text \<open>
  Mergeinfo as text: parsing and printing of \<^verbatim>\<open>svn:mergeinfo\<close> in \<^verbatim>\<open>mergeinfo.c\<close>. A mergeinfo is a hash
  from paths to range lists, a catalog a hash from paths to mergeinfo.
\<close>

type_synonym svn_mergeinfo_t = "svn_rangelist_t hash"
type_synonym svn_mergeinfo_catalog_t = "svn_mergeinfo_t hash"

section \<open>Parsing\<close>

definition parse_pathname :: "cstring \<Rightarrow> (cstring \<times> cstring) cres" where
  "parse_pathname input =
     (case strrchr (takeWhile (\<lambda>c. c \<noteq> newline) input) CHR '':'' of
        None \<Rightarrow> parse_error (''Pathname not terminated by '' @ CHR 0x27 # CHR '':'' # [CHR 0x27])
      | Some last_colon \<Rightarrow>
          cbind (svn_fspath__canonicalize (take last_colon input)) (\<lambda>pathname. Ok (pathname, drop last_colon input)))"

text \<open>An early return with the error of a call.\<close>

definition failure :: "'a cres \<Rightarrow> 'b cres" where
  "failure r = (case r of Err e \<Rightarrow> Err e | Abort \<Rightarrow> Abort | Overrun \<Rightarrow> Overrun | _ \<Rightarrow> Diverge)"

text \<open>The end of \<^verbatim>\<open>parse_revision_line\<close>: the new list is normalized and goes into the hash, together with one
  that is already there.\<close>

definition store_rangelist :: "svn_mergeinfo_t \<Rightarrow> cstring \<Rightarrow> svn_rangelist_t \<Rightarrow> svn_mergeinfo_t cres" where
  "store_rangelist hash pathname rangelist =
     cbind (svn_rangelist__canonicalize rangelist) (\<lambda>rangelist.
       cbind (case map_of hash pathname of
                Some existing_rangelist \<Rightarrow> svn_rangelist_merge2 rangelist existing_rangelist
              | None \<Rightarrow> Ok rangelist) (\<lambda>rangelist.
         Ok (hash_set hash pathname (Some rangelist))))"

text \<open>The position \<^verbatim>\<open>*input\<close> is left at, also when a call fails, and the hash with the new entry.\<close>

definition parse_revision_line :: "cstring \<Rightarrow> svn_mergeinfo_t \<Rightarrow> cstring \<times> svn_mergeinfo_t cres" where
  "parse_revision_line input hash =
     (case parse_pathname input of
        Ok (pathname, input) \<Rightarrow>
          if c_hd input \<noteq> CHR '':''
          then (input, parse_error (''Pathname not terminated by '' @ CHR 0x27 # CHR '':'' # [CHR 0x27]))
          else
            (let input = tl input in
             case parse_rangelist input of
               Ok (rangelist, input) \<Rightarrow>
                 if rangelist = []
                 then (input, parse_error (''Mergeinfo for '' @ CHR 0x27 # pathname @ CHR 0x27 #
                        '' maps to an empty revision range''))
                 else if input \<noteq> [] \<and> c_hd input \<noteq> newline
                 then (input, parse_error (''Could not find end of line in range list line in '' @ CHR 0x27 # input @ [CHR 0x27]))
                 else
                   (if input \<noteq> [] then tl input else input, store_rangelist hash pathname rangelist)
             | r \<Rightarrow> (input, failure r))
      | r \<Rightarrow> (input, failure r))"

lemma parse_pathname_shorter: "parse_pathname s = Ok (p, r) \<Longrightarrow> length r \<le> length s"
  by (auto simp: parse_pathname_def parse_error_def cbind_Ok_iff split: option.splits)

lemma parse_revision_line_Ok:
  assumes "parse_revision_line s ht = (r, Ok ht')"
  obtains p q rl t where "parse_pathname s = Ok (p, CHR '':'' # q)" "parse_rangelist q = Ok (rl, t)" "rl \<noteq> []"
    "r = tl t" "store_rangelist ht p rl = Ok ht'"
proof -
  obtain p q where p: "parse_pathname s = Ok (p, q)"
    using assms by (cases "parse_pathname s") (auto simp: parse_revision_line_def failure_def)
  have q: "c_hd q = CHR '':''"
    using assms unfolding parse_revision_line_def p by (cases "c_hd q = CHR '':''") (simp_all add: parse_error_def)
  then obtain q' where q': "q = CHR '':'' # q'" by (cases q) auto
  obtain rl t where t: "parse_rangelist q' = Ok (rl, t)"
    using assms unfolding parse_revision_line_def p q' by (cases "parse_rangelist q'") (auto simp: failure_def)
  have "rl \<noteq> []" "r = tl t" "store_rangelist ht p rl = Ok ht'"
    using assms unfolding parse_revision_line_def p q' by (auto simp: t parse_error_def split: if_splits)
  then show ?thesis using that p q' t by blast
qed

lemma parse_revision_line_shorter:
  assumes "parse_revision_line s ht = (r, Ok ht')"
  shows "length r < length s"
  using assms parse_rangelist_Ok(3) [THEN suffix_length_le] parse_pathname_shorter
  by (elim parse_revision_line_Ok) fastforce

function parse_top :: "cstring \<Rightarrow> svn_mergeinfo_t \<Rightarrow> cstring \<times> svn_mergeinfo_t cres" where
  "parse_top input hash =
     (if input = [] then (input, Ok hash)
      else case parse_revision_line input hash of
        (input, Ok hash) \<Rightarrow> parse_top input hash
      | (input, r) \<Rightarrow> (input, failure r))"
  by pat_completeness auto
termination
  by (relation "measure (\<lambda>(input, hash). length input)") (auto dest: parse_revision_line_shorter sym)

declare parse_top.simps [simp del]

text \<open>The message quotes what \<^verbatim>\<open>input\<close> points to after \<^verbatim>\<open>parse_top\<close> has moved it.\<close>

definition svn_mergeinfo_parse :: "cstring \<Rightarrow> svn_mergeinfo_t cres" where
  "svn_mergeinfo_parse input =
     (case parse_top input [] of
        (input, Err err) \<Rightarrow>
          if err_code_of err \<noteq> SVN_ERR_MERGEINFO_PARSE_ERROR
          then Err (svn_error SVN_ERR_MERGEINFO_PARSE_ERROR
                 (''Could not parse mergeinfo string '' @ CHR 0x27 # input @ [CHR 0x27]) (Some err))
          else Err err
      | (input, r) \<Rightarrow> r)"

section \<open>Printing\<close>

definition mergeinfo_line :: "string \<Rightarrow> cstring \<times> svn_rangelist_t \<Rightarrow> string cres" where
  "mergeinfo_line pfx elt =
     cbind (svn_rangelist_to_string (snd elt)) (\<lambda>revlist.
       Ok (pfx @ (if c_hd (fst elt) = slash then '''' else ''/'') @ fst elt @ '':'' @ revlist))"

fun mergeinfo_lines :: "string \<Rightarrow> (cstring \<times> svn_rangelist_t) list \<Rightarrow> string cres" where
  "mergeinfo_lines pfx [] = Ok []"
| "mergeinfo_lines pfx (elt # elts) =
     cbind (mergeinfo_line pfx elt) (\<lambda>line.
       cbind (mergeinfo_lines pfx elts) (\<lambda>rest.
         Ok (line @ (if elts \<noteq> [] then [newline] else []) @ rest)))"

definition mergeinfo_to_stringbuf :: "svn_mergeinfo_t \<Rightarrow> string option \<Rightarrow> string cres" where
  "mergeinfo_to_stringbuf input pfx =
     (if length input > 0 then
        cbind (svn_sort__hash input svn_sort_compare_items_as_paths) (\<lambda>sorted_items.
          mergeinfo_lines (case pfx of Some p \<Rightarrow> p | None \<Rightarrow> []) sorted_items)
      else Ok [])"

definition svn_mergeinfo_to_string :: "svn_mergeinfo_t \<Rightarrow> string cres" where
  "svn_mergeinfo_to_string input = mergeinfo_to_stringbuf input None"

fun catalog_lines :: "string option \<Rightarrow> string option \<Rightarrow> (cstring \<times> svn_mergeinfo_t) list \<Rightarrow> string cres" where
  "catalog_lines key_prefix val_prefix [] = Ok []"
| "catalog_lines key_prefix val_prefix ((path1, mergeinfo) # elts) =
     cbind (mergeinfo_to_stringbuf mergeinfo (Some (case val_prefix of Some p \<Rightarrow> p | None \<Rightarrow> []))) (\<lambda>text.
       cbind (catalog_lines key_prefix val_prefix elts) (\<lambda>rest.
         Ok ((case key_prefix of Some p \<Rightarrow> p | None \<Rightarrow> []) @ path1 @ newline # text @ newline # rest)))"

definition svn_mergeinfo__catalog_to_formatted_string ::
  "svn_mergeinfo_catalog_t option \<Rightarrow> string option \<Rightarrow> string option \<Rightarrow> string cres" where
  "svn_mergeinfo__catalog_to_formatted_string catalog key_prefix val_prefix =
     (case catalog of
        Some (c # cs) \<Rightarrow>
          cbind (svn_sort__hash (c # cs) svn_sort_compare_items_as_paths) (\<lambda>sorted_catalog.
            catalog_lines key_prefix val_prefix sorted_catalog)
      | _ \<Rightarrow> Ok [newline])"

section \<open>Well-formed mergeinfo\<close>

definition wf_rangelist :: "svn_rangelist_t \<Rightarrow> bool" where
  "wf_rangelist rl \<longleftrightarrow> rl \<noteq> [] \<and> svn_rangelist__is_canonical rl \<and> list_all readable rl"

definition source_path :: "cstring \<Rightarrow> bool" where
  "source_path p \<longleftrightarrow> is_cstring p \<and> svn_fspath__is_canonical p \<and> newline \<notin> set p"

definition wf_mergeinfo :: "svn_mergeinfo_t \<Rightarrow> bool" where
  "wf_mergeinfo mi \<longleftrightarrow> distinct (map fst mi) \<and> list_all (\<lambda>(p, rl). source_path p \<and> wf_rangelist rl) mi"

lemma wf_mergeinfo_Nil [simp]: "wf_mergeinfo []"
  by (simp add: wf_mergeinfo_def)

lemma wf_mergeinfo_lookup:
  "wf_mergeinfo mi \<Longrightarrow> map_of mi p = Some rl \<Longrightarrow> source_path p \<and> wf_rangelist rl"
  by (auto simp: wf_mergeinfo_def list_all_iff dest!: map_of_SomeD)

lemma wf_mergeinfo_set:
  assumes "wf_mergeinfo mi" "source_path p" "wf_rangelist rl"
  shows "wf_mergeinfo (hash_set mi p (Some rl))"
  using assms hash_set_distinct [of mi p "Some rl"]
  by (auto simp: wf_mergeinfo_def hash_set_def list_all_iff)

lemma source_path_key:
  assumes "source_path p"
  shows "path_key p"
proof -
  have p: "is_cstring p" "p = render (True, segments p)"
    using assms fspath_canonical_iff by (auto simp: source_path_def)
  then have "is_canonical p (length p)" using is_canonical_render [OF segments_good [OF p(1)], of True] by simp
  then show ?thesis using p by (simp add: path_key_def)
qed

lemma source_path_slash: "source_path p \<Longrightarrow> c_hd p = slash"
  by (auto simp: source_path_def svn_fspath__is_canonical_def c_hd_at)

text \<open>The bounds on the ranges are bounds on the revisions.\<close>

lemma readable_revisions:
  assumes "svn_rangelist__is_canonical rl"
  shows "list_all readable rl \<longleftrightarrow> (\<forall>n \<in> revisions rl. 0 < n \<and> n \<le> revision_limit)"
proof -
  have fwd: "range_start r < range_end r" if "r \<in> set rl" for r
    using assms that by (auto simp: svn_rangelist__is_canonical_def list_all_iff)
  have "readable r" if "r \<in> set rl" "\<forall>n \<in> revisions rl. 0 < n \<and> n \<le> revision_limit" for r
  proof -
    have "range_start r + 1 \<in> revisions rl" "range_end r \<in> revisions rl"
      using fwd [OF that(1)] that(1) by (auto simp: revisions_def)
    then show ?thesis using that(2) fwd [OF that(1)] by (fastforce simp: readable_def)
  qed
  then show ?thesis by (auto simp: list_all_iff readable_def revisions_def)
qed

lemma wf_rangelist_iff:
  "wf_rangelist rl \<longleftrightarrow> svn_rangelist__is_canonical rl \<and> revisions rl \<noteq> {} \<and>
    (\<forall>n \<in> revisions rl. 0 < n \<and> n \<le> revision_limit)"
proof (cases "svn_rangelist__is_canonical rl")
  case True
  have "revisions rl \<noteq> {}" if "rl \<noteq> []"
    using True that by (cases rl) (auto simp: canonical_Cons)
  then show ?thesis using True readable_revisions [OF True] by (auto simp: wf_rangelist_def)
qed (simp add: wf_rangelist_def)

lemma wf_rangelist_ranges_ok:
  assumes "wf_rangelist rl"
  shows "ranges_ok 0 rl"
proof (rule canonical_ranges_ok)
  show "svn_rangelist__is_canonical rl" using assms by (simp add: wf_rangelist_def)
  show "0 \<le> range_start (hd rl)" if "rl \<noteq> []"
    using assms that by (cases rl) (auto simp: wf_rangelist_def readable_def)
qed

lemma revisions_covers: "n \<in> revisions rl \<longleftrightarrow> (\<exists>b. covers rl b n)"
  by (auto simp: revisions_def covers_def)

lemma canonicalize_wf:
  assumes "list_all readable rl" "rl \<noteq> []"
  shows "(\<exists>out. svn_rangelist__canonicalize rl = Ok out \<and> wf_rangelist out) \<or>
    (\<exists>msg. svn_rangelist__canonicalize rl = Err (svn_error_create SVN_ERR_MERGEINFO_PARSE_ERROR msg))"
proof (cases "conflicting rl")
  case True
  then show ?thesis using rangelist_canonicalize_ok [of rl] assms(1) by (auto simp: list_all_iff readable_def)
next
  case False
  have "\<forall>r \<in> set rl. range_start r < range_end r" using assms(1) by (simp add: list_all_iff readable_def)
  then obtain out where out: "svn_rangelist__canonicalize rl = Ok out" "svn_rangelist__is_canonical out" "covers out = covers rl"
    using rangelist_canonicalize_ok [of rl] False by auto
  have revs: "revisions out = revisions rl" using out(3) by (auto simp: revisions_covers)
  have "range_end (hd rl) \<in> revisions rl"
    using assms by (cases rl) (auto simp: readable_def)
  moreover have "\<forall>n \<in> revisions rl. 0 < n \<and> n \<le> revision_limit"
    using assms(1) by (auto simp: list_all_iff readable_def revisions_def)
  ultimately have "wf_rangelist out" using out(2) revs by (auto simp: wf_rangelist_iff)
  then show ?thesis using out(1) by blast
qed

lemma merge2_wf:
  assumes "wf_rangelist rl" "wf_rangelist chg"
  shows "\<exists>out. svn_rangelist_merge2 rl chg = Ok out \<and> wf_rangelist out \<and>
    (\<forall>n. kind_at out n = max (kind_at rl n) (kind_at chg n))"
proof -
  obtain out where out: "svn_rangelist_merge2 rl chg = Ok out" "svn_rangelist__is_canonical out"
    "\<forall>n. kind_at out n = max (kind_at rl n) (kind_at chg n)"
    using merge2_ok [OF assms [THEN wf_rangelist_ranges_ok]] by blast
  have "n \<in> revisions out \<longleftrightarrow> n \<in> revisions rl \<or> n \<in> revisions chg" for n
    using out(3) kind_at_none [of out n] kind_at_none [of rl n] kind_at_none [of chg n]
    by (cases "kind_at rl n"; cases "kind_at chg n") (auto simp: max_def)
  then have "wf_rangelist out" using assms out(2) by (auto simp: wf_rangelist_iff)
  then show ?thesis using out by blast
qed

lemma store_rangelist_wf:
  assumes "wf_mergeinfo mi" "source_path p" "list_all readable rl" "rl \<noteq> []"
  shows "(\<exists>mi'. store_rangelist mi p rl = Ok mi' \<and> wf_mergeinfo mi') \<or>
    (\<exists>msg. store_rangelist mi p rl = Err (svn_error_create SVN_ERR_MERGEINFO_PARSE_ERROR msg))"
  using canonicalize_wf [OF assms(3,4)]
proof (elim disjE exE conjE)
  fix out assume out: "svn_rangelist__canonicalize rl = Ok out" "wf_rangelist out"
  show ?thesis
  proof (cases "map_of mi p")
    case None
    then show ?thesis using out wf_mergeinfo_set assms by (auto simp: store_rangelist_def)
  next
    case (Some old)
    then obtain m where "svn_rangelist_merge2 out old = Ok m" "wf_rangelist m"
      using merge2_wf out(2) wf_mergeinfo_lookup [OF assms(1)] by blast
    then show ?thesis using Some out(1) wf_mergeinfo_set [OF assms(1,2)] by (auto simp: store_rangelist_def)
  qed
qed (auto simp: store_rangelist_def)

section \<open>The parser\<close>

lemma join_with_set: "set (join_with [c] xs) \<subseteq> insert c (\<Union> (set ` set xs))"
  by (induction xs rule: induct_list012) auto

lemma canonical_form_set: "set (render (True, segments p)) \<subseteq> insert slash (set p)"
  using join_with_set [of slash "segments p"] split_on_set [of _ slash p]
  by (fastforce simp: render_def segments_def)

lemma parse_pathname_total:
  assumes "is_cstring s"
  shows "(\<exists>p q. parse_pathname s = Ok (p, CHR '':'' # q) \<and> source_path p \<and> is_cstring q) \<or>
    (\<exists>msg. parse_pathname s = Err (svn_error_create SVN_ERR_MERGEINFO_PARSE_ERROR msg))"
proof (cases "strrchr (takeWhile (\<lambda>c. c \<noteq> newline) s) CHR '':''")
  case (Some i)
  let ?l = "takeWhile (\<lambda>c. c \<noteq> newline) s"
  have i: "i < length ?l" "?l ! i = CHR '':''" using Some by (auto simp: strrchr_Some)
  then have "i < length s" "s ! i = CHR '':''"
    using length_takeWhile_le [of "\<lambda>c. c \<noteq> newline" s] takeWhile_nth [of i "\<lambda>c. c \<noteq> newline" s] by (linarith, simp)
  then have d: "drop i s = CHR '':'' # drop (Suc i) s" by (metis Cons_nth_drop_Suc)
  have "take i s = take i ?l" using i(1) by (metis append_take_drop_id less_imp_le take_append takeWhile_dropWhile_id
    take_all_iff append_Nil2 diff_is_0_eq take0)
  then have nl: "newline \<notin> set (take i s)" by (metis in_set_takeD set_takeWhileD)
  let ?p = "render (True, segments (take i s))"
  have c: "is_cstring (take i s)" using assms by simp
  have "source_path ?p"
    using c nl canonical_form_set [of "take i s"] fs.form_cstring [OF c] fs.form_idem [OF c] fs.is_canon_iff
    by (auto simp: source_path_def)
  then show ?thesis using Some d c assms by (simp add: parse_pathname_def fspath_canonicalize_eq)
qed (auto simp: parse_pathname_def parse_error_def)

definition ok_or_error :: "('a \<Rightarrow> bool) \<Rightarrow> 'a cres \<Rightarrow> bool" where
  "ok_or_error P r \<longleftrightarrow> (case r of Ok x \<Rightarrow> P x
     | Err e \<Rightarrow> err_code_of e \<in> {SVN_ERR_MERGEINFO_PARSE_ERROR, SVN_ERR_REVNUM_PARSE_FAILURE} | _ \<Rightarrow> False)"

lemma ok_or_error_simps [simp]:
  "ok_or_error P (Ok x) \<longleftrightarrow> P x" "ok_or_error P (parse_error msg)"
  "ok_or_error P (Err (svn_error_create SVN_ERR_MERGEINFO_PARSE_ERROR msg))"
  "ok_or_error P (Err (svn_error_create SVN_ERR_REVNUM_PARSE_FAILURE msg))"
  by (simp_all add: ok_or_error_def parse_error_def svn_error_create_def)

lemma ok_or_error_bind:
  "ok_or_error P r \<Longrightarrow> (\<And>x. r = Ok x \<Longrightarrow> P x \<Longrightarrow> ok_or_error Q (f x)) \<Longrightarrow> ok_or_error Q (cbind r f)"
  by (cases r) (auto simp: ok_or_error_def)

lemma ok_or_error_weaken: "ok_or_error P r \<Longrightarrow> (\<And>x. r = Ok x \<Longrightarrow> P x \<Longrightarrow> Q x) \<Longrightarrow> ok_or_error Q r"
  by (cases r) (auto simp: ok_or_error_def)

lemma ok_or_error_failure: "ok_or_error P r \<Longrightarrow> (\<And>x. r \<noteq> Ok x) \<Longrightarrow> ok_or_error Q (failure r)"
  by (cases r) (auto simp: ok_or_error_def failure_def)

lemma revnum_parse_total: "ok_or_error (\<lambda>_. True) (svn_revnum_parse s)"
  using revnum_parse_eq [of s] by (auto split: if_splits)

lemma parse_range_total: "ok_or_error (\<lambda>_. True) (parse_range s)"
  unfolding parse_range_def parse_range_end_def
  by (auto intro!: ok_or_error_bind [OF revnum_parse_total] ok_or_error_bind [where P = "\<lambda>_. True"])

lemma parse_ranges_total: "ok_or_error (\<lambda>_. True) (parse_ranges s acc)"
proof (induction s arbitrary: acc rule: length_induct)
  case (1 s)
  show ?case
    by (subst parse_ranges.simps)
       (auto simp: Let_def intro!: ok_or_error_bind [OF parse_range_total] 1 [rule_format] dest!: parse_range_shorter)
qed

lemma parse_rangelist_total: "ok_or_error (\<lambda>_. True) (parse_rangelist s)"
  using parse_ranges_total by (simp add: parse_rangelist_def Let_def)

lemma parse_revision_line_total:
  assumes "is_cstring s" "wf_mergeinfo mi"
  shows "ok_or_error wf_mergeinfo (snd (parse_revision_line s mi))"
  using parse_pathname_total [OF assms(1)]
proof (elim disjE exE conjE)
  fix p q assume p: "parse_pathname s = Ok (p, CHR '':'' # q)" "source_path p"
  show ?thesis
  proof (cases "\<exists>x. parse_rangelist q = Ok x")
    case True
    then obtain rl t where t: "parse_rangelist q = Ok (rl, t)" by auto
    have "list_all readable rl" using parse_rangelist_Ok(1) [OF t] by (simp add: list_all_iff)
    then show ?thesis
      using p t store_rangelist_wf [OF assms(2) p(2), of rl] by (auto simp: parse_revision_line_def)
  next
    case False
    then have "snd (parse_revision_line s mi) = failure (parse_rangelist q)"
      by (cases "parse_rangelist q") (auto simp: parse_revision_line_def p(1))
    then show ?thesis using ok_or_error_failure [OF parse_rangelist_total] False by auto
  qed
qed (auto simp: parse_revision_line_def failure_def ok_or_error_def svn_error_create_def)

lemma is_cstring_suffix: "suffix r s \<Longrightarrow> is_cstring s \<Longrightarrow> is_cstring r"
  by (rule is_cstring_set) (auto dest: set_mono_suffix)

lemma parse_revision_line_cstring:
  assumes "parse_revision_line s mi = (r, Ok mi')" "is_cstring s"
  shows "is_cstring r"
proof -
  obtain p q rl t where "parse_pathname s = Ok (p, CHR '':'' # q)" "parse_rangelist q = Ok (rl, t)" "r = tl t"
    using assms(1) by (rule parse_revision_line_Ok)
  moreover from this have "is_cstring q" using parse_pathname_total [OF assms(2)] by auto
  ultimately show ?thesis using parse_rangelist_Ok(3) is_cstring_suffix suffix_tl by metis
qed

lemma parse_top_total:
  assumes "is_cstring s" "wf_mergeinfo mi"
  shows "ok_or_error wf_mergeinfo (snd (parse_top s mi))"
  using assms
proof (induction s arbitrary: mi rule: length_induct)
  case (1 s)
  obtain r res where line: "parse_revision_line s mi = (r, res)" by fastforce
  have tot: "ok_or_error wf_mergeinfo res" using parse_revision_line_total [OF 1(2,3)] line by simp
  show ?case
  proof (cases "\<exists>mi'. res = Ok mi'")
    case True
    then obtain mi' where mi': "res = Ok mi'" by blast
    have "ok_or_error wf_mergeinfo (snd (parse_top r mi'))"
      using 1(1) [rule_format, of r mi'] parse_revision_line_shorter parse_revision_line_cstring line mi' 1(2) tot by simp
    then show ?thesis using 1(3) line mi' by (simp add: parse_top.simps [of s])
  next
    case False
    then have "snd (parse_top s mi) = failure res \<or> snd (parse_top s mi) = Ok mi"
      using line by (cases res) (auto simp: parse_top.simps [of s])
    then show ?thesis using 1(3) tot False ok_or_error_failure [of wf_mergeinfo res] by auto
  qed
qed

section \<open>Printing and parsing\<close>

lemma digit_plain: "ascii_digit c \<Longrightarrow> c \<noteq> CHR '':'' \<and> c \<noteq> newline"
  by (auto simp: ascii_digit_def Let_def)

lemma range_text_plain:
  assumes "readable r"
  shows "CHR '':'' \<notin> set (bare_text r @ mark r)" "newline \<notin> set (bare_text r @ mark r)"
proof -
  have d: "\<forall>c \<in> set (decimal (range_start r + 1)). ascii_digit c" "\<forall>c \<in> set (decimal (range_end r)). ascii_digit c"
    using assms decimal_ok(2) [of "range_start r + 1"] decimal_ok(2) [of "range_end r"] by (auto simp: readable_def)
  then show "CHR '':'' \<notin> set (bare_text r @ mark r)" "newline \<notin> set (bare_text r @ mark r)"
    by (auto simp: bare_text_def mark_def dest!: digit_plain)
qed

lemma ranges_text_plain:
  "ranges_to_string rl = Ok s \<Longrightarrow> list_all readable rl \<Longrightarrow> CHR '':'' \<notin> set s \<and> newline \<notin> set s"
proof (induction rl arbitrary: s rule: ranges_to_string.induct)
  case (2 r)
  then show ?case using range_text_plain [of r] range_to_string_readable [of r] by auto
next
  case (3 r r' rs)
  then show ?case
    using range_text_plain [of r] range_to_string_readable [of r] by (auto simp: cbind_Ok_iff)
qed simp

lemma strrchr_last: "c \<notin> set t \<Longrightarrow> strrchr (p @ c # t) c = Some (length p)"
  by (simp add: strrchr_Some)

lemma parse_line_text:
  assumes "source_path p" "wf_rangelist rl" "rest = [] \<or> hd rest = newline" "map_of mi p = None"
  shows "\<exists>t. mergeinfo_line [] (p, rl) = Ok t \<and> t \<noteq> [] \<and> parse_revision_line (t @ rest) mi = (tl rest, Ok (mi @ [(p, rl)]))"
proof -
  have rl: "rl \<noteq> []" "list_all readable rl" "svn_rangelist__is_canonical rl" using assms(2) by (simp_all add: wf_rangelist_def)
  obtain s where s: "svn_rangelist_to_string rl = Ok s" "parse_rangelist (s @ rest) = Ok (rl, rest)"
    using parse_rangelist_text [OF rl(1) _ assms(3)] rl(2) by (auto simp: list_all_iff)
  have plain: "CHR '':'' \<notin> set s" "newline \<notin> set s"
    using ranges_text_plain s(1) rl(2) by (auto simp: svn_rangelist_to_string_def)
  have p: "is_cstring p" "svn_fspath__is_canonical p" "newline \<notin> set p" using assms(1) by (simp_all add: source_path_def)
  have line: "takeWhile (\<lambda>c. c \<noteq> newline) ((p @ CHR '':'' # s) @ rest) = p @ CHR '':'' # s"
    by (intro takeWhile_prefix [THEN conjunct1]) (use p(3) plain(2) assms(3) in auto)
  have "parse_pathname ((p @ CHR '':'' # s) @ rest) = Ok (p, CHR '':'' # s @ rest)"
    using fs.canonical_iff_fixpoint [OF p(1)] p(2) unfolding parse_pathname_def line
    by (simp add: strrchr_last [OF plain(1)])
  moreover have "store_rangelist mi p rl = Ok (mi @ [(p, rl)])"
    using assms(4) rl(3) map_of_eq_None_iff [of mi p]
    by (simp add: store_rangelist_def svn_rangelist__canonicalize_def hash_set_def)
  moreover have "rest \<noteq> [] \<longrightarrow> c_hd rest = newline" using assms(3) c_hd_hd by auto
  ultimately have "parse_revision_line ((p @ CHR '':'' # s) @ rest) mi = (tl rest, Ok (mi @ [(p, rl)]))"
    using s(2) rl(1) by (cases rest) (auto simp: parse_revision_line_def)
  then show ?thesis using s(1) source_path_slash [OF assms(1)] by (auto simp: mergeinfo_line_def)
qed

lemma parse_lines_text:
  assumes "wf_mergeinfo (mi @ elts)"
  shows "\<exists>s. mergeinfo_lines [] elts = Ok s \<and> parse_top s mi = ([], Ok (mi @ elts))"
  using assms
proof (induction elts arbitrary: mi)
  case Nil
  then show ?case by (simp add: parse_top.simps)
next
  case (Cons e elts)
  obtain p rl where e: "e = (p, rl)" by fastforce
  have wf: "wf_mergeinfo ((mi @ [e]) @ elts)" using Cons.prems by simp
  obtain s where s: "mergeinfo_lines [] elts = Ok s" "parse_top s (mi @ [e]) = ([], Ok ((mi @ [e]) @ elts))"
    using Cons.IH [OF wf] by blast
  let ?rest = "if elts \<noteq> [] then newline # s else []"
  have "elts = [] \<Longrightarrow> s = []" using s(1) by simp
  then have tl: "tl ?rest = s" by simp
  have pre: "source_path p" "wf_rangelist rl" "map_of mi p = None"
    using Cons.prems e by (auto simp: wf_mergeinfo_def map_of_eq_None_iff)
  have "?rest = [] \<or> hd ?rest = newline" by simp
  from parse_line_text [OF pre(1,2) this pre(3)] obtain t where t: "mergeinfo_line [] (p, rl) = Ok t" "t \<noteq> []"
    "parse_revision_line (t @ ?rest) mi = (tl ?rest, Ok (mi @ [(p, rl)]))"
    by blast
  have "parse_top (t @ ?rest) mi = ([], Ok (mi @ e # elts))"
    using t(2) e s(2) by (simp only: parse_top.simps [of "t @ ?rest"] t(3) tl) simp
  moreover have "t @ (if elts \<noteq> [] then [newline] else []) @ s = t @ ?rest" using tl by auto
  ultimately show ?case using s(1) t(1) e by auto
qed

lemma mergeinfo_text_roundtrip:
  assumes "wf_mergeinfo mi"
  shows "\<exists>s mi'. svn_mergeinfo_to_string mi = Ok s \<and> svn_mergeinfo_parse s = Ok mi' \<and> mset mi' = mset mi \<and> wf_mergeinfo mi'"
proof (cases "mi = []")
  case True
  then show ?thesis
    by (simp add: svn_mergeinfo_to_string_def mergeinfo_to_stringbuf_def svn_mergeinfo_parse_def parse_top.simps)
next
  case False
  have "\<forall>k \<in> fst ` set mi. path_key k" using assms source_path_key by (auto simp: wf_mergeinfo_def list_all_iff)
  then obtain items where items: "svn_sort__hash mi svn_sort_compare_items_as_paths = Ok items" "mset items = mset mi"
    using sort_hash_ok by blast
  have keys: "mset (map fst items) = mset (map fst mi)" using items(2) by simp
  have "set items = set mi" using items(2) by (rule mset_eq_setD)
  then have wf: "wf_mergeinfo items"
    using assms mset_eq_imp_distinct_iff [OF keys] by (simp add: wf_mergeinfo_def list_all_iff)
  then obtain s where "mergeinfo_lines [] items = Ok s" "parse_top s [] = ([], Ok items)"
    using parse_lines_text [of "[]" items] by auto
  then show ?thesis
    using items wf False
    by (simp add: svn_mergeinfo_to_string_def mergeinfo_to_stringbuf_def svn_mergeinfo_parse_def)
qed

lemma wf_rangelist_explicit:
  "wf_rangelist rl \<longleftrightarrow> rl \<noteq> [] \<and> svn_rangelist__is_canonical rl \<and> revisions rl \<subseteq> {1 ..< 2 ^ 31}"
proof (cases "svn_rangelist__is_canonical rl")
  case True
  then show ?thesis using readable_revisions [OF True] by (force simp: wf_rangelist_def revision_limit_def)
qed (simp add: wf_rangelist_def)

section \<open>Properties\<close>

text \<open>C23. Parsing always ends with a result or with the error code \<^verbatim>\<open>SVN_ERR_MERGEINFO_PARSE_ERROR\<close>, whatever
  the text: no assertion fails and no access is out of bounds. A result is a well-formed mergeinfo:
  its keys are different canonical absolute paths without newlines, and every key has a canonical
  range list that is not empty and whose revisions lie between 1 and \<open>2^31 - 1\<close>.\<close>

theorem mergeinfo_parse_type:
  assumes "is_cstring s"
  shows "case svn_mergeinfo_parse s of
      Ok mi \<Rightarrow> distinct (map fst mi) \<and>
        (\<forall>(p, rl) \<in> set mi. svn_fspath__is_canonical p \<and> newline \<notin> set p \<and>
          rl \<noteq> [] \<and> svn_rangelist__is_canonical rl \<and> revisions rl \<subseteq> {1 ..< 2 ^ 31})
    | Err e \<Rightarrow> err_code_of e = SVN_ERR_MERGEINFO_PARSE_ERROR
    | _ \<Rightarrow> False"
proof -
  obtain r res where res: "parse_top s [] = (r, res)" by fastforce
  then have "ok_or_error wf_mergeinfo res" using parse_top_total [OF assms, of "[]"] by simp
  then show ?thesis using res
    by (cases res) (auto simp: svn_mergeinfo_parse_def ok_or_error_def wf_mergeinfo_def list_all_iff
        source_path_def wf_rangelist_explicit)
qed

theorem mergeinfo_parse_type_witness:
  "case svn_mergeinfo_parse ''trunk:4-9,2*'' of
      Ok mi \<Rightarrow> distinct (map fst mi)
    | Err e \<Rightarrow> err_code_of e = SVN_ERR_MERGEINFO_PARSE_ERROR
    | _ \<Rightarrow> False"
  using mergeinfo_parse_type [of "''trunk:4-9,2*''"] by (auto simp: is_cstring_def split: cres.splits)

text \<open>C24. A well-formed mergeinfo survives printing and parsing: \<^verbatim>\<open>svn_mergeinfo_to_string\<close> succeeds on it and
  \<^verbatim>\<open>svn_mergeinfo_parse\<close> reads the text back as a hash with the same entries. Paths may contain colons.\<close>

theorem mergeinfo_parse_print:
  assumes "distinct (map fst mi)"
    "\<forall>(p, rl) \<in> set mi. is_cstring p \<and> svn_fspath__is_canonical p \<and> newline \<notin> set p \<and>
       rl \<noteq> [] \<and> svn_rangelist__is_canonical rl \<and> revisions rl \<subseteq> {1 ..< 2 ^ 31}"
  shows "\<exists>s mi'. svn_mergeinfo_to_string mi = Ok s \<and> svn_mergeinfo_parse s = Ok mi' \<and> map_of mi' = map_of mi"
proof -
  have "wf_mergeinfo mi" using assms by (auto simp: wf_mergeinfo_def list_all_iff source_path_def wf_rangelist_explicit)
  from mergeinfo_text_roundtrip [OF this] obtain s mi' where
    s: "svn_mergeinfo_to_string mi = Ok s" "svn_mergeinfo_parse s = Ok mi'" "mset mi' = mset mi" "wf_mergeinfo mi'"
    by blast
  have "map_of mi' = map_of mi"
    using s(3,4) assms(1) map_of_inject_set mset_eq_setD by (metis wf_mergeinfo_def)
  then show ?thesis using s by blast
qed

theorem mergeinfo_parse_print_witness:
  "\<exists>s mi'. svn_mergeinfo_to_string [(''/a:b'', [\<lparr>range_start = 4, range_end = 5, inheritable = False\<rparr>])] = Ok s \<and>
    svn_mergeinfo_parse s = Ok mi' \<and>
    map_of mi' = map_of [(''/a:b'', [\<lparr>range_start = 4, range_end = 5, inheritable = False\<rparr>])]"
proof (rule mergeinfo_parse_print)
  have "svn_fspath__is_canonical ''/a:b''" by code_simp
  then show "\<forall>(p, rl) \<in> set [(''/a:b'', [\<lparr>range_start = 4, range_end = 5, inheritable = False\<rparr>])].
    is_cstring p \<and> svn_fspath__is_canonical p \<and> newline \<notin> set p \<and> rl \<noteq> [] \<and> svn_rangelist__is_canonical rl \<and>
    revisions rl \<subseteq> {1 ..< 2 ^ 31}"
    by (auto simp: canonical_Cons)
qed simp

end
