(* ===== verification/Mergeinfo_Ops.thy ===== *)
theory Mergeinfo_Ops
  imports Mergeinfo_Text Dirent_Many
begin

text \<open>
  The operations of \<^verbatim>\<open>mergeinfo.c\<close> on whole mergeinfo hashes and catalogs, with \<^verbatim>\<open>svn_hash_diff\<close> of
  \<^verbatim>\<open>hash.c\<close>: differences, comparison, union, intersection, removal, and the filters and translations
  of keys and revisions.

  An iteration over a hash is a loop over its entries. A function that fills a new hash returns it;
  one that changes its argument returns the changed hash. A pointer that may be \<^verbatim>\<open>NULL\<close> is an option.
\<close>

section \<open>Copies\<close>

definition svn_merge_range_dup :: "svn_merge_range_t \<Rightarrow> svn_merge_range_t" where
  "svn_merge_range_dup r = \<lparr>range_start = range_start r, range_end = range_end r, inheritable = inheritable r\<rparr>"

definition svn_rangelist_dup :: "svn_rangelist_t \<Rightarrow> svn_rangelist_t" where
  "svn_rangelist_dup rangelist = map svn_merge_range_dup rangelist"

definition svn_mergeinfo_dup :: "svn_mergeinfo_t \<Rightarrow> svn_mergeinfo_t" where
  "svn_mergeinfo_dup mergeinfo =
     foldl (\<lambda>new_mergeinfo (path, rangelist). hash_set new_mergeinfo path (Some (svn_rangelist_dup rangelist))) [] mergeinfo"

definition svn_mergeinfo_catalog_dup :: "svn_mergeinfo_catalog_t \<Rightarrow> svn_mergeinfo_catalog_t" where
  "svn_mergeinfo_catalog_dup catalog =
     foldl (\<lambda>new_catalog (key, val). hash_set new_catalog key (Some (svn_mergeinfo_dup val))) [] catalog"

definition svn_mergeinfo__set_inheritance :: "svn_mergeinfo_t option \<Rightarrow> bool \<Rightarrow> svn_mergeinfo_t option" where
  "svn_mergeinfo__set_inheritance mergeinfo inherit =
     map_option (map (\<lambda>(path, rangelist). (path, svn_rangelist__set_inheritance rangelist inherit))) mergeinfo"

section \<open>Differences\<close>

datatype svn_hash_diff_key_status = svn_hash_diff_key_both | svn_hash_diff_key_a | svn_hash_diff_key_b

definition has_key :: "'v hash option \<Rightarrow> cstring \<Rightarrow> bool" where
  "has_key h key \<longleftrightarrow> (case h of Some ht \<Rightarrow> map_of ht key \<noteq> None | None \<Rightarrow> False)"

definition entries :: "'v hash option \<Rightarrow> 'v hash" where
  "entries h = (case h of Some ht \<Rightarrow> ht | None \<Rightarrow> [])"

definition svn_hash_diff ::
  "'v hash option \<Rightarrow> 'v hash option \<Rightarrow> (cstring \<Rightarrow> svn_hash_diff_key_status \<Rightarrow> 'b \<Rightarrow> 'b cres) \<Rightarrow> 'b \<Rightarrow> 'b cres" where
  "svn_hash_diff hash_a hash_b diff_func diff_func_baton =
     cbind (fold_res (\<lambda>baton (key, _).
              if has_key hash_b key then diff_func key svn_hash_diff_key_both baton
              else diff_func key svn_hash_diff_key_a baton) (entries hash_a) diff_func_baton) (\<lambda>baton.
       fold_res (\<lambda>baton (key, _).
         if \<not> has_key hash_a key then diff_func key svn_hash_diff_key_b baton else Ok baton) (entries hash_b) baton)"

record mergeinfo_diff_baton =
  diff_from :: svn_mergeinfo_t
  diff_to :: svn_mergeinfo_t
  deleted :: "svn_mergeinfo_t option"
  added :: "svn_mergeinfo_t option"
  diff_consider_inheritance :: bool

text \<open>\<^verbatim>\<open>apr_hash_set\<close> on a hash of the baton, unless it is null or the guard is false.\<close>

definition record_ranges :: "bool \<Rightarrow> cstring \<Rightarrow> svn_rangelist_t \<Rightarrow> svn_mergeinfo_t option \<Rightarrow> svn_mergeinfo_t option" where
  "record_ranges guard path rangelist h =
     (case h of Some ht \<Rightarrow> if guard then Some (hash_set ht path (Some rangelist)) else Some ht | None \<Rightarrow> None)"

text \<open>Reading a null list is an access out of bounds.\<close>

definition list_at :: "svn_mergeinfo_t \<Rightarrow> cstring \<Rightarrow> svn_rangelist_t cres" where
  "list_at ht path = (case map_of ht path of Some rangelist \<Rightarrow> Ok rangelist | None \<Rightarrow> Overrun)"

fun mergeinfo_hash_diff_cb ::
  "cstring \<Rightarrow> svn_hash_diff_key_status \<Rightarrow> mergeinfo_diff_baton \<Rightarrow> mergeinfo_diff_baton cres" where
  "mergeinfo_hash_diff_cb path svn_hash_diff_key_both cb =
     cbind (list_at (diff_from cb) path) (\<lambda>from_rangelist.
     cbind (list_at (diff_to cb) path) (\<lambda>to_rangelist.
     cbind (svn_rangelist_diff from_rangelist to_rangelist (diff_consider_inheritance cb))
       (\<lambda>(deleted_rangelist, added_rangelist).
       Ok (cb\<lparr>deleted := record_ranges (length deleted_rangelist > 0) path deleted_rangelist (deleted cb),
              added := record_ranges (length added_rangelist > 0) path added_rangelist (added cb)\<rparr>))))"
| "mergeinfo_hash_diff_cb path svn_hash_diff_key_a cb =
     (if deleted cb \<noteq> None then
        cbind (list_at (diff_from cb) path) (\<lambda>from_rangelist.
          Ok (cb\<lparr>deleted := record_ranges True path (svn_rangelist_dup from_rangelist) (deleted cb)\<rparr>))
      else Ok cb)"
| "mergeinfo_hash_diff_cb path svn_hash_diff_key_b cb =
     (if added cb \<noteq> None then
        cbind (list_at (diff_to cb) path) (\<lambda>to_rangelist.
          Ok (cb\<lparr>added := record_ranges True path (svn_rangelist_dup to_rangelist) (added cb)\<rparr>))
      else Ok cb)"

definition walk_mergeinfo_hash_for_diff ::
  "svn_mergeinfo_t \<Rightarrow> svn_mergeinfo_t \<Rightarrow> svn_mergeinfo_t option \<Rightarrow> svn_mergeinfo_t option \<Rightarrow> bool \<Rightarrow>
     (svn_mergeinfo_t option \<times> svn_mergeinfo_t option) cres" where
  "walk_mergeinfo_hash_for_diff from_info to_info deleted_info added_info consider_inheritance =
     cbind (svn_hash_diff (Some from_info) (Some to_info) mergeinfo_hash_diff_cb
              \<lparr>diff_from = from_info, diff_to = to_info, deleted = deleted_info, added = added_info,
               diff_consider_inheritance = consider_inheritance\<rparr>) (\<lambda>mdb.
       Ok (deleted mdb, added mdb))"

text \<open>The hashes \<^verbatim>\<open>*deleted\<close> and \<^verbatim>\<open>*added\<close>.\<close>

fun svn_mergeinfo_diff2 ::
  "svn_mergeinfo_t option \<Rightarrow> svn_mergeinfo_t option \<Rightarrow> bool \<Rightarrow> (svn_mergeinfo_t \<times> svn_mergeinfo_t) cres" where
  "svn_mergeinfo_diff2 (Some from_info) None consider_inheritance = Ok (svn_mergeinfo_dup from_info, [])"
| "svn_mergeinfo_diff2 None (Some to_info) consider_inheritance = Ok ([], svn_mergeinfo_dup to_info)"
| "svn_mergeinfo_diff2 (Some from_info) (Some to_info) consider_inheritance =
     cbind (walk_mergeinfo_hash_for_diff from_info to_info (Some []) (Some []) consider_inheritance)
       (\<lambda>(d, a). Ok (entries d, entries a))"
| "svn_mergeinfo_diff2 None None consider_inheritance = Ok ([], [])"

definition svn_mergeinfo_remove2 :: "svn_mergeinfo_t \<Rightarrow> svn_mergeinfo_t \<Rightarrow> bool \<Rightarrow> svn_mergeinfo_t cres" where
  "svn_mergeinfo_remove2 eraser whiteboard consider_inheritance =
     cbind (walk_mergeinfo_hash_for_diff whiteboard eraser (Some []) None consider_inheritance)
       (\<lambda>(d, a). Ok (entries d))"

section \<open>Comparison\<close>

text \<open>The loop over two lists of the same length: it ends early with a mismatch of revisions (None), or
  with a mismatch of inheritance (false).\<close>

fun quick_compare :: "bool \<Rightarrow> svn_rangelist_t \<Rightarrow> svn_rangelist_t \<Rightarrow> bool option" where
  "quick_compare consider_inheritance (lrange # lhs) (rrange # rhs) =
     (if range_start lrange \<noteq> range_start rrange \<or> range_end lrange \<noteq> range_end rrange then None
      else if consider_inheritance \<and> inheritable lrange \<noteq> inheritable rrange then Some False
      else quick_compare consider_inheritance lhs rhs)"
| "quick_compare consider_inheritance _ _ = Some True"

definition same_ranges :: "bool \<Rightarrow> svn_rangelist_t \<Rightarrow> svn_rangelist_t \<Rightarrow> bool cres" where
  "same_ranges consider_inheritance lhs rhs =
     (case (if length lhs = length rhs then quick_compare consider_inheritance lhs rhs else None) of
        Some b \<Rightarrow> Ok b
      | None \<Rightarrow>
          cbind (svn_rangelist_diff lhs rhs consider_inheritance) (\<lambda>(deleted_list, added_list).
            Ok (\<not> (length deleted_list \<noteq> 0 \<or> length added_list \<noteq> 0))))"

fun equals_loop :: "bool \<Rightarrow> svn_mergeinfo_t \<Rightarrow> svn_mergeinfo_t \<Rightarrow> bool cres" where
  "equals_loop consider_inheritance [] info2 = Ok True"
| "equals_loop consider_inheritance ((key, lhs) # info1) info2 =
     (case map_of info2 key of
        None \<Rightarrow> Ok False
      | Some rhs \<Rightarrow>
          cbind (same_ranges consider_inheritance lhs rhs) (\<lambda>same.
            if same then equals_loop consider_inheritance info1 info2 else Ok False))"

fun svn_mergeinfo__equals :: "svn_mergeinfo_t option \<Rightarrow> svn_mergeinfo_t option \<Rightarrow> bool \<Rightarrow> bool cres" where
  "svn_mergeinfo__equals None None consider_inheritance = Ok True"
| "svn_mergeinfo__equals (Some info1) (Some info2) consider_inheritance =
     (if length info1 \<noteq> length info2 then Ok False else equals_loop consider_inheritance info1 info2)"
| "svn_mergeinfo__equals _ _ consider_inheritance = Ok False"

section \<open>Union and intersection\<close>

definition merge_entry :: "svn_mergeinfo_t \<Rightarrow> cstring \<times> svn_rangelist_t \<Rightarrow> svn_mergeinfo_t cres" where
  "merge_entry mergeinfo item =
     (case item of (key, to_insert) \<Rightarrow>
        case map_of mergeinfo key of
          Some target \<Rightarrow>
            cbind (svn_rangelist_merge2 target to_insert) (\<lambda>target. Ok (hash_set mergeinfo key (Some target)))
        | None \<Rightarrow> Ok (hash_set mergeinfo key (Some to_insert)))"

definition svn_mergeinfo_merge2 :: "svn_mergeinfo_t \<Rightarrow> svn_mergeinfo_t \<Rightarrow> svn_mergeinfo_t cres" where
  "svn_mergeinfo_merge2 mergeinfo chgs =
     (if length chgs = 0 then Ok mergeinfo else fold_res merge_entry chgs mergeinfo)"

text \<open>The sorted arrays from \<^verbatim>\<open>i\<close> and \<^verbatim>\<open>j\<close> on.\<close>

fun catalog_merge_loop ::
  "(cstring \<times> svn_mergeinfo_t) list \<Rightarrow> (cstring \<times> svn_mergeinfo_t) list \<Rightarrow> svn_mergeinfo_catalog_t \<Rightarrow>
     svn_mergeinfo_catalog_t cres" where
  "catalog_merge_loop (cat_elt # sorted_cat) (change_elt # sorted_changes) cat =
     cbind (svn_sort_compare_items_as_paths cat_elt change_elt) (\<lambda>res.
       if res = 0 then
         cbind (svn_mergeinfo_merge2 (snd cat_elt) (snd change_elt)) (\<lambda>mergeinfo.
           catalog_merge_loop sorted_cat sorted_changes (hash_set cat (fst cat_elt) (Some mergeinfo)))
       else if res < 0 then catalog_merge_loop sorted_cat (change_elt # sorted_changes) cat
       else catalog_merge_loop (cat_elt # sorted_cat) sorted_changes
              (hash_set cat (fst change_elt) (Some (svn_mergeinfo_dup (snd change_elt)))))"
| "catalog_merge_loop [] sorted_changes cat =
     Ok (foldl (\<lambda>cat elt. hash_set cat (fst elt) (Some (svn_mergeinfo_dup (snd elt)))) cat sorted_changes)"
| "catalog_merge_loop (cat_elt # sorted_cat) [] cat = Ok cat"

definition svn_mergeinfo_catalog_merge ::
  "svn_mergeinfo_catalog_t \<Rightarrow> svn_mergeinfo_catalog_t \<Rightarrow> svn_mergeinfo_catalog_t cres" where
  "svn_mergeinfo_catalog_merge mergeinfo_cat changes_cat =
     cbind (svn_sort__hash mergeinfo_cat svn_sort_compare_items_as_paths) (\<lambda>sorted_cat.
     cbind (svn_sort__hash changes_cat svn_sort_compare_items_as_paths) (\<lambda>sorted_changes.
       catalog_merge_loop sorted_cat sorted_changes mergeinfo_cat))"

definition intersect_entry ::
  "svn_mergeinfo_t \<Rightarrow> bool \<Rightarrow> svn_mergeinfo_t \<Rightarrow> cstring \<times> svn_rangelist_t \<Rightarrow> svn_mergeinfo_t cres" where
  "intersect_entry mergeinfo2 consider_inheritance mergeinfo item =
     (case item of (path, rangelist1) \<Rightarrow>
        case map_of mergeinfo2 path of
          Some rangelist2 \<Rightarrow>
            cbind (svn_rangelist_intersect rangelist1 rangelist2 consider_inheritance) (\<lambda>rangelist2.
              Ok (if length rangelist2 > 0 then hash_set mergeinfo path (Some (svn_rangelist_dup rangelist2))
                  else mergeinfo))
        | None \<Rightarrow> Ok mergeinfo)"

definition svn_mergeinfo_intersect2 :: "svn_mergeinfo_t \<Rightarrow> svn_mergeinfo_t \<Rightarrow> bool \<Rightarrow> svn_mergeinfo_t cres" where
  "svn_mergeinfo_intersect2 mergeinfo1 mergeinfo2 consider_inheritance =
     fold_res (intersect_entry mergeinfo2 consider_inheritance) mergeinfo1 []"

definition svn_rangelist__merge_many :: "svn_rangelist_t \<Rightarrow> svn_mergeinfo_t \<Rightarrow> svn_rangelist_t cres" where
  "svn_rangelist__merge_many merged_rangelist merge_history =
     (if length merge_history \<noteq> 0
      then fold_res (\<lambda>merged (_, subtree_rangelist). svn_rangelist_merge2 merged subtree_rangelist)
             merge_history merged_rangelist
      else Ok merged_rangelist)"

section \<open>Every list of a mergeinfo\<close>

definition map_values :: "('v \<Rightarrow> 'v cres) \<Rightarrow> 'v hash \<Rightarrow> 'v hash cres" where
  "map_values f = map_res (\<lambda>(key, val). cbind (f val) (\<lambda>val. Ok (key, val)))"

definition svn_mergeinfo_sort :: "svn_mergeinfo_t \<Rightarrow> svn_mergeinfo_t cres" where
  "svn_mergeinfo_sort input = map_values sort_ranges input"

definition svn_mergeinfo__canonicalize_ranges :: "svn_mergeinfo_t \<Rightarrow> svn_mergeinfo_t cres" where
  "svn_mergeinfo__canonicalize_ranges mergeinfo = map_values svn_rangelist__canonicalize mergeinfo"

definition svn_mergeinfo_inheritable2 ::
  "svn_mergeinfo_t \<Rightarrow> cstring option \<Rightarrow> svn_revnum_t \<Rightarrow> svn_revnum_t \<Rightarrow> bool \<Rightarrow> svn_mergeinfo_t cres" where
  "svn_mergeinfo_inheritable2 mergeinfo path start_rev end_rev inherit =
     fold_res (\<lambda>output (key, rangelist).
       cbind (case path of None \<Rightarrow> Ok True | Some p \<Rightarrow> cbind (svn_path_compare_paths p key) (\<lambda>res. Ok (res = 0))) (\<lambda>chosen.
       cbind (if chosen then svn_rangelist_inheritable2 rangelist start_rev end_rev inherit
              else Ok (svn_rangelist_dup rangelist)) (\<lambda>inheritable_rangelist.
         Ok (if length inheritable_rangelist \<noteq> 0 then hash_set output key (Some inheritable_rangelist) else output))))
       mergeinfo []"

text \<open>Whether some list was empty, and the hash without the empty lists.\<close>

definition svn_mergeinfo__remove_empty_rangelists :: "svn_mergeinfo_t option \<Rightarrow> bool \<times> svn_mergeinfo_t option" where
  "svn_mergeinfo__remove_empty_rangelists mergeinfo =
     (case mergeinfo of
        None \<Rightarrow> (False, None)
      | Some ht \<Rightarrow>
          (case foldl (\<lambda>(removed_some_ranges, h) (path, rangelist).
                 if length rangelist = 0 then (True, hash_set h path None) else (removed_some_ranges, h)) (False, ht) ht of
             (removed_some_ranges, h) \<Rightarrow> (removed_some_ranges, Some h)))"

definition svn_mergeinfo__is_noninheritable :: "svn_mergeinfo_t option \<Rightarrow> bool" where
  "svn_mergeinfo__is_noninheritable mergeinfo =
     (case mergeinfo of
        Some ht \<Rightarrow> list_ex (\<lambda>(path, rangelist). list_ex (\<lambda>r. \<not> inheritable r) rangelist) ht
      | None \<Rightarrow> False)"

section \<open>Keys\<close>

definition svn_mergeinfo__remove_prefix_from_catalog ::
  "svn_mergeinfo_catalog_t \<Rightarrow> cstring \<Rightarrow> svn_mergeinfo_catalog_t cres" where
  "svn_mergeinfo__remove_prefix_from_catalog in_catalog prefix_path =
     asserting (c_at prefix_path 0 = slash)
       (fold_res (\<lambda>out_catalog (original_path, val).
          cbind (svn_fspath__skip_ancestor prefix_path original_path) (\<lambda>new_path.
            case new_path of
              None \<Rightarrow> Abort
            | Some new_path \<Rightarrow> Ok (hash_set out_catalog new_path (Some val)))) in_catalog [])"

definition svn_mergeinfo__add_prefix_to_catalog ::
  "svn_mergeinfo_catalog_t \<Rightarrow> cstring \<Rightarrow> svn_mergeinfo_catalog_t cres" where
  "svn_mergeinfo__add_prefix_to_catalog in_catalog prefix_path =
     fold_res (\<lambda>out_catalog (original_path, val).
       let original_path = (if c_at original_path 0 = slash then tl original_path else original_path) in
       cbind (svn_dirent_join prefix_path original_path) (\<lambda>path. Ok (hash_set out_catalog path (Some val)))) in_catalog []"

definition svn_mergeinfo__add_suffix_to_mergeinfo :: "svn_mergeinfo_t \<Rightarrow> cstring \<Rightarrow> svn_mergeinfo_t cres" where
  "svn_mergeinfo__add_suffix_to_mergeinfo mergeinfo suffix_relpath =
     asserting (svn_relpath_is_canonical suffix_relpath)
       (fold_res (\<lambda>out_mergeinfo (fspath, rangelist).
          cbind (svn_fspath__join fspath suffix_relpath) (\<lambda>path. Ok (hash_set out_mergeinfo path (Some rangelist)))) mergeinfo [])"

section \<open>Revisions\<close>

abbreviation SVN_INVALID_REVNUM :: svn_revnum_t where
  "SVN_INVALID_REVNUM \<equiv> - 1"

text \<open>\<^verbatim>\<open>*youngest_rev\<close> and \<^verbatim>\<open>*oldest_rev\<close>.\<close>

definition svn_mergeinfo__get_range_endpoints :: "svn_mergeinfo_t option \<Rightarrow> svn_revnum_t \<times> svn_revnum_t" where
  "svn_mergeinfo__get_range_endpoints mergeinfo =
     foldl (\<lambda>(youngest_rev, oldest_rev) (path, rangelist).
       if length rangelist \<noteq> 0 then
         (if \<not> SVN_IS_VALID_REVNUM youngest_rev \<or> range_end (last rangelist) > youngest_rev
          then range_end (last rangelist) else youngest_rev,
          if \<not> SVN_IS_VALID_REVNUM oldest_rev \<or> range_start (hd rangelist) < oldest_rev
          then range_start (hd rangelist) else oldest_rev)
       else (youngest_rev, oldest_rev)) (SVN_INVALID_REVNUM, SVN_INVALID_REVNUM) (entries mergeinfo)"

definition svn_mergeinfo__filter_mergeinfo_by_ranges ::
  "svn_mergeinfo_t option \<Rightarrow> svn_revnum_t \<Rightarrow> svn_revnum_t \<Rightarrow> bool \<Rightarrow> svn_mergeinfo_t cres" where
  "svn_mergeinfo__filter_mergeinfo_by_ranges mergeinfo youngest_rev oldest_rev include_range =
     asserting (SVN_IS_VALID_REVNUM youngest_rev) (asserting (SVN_IS_VALID_REVNUM oldest_rev)
       (asserting (oldest_rev < youngest_rev)
         (let filter_rangelist = svn_rangelist__initialize oldest_rev youngest_rev True in
          fold_res (\<lambda>filtered_mergeinfo (path, rangelist).
            if length rangelist \<noteq> 0 then
              cbind (rangelist_intersect_or_remove filter_rangelist rangelist (\<not> include_range) False) (\<lambda>new_rangelist.
                Ok (if length new_rangelist \<noteq> 0 then hash_set filtered_mergeinfo path (Some new_rangelist)
                    else filtered_mergeinfo))
            else Ok filtered_mergeinfo) (entries mergeinfo) [])))"

definition svn_mergeinfo__filter_catalog_by_ranges ::
  "svn_mergeinfo_catalog_t \<Rightarrow> svn_revnum_t \<Rightarrow> svn_revnum_t \<Rightarrow> bool \<Rightarrow> svn_mergeinfo_catalog_t cres" where
  "svn_mergeinfo__filter_catalog_by_ranges catalog youngest_rev oldest_rev include_range =
     fold_res (\<lambda>filtered_cat (path, mergeinfo).
       cbind (svn_mergeinfo__filter_mergeinfo_by_ranges (Some mergeinfo) youngest_rev oldest_rev include_range)
         (\<lambda>filtered_mergeinfo.
           Ok (if length filtered_mergeinfo \<noteq> 0 then hash_set filtered_cat path (Some filtered_mergeinfo)
               else filtered_cat))) catalog []"

text \<open>The ranges are moved in place, so the lists of the argument change with the result. The sums are
  those of \<^verbatim>\<open>long\<close> values and stay far from its limits for revisions and offsets of 32 bits.\<close>

definition keeps_positive :: "svn_revnum_t \<Rightarrow> svn_merge_range_t \<Rightarrow> bool" where
  "keeps_positive offset r \<longleftrightarrow> range_start r + offset > 0 \<and> range_end r + offset > 0"

definition move_range :: "svn_revnum_t \<Rightarrow> svn_merge_range_t \<Rightarrow> svn_merge_range_t" where
  "move_range offset r = r\<lparr>range_start := range_start r + offset, range_end := range_end r + offset\<rparr>"

definition svn_mergeinfo__adjust_mergeinfo_rangelists ::
  "svn_mergeinfo_t option \<Rightarrow> svn_revnum_t \<Rightarrow> svn_mergeinfo_t \<times> svn_mergeinfo_t option" where
  "svn_mergeinfo__adjust_mergeinfo_rangelists mergeinfo offset =
     (foldl (\<lambda>adjusted_mergeinfo (path, rangelist).
        let adjusted_rangelist = map (move_range offset) (filter (keeps_positive offset) rangelist) in
        if length adjusted_rangelist \<noteq> 0 then hash_set adjusted_mergeinfo path (Some adjusted_rangelist)
        else adjusted_mergeinfo) [] (entries mergeinfo),
      map_option (map (\<lambda>(path, rangelist).
        (path, map (\<lambda>r. if keeps_positive offset r then move_range offset r else r) rangelist))) mergeinfo)"

section \<open>Location segments\<close>

record svn_location_segment_t =
  segment_start :: svn_revnum_t
  segment_end :: svn_revnum_t
  segment_path :: "cstring option"

definition add_segment :: "svn_mergeinfo_t \<Rightarrow> svn_location_segment_t \<Rightarrow> svn_mergeinfo_t" where
  "add_segment mergeinfo segment =
     (case segment_path segment of
        None \<Rightarrow> mergeinfo
      | Some path \<Rightarrow>
          let source = slash # path;
              path_ranges = (case map_of mergeinfo source of Some ranges \<Rightarrow> ranges | None \<Rightarrow> []) in
          if segment_start segment = 0 \<and> segment_end segment = 0 then mergeinfo
          else hash_set mergeinfo source (Some (path_ranges @
            [\<lparr>range_start = max (segment_start segment - 1) 0, range_end = segment_end segment, inheritable = True\<rparr>])))"

definition svn_mergeinfo__mergeinfo_from_segments :: "svn_location_segment_t list \<Rightarrow> svn_mergeinfo_t" where
  "svn_mergeinfo__mergeinfo_from_segments segs = foldl add_segment [] segs"

section \<open>Words\<close>

datatype svn_mergeinfo_inheritance_t = svn_mergeinfo_explicit | svn_mergeinfo_inherited | svn_mergeinfo_nearest_ancestor

fun svn_inheritance_to_word :: "svn_mergeinfo_inheritance_t \<Rightarrow> string" where
  "svn_inheritance_to_word svn_mergeinfo_inherited = ''inherited''"
| "svn_inheritance_to_word svn_mergeinfo_nearest_ancestor = ''nearest-ancestor''"
| "svn_inheritance_to_word svn_mergeinfo_explicit = ''explicit''"

definition svn_inheritance_from_word :: "cstring \<Rightarrow> svn_mergeinfo_inheritance_t" where
  "svn_inheritance_from_word word =
     (if word = ''inherited'' then svn_mergeinfo_inherited
      else if word = ''nearest-ancestor'' then svn_mergeinfo_nearest_ancestor
      else svn_mergeinfo_explicit)"

end
