(* ===== verification/Mergeinfo_Correct.thy ===== *)
theory Mergeinfo_Correct
  imports Mergeinfo_Ops
begin

text \<open>
  What the operations on mergeinfo compute. A mergeinfo stands for the function that gives every path and
  revision its kind (\<open>kinds\<close>), or for the set of its merged revisions (\<open>merged_revisions\<close>). The locale
  \<open>revision_sets\<close> is the contract range lists and mergeinfo share: union, difference and intersection that
  always succeed. The catalogs are merged path by path.
\<close>

section \<open>Loops over the entries of a hash\<close>

text \<open>A loop whose body for a key changes only what the state says of that key: at the end the state
  says of every key what the body made of its entry.\<close>

lemma keyed_loop:
  assumes "distinct (map fst xs)" "I s0"
    and "\<And>s k v. (k, v) \<in> set xs \<Longrightarrow> I s \<Longrightarrow> look s k = look s0 k \<Longrightarrow>
      \<exists>s'. body s (k, v) = Ok s' \<and> I s' \<and> R k v (look s' k) \<and> (\<forall>k'. k' \<noteq> k \<longrightarrow> look s' k' = look s k')"
  shows "\<exists>s'. fold_res body xs s0 = Ok s' \<and> I s' \<and>
    (\<forall>k. case map_of xs k of Some v \<Rightarrow> R k v (look s' k) | None \<Rightarrow> look s' k = look s0 k)"
  using assms
proof (induction xs arbitrary: s0)
  case (Cons x xs)
  obtain k v where x: "x = (k, v)" by fastforce
  obtain s1 where s1: "body s0 (k, v) = Ok s1" "I s1" "R k v (look s1 k)" "\<And>k'. k' \<noteq> k \<Longrightarrow> look s1 k' = look s0 k'"
    using Cons.prems(3) [of k v s0] Cons.prems(2) x by auto
  have new: "k \<notin> fst ` set xs" using Cons.prems(1) x by simp
  have "\<exists>s'. fold_res body xs s1 = Ok s' \<and> I s' \<and>
    (\<forall>k. case map_of xs k of Some v \<Rightarrow> R k v (look s' k) | None \<Rightarrow> look s' k = look s1 k)"
  proof (rule Cons.IH [OF _ s1(2)])
    show "distinct (map fst xs)" using Cons.prems(1) by simp
    fix s k' v' assume a: "(k', v') \<in> set xs" "I s" "look s k' = look s1 k'"
    then have "k' \<noteq> k" using new by force
    then show "\<exists>s'. body s (k', v') = Ok s' \<and> I s' \<and> R k' v' (look s' k') \<and> (\<forall>k''. k'' \<noteq> k' \<longrightarrow> look s' k'' = look s k'')"
      using Cons.prems(3) [of k' v' s] a s1(4) by simp
  qed
  then obtain s' where s': "fold_res body xs s1 = Ok s'" "I s'"
    "\<And>k. case map_of xs k of Some v \<Rightarrow> R k v (look s' k) | None \<Rightarrow> look s' k = look s1 k" by blast
  have none: "map_of xs k = None" using new by (simp add: map_of_eq_None_iff)
  have "case map_of (x # xs) k' of Some v \<Rightarrow> R k' v (look s' k') | None \<Rightarrow> look s' k' = look s0 k'" for k'
    using s'(3) [of k'] s'(3) [of k] s1(3) s1(4) [of k'] x none by (cases "k' = k") (auto split: option.splits)
  then show ?case using s1(1) s'(1,2) x by auto
qed simp

text \<open>The same for a loop that fills a hash.\<close>

definition put :: "'v hash \<Rightarrow> cstring \<Rightarrow> 'v option \<Rightarrow> 'v hash" where
  "put h k r = (case r of Some v \<Rightarrow> hash_set h k (Some v) | None \<Rightarrow> h)"

lemma put_lookup: "map_of (put h k r) k' = (if k' = k \<and> r \<noteq> None then r else map_of h k')"
  by (auto simp: put_def hash_set_lookup split: option.split)

lemma put_distinct: "distinct (map fst h) \<Longrightarrow> distinct (map fst (put h k r))"
  by (auto simp: put_def hash_set_distinct split: option.split)

lemma filling_loop:
  assumes "distinct (map fst xs)" "distinct (map fst h0)"
    and "\<And>h k v. (k, v) \<in> set xs \<Longrightarrow> map_of h k = map_of h0 k \<Longrightarrow> \<exists>r. body h (k, v) = Ok (put h k r) \<and> R k v r"
  shows "\<exists>h. fold_res body xs h0 = Ok h \<and> distinct (map fst h) \<and>
    (\<forall>k. case map_of xs k of Some v \<Rightarrow> \<exists>r. R k v r \<and> map_of h k = (if r = None then map_of h0 k else r)
       | None \<Rightarrow> map_of h k = map_of h0 k)"
proof -
  have "\<exists>h. fold_res body xs h0 = Ok h \<and> distinct (map fst h) \<and>
    (\<forall>k. case map_of xs k of Some v \<Rightarrow> \<exists>r. R k v r \<and> map_of h k = (if r = None then map_of h0 k else r)
       | None \<Rightarrow> map_of h k = map_of h0 k)"
  proof (rule keyed_loop [where look = map_of and I = "\<lambda>h. distinct (map fst h)"])
    fix h k v assume a: "(k, v) \<in> set xs" "distinct (map fst h)" "map_of h k = map_of h0 k"
    then obtain r where r: "body h (k, v) = Ok (put h k r)" "R k v r" using assms(3) by blast
    then show "\<exists>h'. body h (k, v) = Ok h' \<and> distinct (map fst h') \<and>
      (\<exists>r. R k v r \<and> map_of h' k = (if r = None then map_of h0 k else r)) \<and> (\<forall>k'. k' \<noteq> k \<longrightarrow> map_of h' k' = map_of h k')"
      using a put_distinct by (intro exI [of _ "put h k r"]) (auto simp: put_lookup)
  qed (use assms in auto)
  then show ?thesis .
qed

section \<open>What a mergeinfo says\<close>

definition kinds :: "svn_mergeinfo_t \<Rightarrow> cstring \<Rightarrow> svn_revnum_t \<Rightarrow> rangelist_interval_kind_t" where
  "kinds mi p n = (case map_of mi p of Some rl \<Rightarrow> kind_at rl n | None \<Rightarrow> MI_NONE)"

definition revs :: "svn_mergeinfo_t \<Rightarrow> cstring \<Rightarrow> svn_revnum_t set" where
  "revs mi p = (case map_of mi p of Some rl \<Rightarrow> revisions rl | None \<Rightarrow> {})"

definition mergeinfo_ok :: "svn_mergeinfo_t \<Rightarrow> bool" where
  "mergeinfo_ok mi \<longleftrightarrow> distinct (map fst mi) \<and> (\<forall>(p, rl) \<in> set mi. ranges_ok 0 rl)"

lemma mergeinfo_ok_Nil [simp]: "mergeinfo_ok []"
  by (simp add: mergeinfo_ok_def)

lemma mergeinfo_ok_iff: "mergeinfo_ok mi \<longleftrightarrow> distinct (map fst mi) \<and> (\<forall>p rl. map_of mi p = Some rl \<longrightarrow> ranges_ok 0 rl)"
  by (auto simp: mergeinfo_ok_def dest: map_of_SomeD)

lemma wf_mergeinfo_ok: "wf_mergeinfo mi \<Longrightarrow> mergeinfo_ok mi"
  using wf_rangelist_ranges_ok by (fastforce simp: wf_mergeinfo_def mergeinfo_ok_def list_all_iff)

lemma range_dup [simp]: "svn_merge_range_dup r = r"
  by (simp add: svn_merge_range_dup_def)

lemma rangelist_dup [simp]: "svn_rangelist_dup rl = rl"
  by (simp add: svn_rangelist_dup_def map_idI)

lemma hash_copy:
  assumes "distinct (map fst (h0 @ h))"
  shows "foldl (\<lambda>new (k, v). hash_set new k (Some v)) h0 h = h0 @ h"
  using assms
proof (induction h arbitrary: h0)
  case (Cons e h)
  obtain k v where e: "e = (k, v)" by fastforce
  have "hash_set h0 k (Some v) = h0 @ [e]" using Cons.prems e by (auto simp: hash_set_def)
  then show ?case using Cons.IH [of "h0 @ [e]"] Cons.prems e by simp
qed simp

lemma mergeinfo_dup: "distinct (map fst mi) \<Longrightarrow> svn_mergeinfo_dup mi = mi"
  using hash_copy [of "[]" mi] by (simp add: svn_mergeinfo_dup_def)

section \<open>Union\<close>

lemma mergeinfo_merge_ok:
  assumes "mergeinfo_ok mi" "mergeinfo_ok chg"
  shows "\<exists>out. svn_mergeinfo_merge2 mi chg = Ok out \<and> mergeinfo_ok out \<and>
    (\<forall>p. map_of out p = (case map_of chg p of None \<Rightarrow> map_of mi p
       | Some c \<Rightarrow> (case map_of mi p of None \<Rightarrow> Some c | Some m \<Rightarrow> (case svn_rangelist_merge2 m c of Ok r \<Rightarrow> Some r | _ \<Rightarrow> None))))"
proof -
  have body: "\<exists>r. merge_entry h (k, v) = Ok (put h k r) \<and> r = (case map_of mi k of None \<Rightarrow> Some v
      | Some m \<Rightarrow> (case svn_rangelist_merge2 m v of Ok r \<Rightarrow> Some r | _ \<Rightarrow> None)) \<and> r \<noteq> None \<and> ranges_ok 0 (the r)"
    if "(k, v) \<in> set chg" "map_of h k = map_of mi k" for h k v
  proof (cases "map_of mi k")
    case None
    then show ?thesis using that assms(2) by (auto simp: merge_entry_def put_def mergeinfo_ok_def)
  next
    case (Some m)
    then have "ranges_ok 0 m" "ranges_ok 0 v" using that assms by (auto simp: mergeinfo_ok_def dest: map_of_SomeD)
    from merge2_ok [OF this] show ?thesis using Some that(2) by (auto simp: merge_entry_def put_def)
  qed
  from filling_loop [OF _ _ body, where ?h0.0 = mi]
  obtain out where out: "fold_res merge_entry chg mi = Ok out" "distinct (map fst out)"
    "\<And>k. case map_of chg k of Some v \<Rightarrow> \<exists>r. (r = (case map_of mi k of None \<Rightarrow> Some v
        | Some m \<Rightarrow> (case svn_rangelist_merge2 m v of Ok r \<Rightarrow> Some r | _ \<Rightarrow> None)) \<and> r \<noteq> None \<and> ranges_ok 0 (the r)) \<and>
        map_of out k = (if r = None then map_of mi k else r)
      | None \<Rightarrow> map_of out k = map_of mi k"
    using assms unfolding mergeinfo_ok_def by blast
  have look: "map_of out p = (case map_of chg p of None \<Rightarrow> map_of mi p
       | Some c \<Rightarrow> (case map_of mi p of None \<Rightarrow> Some c | Some m \<Rightarrow> (case svn_rangelist_merge2 m c of Ok r \<Rightarrow> Some r | _ \<Rightarrow> None)))" for p
    using out(3) [of p] by (cases "map_of chg p") auto
  have "ranges_ok 0 rl" if "map_of out p = Some rl" for p rl
    using out(3) [of p] that assms(1) unfolding mergeinfo_ok_iff by (auto split: option.splits)
  then have "mergeinfo_ok out" using out(2) by (simp add: mergeinfo_ok_iff)
  moreover have "svn_mergeinfo_merge2 mi chg = Ok out" using out(1) by (auto simp: svn_mergeinfo_merge2_def)
  ultimately show ?thesis using look by blast
qed

lemma mergeinfo_merge_kinds:
  assumes "mergeinfo_ok mi" "mergeinfo_ok chg"
  shows "\<exists>out. svn_mergeinfo_merge2 mi chg = Ok out \<and> mergeinfo_ok out \<and>
    (\<forall>p n. kinds out p n = max (kinds mi p n) (kinds chg p n))"
proof -
  obtain out where out: "svn_mergeinfo_merge2 mi chg = Ok out" "mergeinfo_ok out"
    "\<And>p. map_of out p = (case map_of chg p of None \<Rightarrow> map_of mi p
       | Some c \<Rightarrow> (case map_of mi p of None \<Rightarrow> Some c | Some m \<Rightarrow> (case svn_rangelist_merge2 m c of Ok r \<Rightarrow> Some r | _ \<Rightarrow> None)))"
    using mergeinfo_merge_ok [OF assms] by blast
  have "kinds out p n = max (kinds mi p n) (kinds chg p n)" for p n
  proof (cases "\<exists>m c. map_of mi p = Some m \<and> map_of chg p = Some c")
    case True
    then obtain m c where mc: "map_of mi p = Some m" "map_of chg p = Some c" by blast
    then have "ranges_ok 0 m" "ranges_ok 0 c" using assms by (auto simp: mergeinfo_ok_iff)
    from merge2_ok [OF this] show ?thesis using out(3) [of p] mc by (auto simp: kinds_def)
  next
    case False
    then show ?thesis using out(3) [of p] by (cases "map_of mi p"; cases "map_of chg p") (auto simp: kinds_def)
  qed
  then show ?thesis using out by blast
qed

section \<open>Differences\<close>

definition unless_empty :: "svn_rangelist_t \<Rightarrow> svn_rangelist_t option" where
  "unless_empty rl = (if rl = [] then None else Some rl)"

text \<open>What the walk records for a path, given its two lists.\<close>

definition diff_entry ::
  "bool \<Rightarrow> svn_rangelist_t option \<Rightarrow> svn_rangelist_t option \<Rightarrow> svn_rangelist_t option \<times> svn_rangelist_t option" where
  "diff_entry c f t =
     (case (f, t) of
        (Some fl, Some tol) \<Rightarrow> (case svn_rangelist_diff fl tol c of Ok (d, a) \<Rightarrow> (unless_empty d, unless_empty a) | _ \<Rightarrow> (None, None))
      | (Some fl, None) \<Rightarrow> (Some fl, None)
      | (None, Some tol) \<Rightarrow> (None, Some tol)
      | (None, None) \<Rightarrow> (None, None))"

definition recorded :: "svn_mergeinfo_t option \<Rightarrow> cstring \<Rightarrow> svn_rangelist_t option" where
  "recorded h k = (case h of Some ht \<Rightarrow> map_of ht k | None \<Rightarrow> None)"

lemma recorded_ranges:
  "recorded (record_ranges g k rl h) k' = (if k' = k \<and> g \<and> h \<noteq> None then Some rl else recorded h k')"
  by (auto simp: recorded_def record_ranges_def hash_set_lookup split: option.split)

lemma record_ranges_None [simp]: "record_ranges g k rl h = None \<longleftrightarrow> h = None"
  by (auto simp: record_ranges_def split: option.split)

lemma record_ranges_Some [simp]: "(\<exists>ht. record_ranges g k rl h = Some ht) \<longleftrightarrow> h \<noteq> None"
  by (auto simp: record_ranges_def split: option.split)

lemma record_ranges_distinct:
  "distinct (map fst (entries h)) \<Longrightarrow> distinct (map fst (entries (record_ranges g k rl h)))"
  by (auto simp: record_ranges_def entries_def hash_set_distinct split: option.split)

lemma rangelist_diff_ok:
  assumes "ranges_ok 0 fl" "ranges_ok 0 tol"
  shows "\<exists>d a. svn_rangelist_diff fl tol c = Ok (d, a) \<and> ranges_ok 0 d \<and> ranges_ok 0 a"
proof (cases c)
  case True
  then show ?thesis using remove_kinds [OF assms] remove_kinds [OF assms(2,1)] by (auto simp: svn_rangelist_diff_def)
next
  case False
  then show ?thesis using remove_revisions [OF assms] remove_revisions [OF assms(2,1)] by (auto simp: svn_rangelist_diff_def)
qed

text \<open>The hashes of the baton stay hashes, and only they change.\<close>

definition walking ::
  "svn_mergeinfo_t \<Rightarrow> svn_mergeinfo_t \<Rightarrow> bool \<Rightarrow> bool \<Rightarrow> bool \<Rightarrow> mergeinfo_diff_baton \<Rightarrow> bool" where
  "walking f t c dn an cb \<longleftrightarrow> diff_from cb = f \<and> diff_to cb = t \<and> diff_consider_inheritance cb = c \<and>
     (deleted cb = None) = dn \<and> (added cb = None) = an \<and>
     distinct (map fst (entries (deleted cb))) \<and> distinct (map fst (entries (added cb)))"

definition seen_in :: "mergeinfo_diff_baton \<Rightarrow> cstring \<Rightarrow> svn_rangelist_t option \<times> svn_rangelist_t option" where
  "seen_in cb k = (recorded (deleted cb) k, recorded (added cb) k)"

definition hide :: "bool \<Rightarrow> 'a option \<Rightarrow> 'a option" where
  "hide b x = (if b then None else x)"

lemma diff_cb_step:
  assumes "mergeinfo_ok f" "mergeinfo_ok t" "walking f t c dn an cb" "seen_in cb k = (None, None)"
    "st = (if map_of t k = None then svn_hash_diff_key_a else if map_of f k = None then svn_hash_diff_key_b
       else svn_hash_diff_key_both)" "map_of f k \<noteq> None \<or> map_of t k \<noteq> None"
  shows "\<exists>cb'. mergeinfo_hash_diff_cb k st cb = Ok cb' \<and> walking f t c dn an cb' \<and>
    seen_in cb' k = (hide dn (fst (diff_entry c (map_of f k) (map_of t k))), hide an (snd (diff_entry c (map_of f k) (map_of t k)))) \<and>
    (\<forall>k'. k' \<noteq> k \<longrightarrow> seen_in cb' k' = seen_in cb k')"
proof -
  have w: "diff_from cb = f" "diff_to cb = t" "diff_consider_inheritance cb = c" "(deleted cb = None) = dn" "(added cb = None) = an"
    "distinct (map fst (entries (deleted cb)))" "distinct (map fst (entries (added cb)))"
    "recorded (deleted cb) k = None" "recorded (added cb) k = None"
    using assms(3,4) by (auto simp: walking_def seen_in_def)
  consider (a) fl where "map_of f k = Some fl" "map_of t k = None" | (b) tol where "map_of f k = None" "map_of t k = Some tol"
    | (both) fl tol where "map_of f k = Some fl" "map_of t k = Some tol" using assms(6) by fastforce
  then show ?thesis
  proof cases
    case a
    then show ?thesis using assms(5) w
      by (auto simp: list_at_def walking_def seen_in_def recorded_ranges diff_entry_def hide_def record_ranges_distinct)
  next
    case b
    then show ?thesis using assms(5) w
      by (auto simp: list_at_def walking_def seen_in_def recorded_ranges diff_entry_def hide_def record_ranges_distinct)
  next
    case both
    then have "ranges_ok 0 fl" "ranges_ok 0 tol" using assms(1,2) by (auto simp: mergeinfo_ok_iff)
    then obtain d a where "svn_rangelist_diff fl tol c = Ok (d, a)" using rangelist_diff_ok by blast
    then show ?thesis using assms(5) w both
      by (auto simp: list_at_def walking_def seen_in_def recorded_ranges diff_entry_def hide_def record_ranges_distinct unless_empty_def)
  qed
qed

lemma walk_ok:
  assumes f: "mergeinfo_ok f" and t: "mergeinfo_ok t" and start: "d0 \<in> {None, Some []}" "a0 \<in> {None, Some []}"
  shows "\<exists>d a. walk_mergeinfo_hash_for_diff f t d0 a0 c = Ok (d, a) \<and>
    distinct (map fst (entries d)) \<and> distinct (map fst (entries a)) \<and>
    (\<forall>k. recorded d k = hide (d0 = None) (fst (diff_entry c (map_of f k) (map_of t k))) \<and>
         recorded a k = hide (a0 = None) (snd (diff_entry c (map_of f k) (map_of t k))))"
proof -
  define cb0 where "cb0 = \<lparr>diff_from = f, diff_to = t, deleted = d0, added = a0, diff_consider_inheritance = c\<rparr>"
  define goal where "goal k = (hide (d0 = None) (fst (diff_entry c (map_of f k) (map_of t k))),
    hide (a0 = None) (snd (diff_entry c (map_of f k) (map_of t k))))" for k
  let ?w = "walking f t c (d0 = None) (a0 = None)"
  have cb0: "?w cb0" "\<And>k. seen_in cb0 k = (None, None)"
    using start by (auto simp: walking_def cb0_def seen_in_def recorded_def entries_def)
  let ?b1 = "\<lambda>baton (key, _). if has_key (Some t) key then mergeinfo_hash_diff_cb key svn_hash_diff_key_both baton
    else mergeinfo_hash_diff_cb key svn_hash_diff_key_a baton"
  have step1: "\<exists>s'. ?b1 s (k, v) = Ok s' \<and> ?w s' \<and> seen_in s' k = goal k \<and> (\<forall>k'. k' \<noteq> k \<longrightarrow> seen_in s' k' = seen_in s k')"
    if "(k, v) \<in> set f" "?w s" "seen_in s k = seen_in cb0 k" for s k v
  proof -
    have k: "map_of f k \<noteq> None" using that(1) by (metis map_of_eq_None_iff fst_conv image_eqI)
    show ?thesis
    proof (cases "map_of t k = None")
      case True
      then show ?thesis using diff_cb_step [OF f t that(2), of k svn_hash_diff_key_a] that(3) cb0(2) k
        by (simp add: has_key_def goal_def)
    next
      case False
      then show ?thesis using diff_cb_step [OF f t that(2), of k svn_hash_diff_key_both] that(3) cb0(2) k
        by (simp add: has_key_def goal_def)
    qed
  qed
  have "distinct (map fst f)" using f by (simp add: mergeinfo_ok_def)
  from keyed_loop [where body = ?b1 and look = seen_in and I = ?w and R = "\<lambda>k v r. r = goal k", OF this cb0(1) step1]
  obtain cb1 where cb1: "fold_res ?b1 f cb0 = Ok cb1" "?w cb1"
    "\<And>k. case map_of f k of Some v \<Rightarrow> seen_in cb1 k = goal k | None \<Rightarrow> seen_in cb1 k = seen_in cb0 k" by blast
  let ?b2 = "\<lambda>baton (key, _). if \<not> has_key (Some f) key then mergeinfo_hash_diff_cb key svn_hash_diff_key_b baton else Ok baton"
  have step2: "\<exists>s'. ?b2 s (k, v) = Ok s' \<and> ?w s' \<and> seen_in s' k = goal k \<and> (\<forall>k'. k' \<noteq> k \<longrightarrow> seen_in s' k' = seen_in s k')"
    if "(k, v) \<in> set t" "?w s" "seen_in s k = seen_in cb1 k" for s k v
  proof -
    have k: "map_of t k \<noteq> None" using that(1) by (metis map_of_eq_None_iff fst_conv image_eqI)
    show ?thesis
    proof (cases "map_of f k")
      case None
      then show ?thesis using diff_cb_step [OF f t that(2), of k svn_hash_diff_key_b] that(3) cb1(3) [of k] cb0(2) k
        by (simp add: has_key_def goal_def)
    next
      case (Some v')
      then show ?thesis using that cb1(3) [of k] by (simp add: has_key_def)
    qed
  qed
  have "distinct (map fst t)" using t by (simp add: mergeinfo_ok_def)
  from keyed_loop [where body = ?b2 and look = seen_in and I = ?w and R = "\<lambda>k v r. r = goal k", OF this cb1(2) step2]
  obtain cb2 where cb2: "fold_res ?b2 t cb1 = Ok cb2" "?w cb2"
    "\<And>k. case map_of t k of Some v \<Rightarrow> seen_in cb2 k = goal k | None \<Rightarrow> seen_in cb2 k = seen_in cb1 k" by blast
  have "seen_in cb2 k = goal k" for k
    using cb1(3) [of k] cb2(3) [of k] cb0(2)
    by (cases "map_of t k"; cases "map_of f k") (simp_all add: goal_def diff_entry_def hide_def)
  moreover have "walk_mergeinfo_hash_for_diff f t d0 a0 c = Ok (deleted cb2, added cb2)"
    using cb1(1) cb2(1) by (simp add: walk_mergeinfo_hash_for_diff_def svn_hash_diff_def entries_def cb0_def)
  ultimately show ?thesis using cb2(2) by (simp add: seen_in_def goal_def walking_def)
qed

definition revs_of :: "svn_rangelist_t option \<Rightarrow> svn_revnum_t set" where
  "revs_of o_rl = (case o_rl of Some rl \<Rightarrow> revisions rl | None \<Rightarrow> {})"

lemma revs_of_simps [simp]: "revs_of None = {}" "revs_of (Some rl) = revisions rl" "revs_of (unless_empty rl) = revisions rl"
  by (simp_all add: revs_of_def unless_empty_def)

lemma revs_eq: "revs mi p = revs_of (map_of mi p)"
  by (simp add: revs_def revs_of_def)

lemma diff_entry_revs:
  assumes "mergeinfo_ok f" "mergeinfo_ok t"
  shows "revs_of (fst (diff_entry False (map_of f k) (map_of t k))) = revs f k - revs t k \<and>
    revs_of (snd (diff_entry False (map_of f k) (map_of t k))) = revs t k - revs f k"
proof (cases "\<exists>fl tol. map_of f k = Some fl \<and> map_of t k = Some tol")
  case True
  then obtain fl tol where l: "map_of f k = Some fl" "map_of t k = Some tol" by blast
  then have "ranges_ok 0 fl" "ranges_ok 0 tol" using assms by (auto simp: mergeinfo_ok_iff)
  from remove_revisions [OF this] remove_revisions [OF this(2,1)]
  show ?thesis using l by (auto simp: diff_entry_def svn_rangelist_diff_def revs_eq)
next
  case False
  then show ?thesis by (cases "map_of f k"; cases "map_of t k") (auto simp: diff_entry_def revs_eq)
qed

lemma diff_entry_ok:
  assumes "mergeinfo_ok f" "mergeinfo_ok t"
  shows "fst (diff_entry c (map_of f k) (map_of t k)) = Some rl \<Longrightarrow> ranges_ok 0 rl"
    "snd (diff_entry c (map_of f k) (map_of t k)) = Some rl \<Longrightarrow> ranges_ok 0 rl"
proof -
  have "\<exists>d a. svn_rangelist_diff fl tol c = Ok (d, a) \<and> ranges_ok 0 d \<and> ranges_ok 0 a"
    if "map_of f k = Some fl" "map_of t k = Some tol" for fl tol
    using that assms by (intro rangelist_diff_ok) (auto simp: mergeinfo_ok_iff)
  then show "fst (diff_entry c (map_of f k) (map_of t k)) = Some rl \<Longrightarrow> ranges_ok 0 rl"
    "snd (diff_entry c (map_of f k) (map_of t k)) = Some rl \<Longrightarrow> ranges_ok 0 rl"
    using assms
    by (cases "map_of f k"; cases "map_of t k"; force simp: diff_entry_def unless_empty_def mergeinfo_ok_iff split: if_splits)+
qed

lemma recorded_entries: "recorded d k = map_of (entries d) k"
  by (simp add: recorded_def entries_def split: option.split)

lemma mergeinfo_diff_revs:
  assumes "mergeinfo_ok f" "mergeinfo_ok t"
  shows "\<exists>d a. svn_mergeinfo_diff2 (Some f) (Some t) False = Ok (d, a) \<and> mergeinfo_ok d \<and> mergeinfo_ok a \<and>
    (\<forall>p. revs d p = revs f p - revs t p \<and> revs a p = revs t p - revs f p)"
proof -
  obtain d a where w: "walk_mergeinfo_hash_for_diff f t (Some []) (Some []) False = Ok (d, a)"
    "\<And>k. recorded d k = fst (diff_entry False (map_of f k) (map_of t k))"
    "\<And>k. recorded a k = snd (diff_entry False (map_of f k) (map_of t k))"
    "distinct (map fst (entries d))" "distinct (map fst (entries a))"
    using walk_ok [OF assms, of "Some []" "Some []" False] by (auto simp: hide_def)
  have "mergeinfo_ok (entries d)" "mergeinfo_ok (entries a)"
    using w(2-5) diff_entry_ok [OF assms] by (simp_all add: mergeinfo_ok_iff recorded_entries)
  moreover have "revs (entries d) p = revs f p - revs t p \<and> revs (entries a) p = revs t p - revs f p" for p
    using diff_entry_revs [OF assms, of p] w(2,3) [of p, symmetric] by (simp add: revs_eq recorded_entries)
  ultimately show ?thesis using w(1) by auto
qed

lemma mergeinfo_remove_revs:
  assumes "mergeinfo_ok e" "mergeinfo_ok w"
  shows "\<exists>out. svn_mergeinfo_remove2 e w False = Ok out \<and> mergeinfo_ok out \<and> (\<forall>p. revs out p = revs w p - revs e p)"
proof -
  obtain d a where w: "walk_mergeinfo_hash_for_diff w e (Some []) None False = Ok (d, a)"
    "\<And>k. recorded d k = fst (diff_entry False (map_of w k) (map_of e k))" "distinct (map fst (entries d))"
    using walk_ok [OF assms(2,1), of "Some []" None False] by (auto simp: hide_def)
  have "mergeinfo_ok (entries d)"
    using w(2,3) diff_entry_ok [OF assms(2,1)] by (simp add: mergeinfo_ok_iff recorded_entries)
  moreover have "revs (entries d) p = revs w p - revs e p" for p
    using diff_entry_revs [OF assms(2,1), of p] w(2) [of p, symmetric] by (simp add: revs_eq recorded_entries)
  ultimately show ?thesis using w(1) by (auto simp: svn_mergeinfo_remove2_def)
qed

lemma distinct_keys_Nil: "distinct (map fst [])"
  by simp

lemma mergeinfo_intersect_revs:
  assumes "mergeinfo_ok a" "mergeinfo_ok b"
  shows "\<exists>out. svn_mergeinfo_intersect2 a b False = Ok out \<and> mergeinfo_ok out \<and> (\<forall>p. revs out p = revs a p \<inter> revs b p)"
proof -
  let ?R = "\<lambda>k v r. revs_of r = revisions v \<inter> revs b k \<and> (r \<noteq> None \<longrightarrow> ranges_ok 0 (the r))"
  have body: "\<exists>r. intersect_entry b False h (k, v) = Ok (put h k r) \<and> ?R k v r"
    if "(k, v) \<in> set a" "map_of h k = map_of [] k" for h k v
  proof (cases "map_of b k")
    case None
    then show ?thesis by (intro exI [of _ None]) (simp add: intersect_entry_def put_def revs_eq)
  next
    case (Some w)
    then have "ranges_ok 0 v" "ranges_ok 0 w" using that assms by (auto simp: mergeinfo_ok_def dest: map_of_SomeD)
    from intersect_or_remove_revisions [OF this, of False] obtain out where
      "svn_rangelist_intersect v w False = Ok out" "ranges_ok 0 out" "revisions out = revisions w \<inter> revisions v"
      by (auto simp: svn_rangelist_intersect_def)
    then show ?thesis using Some
      by (intro exI [of _ "unless_empty out"]) (auto simp: intersect_entry_def put_def revs_eq unless_empty_def)
  qed
  have "distinct (map fst a)" using assms by (simp add: mergeinfo_ok_def)
  from filling_loop [where body = "intersect_entry b False" and R = ?R and ?h0.0 = "[]", OF this distinct_keys_Nil body]
  obtain out where out: "fold_res (intersect_entry b False) a [] = Ok out" "distinct (map fst out)"
    "\<And>k. case map_of a k of Some v \<Rightarrow> \<exists>r. ?R k v r \<and> map_of out k = (if r = None then map_of [] k else r)
       | None \<Rightarrow> map_of out k = map_of [] k" by blast
  have look: "revs out p = revs a p \<inter> revs b p \<and> (\<forall>rl. map_of out p = Some rl \<longrightarrow> ranges_ok 0 rl)" for p
  proof (cases "map_of a p")
    case (Some v)
    then obtain r where r: "?R p v r" "map_of out p = (if r = None then map_of [] p else r)" using out(3) [of p] by auto
    then show ?thesis using Some by (cases r) (simp_all add: revs_eq)
  qed (use out(3) [of p] in \<open>simp add: revs_eq\<close>)
  then show ?thesis using out(1,2) by (auto simp: svn_mergeinfo_intersect2_def mergeinfo_ok_iff)
qed

section \<open>Comparison\<close>

lemma quick_compare_True:
  "length lhs = length rhs \<Longrightarrow> quick_compare c lhs rhs = Some True \<longleftrightarrow>
    list_all2 (\<lambda>l r. range_start l = range_start r \<and> range_end l = range_end r \<and> (c \<longrightarrow> inheritable l = inheritable r)) lhs rhs"
  by (induction c lhs rhs rule: quick_compare.induct) auto

lemma quick_compare_False: "quick_compare c lhs rhs = Some False \<Longrightarrow> c \<and> lhs \<noteq> rhs"
  by (induction c lhs rhs rule: quick_compare.induct) (auto split: if_splits)

lemma same_extent_revisions:
  "list_all2 (\<lambda>l r. range_start l = range_start r \<and> range_end l = range_end r) lhs rhs \<Longrightarrow> revisions lhs = revisions rhs"
  by (induction rule: list_all2_induct) auto

lemma range_eqI:
  "range_start r = range_start s \<Longrightarrow> range_end r = range_end s \<Longrightarrow> inheritable r = inheritable s \<Longrightarrow> r = (s :: svn_merge_range_t)"
  by (cases r; cases s) simp

lemma same_ranges_equal:
  "list_all2 (\<lambda>l r. range_start l = range_start r \<and> range_end l = range_end r \<and> inheritable l = inheritable r) lhs rhs \<Longrightarrow>
    lhs = (rhs :: svn_rangelist_t)"
  by (induction rule: list_all2_induct) (auto intro: range_eqI)

lemma same_ranges_considering:
  assumes "svn_rangelist__is_canonical lhs" "svn_rangelist__is_canonical rhs" "ranges_ok 0 lhs" "ranges_ok 0 rhs"
  shows "same_ranges True lhs rhs = Ok (lhs = rhs)"
proof (cases "lhs = rhs")
  case True
  have "quick_compare True rhs rhs = Some True" by (simp add: quick_compare_True list_all2_refl)
  then show ?thesis using True by (simp add: same_ranges_def)
next
  case False
  then obtain n where n: "kind_at lhs n \<noteq> kind_at rhs n" using canonical_unique assms(1,2) by blast
  obtain d where d: "svn_rangelist_remove rhs lhs True = Ok d"
    "\<And>n. kind_at d n = kind_at lhs n \<or> kind_at d n = MI_NONE \<and> kind_at rhs n = kind_at lhs n"
    using remove_kinds [OF assms(4,3)] by blast
  obtain a where a: "svn_rangelist_remove lhs rhs True = Ok a"
    "\<And>n. kind_at a n = kind_at rhs n \<or> kind_at a n = MI_NONE \<and> kind_at lhs n = kind_at rhs n"
    using remove_kinds [OF assms(3,4)] by blast
  have "d \<noteq> [] \<or> a \<noteq> []" using n d(2) [of n] a(2) [of n] by auto
  then have diff: "svn_rangelist_diff lhs rhs True = Ok (d, a)" "\<not> (d = [] \<and> a = [])"
    using d(1) a(1) by (simp_all add: svn_rangelist_diff_def)
  have "quick_compare True lhs rhs \<noteq> Some True" if "length lhs = length rhs"
    using False that same_ranges_equal by (auto simp: quick_compare_True)
  then show ?thesis using diff False by (auto simp: same_ranges_def split: option.splits)
qed

lemma same_ranges_ignoring:
  assumes "ranges_ok 0 lhs" "ranges_ok 0 rhs"
  shows "same_ranges False lhs rhs = Ok (revisions lhs = revisions rhs)"
proof -
  obtain d where d: "svn_rangelist_remove rhs lhs False = Ok d" "revisions d = revisions lhs - revisions rhs" "ranges_ok 0 d"
    using remove_revisions [OF assms(2,1)] by blast
  obtain a where a: "svn_rangelist_remove lhs rhs False = Ok a" "revisions a = revisions rhs - revisions lhs" "ranges_ok 0 a"
    using remove_revisions [OF assms] by blast
  have empty: "rl = [] \<longleftrightarrow> revisions rl = {}" if "ranges_ok 0 rl" for rl using that by (cases rl) auto
  have diff: "svn_rangelist_diff lhs rhs False = Ok (d, a)" "d = [] \<and> a = [] \<longleftrightarrow> revisions lhs = revisions rhs"
    using d a empty [OF d(3)] empty [OF a(3)] by (auto simp: svn_rangelist_diff_def)
  show ?thesis
  proof (cases "length lhs = length rhs \<and> quick_compare False lhs rhs \<noteq> None")
    case True
    then have "quick_compare False lhs rhs = Some True" using quick_compare_False by (metis option.exhaust)
    moreover from this have "revisions lhs = revisions rhs"
      using True same_extent_revisions [of lhs rhs] by (simp add: quick_compare_True)
    ultimately show ?thesis using True by (simp add: same_ranges_def)
  next
    case False
    then show ?thesis using diff by (auto simp: same_ranges_def)
  qed
qed

lemma equals_loop_eq:
  assumes "\<And>k l r. (k, l) \<in> set a \<Longrightarrow> map_of b k = Some r \<Longrightarrow> same_ranges c l r = Ok (E l r)"
  shows "equals_loop c a b = Ok (\<forall>(k, l) \<in> set a. \<exists>r. map_of b k = Some r \<and> E l r)"
  using assms
proof (induction a)
  case (Cons x a)
  obtain k l where x: "x = (k, l)" by fastforce
  show ?case
  proof (cases "map_of b k")
    case (Some r)
    then have "same_ranges c l r = Ok (E l r)" using Cons.prems [of k l r] x by simp
    moreover have "equals_loop c a b = Ok (\<forall>(k, l) \<in> set a. \<exists>r. map_of b k = Some r \<and> E l r)"
      by (rule Cons.IH) (rule Cons.prems, auto)
    ultimately show ?thesis using Some x by simp
  qed (simp add: x)
qed simp

text \<open>With as many keys on both sides, a relation for the keys of one side is one for all keys.\<close>

lemma keys_both_ways:
  assumes "distinct (map fst a)" "distinct (map fst b)" "length a = length b"
  shows "(\<forall>(k, l) \<in> set a. \<exists>r. map_of b k = Some r \<and> E l r) \<longleftrightarrow> (\<forall>k. rel_option E (map_of a k) (map_of b k))"
proof
  assume all: "\<forall>(k, l) \<in> set a. \<exists>r. map_of b k = Some r \<and> E l r"
  then have sub: "fst ` set a \<subseteq> fst ` set b" by (force dest: map_of_SomeD)
  have "card (fst ` set a) = card (fst ` set b)"
    using assms distinct_card [of "map fst a"] distinct_card [of "map fst b"] by simp
  then have keys: "fst ` set a = fst ` set b" using sub by (intro card_subset_eq) auto
  show "\<forall>k. rel_option E (map_of a k) (map_of b k)"
  proof
    fix k
    show "rel_option E (map_of a k) (map_of b k)"
    proof (cases "map_of a k")
      case None
      then have "map_of b k = None" using keys by (simp add: map_of_eq_None_iff)
      then show ?thesis using None by simp
    next
      case (Some l)
      then obtain r where "map_of b k = Some r" "E l r" using all map_of_SomeD by fastforce
      then show ?thesis using Some by simp
    qed
  qed
next
  assume all: "\<forall>k. rel_option E (map_of a k) (map_of b k)"
  show "\<forall>(k, l) \<in> set a. \<exists>r. map_of b k = Some r \<and> E l r"
  proof safe
    fix k l assume "(k, l) \<in> set a"
    then have "map_of a k = Some l" using assms(1) by simp
    moreover have "rel_option E (map_of a k) (map_of b k)" using all by blast
    ultimately show "\<exists>r. map_of b k = Some r \<and> E l r" by (cases "map_of b k") auto
  qed
qed

lemma length_keys: "distinct (map fst a) \<Longrightarrow> distinct (map fst b) \<Longrightarrow> dom (map_of a) = dom (map_of b) \<Longrightarrow> length a = length b"
  using distinct_card [of "map fst a"] distinct_card [of "map fst b"] by (simp add: dom_map_of_conv_image_fst)

lemma rel_option_dom: "\<forall>k. rel_option E (f k) (g k) \<Longrightarrow> dom f = dom g"
proof (rule set_eqI)
  fix k assume "\<forall>k. rel_option E (f k) (g k)"
  then have "rel_option E (f k) (g k)" by blast
  then show "k \<in> dom f \<longleftrightarrow> k \<in> dom g" by (cases "f k"; cases "g k") auto
qed

lemma equals_relational:
  assumes "distinct (map fst a)" "distinct (map fst b)"
    "\<And>k l r. (k, l) \<in> set a \<Longrightarrow> map_of b k = Some r \<Longrightarrow> same_ranges c l r = Ok (E l r)"
  shows "svn_mergeinfo__equals (Some a) (Some b) c = Ok (\<forall>k. rel_option E (map_of a k) (map_of b k))"
proof (cases "length a = length b")
  case True
  have "equals_loop c a b = Ok (\<forall>(k, l) \<in> set a. \<exists>r. map_of b k = Some r \<and> E l r)"
    by (rule equals_loop_eq) (rule assms(3))
  then show ?thesis using True keys_both_ways [OF assms(1,2) True, of E] by simp
next
  case False
  then have "\<not> (\<forall>k. rel_option E (map_of a k) (map_of b k))"
    using length_keys [OF assms(1,2)] rel_option_dom [of E "map_of a" "map_of b"] by blast
  then show ?thesis using False by simp
qed

section \<open>Catalogs\<close>

lemma path_order_eq: "path_order p q = 0 \<longleftrightarrow> p = q"
  by (induction p q rule: path_order.induct) auto

lemma path_order_lt_trans:
  assumes "path_order p q < 0" "path_order q r < 0"
  shows "path_order p r < 0"
proof -
  have "path_order p r \<le> 0" using assms path_order_trans [of p q r] by linarith
  moreover have "p \<noteq> r" using assms path_order_swap [of p q] by auto
  ultimately show ?thesis using path_order_eq [of p r] by linarith
qed

lemma distinct_keys_sorted: "distinct (map fst xs) \<longleftrightarrow> sorted_wrt (\<lambda>a b. fst a \<noteq> fst b) xs"
  by (induction xs) auto

abbreviation strictly_before :: "cstring \<times> 'v \<Rightarrow> cstring \<times> 'v \<Rightarrow> bool" where
  "strictly_before a b \<equiv> path_order (fst a) (fst b) < 0"

lemma sorted_catalog:
  assumes "\<forall>k \<in> fst ` set cat. path_key k" "distinct (map fst cat)"
  shows "\<exists>items. svn_sort__hash cat svn_sort_compare_items_as_paths = Ok items \<and> mset items = mset cat \<and>
    sorted_wrt strictly_before items"
proof -
  obtain items where items: "svn_sort__hash cat svn_sort_compare_items_as_paths = Ok items" "mset items = mset cat"
    "ordered_by (\<lambda>a b. path_order (fst a) (fst b)) items" using sort_hash_ok [OF assms(1)] by blast
  have "mset (map fst items) = mset (map fst cat)" using items(2) by simp
  then have "distinct (map fst items)" using assms(2) mset_eq_imp_distinct_iff by blast
  then have "sorted_wrt (\<lambda>a b. fst a \<noteq> fst b) items" by (simp only: distinct_keys_sorted)
  then have "sorted_wrt strictly_before items"
    using items(3) path_order_eq unfolding ordered_by_def sorted_wrt_iff_nth_less
    by (metis order_less_le)
  then show ?thesis using items by blast
qed

lemma before_none: "\<forall>b \<in> set xs. path_order k (fst b) < 0 \<Longrightarrow> map_of xs k = None"
  using path_order_eq [of k k] by (force simp: map_of_eq_None_iff)

lemma copy_loop:
  "distinct (map fst xs) \<Longrightarrow> \<forall>x \<in> set xs. distinct (map fst (snd x)) \<Longrightarrow>
   map_of (foldl (\<lambda>cat elt. hash_set cat (fst elt) (Some (svn_mergeinfo_dup (snd elt)))) cat xs) k =
     (case map_of xs k of Some v \<Rightarrow> Some v | None \<Rightarrow> map_of cat k)"
proof (induction xs arbitrary: cat)
  case (Cons x xs)
  have "map_of xs (fst x) = None" using Cons.prems(1) by (simp add: map_of_eq_None_iff)
  then show ?case using Cons mergeinfo_dup [of "snd x"]
    by (cases x) (auto simp: hash_set_lookup split: option.split)
qed simp

text \<open>What a path has after the merge.\<close>

definition merged_entry :: "svn_mergeinfo_t option \<Rightarrow> svn_mergeinfo_t option \<Rightarrow> svn_mergeinfo_t option \<Rightarrow> bool" where
  "merged_entry old chg new \<longleftrightarrow>
     (case chg of None \<Rightarrow> new = old
      | Some c \<Rightarrow> (case old of None \<Rightarrow> new = Some c | Some m \<Rightarrow> \<exists>r. new = Some r \<and> svn_mergeinfo_merge2 m c = Ok r))"

lemma catalog_merge_loop_ok:
  assumes "sorted_wrt strictly_before sc" "sorted_wrt strictly_before sch"
    "\<forall>x \<in> set sc \<union> set sch. path_key (fst x) \<and> mergeinfo_ok (snd x)"
  shows "\<exists>out. catalog_merge_loop sc sch cat = Ok out \<and>
    (\<forall>k. merged_entry (if map_of sch k = None then map_of cat k else map_of sc k) (map_of sch k) (map_of out k))"
  using assms
proof (induction sc sch cat rule: catalog_merge_loop.induct)
  case (1 x sc y sch cat)
  have keys: "path_key (fst x)" "path_key (fst y)" "mergeinfo_ok (snd x)" "mergeinfo_ok (snd y)" using 1(6) by auto
  have cmp: "svn_sort_compare_items_as_paths x y = Ok (path_order (fst x) (fst y))"
    using path_items.cmp_ok [of x y] keys by simp
  have after_x: "\<forall>b \<in> set sc. path_order (fst x) (fst b) < 0" and after_y: "\<forall>b \<in> set sch. path_order (fst y) (fst b) < 0"
    using 1(4,5) by auto
  consider (same) "path_order (fst x) (fst y) = 0" | (left) "path_order (fst x) (fst y) < 0" | (right) "path_order (fst y) (fst x) < 0"
    using path_order_swap [of "fst y" "fst x"] by linarith
  then show ?case
  proof cases
    case same
    then have k: "fst y = fst x" using path_order_eq by metis
    obtain m where m: "svn_mergeinfo_merge2 (snd x) (snd y) = Ok m" using mergeinfo_merge_ok keys by blast
    obtain out where out: "catalog_merge_loop sc sch (hash_set cat (fst x) (Some m)) = Ok out"
      "\<And>k. merged_entry (if map_of sch k = None then map_of (hash_set cat (fst x) (Some m)) k else map_of sc k) (map_of sch k) (map_of out k)"
      using 1(1) [OF cmp same m] 1(4,5,6) by auto
    have none: "map_of sch (fst x) = None" using before_none after_y k by metis
    have "merged_entry (if map_of (y # sch) k = None then map_of cat k else map_of (x # sc) k) (map_of (y # sch) k) (map_of out k)" for k
      using out(2) [of k] none m k by (cases x; cases y) (auto simp: merged_entry_def hash_set_lookup split: if_splits)
    then show ?thesis using cmp same m out(1) by auto
  next
    case left
    then have "\<forall>b \<in> set (y # sch). path_order (fst x) (fst b) < 0"
      using after_y path_order_lt_trans [OF left] by auto
    then have none: "map_of (y # sch) (fst x) = None" by (rule before_none)
    obtain out where out: "catalog_merge_loop sc (y # sch) cat = Ok out"
      "\<And>k. merged_entry (if map_of (y # sch) k = None then map_of cat k else map_of sc k) (map_of (y # sch) k) (map_of out k)"
      using 1(2) [OF cmp] left 1(4,5,6) by auto
    have "merged_entry (if map_of (y # sch) k = None then map_of cat k else map_of (x # sc) k) (map_of (y # sch) k) (map_of out k)" for k
      using out(2) [of k] none by (cases "k = fst x") (cases x; auto)+
    then show ?thesis using cmp left out(1) by auto
  next
    case right
    then have gt: "0 < path_order (fst x) (fst y)" using path_order_swap by metis
    have "\<forall>b \<in> set (x # sc). path_order (fst y) (fst b) < 0"
      using right after_x path_order_lt_trans [OF right] by auto
    then have none: "map_of (x # sc) (fst y) = None" by (rule before_none)
    have none': "map_of sch (fst y) = None" using before_none after_y by metis
    have dup: "svn_mergeinfo_dup (snd y) = snd y" using mergeinfo_dup keys(4) by (simp add: mergeinfo_ok_def)
    obtain out where out: "catalog_merge_loop (x # sc) sch (hash_set cat (fst y) (Some (snd y))) = Ok out"
      "\<And>k. merged_entry (if map_of sch k = None then map_of (hash_set cat (fst y) (Some (snd y))) k else map_of (x # sc) k) (map_of sch k) (map_of out k)"
      using 1(3) [OF cmp, unfolded dup] gt 1(4,5,6) by auto
    have "merged_entry (if map_of (y # sch) k = None then map_of cat k else map_of (x # sc) k) (map_of (y # sch) k) (map_of out k)" for k
      using out(2) [of k] none none' by (cases "k = fst y") (cases y; auto simp: merged_entry_def hash_set_lookup)+
    then show ?thesis using cmp gt out(1) dup by auto
  qed
next
  case (2 sch cat)
  have "distinct (map fst sch)"
    unfolding distinct_keys_sorted using 2(2) path_order_eq
    by (intro sorted_wrt_mono_rel [OF _ 2(2)]) (metis less_irrefl)
  moreover have "\<forall>x \<in> set sch. distinct (map fst (snd x))" using 2(3) by (auto simp: mergeinfo_ok_def)
  ultimately show ?case using copy_loop [of sch cat] by (auto simp: merged_entry_def split: option.split)
next
  case (3 x sc cat)
  then show ?case by (simp add: merged_entry_def)
qed

lemma catalog_merge_ok:
  assumes "\<forall>k \<in> fst ` set cat. path_key k" "\<forall>k \<in> fst ` set chg. path_key k"
    "distinct (map fst cat)" "distinct (map fst chg)" "\<forall>m \<in> snd ` set cat \<union> snd ` set chg. mergeinfo_ok m"
  shows "\<exists>out. svn_mergeinfo_catalog_merge cat chg = Ok out \<and> (\<forall>k. merged_entry (map_of cat k) (map_of chg k) (map_of out k))"
proof -
  obtain sc where sc: "svn_sort__hash cat svn_sort_compare_items_as_paths = Ok sc" "mset sc = mset cat" "sorted_wrt strictly_before sc"
    using sorted_catalog [OF assms(1,3)] by blast
  obtain sch where sch: "svn_sort__hash chg svn_sort_compare_items_as_paths = Ok sch" "mset sch = mset chg" "sorted_wrt strictly_before sch"
    using sorted_catalog [OF assms(2,4)] by blast
  have perm: "map_of ys = map_of xs" if "mset ys = mset xs" "distinct (map fst xs)" for xs ys :: svn_mergeinfo_catalog_t
  proof -
    have "mset (map fst ys) = mset (map fst xs)" using that(1) by simp
    then have "distinct (map fst ys)" using that(2) mset_eq_imp_distinct_iff by blast
    then show ?thesis using that map_of_inject_set mset_eq_setD by blast
  qed
  have "set sc = set cat" "set sch = set chg" using sc(2) sch(2) mset_eq_setD by blast+
  then have "\<forall>x \<in> set sc \<union> set sch. path_key (fst x) \<and> mergeinfo_ok (snd x)" using assms by auto
  from catalog_merge_loop_ok [OF sc(3) sch(3) this, of cat, unfolded perm [OF sc(2) assms(3)] perm [OF sch(2) assms(4)] if_cancel]
  obtain out where out: "catalog_merge_loop sc sch cat = Ok out"
    "\<And>k. merged_entry (map_of cat k) (map_of chg k) (map_of out k)" by blast
  then show ?thesis using sc(1) sch(1) by (auto simp: svn_mergeinfo_catalog_merge_def)
qed

section \<open>Prefixes\<close>

text \<open>A loop that stores every entry under a new key.\<close>

abbreviation with_keys :: "('k \<Rightarrow> cstring) \<Rightarrow> ('k \<times> 'v) list \<Rightarrow> 'v hash" where
  "with_keys f \<equiv> map (\<lambda>(y, v). (f y, v))"

lemma rekey_loop:
  assumes "\<And>h y v. (y, v) \<in> set xs \<Longrightarrow> body h (f y, v) = Ok (hash_set h (g y) (Some v))"
    "distinct (map fst h0 @ map (\<lambda>x. g (fst x)) xs)"
  shows "fold_res body (with_keys f xs) h0 = Ok (h0 @ with_keys g xs)"
  using assms
proof (induction xs arbitrary: h0)
  case (Cons x xs)
  obtain y v where x: "x = (y, v)" by fastforce
  have "hash_set h0 (g y) (Some v) = h0 @ [(g y, v)]" using Cons.prems(2) x by (auto simp: hash_set_def)
  moreover have "body h0 (f y, v) = Ok (hash_set h0 (g y) (Some v))" using Cons.prems(1) [of y v] x by simp
  moreover have "fold_res body (with_keys f xs) (h0 @ [(g y, v)]) = Ok ((h0 @ [(g y, v)]) @ with_keys g xs)"
    by (rule Cons.IH) (rule Cons.prems(1), use Cons.prems(2) x in auto)
  ultimately show ?case using x by simp
qed simp

lemma distinct_keys_inj: "distinct (map fst l) \<Longrightarrow> inj_on g (fst ` set l) \<Longrightarrow> distinct (map (\<lambda>x. g (fst x)) l)"
  using distinct_map [of g "map fst l"] by (simp add: comp_def)

lemma add_prefix_eq:
  assumes "good_segs xs" "\<forall>ys \<in> fst ` set l. good_segs ys" "distinct (map fst l)"
  shows "svn_mergeinfo__add_prefix_to_catalog (with_keys J l) (render (True, xs)) =
    Ok (with_keys (\<lambda>ys. render (True, xs @ ys)) l)"
proof -
  have "inj_on (\<lambda>ys. render (True, xs @ ys)) (fst ` set l)"
  proof (rule inj_onI)
    fix y z assume a: "y \<in> fst ` set l" "z \<in> fst ` set l" "render (True, xs @ y) = render (True, xs @ z)"
    have "good_segs (xs @ y)" "good_segs (xs @ z)" using assms(1,2) a(1,2) good_segs_simps(3) by blast+
    then show "y = z" using render_inj [of "(True, xs @ y)" "(True, xs @ z)"] a(3) by simp
  qed
  note keys = distinct_keys_inj [OF assms(3) this]
  have part: "c_at (J ys) 0 \<noteq> slash" "svn_dirent_join (render (True, xs)) (J ys) = Ok (render (True, xs @ ys))"
    if "good_segs ys" for ys using that J_hd [of ys] dirent_join_render [OF assms(1) that, of True] by (simp_all add: c_hd_at)
  have "fold_res (\<lambda>out_catalog (original_path, val).
       let original_path = (if c_at original_path 0 = slash then tl original_path else original_path) in
       cbind (svn_dirent_join (render (True, xs)) original_path) (\<lambda>path. Ok (hash_set out_catalog path (Some val))))
      (with_keys J l) [] = Ok ([] @ with_keys (\<lambda>ys. render (True, xs @ ys)) l)"
  proof (intro rekey_loop)
    fix h :: svn_mergeinfo_catalog_t and ys v assume "(ys, v) \<in> set l"
    then have "good_segs ys" using assms(2) by force
    then show "(case (J ys, v) of (original_path, val) \<Rightarrow>
       let original_path = (if c_at original_path 0 = slash then tl original_path else original_path) in
       cbind (svn_dirent_join (render (True, xs)) original_path) (\<lambda>path. Ok (hash_set h path (Some val)))) =
      Ok (hash_set h (render (True, xs @ ys)) (Some v))"
      using part by (simp only: prod.case Let_def if_False cbind_simps)
  qed (use keys in simp)
  then show ?thesis by (simp add: svn_mergeinfo__add_prefix_to_catalog_def)
qed

lemma fspath_skip_render:
  assumes "good_segs xs" "good_segs ys"
  shows "svn_fspath__skip_ancestor (render (True, xs)) (render (True, xs @ ys)) = Ok (Some (J ys))"
  using assms by (simp add: svn_fspath__skip_ancestor_def relpath_skip_J Let_def)

lemma remove_prefix_eq:
  assumes "good_segs xs" "\<forall>ys \<in> fst ` set l. good_segs ys" "distinct (map fst l)"
  shows "svn_mergeinfo__remove_prefix_from_catalog (with_keys (\<lambda>ys. render (True, xs @ ys)) l) (render (True, xs)) =
    Ok (with_keys J l)"
proof -
  have "inj_on J (fst ` set l)" using assms(2) segments_join by (intro inj_onI) metis
  note distinct_keys_inj [OF assms(3) this]
  then have "fold_res (\<lambda>out_catalog (original_path, val).
      cbind (svn_fspath__skip_ancestor (render (True, xs)) original_path) (\<lambda>new_path.
        case new_path of None \<Rightarrow> Abort | Some new_path \<Rightarrow> Ok (hash_set out_catalog new_path (Some val))))
      (with_keys (\<lambda>ys. render (True, xs @ ys)) l) [] = Ok ([] @ with_keys J l)"
    by (intro rekey_loop) (use assms(1,2) fspath_skip_render in \<open>force simp del: render_simps\<close>, simp)
  then show ?thesis by (simp add: svn_mergeinfo__remove_prefix_from_catalog_def)
qed

lemma relpath_key_form:
  assumes "is_cstring k" "svn_relpath_is_canonical k"
  shows "good_segs (segments k)" "J (segments k) = k"
  using assms relpath_canonical_iff [OF assms(1)] segments_good
  by (auto simp: svn_relpath_is_canonical_def render_def)

section \<open>Location segments\<close>

lemma add_segment_revs:
  assumes "0 \<le> segment_start s"
  shows "revs (add_segment mi s) (slash # p) = revs mi (slash # p) \<union>
    {n. segment_path s = Some p \<and> 0 < n \<and> segment_start s \<le> n \<and> n \<le> segment_end s}"
proof (cases "segment_path s")
  case (Some q)
  show ?thesis
  proof (cases "segment_start s = 0 \<and> segment_end s = 0")
    case True
    then show ?thesis using Some by (auto simp: add_segment_def)
  next
    case False
    then show ?thesis using Some assms
      by (auto simp: add_segment_def revs_def hash_set_lookup Let_def split: option.splits)
  qed
qed (simp add: add_segment_def)

lemma add_segments_revs:
  "\<forall>s \<in> set segs. 0 \<le> segment_start s \<Longrightarrow> revs (foldl add_segment mi segs) (slash # p) = revs mi (slash # p) \<union>
    {n. \<exists>s \<in> set segs. segment_path s = Some p \<and> 0 < n \<and> segment_start s \<le> n \<and> n \<le> segment_end s}"
  by (induction segs arbitrary: mi) (auto simp: add_segment_revs)

section \<open>Sets of revisions\<close>

text \<open>What the range lists and the mergeinfo promise their callers: values that stand for sets, with union,
  difference and intersection that always succeed on the values in order.\<close>

locale revision_sets =
  fixes ok :: "'a \<Rightarrow> bool" and points :: "'a \<Rightarrow> 'p set"
    and merge_op remove_op intersect_op :: "'a \<Rightarrow> 'a \<Rightarrow> 'a cres"
  assumes merge_law: "ok a \<Longrightarrow> ok b \<Longrightarrow> \<exists>c. merge_op a b = Ok c \<and> ok c \<and> points c = points a \<union> points b"
    and remove_law: "ok a \<Longrightarrow> ok b \<Longrightarrow> \<exists>c. remove_op a b = Ok c \<and> ok c \<and> points c = points b - points a"
    and intersect_law: "ok a \<Longrightarrow> ok b \<Longrightarrow> \<exists>c. intersect_op a b = Ok c \<and> ok c \<and> points c = points a \<inter> points b"
begin

text \<open>Applying a difference: what was deleted is removed, what was added is merged.\<close>

lemma apply_difference:
  assumes "ok a" "ok b" "ok d" "ok e" "points d = points a - points b" "points e = points b - points a"
  shows "\<exists>c. cbind (remove_op d a) (\<lambda>kept. merge_op kept e) = Ok c \<and> ok c \<and> points c = points b"
proof -
  obtain k where k: "remove_op d a = Ok k" "ok k" "points k = points a - points d"
    using remove_law [OF assms(3,1)] by blast
  obtain c where c: "merge_op k e = Ok c" "ok c" "points c = points k \<union> points e"
    using merge_law [OF k(2) assms(4)] by blast
  then have "points c = points b" unfolding c(3) k(3) assms(5,6) by blast
  then show ?thesis using k(1) c(1,2) by simp
qed

text \<open>A value is split by another one into the part outside and the part inside.\<close>

lemma split_by:
  assumes "ok a" "ok b"
  shows "\<exists>c. cbind (remove_op a b) (\<lambda>outside. cbind (intersect_op a b) (\<lambda>inside. merge_op outside inside)) = Ok c \<and>
    ok c \<and> points c = points b"
proof -
  obtain r where r: "remove_op a b = Ok r" "ok r" "points r = points b - points a" using remove_law assms by blast
  obtain i where i: "intersect_op a b = Ok i" "ok i" "points i = points a \<inter> points b" using intersect_law assms by blast
  obtain c where c: "merge_op r i = Ok c" "ok c" "points c = points r \<union> points i" using merge_law r i by blast
  then have "points c = points b" unfolding c(3) r(3) i(3) by blast
  then show ?thesis using r(1) i(1) c(1,2) by simp
qed

end

lemma kind_max_none: "max k l = MI_NONE \<longleftrightarrow> k = MI_NONE \<and> l = MI_NONE"
  by (cases k; cases l) (auto simp: max_def)

interpretation range_sets: revision_sets "ranges_ok 0" revisions svn_rangelist_merge2
    "\<lambda>a b. svn_rangelist_remove a b False" "\<lambda>a b. svn_rangelist_intersect a b False"
proof unfold_locales
  fix a b assume ok: "ranges_ok 0 a" "ranges_ok 0 b"
  obtain c where c: "svn_rangelist_merge2 a b = Ok c" "ranges_ok 0 c" "\<And>n. kind_at c n = max (kind_at a n) (kind_at b n)"
    using merge2_ok [OF ok] by blast
  have "n \<in> revisions c \<longleftrightarrow> n \<in> revisions a \<or> n \<in> revisions b" for n
    using c(3) [of n] kind_at_none [of c n] kind_at_none [of a n] kind_at_none [of b n] kind_max_none by metis
  then show "\<exists>c. svn_rangelist_merge2 a b = Ok c \<and> ranges_ok 0 c \<and> revisions c = revisions a \<union> revisions b"
    using c by blast
  show "\<exists>c. svn_rangelist_remove a b False = Ok c \<and> ranges_ok 0 c \<and> revisions c = revisions b - revisions a"
    using remove_revisions [OF ok] by blast
  show "\<exists>c. svn_rangelist_intersect a b False = Ok c \<and> ranges_ok 0 c \<and> revisions c = revisions a \<inter> revisions b"
    using intersect_or_remove_revisions [OF ok, of False] by (auto simp: svn_rangelist_intersect_def)
qed

definition merged_revisions :: "svn_mergeinfo_t \<Rightarrow> (cstring \<times> svn_revnum_t) set" where
  "merged_revisions mi = {(p, n). n \<in> revs mi p}"

lemma revs_kinds: "n \<in> revs mi p \<longleftrightarrow> kinds mi p n \<noteq> MI_NONE"
  by (simp add: revs_def kinds_def kind_at_none split: option.split)

interpretation mergeinfo_sets: revision_sets mergeinfo_ok merged_revisions svn_mergeinfo_merge2
    "\<lambda>a b. svn_mergeinfo_remove2 a b False" "\<lambda>a b. svn_mergeinfo_intersect2 a b False"
proof unfold_locales
  fix a b assume ok: "mergeinfo_ok a" "mergeinfo_ok b"
  show "\<exists>c. svn_mergeinfo_merge2 a b = Ok c \<and> mergeinfo_ok c \<and> merged_revisions c = merged_revisions a \<union> merged_revisions b"
    using mergeinfo_merge_kinds [OF ok] by (auto simp: merged_revisions_def revs_kinds kind_max_none)
  show "\<exists>c. svn_mergeinfo_remove2 a b False = Ok c \<and> mergeinfo_ok c \<and> merged_revisions c = merged_revisions b - merged_revisions a"
    using mergeinfo_remove_revs [OF ok] by (auto simp: merged_revisions_def)
  show "\<exists>c. svn_mergeinfo_intersect2 a b False = Ok c \<and> mergeinfo_ok c \<and> merged_revisions c = merged_revisions a \<inter> merged_revisions b"
    using mergeinfo_intersect_revs [OF ok] by (auto simp: merged_revisions_def)
qed

section \<open>Properties\<close>

text \<open>C25. \<^verbatim>\<open>svn_mergeinfo_merge2\<close> implements the union of mergeinfo: on hashes of range lists in order it always
  succeeds and keeps that form, and for every path and revision the result has the greater of the kinds
  the two arguments have there.\<close>

theorem mergeinfo_merge_is_union:
  assumes "mergeinfo_ok mergeinfo" "mergeinfo_ok chgs"
  shows "\<exists>out. svn_mergeinfo_merge2 mergeinfo chgs = Ok out \<and> mergeinfo_ok out \<and>
    kinds out = (\<lambda>path n. max (kinds mergeinfo path n) (kinds chgs path n))"
  using mergeinfo_merge_kinds [OF assms] by (auto simp: fun_eq_iff)

theorem mergeinfo_merge_is_union_witness:
  "\<exists>out. svn_mergeinfo_merge2 [(''/a'', [\<lparr>range_start = 0, range_end = 4, inheritable = False\<rparr>])]
      [(''/a'', [\<lparr>range_start = 3, range_end = 9, inheritable = True\<rparr>])] = Ok out \<and>
    kinds out ''/a'' 4 = MI_INHERITABLE"
proof -
  let ?a = "[(''/a'', [\<lparr>range_start = 0, range_end = 4, inheritable = False\<rparr>])] :: svn_mergeinfo_t"
  let ?b = "[(''/a'', [\<lparr>range_start = 3, range_end = 9, inheritable = True\<rparr>])] :: svn_mergeinfo_t"
  have "mergeinfo_ok ?a" "mergeinfo_ok ?b" by (simp_all add: mergeinfo_ok_def)
  moreover have "max (kinds ?a ''/a'' 4) (kinds ?b ''/a'' 4) = MI_INHERITABLE" by (simp add: kinds_def kind_of_def)
  ultimately show ?thesis using mergeinfo_merge_is_union [of ?a ?b] by fastforce
qed

text \<open>Without regard to inheritance the operations on mergeinfo are those on sets of revisions, path by
  path: \<^verbatim>\<open>svn_mergeinfo_diff2\<close> gives the two differences, \<^verbatim>\<open>svn_mergeinfo_remove2\<close> the difference and
  \<^verbatim>\<open>svn_mergeinfo_intersect2\<close> the intersection; none of them fails on range lists in order, also not for
  paths that only one side has.\<close>

theorem mergeinfo_operations_are_sets:
  assumes "mergeinfo_ok a" "mergeinfo_ok b"
  shows "(\<exists>deleted_info added_info. svn_mergeinfo_diff2 (Some a) (Some b) False = Ok (deleted_info, added_info) \<and>
      (\<forall>path. revs deleted_info path = revs a path - revs b path \<and> revs added_info path = revs b path - revs a path)) \<and>
    (\<exists>out. svn_mergeinfo_remove2 a b False = Ok out \<and> (\<forall>path. revs out path = revs b path - revs a path)) \<and>
    (\<exists>out. svn_mergeinfo_intersect2 a b False = Ok out \<and> (\<forall>path. revs out path = revs a path \<inter> revs b path))"
  using mergeinfo_diff_revs [OF assms] mergeinfo_remove_revs [OF assms] mergeinfo_intersect_revs [OF assms] by blast



text \<open>C27. \<^verbatim>\<open>svn_mergeinfo__equals\<close> answers exactly, although it stops at the first mismatch and its detailed
  comparison uses a removal that can be incomplete: with inheritance, for canonical range lists, whether
  the hashes have the same entries; without, whether they have the same paths with the same revisions.\<close>

theorem mergeinfo_equals_exact:
  assumes "mergeinfo_ok a" "mergeinfo_ok b"
  shows "svn_mergeinfo__equals (Some a) (Some b) False =
      Ok (\<forall>path. map_option revisions (map_of a path) = map_option revisions (map_of b path)) \<and>
    ((\<forall>(path, rl) \<in> set a \<union> set b. svn_rangelist__is_canonical rl) \<longrightarrow>
      svn_mergeinfo__equals (Some a) (Some b) True = Ok (map_of a = map_of b))"
proof (intro conjI impI)
  have d: "distinct (map fst a)" "distinct (map fst b)" using assms by (simp_all add: mergeinfo_ok_def)
  have ok: "ranges_ok 0 l" "ranges_ok 0 r" if "(k, l) \<in> set a" "map_of b k = Some r" for k l r
    using assms that by (auto simp: mergeinfo_ok_def dest: map_of_SomeD)
  have "rel_option (\<lambda>l r. revisions l = revisions r) x y \<longleftrightarrow> map_option revisions x = map_option revisions y" for x y
    by (cases x; cases y) auto
  then show "svn_mergeinfo__equals (Some a) (Some b) False =
      Ok (\<forall>path. map_option revisions (map_of a path) = map_option revisions (map_of b path))"
    using equals_relational [OF d, of False "\<lambda>l r. revisions l = revisions r"] same_ranges_ignoring ok by simp
  assume can: "\<forall>(path, rl) \<in> set a \<union> set b. svn_rangelist__is_canonical rl"
  have "same_ranges True l r = Ok (l = r)" if "(k, l) \<in> set a" "map_of b k = Some r" for k l r
    using can that ok [OF that] by (intro same_ranges_considering) (auto dest: map_of_SomeD)
  from equals_relational [OF d this] show "svn_mergeinfo__equals (Some a) (Some b) True = Ok (map_of a = map_of b)"
    by (simp add: option.rel_eq fun_eq_iff)
qed

theorem mergeinfo_equals_exact_witness:
  "svn_mergeinfo__equals (Some [(''/a'', [\<lparr>range_start = 0, range_end = 4, inheritable = False\<rparr>])])
      (Some [(''/a'', [\<lparr>range_start = 0, range_end = 4, inheritable = True\<rparr>])]) False = Ok True \<and>
   svn_mergeinfo__equals (Some [(''/a'', [\<lparr>range_start = 0, range_end = 4, inheritable = False\<rparr>])])
      (Some [(''/a'', [\<lparr>range_start = 0, range_end = 4, inheritable = True\<rparr>])]) True = Ok False"
proof -
  let ?a = "[(''/a'', [\<lparr>range_start = 0, range_end = 4, inheritable = False\<rparr>])] :: svn_mergeinfo_t"
  let ?b = "[(''/a'', [\<lparr>range_start = 0, range_end = 4, inheritable = True\<rparr>])] :: svn_mergeinfo_t"
  have ok: "mergeinfo_ok ?a" "mergeinfo_ok ?b" by (simp_all add: mergeinfo_ok_def)
  have "\<forall>(path, rl) \<in> set ?a \<union> set ?b. svn_rangelist__is_canonical rl" by (simp add: canonical_Cons)
  with mergeinfo_equals_exact [OF ok] show ?thesis
    by (simp add: fun_eq_iff)
qed

text \<open>C28. \<^verbatim>\<open>svn_mergeinfo_catalog_merge\<close>, a merge of two sorted arrays, does for every path what a lookup in
  both catalogs would do: a path of one catalog keeps its mergeinfo, a path of both gets the result of
  \<^verbatim>\<open>svn_mergeinfo_merge2\<close>. It succeeds whatever order the hashes are visited in.\<close>

theorem catalog_merge_pointwise:
  assumes "\<forall>(path, mi) \<in> set cat \<union> set chg. is_cstring path \<and> is_canonical path (length path) \<and> mergeinfo_ok mi"
    "distinct (map fst cat)" "distinct (map fst chg)"
  shows "\<exists>out. svn_mergeinfo_catalog_merge cat chg = Ok out \<and>
    (\<forall>path. case (map_of cat path, map_of chg path) of
        (Some m, Some c) \<Rightarrow> (\<exists>r. map_of out path = Some r \<and> svn_mergeinfo_merge2 m c = Ok r)
      | (None, Some c) \<Rightarrow> map_of out path = Some c
      | (old, None) \<Rightarrow> map_of out path = old)"
proof -
  have "\<forall>k \<in> fst ` set cat. path_key k" "\<forall>k \<in> fst ` set chg. path_key k"
    "\<forall>m \<in> snd ` set cat \<union> snd ` set chg. mergeinfo_ok m" using assms(1) by (auto simp: path_key_def)
  from catalog_merge_ok [OF this(1,2) assms(2,3) this(3)] obtain out where out:
    "svn_mergeinfo_catalog_merge cat chg = Ok out" "\<And>k. merged_entry (map_of cat k) (map_of chg k) (map_of out k)" by blast
  have "case (map_of cat path, map_of chg path) of
        (Some m, Some c) \<Rightarrow> (\<exists>r. map_of out path = Some r \<and> svn_mergeinfo_merge2 m c = Ok r)
      | (None, Some c) \<Rightarrow> map_of out path = Some c
      | (old, None) \<Rightarrow> map_of out path = old" for path
    using out(2) [of path] by (auto simp: merged_entry_def split: option.splits)
  then show ?thesis using out(1) by blast
qed

theorem catalog_merge_pointwise_witness:
  "\<exists>out. svn_mergeinfo_catalog_merge [(''b'', []), (''a'', [])]
      [(''c'', [(''/t'', [\<lparr>range_start = 0, range_end = 4, inheritable = True\<rparr>])])] = Ok out \<and>
    map_of out ''c'' = Some [(''/t'', [\<lparr>range_start = 0, range_end = 4, inheritable = True\<rparr>])] \<and> map_of out ''a'' = Some []"
proof -
  let ?cat = "[(''b'', []), (''a'', [])] :: svn_mergeinfo_catalog_t"
  let ?chg = "[(''c'', [(''/t'', [\<lparr>range_start = 0, range_end = 4, inheritable = True\<rparr>])])] :: svn_mergeinfo_catalog_t"
  have keys: "is_canonical ''a'' 1" "is_canonical ''b'' 1" "is_canonical ''c'' 1" by code_simp+
  have "\<forall>(path, mi) \<in> set ?cat \<union> set ?chg. is_cstring path \<and> is_canonical path (length path) \<and> mergeinfo_ok mi"
    using keys by (simp add: mergeinfo_ok_def)
  from catalog_merge_pointwise [OF this] obtain out where out: "svn_mergeinfo_catalog_merge ?cat ?chg = Ok out"
    "\<And>path. case (map_of ?cat path, map_of ?chg path) of
        (Some m, Some c) \<Rightarrow> (\<exists>r. map_of out path = Some r \<and> svn_mergeinfo_merge2 m c = Ok r)
      | (None, Some c) \<Rightarrow> map_of out path = Some c
      | (old, None) \<Rightarrow> map_of out path = old" by auto
  then show ?thesis using out(2) [of "''a''"] out(2) [of "''c''"] by auto
qed

text \<open>Adding a prefix to a catalog with relative paths and removing it again gives the catalog back:
  \<^verbatim>\<open>svn_mergeinfo__add_prefix_to_catalog\<close> keeps different paths different, and every path it makes is one
  \<^verbatim>\<open>svn_mergeinfo__remove_prefix_from_catalog\<close> accepts.\<close>

theorem catalog_prefix_roundtrip:
  assumes "is_cstring prefix_path" "svn_fspath__is_canonical prefix_path"
    "\<forall>k \<in> fst ` set cat. is_cstring k \<and> svn_relpath_is_canonical k" "distinct (map fst cat)"
  shows "\<exists>full. svn_mergeinfo__add_prefix_to_catalog cat prefix_path = Ok full \<and>
    svn_mergeinfo__remove_prefix_from_catalog full prefix_path = Ok cat"
proof -
  obtain xs where xs: "good_segs xs" "prefix_path = render (True, xs)" using fspath_canon_iff assms(1,2) by auto
  let ?l = "map (\<lambda>(k, v). (segments k, v)) cat"
  have k: "good_segs (segments k)" "J (segments k) = k" if "k \<in> fst ` set cat" for k
    using relpath_key_form [of k] assms(3) that by auto
  have cat: "with_keys J ?l = cat" using k(2) by (force intro!: map_idI)
  have good: "\<forall>ys \<in> fst ` set ?l. good_segs ys" using k(1) by force
  have "inj_on segments (fst ` set cat)" using k(2) by (intro inj_on_inverseI [where g = J])
  then have "distinct (map fst ?l)" using distinct_keys_inj [OF assms(4)] by (simp add: comp_def case_prod_beta)
  from add_prefix_eq [OF xs(1) good this] remove_prefix_eq [OF xs(1) good this] show ?thesis
    unfolding cat xs(2) [symmetric] by blast
qed

text \<open>\<^verbatim>\<open>svn_mergeinfo__mergeinfo_from_segments\<close> records for a path exactly the revisions of the segments with
  that path, both ends included, except revision 0, which a range cannot express; gaps contribute
  nothing.\<close>

theorem mergeinfo_from_segments_revisions:
  assumes "\<forall>s \<in> set segs. 0 \<le> segment_start s"
  shows "revs (svn_mergeinfo__mergeinfo_from_segments segs) (slash # path) =
    {n. 0 < n \<and> (\<exists>s \<in> set segs. segment_path s = Some path \<and> segment_start s \<le> n \<and> n \<le> segment_end s)}"
  using add_segments_revs [OF assms, of "[]" path] by (auto simp: svn_mergeinfo__mergeinfo_from_segments_def revs_def)

text \<open>\<^verbatim>\<open>svn_mergeinfo__adjust_mergeinfo_rangelists\<close> drops more than the revisions that would become 0 or
  less: a range whose first revision would become revision 1 is lost as a whole, and with it the path.\<close>

theorem adjust_drops_positive_revisions:
  "\<exists>mi offset path. (\<forall>n \<in> revs mi path. 0 < n + offset) \<and> revs mi path \<noteq> {} \<and>
    revs (fst (svn_mergeinfo__adjust_mergeinfo_rangelists (Some mi) offset)) path = {}"
proof -
  let ?mi = "[(''/a'', [\<lparr>range_start = 1, range_end = 9, inheritable = True\<rparr>])] :: svn_mergeinfo_t"
  have "\<forall>n \<in> revs ?mi ''/a''. 0 < n + (- 1)" "revs ?mi ''/a'' \<noteq> {}" by (auto simp: revs_def)
  moreover have "revs (fst (svn_mergeinfo__adjust_mergeinfo_rangelists (Some ?mi) (- 1))) ''/a'' = {}"
    by (simp add: svn_mergeinfo__adjust_mergeinfo_rangelists_def entries_def keeps_positive_def revs_def)
  ultimately show ?thesis by blast
qed

end
