(* ===== verification/App_State.thy ===== *)
theory App_State
  imports Prelude
begin

text \<open>
  The state of the svnCurses front end: the static members of the class \<^verbatim>\<open>State\<close>
  (\<^verbatim>\<open>src/src/state.h\<close>, \<^verbatim>\<open>src/src/state.cpp\<close>) as the record \<open>State\<close>, its accessors, and
  the mode flags. The interface of the flags is the locale \<open>flag_store\<close>; the three modes of
  the class are an instance of it, so what holds of any sequence of toggles is proved once.
\<close>

section \<open>The static members\<close>

datatype mode = ADD | HIDDEN | RM

record State =
  isRunning :: bool
  statusItems :: "string list"
  allStatusItems :: "string list"
  selectedItems :: "string list"
  cursorPosition :: int
  maxX :: int
  maxY :: int
  padPos :: int
  add :: "mode \<times> bool"
  hidden :: "mode \<times> bool"
  rm :: "mode \<times> bool"

text \<open>The values the definitions of \<^verbatim>\<open>state.cpp\<close> give the members before \<^verbatim>\<open>main\<close> runs;
  \<^verbatim>\<open>isRunning\<close> has no initialiser and static storage, so it starts as \<^verbatim>\<open>false\<close>.\<close>

definition State_init :: State where
  "State_init =
     \<lparr>isRunning = False, statusItems = [], allStatusItems = [], selectedItems = [],
      cursorPosition = 0, maxX = 0, maxY = 0, padPos = 0,
      add = (ADD, False), hidden = (HIDDEN, False), rm = (RM, False)\<rparr>"

definition getAddMode :: "State \<Rightarrow> mode \<times> bool" where
  "getAddMode s = add s"

definition getHiddenMode :: "State \<Rightarrow> mode \<times> bool" where
  "getHiddenMode s = hidden s"

definition getRmMode :: "State \<Rightarrow> mode \<times> bool" where
  "getRmMode s = rm s"

definition setHiddenMode :: "mode \<times> bool \<Rightarrow> State \<Rightarrow> State" where
  "setHiddenMode t s = s\<lparr>hidden := t\<rparr>"

definition setAddMode :: "mode \<times> bool \<Rightarrow> State \<Rightarrow> State" where
  "setAddMode t s = s\<lparr>add := t\<rparr>"

definition setRmMode :: "mode \<times> bool \<Rightarrow> State \<Rightarrow> State" where
  "setRmMode t s = s\<lparr>rm := t\<rparr>"

definition getMode :: "mode \<Rightarrow> State \<Rightarrow> bool" where
  "getMode m s =
     (case m of
        ADD \<Rightarrow> snd (getAddMode s)
      | HIDDEN \<Rightarrow> snd (getHiddenMode s)
      | RM \<Rightarrow> snd (getRmMode s))"

definition toggleMode :: "mode \<Rightarrow> State \<Rightarrow> State" where
  "toggleMode m s =
     (case m of
        ADD \<Rightarrow> (let val = \<not> snd (getAddMode s) in setAddMode (m, val) s)
      | HIDDEN \<Rightarrow> (let val = \<not> snd (getHiddenMode s) in setHiddenMode (m, val) s)
      | RM \<Rightarrow> (let val = \<not> snd (getRmMode s) in setRmMode (m, val) s))"

lemmas mode_defs =
  getMode_def toggleMode_def getAddMode_def getHiddenMode_def getRmMode_def
  setAddMode_def setHiddenMode_def setRmMode_def

section \<open>The contract of the mode flags\<close>

locale flag_store =
  fixes get :: "'m \<Rightarrow> 's \<Rightarrow> bool"
    and toggle :: "'m \<Rightarrow> 's \<Rightarrow> 's"
  assumes get_toggle_same: "get m (toggle m s) = (\<not> get m s)"
    and get_toggle_other: "m \<noteq> n \<Longrightarrow> get n (toggle m s) = get n s"
begin

lemma get_toggle: "get n (toggle m s) = (get n s \<noteq> (m = n))"
  by (cases "m = n") (auto simp: get_toggle_same get_toggle_other)

text \<open>After any sequence of toggles a flag has changed exactly when it was toggled an odd
  number of times.\<close>

lemma get_fold_toggle: "get n (fold toggle ms s) = (get n s \<noteq> odd (count_list ms n))"
proof (induction ms arbitrary: s)
  case (Cons m ms)
  then show ?case by (cases "m = n") (auto simp: get_toggle_same get_toggle_other)
qed simp

end

interpretation modes: flag_store getMode toggleMode
proof
  show "getMode m (toggleMode m s) = (\<not> getMode m s)" for m s
    by (cases m) (simp_all add: mode_defs)
next
  show "getMode n (toggleMode m s) = getMode n s" if "m \<noteq> n" for m n s
    using that by (cases m; cases n) (simp_all add: mode_defs)
qed

section \<open>Well-tagged modes and frames\<close>

text \<open>Each mode tuple carries its own tag.\<close>

definition modes_ok :: "State \<Rightarrow> bool" where
  "modes_ok s \<longleftrightarrow> fst (add s) = ADD \<and> fst (hidden s) = HIDDEN \<and> fst (rm s) = RM"

lemma modes_ok_init: "modes_ok State_init"
  by (simp add: modes_ok_def State_init_def)

lemma modes_ok_toggle: "modes_ok s \<Longrightarrow> modes_ok (toggleMode m s)"
  by (cases m) (simp_all add: modes_ok_def mode_defs)

lemma toggleMode_frame [frame_simps]:
  "statusItems (toggleMode m s) = statusItems s"
  "selectedItems (toggleMode m s) = selectedItems s"
  "allStatusItems (toggleMode m s) = allStatusItems s"
  "cursorPosition (toggleMode m s) = cursorPosition s"
  "padPos (toggleMode m s) = padPos s"
  "maxX (toggleMode m s) = maxX s"
  "maxY (toggleMode m s) = maxY s"
  "isRunning (toggleMode m s) = isRunning s"
  by (cases m; simp add: mode_defs)+

lemma toggleMode_twice: "modes_ok s \<Longrightarrow> toggleMode m (toggleMode m s) = s"
  by (cases m; cases s; cases "add s"; cases "hidden s"; cases "rm s")
     (simp_all add: modes_ok_def mode_defs)

end
