(* ===== verification/App_Curses.thy ===== *)
theory App_Curses
  imports App_State
begin

text \<open>
  The display half of \<^verbatim>\<open>src/src/svn_curses.cpp\<close>: printing the status list, running a
  command, refreshing the list and moving the cursor by one row.

  The curses library, the shell behind \<^verbatim>\<open>popen\<close> and the two Boost string algorithms are not
  part of the repository. The shell and the Boost algorithms are the fields of the record
  \<open>platform\<close>, an argument of every operation that uses them; what the code relies on is
  \<open>split_law\<close> and \<open>join_law\<close>, the documented behaviour of \<^verbatim>\<open>boost::split\<close> (without token
  compression) and \<^verbatim>\<open>boost::algorithm::join\<close>. A call into curses that draws is recorded in the
  trace; \<^verbatim>\<open>getch\<close> takes its results from the list of keys, and once it is used up every call
  times out with \<^verbatim>\<open>ERR\<close> (-1).

  What the lemmas show: reading a pipe through a 256-byte buffer loses nothing
  (\<open>read_pipe_id\<close>), when printing succeeds and how it fails, that it pads every printed item
  to the width of the screen and touches nothing else, and what one cursor movement does.
\<close>

section \<open>The platform\<close>

record platform =
  shell :: "string list \<Rightarrow> string \<Rightarrow> string option"
    \<comment> \<open>the output of a command, after the commands run before it; None: \<^verbatim>\<open>popen\<close> fails\<close>
  boost_split :: "string \<Rightarrow> string \<Rightarrow> string list"
    \<comment> \<open>\<^verbatim>\<open>split (result, input, is_any_of (separators))\<close>\<close>
  boost_join :: "string list \<Rightarrow> string \<Rightarrow> string"
  screen_yx :: "int \<times> int" \<comment> \<open>what \<^verbatim>\<open>getmaxyx (stdscr, ..)\<close> reports\<close>
  newpad_works :: bool \<comment> \<open>whether \<^verbatim>\<open>newpad\<close> returns a pad\<close>

definition split_law :: "(string \<Rightarrow> string \<Rightarrow> string list) \<Rightarrow> bool" where
  "split_law f \<longleftrightarrow>
     (\<forall>s c. f s [c] \<noteq> [] \<and> join_with [c] (f s [c]) = s \<and> (\<forall>t \<in> set (f s [c]). c \<notin> set t))"

definition join_law :: "(string list \<Rightarrow> string \<Rightarrow> string) \<Rightarrow> bool" where
  "join_law f \<longleftrightarrow>
     (\<forall>sep. f [] sep = [] \<and> (\<forall>x. f [x] sep = x) \<and>
       (\<forall>x y ys. f (x # y # ys) sep = x @ sep @ f (y # ys) sep))"

datatype win = stdscr | win | pad

datatype attr = A_BOLD | COLOR_PAIR int

datatype io =
    Wclear win | Wrefresh win | Refresh | Doupdate
  | Wattron win attr | Wattroff win attr
  | Wprintw win string | Mvwprintw win int int string
  | Prefresh win int int int int int int
  | Timeout int
  | Initscr | Cbreak | Keypad win bool | Mouseinterval int | Start_color | Use_default_colors
  | Curs_set int | Noecho | Init_pair int int int | Newwin int int int int | Newpad int int
  | Scrollok win bool | Idlok win bool | Delwin win | Endwin
  | Printf string | Cerr string

record App =
  st :: State
  keys :: "int list"
  cmds :: "string list" \<comment> \<open>the commands \<^verbatim>\<open>popen\<close> has started, oldest first\<close>
  trace :: "io list" \<comment> \<open>the output calls made so far, oldest first\<close>

definition emit :: "io \<Rightarrow> (App, unit) prog" where
  "emit e w = (Normal (), w\<lparr>trace := trace w @ [e]\<rparr>)"

definition getS :: "(State \<Rightarrow> 'a) \<Rightarrow> (App, 'a) prog" where
  "getS f w = (Normal (f (st w)), w)"

definition modS :: "(State \<Rightarrow> State) \<Rightarrow> (App, unit) prog" where
  "modS f w = (Normal (), w\<lparr>st := f (st w)\<rparr>)"

definition getch :: "(App, int) prog" where
  "getch w = (case keys w of [] \<Rightarrow> (Normal (- 1), w) | k # ks \<Rightarrow> (Normal k, w\<lparr>keys := ks\<rparr>))"

lemmas io_defs = emit_def getS_def modS_def getch_def

section \<open>The operations of \<^verbatim>\<open>std::string\<close> the code uses\<close>

text \<open>The largest size \<^verbatim>\<open>std::string\<close> reports on a 64-bit target. Every bound from
  \<open>2 ^ 32\<close> up to \<open>2 ^ 64 - 2 ^ 31\<close> gives the same behaviour below.\<close>

definition string_max_size :: int where
  "string_max_size = 2 ^ 63 - 1"

text \<open>\<^verbatim>\<open>s.append (n, c)\<close>: the count is converted to \<^verbatim>\<open>size_t\<close> first.\<close>

definition string_append :: "string \<Rightarrow> int \<Rightarrow> char \<Rightarrow> exn + string" where
  "string_append s n c =
     (let k = to_size n in
      if string_max_size - int (length s) < k then Inl length_error
      else Inr (s @ replicate (nat k) c))"

text \<open>\<^verbatim>\<open>s.insert (p, t)\<close>\<close>

definition string_insert :: "string \<Rightarrow> nat \<Rightarrow> string \<Rightarrow> exn + string" where
  "string_insert s p t =
     (if length s < p then Inl out_of_range else Inr (take p s @ t @ drop p s))"

text \<open>\<^verbatim>\<open>s.erase (0, n)\<close>\<close>

definition string_erase0 :: "string \<Rightarrow> nat \<Rightarrow> string" where
  "string_erase0 s n = drop n s"

section \<open>Printing\<close>

definition bottomWindowSize :: int where
  "bottomWindowSize = 8"

definition statusColor :: "char \<Rightarrow> int" where
  "statusColor c =
     (if c = CHR ''M'' then 1
      else if c = CHR ''?'' then 3
      else if c = CHR ''!'' then 2
      else if c = CHR ''A'' then 4
      else if c = CHR ''D'' then 5
      else 8)"

text \<open>The text of a selected item: one blank inserted at column 8, the last byte dropped.\<close>

definition selectedText :: "string \<Rightarrow> exn + string" where
  "selectedText item =
     (case string_insert item 8 '' '' of Inl e \<Rightarrow> Inl e | Inr t \<Rightarrow> Inr (butlast t))"

definition raise_or :: "exn + 'a \<Rightarrow> ('a \<Rightarrow> (App, 'b) prog) \<Rightarrow> (App, 'b) prog" where
  "raise_or r k w = (case r of Inl e \<Rightarrow> (Thrown e, w) | Inr x \<Rightarrow> k x w)"

text \<open>The four ways an item is drawn, after it has been padded: \<open>sel\<close> tells whether it was
  found among the selected items.\<close>

definition drawItem :: "win \<Rightarrow> bool \<Rightarrow> bool \<Rightarrow> string \<Rightarrow> (App, unit) prog" where
  "drawItem p_win sel atCursor item =
     (if sel \<and> \<not> atCursor then
        block [emit (Wattron p_win A_BOLD), emit (Wattron p_win (COLOR_PAIR 8)),
          raise_or (selectedText item) (\<lambda>t. emit (Wprintw p_win t)),
          emit (Wattroff p_win (COLOR_PAIR 8))]
      else if sel \<and> atCursor then
        block [emit (Wattron p_win (COLOR_PAIR 6)),
          raise_or (selectedText item) (\<lambda>t. emit (Wprintw p_win t)),
          emit (Wattroff p_win (COLOR_PAIR 6))]
      else if atCursor then
        block [emit (Wattron p_win (COLOR_PAIR 6)), emit (Wprintw p_win item),
          emit (Wattroff p_win (COLOR_PAIR 6))]
      else
        (case item of
           [] \<Rightarrow> (\<lambda>w. (Undefined front_of_empty, w))
         | c # _ \<Rightarrow>
             block [emit (Wattron p_win (COLOR_PAIR (statusColor c))),
               emit (Wprintw p_win item),
               emit (Wattroff p_win (COLOR_PAIR (statusColor c)))]))"

definition printStatusWithColor :: "win \<Rightarrow> int \<Rightarrow> (App, unit) prog" where
  "printStatusWithColor p_win i w =
     (let s = st w; items = statusItems s in
      if \<not> (0 \<le> i \<and> i < int (length items)) then (Undefined subscript_out_of_range, w)
      else
        let str = items ! nat i;
            padSize = to_int (to_size (to_size (maxX s) - int (length str)));
            isItemSelected = str \<in> set (selectedItems s)
        in raise_or (string_append str padSize (CHR '' ''))
             (\<lambda>item. andThen (modS (\<lambda>s. s\<lparr>statusItems := (statusItems s)[nat i := item]\<rparr>))
                (\<lambda>_. drawItem p_win isItemSelected (i = cursorPosition s) item)) w)"

text \<open>The loop of \<^verbatim>\<open>printAllStatus\<close>: \<^verbatim>\<open>i\<close> is compared with a \<^verbatim>\<open>size_t\<close>, so it is converted
  first. Printing never changes the number of items, which bounds the loop.\<close>

lemma emit_st [frame_simps]:
  "st (snd (emit e w)) = st w" "keys (snd (emit e w)) = keys w" "cmds (snd (emit e w)) = cmds w"
  by (simp_all add: emit_def)

definition draws_only :: "App \<Rightarrow> App \<Rightarrow> bool" where
  "draws_only w w' \<longleftrightarrow> st w' = st w \<and> keys w' = keys w \<and> cmds w' = cmds w"

lemma draws_only_refl: "reflp draws_only"
  by (simp add: reflp_def draws_only_def)

lemma draws_only_trans: "transp draws_only"
  by (simp add: transp_def draws_only_def)

lemma keeps_draws_emit: "keeps draws_only (emit e)"
  by (simp add: keeps_def draws_only_def frame_simps)

lemma keeps_draws_raise_or: "(\<And>x. keeps draws_only (k x)) \<Longrightarrow> keeps draws_only (raise_or r k)"
  by (auto simp: keeps_def raise_or_def draws_only_def split: sum.split)

lemma keeps_draws_stop: "keeps draws_only (Pair r)"
  by (simp add: keeps_def draws_only_def)

lemma keeps_draws_drawItem: "keeps draws_only (drawItem p_win sel cur item)"
  unfolding drawItem_def
  by (auto intro!: keeps_block draws_only_refl draws_only_trans keeps_draws_emit
      keeps_draws_raise_or keeps_draws_stop split: list.split)

lemma printStatusWithColor_length:
  "printStatusWithColor p_win i w = (r, w') \<Longrightarrow>
     length (statusItems (st w')) = length (statusItems (st w))"
proof -
  assume eq: "printStatusWithColor p_win i w = (r, w')"
  have "st (snd (drawItem p_win sel cur item v)) = st v" for sel cur item v
    using keepsD [OF keeps_draws_drawItem] by (simp add: draws_only_def)
  then show ?thesis
    using arg_cong [OF eq, of snd]
    by (auto simp: printStatusWithColor_def Let_def raise_or_def andThen_def modS_def
        split: sum.splits if_splits)
qed

function printLoop :: "win \<Rightarrow> int \<Rightarrow> (App, unit) prog" where
  "printLoop p i w =
     (if to_size i < int (length (statusItems (st w)))
      then (case printStatusWithColor p i w of
              (Normal _, w') \<Rightarrow> printLoop p (i + 1) w'
            | (Thrown e, w') \<Rightarrow> (Thrown e, w')
            | (Undefined u, w') \<Rightarrow> (Undefined u, w'))
      else (Normal (), w))"
  by pat_completeness auto
termination
proof (relation "measure (\<lambda>(p, i, w). nat (int (length (statusItems (st w))) - i))",
    goal_cases)
  case (2 p i w x w' u)
  then have "length (statusItems (st w')) = length (statusItems (st w))"
    by (metis printStatusWithColor_length)
  moreover have "0 \<le> i \<and> i < int (length (statusItems (st w)))"
    using 2 by (auto simp: printStatusWithColor_def Let_def split: if_splits)
  ultimately show ?case by simp
qed simp

declare printLoop.simps [simp del]

definition printAllStatus :: "win \<Rightarrow> (App, unit) prog" where
  "printAllStatus p = andThen (emit (Wclear p)) (\<lambda>_. andThen (getS padPos) (printLoop p))"

section \<open>Running a command\<close>

text \<open>\<^verbatim>\<open>fgets (buffer, 256, pipe)\<close>: at most 255 bytes, up to and including a newline. The
  result is the chunk and what is left in the pipe.\<close>

fun fgets :: "nat \<Rightarrow> string \<Rightarrow> string \<times> string" where
  "fgets 0 s = ([], s)"
| "fgets (Suc n) [] = ([], [])"
| "fgets (Suc n) (c # cs) =
     (if c = newline then ([c], cs)
      else (case fgets n cs of (a, b) \<Rightarrow> (c # a, b)))"

lemma fgets_append: "fgets n s = (a, b) \<Longrightarrow> a @ b = s"
  by (induction n s arbitrary: a b rule: fgets.induct) (auto split: if_splits prod.splits)

lemma fgets_progress: "fgets (Suc n) s = (a, b) \<Longrightarrow> s \<noteq> [] \<Longrightarrow> length b < length s"
proof -
  assume eq: "fgets (Suc n) s = (a, b)" and "s \<noteq> []"
  then have "a \<noteq> []" by (cases s) (auto split: if_splits prod.splits)
  with fgets_append [OF eq] show ?thesis by auto
qed

text \<open>The reading loop of \<^verbatim>\<open>exec\<close>: \<^verbatim>\<open>fgets\<close> returns a null pointer at the end of the pipe;
  what it read is appended as a C string.\<close>

function readPipe :: "string \<Rightarrow> string \<Rightarrow> string" where
  "readPipe result s =
     (if s = [] then result
      else (case fgets 255 s of (buf, rest) \<Rightarrow> readPipe (result @ c_str buf) rest))"
  by pat_completeness auto
termination
  by (relation "measure (\<lambda>(result, s). length s)")
     (auto dest!: sym [of _ "fgets 255 _"] dest: fgets_progress [of 254, simplified])

declare readPipe.simps [simp del]

definition exec :: "platform \<Rightarrow> string \<Rightarrow> (App, string) prog" where
  "exec P cmd w =
     (case shell P (cmds w) cmd of
        None \<Rightarrow> (Thrown (runtime_error ''popen() failed!''), w)
      | Some out \<Rightarrow> (Normal (readPipe [] out), w\<lparr>cmds := cmds w @ [cmd]\<rparr>))"

lemma readPipe_append: "is_cstring s \<Longrightarrow> readPipe result s = result @ s"
proof (induction result s rule: readPipe.induct)
  case (1 result s)
  obtain buf rest where f: "fgets 255 s = (buf, rest)" by (cases "fgets 255 s")
  show ?case
  proof (cases "s = []")
    case True
    then show ?thesis by (simp add: readPipe.simps)
  next
    case False
    have "buf @ rest = s" using f by (rule fgets_append)
    with "1.prems" have "is_cstring buf" "is_cstring rest" by auto
    with "1.IH" [OF False f [symmetric]] show ?thesis
      using False f \<open>buf @ rest = s\<close> by (simp add: readPipe.simps [of result s] c_str_id)
  qed
qed

section \<open>Refreshing the list\<close>

definition drawPad :: "(App, unit) prog" where
  "drawPad =
     andThen (getS maxY) (\<lambda>y. andThen (getS maxX) (\<lambda>x.
       emit (Prefresh pad 0 0 0 0 (y - bottomWindowSize) x)))"

definition popBack :: "string \<Rightarrow> (App, string) prog" where
  "popBack s w = (if s = [] then (Undefined pop_back_on_empty, w) else (Normal (butlast s), w))"

definition refreshStatusItems :: "platform \<Rightarrow> (App, unit) prog" where
  "refreshStatusItems P =
     block
       [modS (\<lambda>s. s\<lparr>selectedItems := []\<rparr>),
        andThen (getS maxY) (\<lambda>y. emit (Mvwprintw win (y - 1) 0 ''...'')),
        emit Doupdate,
        emit (Wrefresh win),
        andThen (exec P ''svn st'') (\<lambda>execResult.
          andThen (popBack execResult) (\<lambda>text.
            modS (\<lambda>s. s\<lparr>statusItems := boost_split P text [newline]\<rparr>))),
        modS (\<lambda>s. s\<lparr>allStatusItems := statusItems s\<rparr>),
        emit Refresh,
        printAllStatus pad,
        andThen (getS maxY) (\<lambda>y. emit (Mvwprintw win (y - 1) 0 ''   '')),
        emit Doupdate,
        emit (Wrefresh win),
        drawPad]"

section \<open>Moving by one row\<close>

definition moveUpState :: "State \<Rightarrow> State" where
  "moveUpState s =
     (if 0 < cursorPosition s then
        let s1 = s\<lparr>cursorPosition := cursorPosition s - 1\<rparr> in
        if cursorPosition s1 \<le> padPos s1 then s1\<lparr>padPos := max 0 (padPos s1 - 1)\<rparr> else s1
      else s)"

definition moveOneRowUp :: "(App, unit) prog" where
  "moveOneRowUp = block [modS moveUpState, printAllStatus pad, drawPad]"

text \<open>The comparison with \<^verbatim>\<open>size () - 1\<close> is one of \<^verbatim>\<open>size_t\<close> values.\<close>

definition moveDownState :: "State \<Rightarrow> State" where
  "moveDownState s =
     (if to_size (cursorPosition s) < to_size (int (length (statusItems s)) - 1) then
        let s1 = s\<lparr>cursorPosition := cursorPosition s + 1\<rparr> in
        if maxY s1 - bottomWindowSize + padPos s1 \<le> cursorPosition s1
        then s1\<lparr>padPos := padPos s1 + 1\<rparr> else s1
      else s)"

definition moveOneRowDown :: "(App, unit) prog" where
  "moveOneRowDown = block [modS moveDownState, printAllStatus pad, drawPad]"

end
