(* ===== verification/App_Display.thy ===== *)
theory App_Display
  imports App_Curses
begin

text \<open>
  What printing the status list does (\<^verbatim>\<open>printStatusWithColor\<close>, \<^verbatim>\<open>printAllStatus\<close>): on a
  screen of at least 8 columns it succeeds exactly when every item from the first visible one
  on fits the width, and then pads these items in place to exactly that width and draws one
  text of that width for each (\<open>printLoop_ok\<close>); otherwise it throws (\<open>printLoop_long\<close>). The
  lemmas on refreshing the list and on moving the cursor follow from these.
\<close>

section \<open>One item\<close>

abbreviation (input) blank :: char where "blank \<equiv> CHR '' ''"

definition padTo :: "int \<Rightarrow> string \<Rightarrow> string" where
  "padTo x s = s @ replicate (nat x - length s) blank"

lemma length_padTo: "int (length s) \<le> x \<Longrightarrow> int (length (padTo x s)) = x"
  by (simp add: padTo_def)

lemma padTo_padTo: "int (length s) \<le> x \<Longrightarrow> padTo x (padTo x s) = padTo x s"
  by (simp add: padTo_def)

definition shownText :: "bool \<Rightarrow> string \<Rightarrow> string" where
  "shownText sel item = (if sel then butlast (take 8 item @ '' '' @ drop 8 item) else item)"

definition drawEvents :: "win \<Rightarrow> bool \<Rightarrow> bool \<Rightarrow> string \<Rightarrow> io list" where
  "drawEvents p sel cur item =
     (if sel \<and> \<not> cur then
        [Wattron p A_BOLD, Wattron p (COLOR_PAIR 8), Wprintw p (shownText sel item),
         Wattroff p (COLOR_PAIR 8)]
      else let c = (if cur then 6 else statusColor (hd item)) in
        [Wattron p (COLOR_PAIR c), Wprintw p (shownText sel item), Wattroff p (COLOR_PAIR c)])"

lemma length_shownText: "length (shownText sel item) = length item"
  by (auto simp: shownText_def min_def)

lemma selectedText_ok: "8 \<le> length item \<Longrightarrow> selectedText item = Inr (shownText True item)"
  by (simp add: selectedText_def string_insert_def shownText_def)

lemma drawItem_ok:
  assumes "8 \<le> length item"
  shows "drawItem p sel cur item w =
           (Normal (), w\<lparr>trace := trace w @ drawEvents p sel cur item\<rparr>)"
proof -
  obtain c cs where "item = c # cs" using assms by (cases item) auto
  then show ?thesis
    using assms
    by (simp add: drawItem_def drawEvents_def selectedText_ok block.simps andThen_def emit_def
        raise_or_def returning_def Let_def shownText_def [of False])
qed

text \<open>The \<^verbatim>\<open>int\<close> that is the number of blanks to append: its sign tells whether the item fits.\<close>

lemma padSize_eq:
  assumes "0 \<le> x" "x < 2 ^ 31" "n < 2 ^ 31" "0 \<le> n"
  shows "to_int (to_size (to_size x - n)) = x - n"
  using assms by (simp add: to_size_diff to_int_size to_int_small int_ok_def)

lemma string_append_pad:
  assumes "0 \<le> n" "n < 2 ^ 31" "int (length s) < 2 ^ 31"
  shows "string_append s n c = Inr (s @ replicate (nat n) c)"
  using assms by (simp add: string_append_def to_size_small string_max_size_def Let_def)

lemma string_append_neg:
  assumes "n < 0" "- (2 ^ 31) \<le> n"
  shows "string_append s n c = Inl length_error"
  using assms by (simp add: string_append_def to_size_neg string_max_size_def Let_def)

text \<open>The sizes a terminal and a status list can have: a screen at least 8 columns wide, and
  everything within the range of \<^verbatim>\<open>int\<close>.\<close>

definition sizes_ok :: "State \<Rightarrow> bool" where
  "sizes_ok s \<longleftrightarrow>
     8 \<le> maxX s \<and> maxX s < 2 ^ 31 \<and> length (statusItems s) < 2 ^ 31 \<and>
     (\<forall>t \<in> set (statusItems s). length t < 2 ^ 31)"

definition putItem :: "nat \<Rightarrow> State \<Rightarrow> State" where
  "putItem i s = s\<lparr>statusItems := (statusItems s)[i := padTo (maxX s) (statusItems s ! i)]\<rparr>"

definition itemEvents :: "win \<Rightarrow> State \<Rightarrow> nat \<Rightarrow> io list" where
  "itemEvents p s i =
     drawEvents p (statusItems s ! i \<in> set (selectedItems s)) (int i = cursorPosition s)
       (padTo (maxX s) (statusItems s ! i))"

lemma printStatusWithColor_ok:
  assumes "sizes_ok (st w)" "i < length (statusItems (st w))"
    and "int (length (statusItems (st w) ! i)) \<le> maxX (st w)"
  shows "printStatusWithColor p (int i) w =
     (Normal (), w\<lparr>st := putItem i (st w), trace := trace w @ itemEvents p (st w) i\<rparr>)"
proof -
  let ?str = "statusItems (st w) ! i"
  have len: "int (length ?str) < 2 ^ 31"
    using assms(1,2) by (auto simp: sizes_ok_def)
  have x: "8 \<le> maxX (st w)" "maxX (st w) < 2 ^ 31"
    using assms(1) by (auto simp: sizes_ok_def)
  have "string_append ?str (maxX (st w) - int (length ?str)) blank = Inr (padTo (maxX (st w)) ?str)"
    using assms(3) len x by (simp add: string_append_pad padTo_def nat_diff_distrib)
  moreover have "8 \<le> length (padTo (maxX (st w)) ?str)"
    using length_padTo [OF assms(3)] x by linarith
  ultimately show ?thesis
    using assms(2) len x
    by (simp add: printStatusWithColor_def Let_def padSize_eq raise_or_def andThen_def modS_def
        drawItem_ok putItem_def itemEvents_def)
qed

lemma printStatusWithColor_long:
  assumes "sizes_ok (st w)" "i < length (statusItems (st w))"
    and "maxX (st w) < int (length (statusItems (st w) ! i))"
  shows "printStatusWithColor p (int i) w = (Thrown length_error, w)"
proof -
  let ?str = "statusItems (st w) ! i"
  have len: "int (length ?str) < 2 ^ 31"
    using assms(1,2) by (auto simp: sizes_ok_def)
  have x: "8 \<le> maxX (st w)" "maxX (st w) < 2 ^ 31"
    using assms(1) by (auto simp: sizes_ok_def)
  show ?thesis
    using assms(2,3) len x
    by (simp add: printStatusWithColor_def Let_def padSize_eq raise_or_def string_append_neg)
qed

text \<open>Printing from item \<open>i\<close> on: the state and the calls it leaves behind.\<close>

definition padFrom :: "nat \<Rightarrow> State \<Rightarrow> State" where
  "padFrom i s =
     s\<lparr>statusItems := take i (statusItems s) @ map (padTo (maxX s)) (drop i (statusItems s))\<rparr>"

definition listEvents :: "win \<Rightarrow> State \<Rightarrow> nat \<Rightarrow> io list" where
  "listEvents p s i = concat (map (itemEvents p s) [i ..< length (statusItems s)])"

definition fitsFrom :: "nat \<Rightarrow> State \<Rightarrow> bool" where
  "fitsFrom i s \<longleftrightarrow> (\<forall>t \<in> set (drop i (statusItems s)). int (length t) \<le> maxX s)"

lemma putItem_frame [frame_simps]:
  "length (statusItems (putItem i s)) = length (statusItems s)" "maxX (putItem i s) = maxX s"
  "selectedItems (putItem i s) = selectedItems s"
  "cursorPosition (putItem i s) = cursorPosition s"
  by (simp_all add: putItem_def)

lemma drop_putItem: "drop (Suc i) (statusItems (putItem i s)) = drop (Suc i) (statusItems s)"
  by (simp add: putItem_def)

lemma fitsFrom_putItem: "fitsFrom (Suc i) (putItem i s) = fitsFrom (Suc i) s"
  by (simp add: fitsFrom_def drop_putItem frame_simps)

lemma fitsFrom_Suc:
  "i < length (statusItems s) \<Longrightarrow>
     fitsFrom i s = (int (length (statusItems s ! i)) \<le> maxX s \<and> fitsFrom (Suc i) s)"
  by (simp add: fitsFrom_def Cons_nth_drop_Suc [symmetric])

lemma sizes_ok_putItem:
  "sizes_ok s \<Longrightarrow> i < length (statusItems s) \<Longrightarrow> int (length (statusItems s ! i)) \<le> maxX s \<Longrightarrow>
     sizes_ok (putItem i s)"
  using length_padTo [of "statusItems s ! i" "maxX s"]
  by (auto simp: sizes_ok_def putItem_def dest!: set_update_subset_insert [THEN subsetD])

lemma padFrom_putItem:
  "i < length (statusItems s) \<Longrightarrow> padFrom (Suc i) (putItem i s) = padFrom i s"
  by (simp add: padFrom_def putItem_def Cons_nth_drop_Suc [symmetric] take_Suc_conv_app_nth
      del: drop_Suc take_Suc)

lemma itemEvents_putItem: "i < j \<Longrightarrow> itemEvents p (putItem i s) j = itemEvents p s j"
  by (simp add: itemEvents_def putItem_def)

lemma listEvents_putItem:
  "i < length (statusItems s) \<Longrightarrow>
     itemEvents p s i @ listEvents p (putItem i s) (Suc i) = listEvents p s i"
proof -
  assume i: "i < length (statusItems s)"
  have "map (itemEvents p (putItem i s)) [Suc i ..< length (statusItems s)] =
        map (itemEvents p s) [Suc i ..< length (statusItems s)]"
    by (rule map_cong) (auto simp: itemEvents_putItem)
  then show ?thesis
    using i by (simp add: listEvents_def frame_simps upt_conv_Cons del: map_eq_conv)
qed

lemma printLoop_end:
  "length (statusItems (st w)) \<le> i \<Longrightarrow> i < 2 ^ 63 \<Longrightarrow> printLoop p (int i) w = (Normal (), w)"
  by (simp add: printLoop.simps to_size_small)

lemma printLoop_ok:
  assumes "sizes_ok (st w)" "i \<le> length (statusItems (st w))" "fitsFrom i (st w)"
  shows "printLoop p (int i) w =
     (Normal (), w\<lparr>st := padFrom i (st w), trace := trace w @ listEvents p (st w) i\<rparr>)"
  using assms
proof (induction "length (statusItems (st w)) - i" arbitrary: i w)
  case 0
  then have "i = length (statusItems (st w))" by simp
  with 0 show ?case
    by (simp add: printLoop_end sizes_ok_def padFrom_def listEvents_def)
next
  case (Suc d)
  let ?w = "w\<lparr>st := putItem i (st w), trace := trace w @ itemEvents p (st w) i\<rparr>"
  have i: "i < length (statusItems (st w))" using Suc.hyps(2) by simp
  have fit: "int (length (statusItems (st w) ! i)) \<le> maxX (st w)" "fitsFrom (Suc i) (st w)"
    using Suc.prems(3) i by (simp_all add: fitsFrom_Suc)
  have "printLoop p (int (Suc i)) ?w =
      (Normal (), ?w\<lparr>st := padFrom (Suc i) (st ?w), trace := trace ?w @ listEvents p (st ?w) (Suc i)\<rparr>)"
    using Suc.hyps(2) Suc.prems(1) i fit
    by (intro Suc.hyps(1)) (auto simp: frame_simps sizes_ok_putItem fitsFrom_putItem)
  moreover have "to_size (int i) < int (length (statusItems (st w)))"
    using i Suc.prems(1) by (simp add: to_size_small sizes_ok_def)
  ultimately show ?case
    using printStatusWithColor_ok [OF Suc.prems(1) i fit(1), of p] i
    by (simp add: printLoop.simps [of p "int i" w] padFrom_putItem listEvents_putItem add.commute)
qed

lemma printLoop_long:
  assumes "sizes_ok (st w)" "i \<le> length (statusItems (st w))" "\<not> fitsFrom i (st w)"
  shows "fst (printLoop p (int i) w) = Thrown length_error"
  using assms
proof (induction "length (statusItems (st w)) - i" arbitrary: i w)
  case 0
  then have "i = length (statusItems (st w))" by simp
  with 0 show ?case by (simp add: fitsFrom_def)
next
  case (Suc d)
  let ?w = "w\<lparr>st := putItem i (st w), trace := trace w @ itemEvents p (st w) i\<rparr>"
  have i: "i < length (statusItems (st w))" using Suc.hyps(2) by simp
  have guard: "to_size (int i) < int (length (statusItems (st w)))"
    using i Suc.prems(1) by (simp add: to_size_small sizes_ok_def)
  show ?case
  proof (cases "int (length (statusItems (st w) ! i)) \<le> maxX (st w)")
    case True
    then have "fst (printLoop p (int (Suc i)) ?w) = Thrown length_error"
      using Suc.hyps(2) Suc.prems i
      by (intro Suc.hyps(1)) (auto simp: frame_simps sizes_ok_putItem fitsFrom_putItem fitsFrom_Suc)
    then show ?thesis
      using printStatusWithColor_ok [OF Suc.prems(1) i True, of p] guard
      by (simp add: printLoop.simps [of p "int i" w] add.commute)
  next
    case False
    then show ?thesis
      using printStatusWithColor_long [OF Suc.prems(1) i, of p] guard
      by (simp add: printLoop.simps [of p "int i" w])
  qed
qed

end
