(* ===== verification/App_Keys.thy ===== *)
theory App_Keys
  imports App_Display
begin

text \<open>
  The input half of \<^verbatim>\<open>src/src/svn_curses.cpp\<close>: one definition per key of \<^verbatim>\<open>keyEvent\<close>, the
  dispatch, and \<^verbatim>\<open>main\<close>. A loop that reads keys until the user quits need not end, so
  \<open>mainLoop\<close> takes fuel, the number of iterations allowed; \<open>None\<close> means that it was used up.
\<close>

section \<open>The keys\<close>

definition quitKey :: "(App, unit) prog" where
  "quitKey = modS (\<lambda>s. s\<lparr>isRunning := False\<rparr>)"

text \<open>\<^verbatim>\<open>G\<close>: the last item. Both comparisons and the new \<^verbatim>\<open>padPos\<close> are \<^verbatim>\<open>size_t\<close> arithmetic.\<close>

definition bottomState :: "State \<Rightarrow> State" where
  "bottomState s =
     (let size = int (length (statusItems s)) in
      if to_size (cursorPosition s) < to_size (size - 1) then
        let s1 = (if to_size (maxY s) < to_size (size - 1)
                  then s\<lparr>padPos := to_int (to_size (to_size (size - to_size (maxY s))
                                                   + to_size bottomWindowSize))\<rparr>
                  else s)
        in s1\<lparr>cursorPosition := to_int (to_size (size - 1))\<rparr>
      else s)"

definition bottomKey :: "(App, unit) prog" where
  "bottomKey = block [modS bottomState, printAllStatus pad, drawPad]"

text \<open>\<^verbatim>\<open>gg\<close>: the first item.\<close>

definition topKey :: "(App, unit) prog" where
  "topKey = andThen getch (\<lambda>c.
     if c = 103 then
       block [modS (\<lambda>s. s\<lparr>cursorPosition := 0\<rparr>), modS (\<lambda>s. s\<lparr>padPos := 0\<rparr>),
         printAllStatus pad, drawPad]
     else returning ())"

definition refreshKey :: "platform \<Rightarrow> (App, unit) prog" where
  "refreshKey P =
     block [modS (\<lambda>s. s\<lparr>cursorPosition := 0\<rparr>), modS (\<lambda>s. s\<lparr>padPos := 0\<rparr>),
       refreshStatusItems P]"

definition clearWin :: "(App, unit) prog" where
  "clearWin = block [emit (Wclear win), emit (Wrefresh win)]"

definition ask :: "string \<Rightarrow> (App, unit) prog" where
  "ask q = block [emit (Mvwprintw win (bottomWindowSize - 1) 0 q), emit (Wrefresh win)]"

text \<open>The questions of \<^verbatim>\<open>a\<close> and \<^verbatim>\<open>r\<close>: the command runs only after a \<^verbatim>\<open>y\<close>.\<close>

definition confirmAdd :: "platform \<Rightarrow> string list \<Rightarrow> (App, unit) prog" where
  "confirmAdd P items = andThen getch (\<lambda>c.
     if c = 121 then
       block [clearWin,
         andThen (exec P (''svn add '' @ boost_join P items '' '')) (\<lambda>result. returning ())]
     else returning ())"

definition addKey :: "platform \<Rightarrow> (App, unit) prog" where
  "addKey P = andThen (getS selectedItems) (\<lambda>sel.
     let items = map (\<lambda>str. string_erase0 str 7) sel in
     block
       [clearWin, ask ''Add selected items? (y/n?)'', emit (Timeout 12000),
        confirmAdd P items, refreshStatusItems P, clearWin])"

definition confirmRemove :: "platform \<Rightarrow> string list \<Rightarrow> (App, unit) prog" where
  "confirmRemove P items = andThen getch (\<lambda>c.
     if c = 121 then
       block [clearWin, ask ''Keep local files? (y/n?)'',
         andThen getch (\<lambda>c.
           let keepLocal = (if c = 121 then ''--keep-local '' else '''') in
           block [clearWin,
             andThen (exec P (''svn rm '' @ keepLocal @ boost_join P items '' ''))
               (\<lambda>result. returning ())])]
     else returning ())"

definition removeKey :: "platform \<Rightarrow> (App, unit) prog" where
  "removeKey P = andThen (getS selectedItems) (\<lambda>sel.
     let items = map (\<lambda>str. string_erase0 str 7) sel in
     block
       [clearWin, ask ''Delete selected items? (y/n?)'', emit (Timeout 12000),
        confirmRemove P items,
        modS (\<lambda>s. s\<lparr>cursorPosition := 0\<rparr>), modS (\<lambda>s. s\<lparr>padPos := 0\<rparr>),
        emit (Wclear win), refreshStatusItems P, emit (Wrefresh win)])"

definition updateKey :: "platform \<Rightarrow> (App, unit) prog" where
  "updateKey P =
     block
       [ask ''Bring changes from the repository into the working copy? (y/n?)'',
        emit (Timeout 8000),
        andThen getch (\<lambda>c.
          if c = 121 then
            block [clearWin,
              andThen (exec P ''svn up'') (\<lambda>result. emit (Wprintw win result)),
              emit (Wrefresh win), andThen getch (\<lambda>_. returning ()),
              refreshStatusItems P]
          else clearWin)]"

text \<open>The blank: select or deselect the item under the cursor, then move down. An index
  outside the list is undefined behaviour of \<^verbatim>\<open>vector::operator[]\<close>.\<close>

definition toggleSelected :: "string \<Rightarrow> string list \<Rightarrow> string list" where
  "toggleSelected item sel = (if item \<in> set sel then filter (\<lambda>x. x \<noteq> item) sel else sel @ [item])"

definition selectAtCursor :: "(App, unit) prog" where
  "selectAtCursor w =
     (let s = st w; c = cursorPosition s in
      if 0 \<le> c \<and> c < int (length (statusItems s))
      then modS (\<lambda>s. s\<lparr>selectedItems :=
             toggleSelected (statusItems s ! nat c) (selectedItems s)\<rparr>) w
      else (Undefined subscript_out_of_range, w))"

definition selectKey :: "(App, unit) prog" where
  "selectKey = block [selectAtCursor, moveOneRowDown]"

definition hiddenKey :: "(App, unit) prog" where
  "hiddenKey =
     block [modS (toggleMode HIDDEN),
       andThen (getS (getMode HIDDEN)) (\<lambda>hidden.
         block [clearWin,
           emit (Wprintw win (''HIDDEN = '' @ (if hidden then ''true'' else ''false''))),
           emit (Wrefresh win)])]"

text \<open>The key codes of the \<^verbatim>\<open>switch\<close> are the character constants of the source:
  \<^verbatim>\<open>q Q j k G g s a r u\<close>, the blank and the full stop.\<close>

definition dispatch :: "platform \<Rightarrow> int \<Rightarrow> (App, unit) prog" where
  "dispatch P c =
     (if c = 113 \<or> c = 81 then quitKey
      else if c = 106 then moveOneRowDown
      else if c = 107 then moveOneRowUp
      else if c = 71 then bottomKey
      else if c = 103 then topKey
      else if c = 115 then refreshKey P
      else if c = 97 then addKey P
      else if c = 114 then removeKey P
      else if c = 117 then updateKey P
      else if c = 32 then selectKey
      else if c = 46 then hiddenKey
      else returning ())"

definition keyEvent :: "platform \<Rightarrow> (App, unit) prog" where
  "keyEvent P = andThen getch (dispatch P)"

section \<open>The main program\<close>

text \<open>The colour numbers of the X/Open curses interface.\<close>

abbreviation (input) COLOR_BLACK :: int where "COLOR_BLACK \<equiv> 0"
abbreviation (input) COLOR_RED :: int where "COLOR_RED \<equiv> 1"
abbreviation (input) COLOR_GREEN :: int where "COLOR_GREEN \<equiv> 2"
abbreviation (input) COLOR_YELLOW :: int where "COLOR_YELLOW \<equiv> 3"
abbreviation (input) COLOR_BLUE :: int where "COLOR_BLUE \<equiv> 4"
abbreviation (input) COLOR_MAGENTA :: int where "COLOR_MAGENTA \<equiv> 5"
abbreviation (input) COLOR_WHITE :: int where "COLOR_WHITE \<equiv> 7"

fun mainLoop :: "platform \<Rightarrow> nat \<Rightarrow> App \<Rightarrow> (unit outcome \<times> App) option" where
  "mainLoop P fuel w =
     (if \<not> isRunning (st w) then Some (Normal (), w)
      else (case fuel of
              0 \<Rightarrow> None
            | Suc n \<Rightarrow>
                (case keyEvent P w of
                   (Normal _, w') \<Rightarrow> mainLoop P n w'
                 | (Thrown e, w') \<Rightarrow> Some (Thrown e, w')
                 | (Undefined u, w') \<Rightarrow> Some (Undefined u, w'))))"

declare mainLoop.simps [simp del]

definition mainSetup :: "platform \<Rightarrow> (App, unit) prog" where
  "mainSetup P =
     block
       [emit Initscr, modS (\<lambda>s. s\<lparr>isRunning := True\<rparr>),
        emit Cbreak, emit (Timeout 1000), emit (Keypad stdscr True), emit (Mouseinterval 0),
        emit Start_color, emit Use_default_colors, emit (Curs_set 0), emit Noecho,
        emit (Init_pair 1 COLOR_BLUE (- 1)), emit (Init_pair 2 COLOR_RED (- 1)),
        emit (Init_pair 3 COLOR_YELLOW (- 1)), emit (Init_pair 4 COLOR_GREEN (- 1)),
        emit (Init_pair 5 COLOR_MAGENTA (- 1)), emit (Init_pair 6 COLOR_BLACK COLOR_WHITE),
        emit (Init_pair 7 COLOR_BLUE COLOR_WHITE), emit (Init_pair 8 74 (- 1)),
        modS (\<lambda>s. s\<lparr>maxY := fst (screen_yx P), maxX := snd (screen_yx P)\<rparr>),
        andThen (getS maxX) (\<lambda>x. andThen (getS maxY) (\<lambda>y.
          block [emit (Newwin bottomWindowSize x (y - bottomWindowSize) 0),
            emit (Newpad (y - bottomWindowSize) x)]))]"

text \<open>The handler of \<^verbatim>\<open>main\<close>: what \<^verbatim>\<open>e.what ()\<close> gives for the exceptions of the library is
  text of its own, a parameter.\<close>

definition mainCatch :: "(exn \<Rightarrow> string) \<Rightarrow> exn \<Rightarrow> App \<Rightarrow> int outcome \<times> App" where
  "mainCatch what e =
     andThen (block [emit Endwin, emit (Cerr (''Exception caught : '' @ what e @ [newline]))])
       (\<lambda>_. returning 1)"

definition mainExit :: "App \<Rightarrow> int outcome \<times> App" where
  "mainExit = andThen (block [emit (Delwin pad), emit (Delwin win), emit Endwin]) (\<lambda>_. returning 0)"

definition padError :: string where
  "padError = ''ERROR: Couldn'' @ [CHR 0x27] @ ''t create pad'' @ [newline]"

definition catching :: "(exn \<Rightarrow> string) \<Rightarrow> unit outcome \<times> App \<Rightarrow>
    (App \<Rightarrow> (int outcome \<times> App) option) \<Rightarrow> (int outcome \<times> App) option" where
  "catching what r k =
     (case r of
        (Normal _, w) \<Rightarrow> k w
      | (Thrown e, w) \<Rightarrow> Some (mainCatch what e w)
      | (Undefined u, w) \<Rightarrow> Some (Undefined u, w))"

definition main :: "platform \<Rightarrow> (exn \<Rightarrow> string) \<Rightarrow> nat \<Rightarrow> App \<Rightarrow> (int outcome \<times> App) option" where
  "main P what fuel w =
     catching what (mainSetup P w) (\<lambda>w1.
       if \<not> newpad_works P then
         Some (andThen (block [emit Endwin, emit (Printf padError)])
           (\<lambda>_. returning (int (length padError))) w1)
       else
         catching what
           (block [refreshStatusItems P, emit (Scrollok win True), emit (Idlok win True)] w1)
           (\<lambda>w2. case mainLoop P fuel w2 of
                   None \<Rightarrow> None
                 | Some r \<Rightarrow> catching what r (\<lambda>w3. Some (mainExit w3))))"

end
