(* ===== verification/App_Frame.thy ===== *)
theory App_Frame
  imports App_Keys
begin

text \<open>
  Symbolic execution of the front end's straight-line code (the rules \<open>prog_simps\<close>) and what its
  operations leave alone: drawing changes at most the text of the status items, never their
  number, the cursor, the pending keys or the commands run. Every invariant of the key handlers
  rests on these frame lemmas.
\<close>

section \<open>Straight-line code\<close>

lemma andThen_emit [prog_simps]: "andThen (emit e) f w = f () (w\<lparr>trace := trace w @ [e]\<rparr>)"
  by (simp add: andThen_def emit_def)

lemma andThen_getS [prog_simps]: "andThen (getS g) f w = f (g (st w)) w"
  by (simp add: andThen_def getS_def)

lemma andThen_modS [prog_simps]: "andThen (modS g) f w = f () (w\<lparr>st := g (st w)\<rparr>)"
  by (simp add: andThen_def modS_def)

lemma block_append: "block (ms @ ns) = andThen (block ms) (\<lambda>_. block ns)"
  by (induction ms) (simp_all add: block.simps andThen_returning andThen_assoc)

lemma emit_eq [prog_simps]: "emit e w = (Normal (), w\<lparr>trace := trace w @ [e]\<rparr>)"
  by (simp add: emit_def)

lemma returning_eq [prog_simps]: "returning x w = (Normal x, w)"
  by (simp add: returning_def)

lemma andThen_Pair [prog_simps]: "andThen (Pair (Normal x)) f = f x"
  by (simp add: andThen_def fun_eq_iff)

section \<open>What the operations leave alone\<close>

text \<open>Two states that differ at most in the text of their items.\<close>

definition reprinted :: "State \<Rightarrow> State \<Rightarrow> bool" where
  "reprinted s s' \<longleftrightarrow>
     (\<exists>items. length items = length (statusItems s) \<and> s' = s\<lparr>statusItems := items\<rparr>)"

lemma reprinted_refl: "reprinted s s"
  unfolding reprinted_def by (rule exI [of _ "statusItems s"]) simp

lemma reprinted_trans: "reprinted s t \<Longrightarrow> reprinted t u \<Longrightarrow> reprinted s u"
  unfolding reprinted_def by (elim exE conjE, rename_tac a b, rule_tac x = b in exI) simp

lemma reprinted_update: "reprinted s (s\<lparr>statusItems := (statusItems s)[i := x]\<rparr>)"
  unfolding reprinted_def by (rule exI [of _ "(statusItems s)[i := x]"]) simp

definition reprints :: "App \<Rightarrow> App \<Rightarrow> bool" where
  "reprints w w' \<longleftrightarrow> reprinted (st w) (st w') \<and> keys w' = keys w \<and> cmds w' = cmds w"

lemma reprints_refl: "reprints w w"
  by (simp add: reprints_def reprinted_refl)

lemma reprints_trans: "reprints u v \<Longrightarrow> reprints v w \<Longrightarrow> reprints u w"
  unfolding reprints_def using reprinted_trans [of "st u" "st v" "st w"] by simp

lemma reprints_reflp: "reflp reprints"
  by (simp add: reflp_def reprints_refl)

lemma reprints_transp: "transp reprints"
  by (rule transpI) (rule reprints_trans)

lemma draws_reprints: "draws_only v w \<Longrightarrow> reprints v w"
  by (simp add: draws_only_def reprints_def reprinted_refl)

lemma keeps_reprints_printStatusWithColor: "keeps reprints (printStatusWithColor p i)"
  unfolding keeps_def
proof
  fix w
  have draw: "draws_only v (snd (drawItem p sel cur item v))" for sel cur item v
    by (rule keepsD [OF keeps_draws_drawItem])
  have put: "reprints w (w\<lparr>st := (st w)\<lparr>statusItems := (statusItems (st w))[nat i := item]\<rparr>\<rparr>)"
    for item by (simp add: reprints_def reprinted_update)
  show "reprints w (snd (printStatusWithColor p i w))"
    using reprints_trans [OF put draws_reprints [OF draw]] reprints_refl
    by (auto simp: printStatusWithColor_def Let_def raise_or_def andThen_def modS_def
        split: sum.splits)
qed

lemma keeps_reprints_printLoop: "keeps reprints (printLoop p i)"
  unfolding keeps_def
proof
  fix w
  show "reprints w (snd (printLoop p i w))"
  proof (induction p i w rule: printLoop.induct)
    case (1 p i w)
    obtain r w' where r: "printStatusWithColor p i w = (r, w')"
      by (cases "printStatusWithColor p i w")
    then have first: "reprints w w'"
      using keepsD [OF keeps_reprints_printStatusWithColor, of w p i] by simp
    show ?case
    proof (cases "to_size i < int (length (statusItems (st w)))")
      case True
      show ?thesis
      proof (cases r)
        case (Normal x)
        with 1 [OF True r [symmetric]] have "reprints w' (snd (printLoop p (i + 1) w'))" by blast
        with first show ?thesis
          using True r Normal by (simp add: printLoop.simps [of p i w] reprints_trans)
      qed (use True r first in \<open>simp_all add: printLoop.simps [of p i w]\<close>)
    next
      case False
      then show ?thesis by (simp add: printLoop.simps [of p i w] reprints_refl)
    qed
  qed
qed

lemma keeps_reprints_emit: "keeps reprints (emit e)"
  by (simp add: keeps_def emit_def reprints_def reprinted_refl)

lemma keeps_reprints_getS: "keeps reprints (getS f)"
  by (simp add: keeps_def getS_def reprints_refl)

lemma keeps_reprints_printAllStatus: "keeps reprints (printAllStatus p)"
  unfolding printAllStatus_def
  by (intro keeps_andThen reprints_transp keeps_reprints_emit keeps_reprints_getS
      keeps_reprints_printLoop)

lemma keeps_reprints_drawPad: "keeps reprints drawPad"
  unfolding drawPad_def
  by (intro keeps_andThen reprints_transp keeps_reprints_emit keeps_reprints_getS)

lemma keeps_reprints_show: "keeps reprints (block [printAllStatus p, drawPad])"
  by (intro keeps_block reprints_reflp reprints_transp)
     (simp add: keeps_reprints_printAllStatus keeps_reprints_drawPad)

text \<open>A change of the state followed by printing.\<close>

lemma modify_and_show:
  assumes "block [modS f, printAllStatus p, drawPad] w = (r, w')"
  shows "reprints (w\<lparr>st := f (st w)\<rparr>) w'"
  using assms keepsD [OF keeps_reprints_show, of "w\<lparr>st := f (st w)\<rparr>" p]
  by (simp add: block.simps prog_simps)

end
