(* ===== verification/App_Session.thy ===== *)
theory App_Session
  imports App_Correct
begin

text \<open>
  What the keys do over a whole session: which commands they run (\<open>only_status\<close>: none but
  \<^verbatim>\<open>svn st\<close>, unless the user confirms), how many keys they read (\<open>eats\<close>), the sessions as an
  inductive relation with their invariants, and the end of the main loop.
\<close>

section \<open>Commands and confirmations\<close>

text \<open>Programs that run no command but \<^verbatim>\<open>svn st\<close>.\<close>

definition only_status :: "App \<Rightarrow> App \<Rightarrow> bool" where
  "only_status w w' \<longleftrightarrow> (\<exists>n. cmds w' = cmds w @ replicate n ''svn st'')"

lemma only_status_refl: "reflp only_status"
  unfolding reflp_def only_status_def by (intro allI exI [of _ 0]) simp

lemma only_status_trans: "transp only_status"
proof (rule transpI)
  fix u v w
  assume "only_status u v" "only_status v w"
  then obtain n m where "cmds w = cmds u @ replicate (n + m) ''svn st''"
    by (auto simp: only_status_def replicate_add)
  then show "only_status u w" unfolding only_status_def by blast
qed

lemma only_status_same: "cmds w' = cmds w \<Longrightarrow> only_status w w'"
  unfolding only_status_def by (rule exI [of _ 0]) simp

lemma reprints_only_status: "keeps reprints m \<Longrightarrow> keeps only_status m"
  by (auto simp: keeps_def reprints_def intro!: only_status_same)

lemma only_status_basic:
  "keeps only_status (emit e)" "keeps only_status (modS f)" "keeps only_status (getS g)"
  "keeps only_status getch" "keeps only_status (returning x)" "keeps only_status (popBack s)"
  by (auto simp: keeps_def emit_def modS_def getS_def getch_def returning_def popBack_def
      intro!: only_status_same split: list.split)

lemma only_status_exec: "keeps only_status (exec P ''svn st'')"
  unfolding keeps_def only_status_def
proof
  fix w
  show "\<exists>n. cmds (snd (exec P ''svn st'' w)) = cmds w @ replicate n ''svn st''"
    by (cases "shell P (cmds w) ''svn st''")
       (simp_all add: exec_def exI [of _ 0] exI [of _ 1])
qed

lemmas only_status_intros =
  keeps_andThen [OF only_status_trans] only_status_basic only_status_exec
  reprints_only_status [OF keeps_reprints_printAllStatus]
  reprints_only_status [OF keeps_reprints_drawPad]

lemma only_status_block: "\<forall>m \<in> set ms. keeps only_status m \<Longrightarrow> keeps only_status (block ms)"
  by (rule keeps_block [OF only_status_refl only_status_trans])

lemma only_status_refresh: "keeps only_status (refreshStatusItems P)"
  unfolding refreshStatusItems_def by (rule only_status_block) (simp add: only_status_intros)

lemma only_status_clearWin: "keeps only_status clearWin" "keeps only_status (ask q)"
  unfolding clearWin_def ask_def
  by (rule only_status_block; simp add: only_status_intros)+

lemma only_status_moves:
  "keeps only_status moveOneRowUp" "keeps only_status moveOneRowDown" "keeps only_status bottomKey"
  "keeps only_status hiddenKey" "keeps only_status quitKey" "keeps only_status (refreshKey P)"
  unfolding moveOneRowUp_def moveOneRowDown_def bottomKey_def hiddenKey_def quitKey_def
    refreshKey_def
  by (auto intro!: only_status_block only_status_intros only_status_refresh only_status_clearWin)

lemma only_status_topKey: "keeps only_status topKey"
  unfolding topKey_def
  by (auto intro!: only_status_block only_status_intros)

lemma only_status_selectAtCursor: "keeps only_status selectAtCursor"
  by (auto simp: keeps_def selectAtCursor_def modS_def Let_def intro!: only_status_same)

lemma only_status_selectKey: "keeps only_status selectKey"
  unfolding selectKey_def
  by (rule only_status_block) (simp add: only_status_selectAtCursor only_status_moves)

text \<open>After a question, \<^verbatim>\<open>getch\<close> reads the next pending key.\<close>

lemma andThen_getch [prog_simps]:
  "andThen getch f w = (case keys w of [] \<Rightarrow> f (- 1) w | k # ks \<Rightarrow> f k (w\<lparr>keys := ks\<rparr>))"
  by (simp add: andThen_def getch_def split: list.split)

text \<open>Whether the next key is the confirming \<^verbatim>\<open>y\<close>.\<close>

definition confirmed :: "App \<Rightarrow> bool" where
  "confirmed w \<longleftrightarrow> (case keys w of [] \<Rightarrow> False | k # _ \<Rightarrow> k = 121)"

lemma andThen_only_status:
  assumes "\<And>x w'. m w = (Normal x, w') \<Longrightarrow> only_status w (snd (f x w'))"
    and "only_status w (snd (m w))"
  shows "only_status w (snd (andThen m f w))"
  using assms by (auto simp: andThen_def split: prod.splits outcome.splits)

lemma addKey_unconfirmed: "\<not> confirmed w \<Longrightarrow> only_status w (snd (addKey P w))"
proof -
  assume no: "\<not> confirmed w"
  let ?rest = "block [refreshStatusItems P, clearWin]"
  have "keeps only_status ?rest"
    by (rule only_status_block) (simp add: only_status_refresh only_status_clearWin)
  from keepsD [OF this]
  have rest: "only_status w (snd (?rest v))" if "cmds v = cmds w" for v
    using that by (metis only_status_def)
  have "\<exists>v. addKey P w = ?rest v \<and> cmds v = cmds w"
    using no
    by (auto simp: addKey_def confirmAdd_def clearWin_def ask_def block.simps prog_simps Let_def confirmed_def
        split: list.split)
  then show ?thesis using rest by auto
qed

lemma keys_update_same: "keys w = ks \<Longrightarrow> w\<lparr>keys := ks\<rparr> = w"
  by (cases w) simp

lemma removeKey_unconfirmed: "\<not> confirmed w \<Longrightarrow> only_status w (snd (removeKey P w))"
proof -
  assume no: "\<not> confirmed w"
  let ?rest = "block [modS (\<lambda>s. s\<lparr>cursorPosition := 0\<rparr>), modS (\<lambda>s. s\<lparr>padPos := 0\<rparr>),
        emit (Wclear win), refreshStatusItems P, emit (Wrefresh win)]"
  have "keeps only_status ?rest"
    by (rule only_status_block) (simp add: only_status_refresh only_status_basic)
  from keepsD [OF this]
  have rest: "only_status w (snd (?rest v))" if "cmds v = cmds w" for v
    using that by (metis only_status_def)
  have "\<exists>v. removeKey P w = ?rest v \<and> cmds v = cmds w"
  proof (intro exI conjI)
    show "removeKey P w = ?rest (w\<lparr>trace := trace w @ [Wclear win, Wrefresh win,
        Mvwprintw win (bottomWindowSize - 1) 0 ''Delete selected items? (y/n?)'', Wrefresh win,
        Timeout 12000], keys := tl (keys w)\<rparr>)"
      using no
      by (auto simp: removeKey_def confirmRemove_def clearWin_def ask_def block.simps prog_simps Let_def
          confirmed_def keys_update_same split: list.split)
  qed simp
  then show ?thesis using rest by auto
qed

lemma updateKey_unconfirmed: "\<not> confirmed w \<Longrightarrow> only_status w (snd (updateKey P w))"
  by (auto simp: updateKey_def clearWin_def ask_def block.simps prog_simps Let_def confirmed_def
      intro!: only_status_same split: list.split)

lemma dispatch_unconfirmed:
  assumes "c \<notin> {97, 114, 117} \<or> \<not> confirmed w"
  shows "only_status w (snd (dispatch P c w))"
proof -
  note plain = only_status_moves [THEN keepsD] only_status_topKey [THEN keepsD]
    only_status_selectKey [THEN keepsD] only_status_basic(5) [THEN keepsD]
  show ?thesis
    using assms addKey_unconfirmed removeKey_unconfirmed updateKey_unconfirmed
    by (simp add: dispatch_def plain) blast
qed

section \<open>Keys consumed\<close>

text \<open>A program that reads at most \<open>n\<close> keys.\<close>

definition eats :: "nat \<Rightarrow> (App, 'a) prog \<Rightarrow> bool" where
  "eats n m \<longleftrightarrow> (\<forall>w. \<exists>k \<le> n. keys (snd (m w)) = drop k (keys w))"

lemma eats_mono: "eats n m \<Longrightarrow> n \<le> k \<Longrightarrow> eats k m"
  unfolding eats_def by (meson order_trans)

lemma eats_same: "(\<And>w. keys (snd (m w)) = keys w) \<Longrightarrow> eats 0 m"
  by (simp add: eats_def)

lemma eats_andThen:
  assumes m: "eats a m" and f: "\<And>x. eats b (f x)"
  shows "eats (a + b) (andThen m f)"
  unfolding eats_def
proof
  fix w
  obtain r w' where mw: "m w = (r, w')" by (cases "m w")
  obtain k where k: "k \<le> a" "keys w' = drop k (keys w)"
    using m mw unfolding eats_def by (metis snd_conv)
  show "\<exists>j \<le> a + b. keys (snd (andThen m f w)) = drop j (keys w)"
  proof (cases r)
    case (Normal x)
    obtain l where "l \<le> b" "keys (snd (f x w')) = drop l (keys w')"
      using f unfolding eats_def by metis
    then show ?thesis
      using k mw Normal by (intro exI [of _ "l + k"]) (simp add: andThen_def)
  qed (use k mw in \<open>auto simp: andThen_def intro!: exI [of _ k]\<close>)
qed

lemma eats_andThen0: "eats 0 m \<Longrightarrow> (\<And>x. eats b (f x)) \<Longrightarrow> eats b (andThen m f)"
  using eats_andThen [of 0 m b f] by simp

lemma eats_block0: "\<forall>m \<in> set ms. eats 0 m \<Longrightarrow> eats 0 (block ms)"
  by (induction ms) (simp_all add: block.simps eats_andThen0, simp add: eats_def returning_def)

lemma eats_block_one:
  assumes "\<forall>m \<in> set ms. eats 0 m" "eats n m" "\<forall>m \<in> set ns. eats 0 m"
  shows "eats n (block (ms @ m # ns))"
proof -
  have "eats (n + 0) (andThen m (\<lambda>_. block ns))"
    by (rule eats_andThen [OF assms(2)]) (rule eats_block0 [OF assms(3)])
  then show ?thesis
    using eats_andThen0 [OF eats_block0 [OF assms(1)]]
    by (simp add: block_append block.simps(2))
qed

lemma eats_getch: "eats 1 getch"
  unfolding eats_def
proof
  fix w :: App
  show "\<exists>k \<le> 1. keys (snd (getch w)) = drop k (keys w)"
    by (cases "keys w") (auto simp: getch_def intro: exI [of _ 1])
qed

lemma eats_reprints: "keeps reprints m \<Longrightarrow> eats 0 m"
  by (simp add: eats_def keeps_def reprints_def)

lemma eats_basic:
  "eats 0 (emit e)" "eats 0 (modS f)" "eats 0 (getS g)" "eats 0 (returning x)"
  "eats 0 (popBack s)" "eats 0 (exec P cmd)" "eats 0 selectAtCursor"
  by (simp_all add: eats_def io_defs returning_def popBack_def exec_def selectAtCursor_def Let_def
      split: option.split)

lemmas eats_intros =
  eats_andThen0 eats_basic eats_reprints [OF keeps_reprints_printAllStatus]
  eats_reprints [OF keeps_reprints_drawPad]

lemma eats_refresh: "eats 0 (refreshStatusItems P)"
  unfolding refreshStatusItems_def by (rule eats_block0) (simp add: eats_intros)

lemma eats_clearWin: "eats 0 clearWin" "eats 0 (ask q)"
  unfolding clearWin_def ask_def by (rule eats_block0; simp add: eats_intros)+

lemma eats_moves:
  "eats 0 moveOneRowUp" "eats 0 moveOneRowDown" "eats 0 bottomKey" "eats 0 hiddenKey"
  "eats 0 quitKey" "eats 0 (refreshKey P)" "eats 0 selectKey"
  unfolding moveOneRowUp_def moveOneRowDown_def bottomKey_def hiddenKey_def quitKey_def
    refreshKey_def selectKey_def
  by (auto intro!: eats_block0 eats_intros eats_refresh eats_clearWin)

lemma eats_topKey: "eats 1 topKey"
proof -
  have "eats (1 + 0) topKey"
    unfolding topKey_def
    by (rule eats_andThen [OF eats_getch]) (auto intro!: eats_block0 eats_intros)
  then show ?thesis by simp
qed

lemma eats_addKey: "eats 1 (addKey P)"
proof -
  have "eats (1 + 0) (confirmAdd P items)" for items
    unfolding confirmAdd_def
    by (rule eats_andThen [OF eats_getch]) (auto intro!: eats_block0 eats_intros eats_clearWin)
  then have "eats 1 (block ([clearWin, ask ''Add selected items? (y/n?)'', emit (Timeout 12000)] @
        confirmAdd P items # [refreshStatusItems P, clearWin]))" for items
    by (intro eats_block_one) (simp_all add: eats_clearWin eats_basic eats_refresh)
  then show ?thesis
    unfolding addKey_def Let_def by (intro eats_andThen0 eats_basic) simp
qed

lemma eats_updateKey: "eats 2 (updateKey P)"
proof -
  let ?key = "andThen getch (\<lambda>_. returning ()) :: (App, unit) prog"
  let ?up = "block ([clearWin, andThen (exec P ''svn up'') (\<lambda>result. emit (Wprintw win result)),
      emit (Wrefresh win)] @ ?key # [refreshStatusItems P])"
  have "eats (1 + 0) ?key"
    by (rule eats_andThen [OF eats_getch]) (rule eats_basic)
  then have "eats 1 ?up"
    by (intro eats_block_one) (auto intro!: eats_intros eats_clearWin eats_refresh)
  then have "eats (1 + 1) (andThen getch (\<lambda>c. if c = 121 then ?up else clearWin))"
    by (intro eats_andThen eats_getch) (auto intro: eats_clearWin eats_mono)
  then have "eats 2 (block ([ask ''Bring changes from the repository into the working copy? (y/n?)'',
        emit (Timeout 8000)] @ andThen getch (\<lambda>c. if c = 121 then ?up else clearWin) # []))"
    by (intro eats_block_one) (auto intro!: eats_intros eats_clearWin simp: numeral_2_eq_2)
  then show ?thesis by (simp add: updateKey_def cong: if_cong)
qed

lemma eats_confirmRemove: "eats 2 (confirmRemove P items)"
proof -
  let ?rm = "andThen getch (\<lambda>c.
                let keepLocal = (if c = 121 then ''--keep-local '' else '''') in
                block [clearWin,
                  andThen (exec P (''svn rm '' @ keepLocal @ boost_join P items '' ''))
                    (\<lambda>result. returning ())])"
  have "eats (1 + 0) ?rm"
    by (rule eats_andThen [OF eats_getch])
       (auto simp: Let_def intro!: eats_block0 eats_intros eats_clearWin)
  then have "eats 1 (block ([clearWin, ask ''Keep local files? (y/n?)''] @ ?rm # []))"
    by (intro eats_block_one) (auto intro!: eats_clearWin)
  then have "eats (1 + 1) (confirmRemove P items)"
    unfolding confirmRemove_def
    by (intro eats_andThen eats_getch) (auto intro: eats_basic eats_mono)
  then show ?thesis by (simp add: numeral_2_eq_2)
qed

lemma eats_removeKey: "eats 2 (removeKey P)"
proof -
  have "eats 2 (block ([clearWin, ask ''Delete selected items? (y/n?)'', emit (Timeout 12000)] @
      confirmRemove P items #
      [modS (\<lambda>s. s\<lparr>cursorPosition := 0\<rparr>), modS (\<lambda>s. s\<lparr>padPos := 0\<rparr>),
        emit (Wclear win), refreshStatusItems P, emit (Wrefresh win)]))" for items
    by (intro eats_block_one eats_confirmRemove)
       (auto intro!: eats_intros eats_clearWin eats_refresh)
  then show ?thesis
    unfolding removeKey_def Let_def by (intro eats_andThen0 eats_basic) simp
qed

lemma eats_dispatch: "eats 2 (dispatch P c)"
  unfolding dispatch_def
  by (auto intro: eats_mono [OF eats_moves(1)] eats_mono [OF eats_moves(2)]
      eats_mono [OF eats_moves(3)] eats_mono [OF eats_moves(4)] eats_mono [OF eats_moves(5)]
      eats_mono [OF eats_moves(6)] eats_mono [OF eats_moves(7)] eats_mono [OF eats_topKey]
      eats_mono [OF eats_addKey] eats_updateKey eats_removeKey eats_mono [OF eats_basic(4)])

section \<open>Sessions\<close>

text \<open>The states a user reaches from \<open>w\<close> by typing keys that are handled without a failure,
  the keys being restricted to \<open>K\<close>.\<close>

inductive session :: "platform \<Rightarrow> int set \<Rightarrow> App \<Rightarrow> App \<Rightarrow> bool" for P K w where
  session_start: "session P K w w"
| session_key: "session P K w v \<Longrightarrow> keys v = c # ks \<Longrightarrow> c \<in> K \<Longrightarrow>
     keyEvent P v = (Normal (), v') \<Longrightarrow> session P K w v'"

text \<open>Every status list is short enough for \<^verbatim>\<open>int\<close> indices.\<close>

definition lists_bounded :: "platform \<Rightarrow> bool" where
  "lists_bounded P \<longleftrightarrow>
     (\<forall>hist out. shell P hist ''svn st'' = Some out \<longrightarrow>
        length (split_on newline (butlast (readPipe [] out))) < 2 ^ 31)"

lemma keyEvent_eq: "keys v = c # ks \<Longrightarrow> keyEvent P v = dispatch P c (v\<lparr>keys := ks\<rparr>)"
  by (simp add: keyEvent_def andThen_getch)

text \<open>The state a session starts again from when the list is refreshed at the top.\<close>

definition reset :: "string list \<Rightarrow> State \<Rightarrow> State" where
  "reset ls s = s\<lparr>cursorPosition := 0, padPos := 0, selectedItems := [], statusItems := ls,
     allStatusItems := ls\<rparr>"

lemma refresh_reset:
  assumes "refreshStatusItems P w = (Normal (), w')" "split_law (boost_split P)" "lists_bounded P"
    "st w = s\<lparr>cursorPosition := 0, padPos := 0\<rparr>"
  shows "\<exists>ls. ls \<noteq> [] \<and> length ls < 2 ^ 31 \<and> reprinted (reset ls s) (st w')"
proof -
  from refreshStatusItems_Normal [OF assms(1,2)] obtain out ls where
    out: "shell P (cmds w) ''svn st'' = Some out" "ls = split_on newline (butlast (readPipe [] out))"
    and re: "reprinted ((st w)\<lparr>selectedItems := [], statusItems := ls, allStatusItems := ls\<rparr>) (st w')"
    by blast
  have "ls \<noteq> []" "length ls < 2 ^ 31"
    using assms(3) out by (auto simp: lists_bounded_def)
  moreover have "reprinted (reset ls s) (st w')"
    using re assms(4) by (simp add: reset_def)
  ultimately show ?thesis by blast
qed

text \<open>The part of \<^verbatim>\<open>r\<close> before the refresh leaves the state alone.\<close>

definition same_st :: "App \<Rightarrow> App \<Rightarrow> bool" where
  "same_st w w' \<longleftrightarrow> st w' = st w"

lemma same_st_refl: "reflp same_st"
  by (simp add: reflp_def same_st_def)

lemma same_st_trans: "transp same_st"
  by (rule transpI) (simp add: same_st_def)

lemma same_st_basic:
  "keeps same_st (emit e)" "keeps same_st getch" "keeps same_st (exec P cmd)"
  "keeps same_st (returning x)"
  by (auto simp: keeps_def same_st_def emit_def getch_def exec_def returning_def
      split: list.split option.split)

lemmas same_st_intros = keeps_andThen [OF same_st_trans] same_st_basic

lemma same_st_block: "\<forall>m \<in> set ms. keeps same_st m \<Longrightarrow> keeps same_st (block ms)"
  by (rule keeps_block [OF same_st_refl same_st_trans])

lemma same_st_clearWin: "keeps same_st clearWin" "keeps same_st (ask q)"
  unfolding clearWin_def ask_def by (rule same_st_block; simp add: same_st_intros)+

lemma same_st_confirmRemove: "keeps same_st (confirmRemove P items)"
  unfolding confirmRemove_def Let_def
  by (auto intro!: same_st_intros same_st_block same_st_clearWin)

lemma removeKey_refresh:
  assumes "removeKey P w = (Normal (), w')"
  shows "\<exists>v v'. st v = (st w)\<lparr>cursorPosition := 0, padPos := 0\<rparr> \<and>
     refreshStatusItems P v = (Normal (), v') \<and> st w' = st v'"
proof -
  let ?tail = "[modS (\<lambda>s. s\<lparr>cursorPosition := 0\<rparr>), modS (\<lambda>s. s\<lparr>padPos := 0\<rparr>),
        emit (Wclear win), refreshStatusItems P, emit (Wrefresh win)]"
  define items where "items = map (\<lambda>str. string_erase0 str 7) (selectedItems (st w))"
  let ?front = "[clearWin, ask ''Delete selected items? (y/n?)'', emit (Timeout 12000),
        confirmRemove P items]"
  have "removeKey P w = block (?front @ ?tail) w"
    by (simp add: removeKey_def andThen_getS Let_def items_def)
  then have "andThen (block ?front) (\<lambda>_. block ?tail) w = (Normal (), w')"
    using assms by (simp add: block_append del: append.simps)
  then obtain u where front: "block ?front w = (Normal (), u)" and u: "block ?tail u = (Normal (), w')"
    unfolding andThen_Normal_iff by auto
  have "keeps same_st (block ?front)"
    by (rule same_st_block) (simp add: same_st_clearWin same_st_basic same_st_confirmRemove)
  from keepsD [OF this, of w] front have st: "st u = st w" by (simp add: same_st_def)
  let ?v = "u\<lparr>st := (st u)\<lparr>cursorPosition := 0, padPos := 0\<rparr>, trace := trace u @ [Wclear win]\<rparr>"
  from u have "andThen (refreshStatusItems P) (\<lambda>_. block [emit (Wrefresh win)]) ?v = (Normal (), w')"
    by (simp add: block.simps prog_simps)
  then obtain v' where "refreshStatusItems P ?v = (Normal (), v')" "st w' = st v'"
    by (auto simp: andThen_Normal_iff block.simps prog_simps)
  then show ?thesis using st by (intro exI [of _ ?v] exI [of _ v']) simp
qed

text \<open>The contract of an invariant of the list state: the state changes of the keys in \<open>K\<close>
  keep it. What follows for whole sessions is proved once, from the contract.\<close>

locale key_invariant =
  fixes I :: "State \<Rightarrow> bool" and K :: "int set"
  assumes reprint: "I s \<Longrightarrow> reprinted s t \<Longrightarrow> I t"
    and down: "I s \<Longrightarrow> I (moveDownState s)"
    and up: "I s \<Longrightarrow> I (moveUpState s)"
    and bottom: "71 \<in> K \<Longrightarrow> I s \<Longrightarrow> I (bottomState s)"
    and top: "I s \<Longrightarrow> I (s\<lparr>cursorPosition := 0, padPos := 0\<rparr>)"
    and select: "I s \<Longrightarrow> I (s\<lparr>selectedItems := sel\<rparr>)"
    and toggle: "I s \<Longrightarrow> I (toggleMode m s)"
    and quit: "I s \<Longrightarrow> I (s\<lparr>isRunning := False\<rparr>)"
    and restart: "I s \<Longrightarrow> ls \<noteq> [] \<Longrightarrow> length ls < 2 ^ 31 \<Longrightarrow> I (reset ls s)"
    and keys: "97 \<notin> K" "117 \<notin> K"
begin

lemma shown: "block [modS f, printAllStatus p, drawPad] w = (r, w') \<Longrightarrow> I (f (st w)) \<Longrightarrow> I (st w')"
  by (drule modify_and_show) (auto simp: reprints_def intro: reprint)

lemma selectKey_I: "selectKey w = (Normal (), w') \<Longrightarrow> I (st w) \<Longrightarrow> I (st w')"
proof -
  assume "selectKey w = (Normal (), w')" and I: "I (st w)"
  then obtain v where sel: "selectAtCursor w = (Normal (), v)" and mv: "moveOneRowDown v = (Normal (), w')"
    by (auto simp: selectKey_def block.simps andThen_Normal_iff returning_def)
  from sel obtain x where "st v = (st w)\<lparr>selectedItems := x\<rparr>"
    by (auto simp: selectAtCursor_def Let_def modS_def split: if_splits)
  then have "I (moveDownState (st v))" using down [OF select [OF I]] by simp
  with mv show ?thesis unfolding moveOneRowDown_def by (rule shown)
qed

lemma topKey_I: "topKey w = (Normal (), w') \<Longrightarrow> I (st w) \<Longrightarrow> I (st w')"
proof -
  assume run: "topKey w = (Normal (), w')" and I: "I (st w)"
  let ?z = "(st w)\<lparr>cursorPosition := 0, padPos := 0\<rparr>"
  have "st w' = st w \<or> (\<exists>v. st v = ?z \<and> block [printAllStatus pad, drawPad] v = (Normal (), w'))"
    using run
    by (auto simp: topKey_def andThen_getch block.simps andThen_modS returning_def
        split: list.splits if_splits)
  moreover have "reprinted ?z (st w')"
    if "st v = ?z" "block [printAllStatus pad, drawPad] v = (Normal (), w')" for v
    using keepsD [OF keeps_reprints_show, of v pad] that by (simp add: reprints_def)
  ultimately show ?thesis using I top reprint by metis
qed

lemma refreshKey_I:
  assumes "refreshKey P w = (Normal (), w')" "I (st w)" "split_law (boost_split P)" "lists_bounded P"
  shows "I (st w')"
proof -
  have "refreshStatusItems P (w\<lparr>st := (st w)\<lparr>cursorPosition := 0, padPos := 0\<rparr>\<rparr>) = (Normal (), w')"
    using assms(1) by (auto simp: refreshKey_def block.simps prog_simps andThen_Normal_iff)
  from refresh_reset [OF this assms(3,4), of "st w"] show ?thesis
    using assms(2) restart reprint by auto
qed

lemma removeKey_I:
  assumes "removeKey P w = (Normal (), w')" "I (st w)" "split_law (boost_split P)" "lists_bounded P"
  shows "I (st w')"
proof -
  from removeKey_refresh [OF assms(1)] obtain v v' where
    v: "st v = (st w)\<lparr>cursorPosition := 0, padPos := 0\<rparr>"
      "refreshStatusItems P v = (Normal (), v')" "st w' = st v'" by blast
  from refresh_reset [OF v(2) assms(3,4) v(1)] show ?thesis
    using assms(2) restart reprint v(3) by auto
qed

lemma hiddenKey_I: "hiddenKey w = (Normal (), w') \<Longrightarrow> I (st w) \<Longrightarrow> I (st w')"
  using toggle [of "st w" HIDDEN]
  by (auto simp: hiddenKey_def clearWin_def block.simps andThen_def io_defs returning_def)

lemma dispatch_I:
  assumes "dispatch P c w = (Normal (), w')" "c \<in> K" "I (st w)"
    "split_law (boost_split P)" "lists_bounded P"
  shows "I (st w')"
proof -
  have keys: "c \<noteq> 97" "c \<noteq> 117" using assms(2) keys by auto
  have moves: "moveOneRowDown w = (Normal (), w') \<Longrightarrow> I (st w')"
    "moveOneRowUp w = (Normal (), w') \<Longrightarrow> I (st w')"
    unfolding moveOneRowDown_def moveOneRowUp_def
    using shown [of moveDownState pad w _ w', OF _ down [OF assms(3)]]
      shown [of moveUpState pad w _ w', OF _ up [OF assms(3)]] by blast+
  have bottom: "I (st w')" if "c = 71" "bottomKey w = (Normal (), w')"
    using shown [of bottomState pad w _ w', OF _ bottom] that assms(2,3)
    unfolding bottomKey_def by blast
  have plain: "quitKey w = (Normal (), w') \<Longrightarrow> I (st w')"
    "returning () w = (Normal (), w') \<Longrightarrow> I (st w')"
    using assms(3) by (auto simp: quitKey_def modS_def returning_def intro: quit)
  note run = assms(1) [unfolded dispatch_def]
  from run show ?thesis
    by (elim if_prog_E)
       (use keys moves bottom plain assms(3-5) selectKey_I topKey_I hiddenKey_I refreshKey_I
          removeKey_I in blast)+
qed

lemma session_I:
  assumes "session P K w v" "I (st w)" "split_law (boost_split P)" "lists_bounded P"
  shows "I (st v)"
  using assms(1)
proof (induction rule: session.induct)
  case (session_key v c ks v')
  have "dispatch P c (v\<lparr>keys := ks\<rparr>) = (Normal (), v')"
    using session_key(2,4) by (simp add: keyEvent_eq)
  then show ?case
    using session_key(3,5) assms(3,4) dispatch_I [of P c "v\<lparr>keys := ks\<rparr>" v'] by simp
qed (rule assms(2))

end

interpretation cursor: key_invariant cursor_ok "- {97, 117}"
proof
  show "cursor_ok s \<Longrightarrow> reprinted s t \<Longrightarrow> cursor_ok t" for s t
    by (simp add: cursor_ok_reprinted)
  show "cursor_ok s \<Longrightarrow> cursor_ok (toggleMode m s)" for m s
    by (simp add: cursor_ok_def frame_simps)
qed (auto simp: cursor_ok_moves, auto simp: cursor_ok_def reset_def)

text \<open>On a terminal with at least two rows for the list, every key but \<^verbatim>\<open>G\<close>, \<^verbatim>\<open>a\<close> and \<^verbatim>\<open>u\<close> keeps
  the cursor on the screen.\<close>

definition on_screen :: "State \<Rightarrow> bool" where
  "on_screen s \<longleftrightarrow> cursor_ok s \<and> visible s \<and> 2 \<le> padRows s"

lemma visible_reprinted: "reprinted s t \<Longrightarrow> visible t = visible s \<and> padRows t = padRows s"
  by (auto simp: reprinted_def visible_def padRows_def)

interpretation screen: key_invariant on_screen "- {71, 97, 117}"
proof
  show "on_screen s \<Longrightarrow> reprinted s t \<Longrightarrow> on_screen t" for s t
    by (simp add: on_screen_def cursor_ok_reprinted visible_reprinted)
  show "on_screen s \<Longrightarrow> on_screen (toggleMode m s)" for m s
    by (simp add: on_screen_def cursor_ok_def visible_def padRows_def frame_simps)
  show "on_screen s \<Longrightarrow> on_screen (moveDownState s)" for s
    by (simp add: on_screen_def cursor_ok_moves visible_moveDown frame_simps)
  show "on_screen s \<Longrightarrow> on_screen (moveUpState s)" for s
    by (simp add: on_screen_def cursor_ok_moves visible_moveUp frame_simps)
qed (auto simp: on_screen_def cursor_ok_def visible_def padRows_def reset_def)

end
