(* ===== verification/App_Theorems.thy ===== *)
theory App_Theorems
  imports App_Session
begin

text \<open>
  The properties of the svnCurses front end, each with its witness where it has a hypothesis.
  The concrete platform of the witnesses is \<open>demo\<close>: a shell that answers \<^verbatim>\<open>svn st\<close> with the
  given text and every other command with nothing, the reference split and join for Boost's
  algorithms, and an 80 by 24 screen.
\<close>

section \<open>A concrete platform\<close>

definition demo :: "string \<Rightarrow> platform" where
  "demo out =
     \<lparr>shell = (\<lambda>hist cmd. Some (if cmd = ''svn st'' then out else [])),
      boost_split = (\<lambda>s seps. split_on (hd seps) s),
      boost_join = (\<lambda>xs sep. join_with sep xs),
      screen_yx = (24, 80), newpad_works = True\<rparr>"

definition demoState :: "string list \<Rightarrow> State" where
  "demoState items =
     State_init\<lparr>isRunning := True, statusItems := items, allStatusItems := items,
       maxX := 80, maxY := 24\<rparr>"

definition demoApp :: "string list \<Rightarrow> int list \<Rightarrow> App" where
  "demoApp items ks = \<lparr>st = demoState items, keys = ks, cmds = [], trace = []\<rparr>"

lemmas demo_defs = demo_def demoState_def demoApp_def State_init_def

lemma demo_split: "split_law (boost_split (demo out))"
  by (simp add: demo_def split_law_example)

lemma demo_join: "join_law (boost_join (demo out))"
  by (simp add: demo_def join_law_example)

section \<open>Reading the status\<close>

text \<open>C1. Running a command returns exactly the bytes the command printed, whatever their number,
  provided it printed no NUL byte: the 256-byte buffer loses and duplicates nothing.\<close>

theorem exec_returns_output:
  assumes "shell P (cmds w) cmd = Some out" "is_cstring out"
  shows "exec P cmd w = (Normal out, w\<lparr>cmds := cmds w @ [cmd]\<rparr>)"
  using assms by (simp add: exec_def readPipe_append)

theorem exec_returns_output_witness:
  "exec (demo ''M       a.c\<newline>'') ''svn st'' (demoApp [] []) =
     (Normal ''M       a.c\<newline>'', (demoApp [] [])\<lparr>cmds := [''svn st'']\<rparr>)"
  using exec_returns_output [of "demo ''M       a.c\<newline>''" "demoApp [] []" "''svn st''"
      "''M       a.c\<newline>''"]
  by (simp add: demo_defs is_cstring_def)



text \<open>C9. Printing the list succeeds exactly when every item from the first visible one on is no
  longer than the screen is wide; otherwise \<^verbatim>\<open>std::string::append\<close> throws
  \<^verbatim>\<open>std::length_error\<close>, because the negative pad size becomes a huge \<^verbatim>\<open>size_t\<close>.\<close>

theorem printAllStatus_outcome:
  assumes "view_ok (st w)"
  shows "fst (printAllStatus p w) =
     (if fitsFrom (nat (padPos (st w))) (st w) then Normal () else Thrown length_error)"
  using assms by (simp add: printAllStatus_ok printAllStatus_long)

theorem printAllStatus_outcome_witness:
  "fst (printAllStatus pad (demoApp [replicate 81 CHR ''x''] [])) = Thrown length_error \<and>
   fst (printAllStatus pad (demoApp [replicate 80 CHR ''x''] [])) = Normal ()"
  using printAllStatus_outcome [of "demoApp [replicate 81 CHR ''x''] []" pad]
    printAllStatus_outcome [of "demoApp [replicate 80 CHR ''x''] []" pad]
  by (simp add: demo_defs view_ok_def sizes_ok_def fitsFrom_def)

text \<open>The texts a list of calls prints into a window, in order.\<close>

definition printed :: "win \<Rightarrow> io list \<Rightarrow> string list" where
  "printed p es = concat (map (\<lambda>e. case e of Wprintw q t \<Rightarrow> (if q = p then [t] else []) | _ \<Rightarrow> []) es)"

lemma printed_concat: "printed p (concat xss) = concat (map (printed p) xss)"
  by (induction xss) (simp_all add: printed_def)

lemma printed_drawEvents: "printed p (drawEvents p sel cur item) = [shownText sel item]"
  by (simp add: printed_def drawEvents_def Let_def)

lemma printed_listEvents:
  "printed p (listEvents p s i) =
     map (\<lambda>j. shownText (statusItems s ! j \<in> set (selectedItems s)) (padTo (maxX s) (statusItems s ! j)))
       [i ..< length (statusItems s)]"
  by (simp add: listEvents_def printed_concat o_def itemEvents_def printed_drawEvents concat_map_singleton)

text \<open>The drawing itself: after clearing the pad, one text per visible item is printed, in the
  order of the list, and every text is exactly as wide as the screen, so that each item fills one
  row of the pad; a selected item is drawn with a blank inserted at column 8.\<close>

theorem printed_rows:
  assumes "view_ok (st w)" "fitsFrom (nat (padPos (st w))) (st w)"
  shows "\<exists>es. trace (snd (printAllStatus p w)) = trace w @ Wclear p # es \<and>
     printed p es =
       map (\<lambda>j. shownText (statusItems (st w) ! j \<in> set (selectedItems (st w)))
                   (padTo (maxX (st w)) (statusItems (st w) ! j)))
         [nat (padPos (st w)) ..< length (statusItems (st w))] \<and>
     (\<forall>t \<in> set (printed p es). int (length t) = maxX (st w))"
proof -
  let ?i = "nat (padPos (st w))"
  let ?es = "listEvents p (st w) ?i"
  have tr: "trace (snd (printAllStatus p w)) = trace w @ Wclear p # ?es"
    using assms by (simp add: printAllStatus_ok)
  have "int (length t) = maxX (st w)" if "t \<in> set (printed p ?es)" for t
  proof -
    from that obtain j sel where j: "?i \<le> j" "j < length (statusItems (st w))"
      and t: "t = shownText sel (padTo (maxX (st w)) (statusItems (st w) ! j))"
      by (auto simp: printed_listEvents)
    from nth_in_drop [OF j] assms(2) show ?thesis
      by (simp add: t length_shownText length_padTo fitsFrom_def)
  qed
  with tr show ?thesis
    by (intro exI [of _ ?es]) (simp add: printed_listEvents)
qed

text \<open>C4. No command that can change the working copy runs without the user's consent: whatever
  the key and the state, unless the key is \<^verbatim>\<open>a\<close>, \<^verbatim>\<open>r\<close> or \<^verbatim>\<open>u\<close> and the very next key typed is
  \<^verbatim>\<open>y\<close>, handling it starts no command but \<^verbatim>\<open>svn st\<close>, also when it fails.\<close>

theorem no_command_without_consent:
  assumes "keys w = c # ks"
    and "c \<notin> {97, 114, 117} \<or> (case ks of [] \<Rightarrow> True | k # _ \<Rightarrow> k \<noteq> 121)"
  shows "\<exists>n. cmds (snd (keyEvent P w)) = cmds w @ replicate n ''svn st''"
proof -
  have "c \<notin> {97, 114, 117} \<or> \<not> confirmed (w\<lparr>keys := ks\<rparr>)"
    using assms(2) by (auto simp: confirmed_def split: list.splits)
  from dispatch_unconfirmed [OF this, of P] show ?thesis
    by (simp add: keyEvent_eq [OF assms(1)] only_status_def)
qed

theorem no_command_without_consent_witness:
  "\<exists>n. cmds (snd (keyEvent (demo []) (demoApp [''M       a.c''] [114, 110]))) = replicate n ''svn st''"
  using no_command_without_consent [of "demoApp [''M       a.c''] [114, 110]" 114 "[110]" "demo []"]
  by (simp add: demo_defs)

lemma snd_refresh_cmds:
  "shell P (cmds w) ''svn st'' = Some out \<Longrightarrow> cmds (snd (refreshStatusItems P w)) = cmds w @ [''svn st'']"
proof -
  assume out: "shell P (cmds w) ''svn st'' = Some out"
  have print: "cmds (snd (printAllStatus pad v)) = cmds v" for v
    using keepsD [OF keeps_reprints_printAllStatus, of v pad] by (simp add: reprints_def)
  have tail: "cmds (snd (andThen (printAllStatus pad) f v)) = cmds v"
    if "\<And>v'. cmds (snd (f () v')) = cmds v'" for f v
    using print [of v] that by (auto simp: andThen_def split: prod.splits outcome.splits)
  show ?thesis
    by (cases "readPipe [] out = []")
       (simp_all add: refreshStatusItems_def block.simps prog_simps andThen_exec [OF out]
         andThen_popBack drawPad_def tail, simp add: andThen_def popBack_def)
qed

lemma confirmAdd_yes:
  assumes "keys v = 121 # ks" "shell P (cmds v) cmd = Some out"
    and "cmd = ''svn add '' @ boost_join P items '' ''"
  shows "\<exists>v'. confirmAdd P items v = (Normal (), v') \<and> cmds v' = cmds v @ [cmd]"
  using assms
  by (simp add: confirmAdd_def clearWin_def block.simps andThen_def io_defs returning_def exec_def)

lemma confirmRemove_yes:
  assumes "keys v = 121 # k # ks" "shell P (cmds v) cmd = Some out"
    and "cmd = ''svn rm '' @ (if k = 121 then ''--keep-local '' else []) @ boost_join P items '' ''"
  shows "\<exists>v'. confirmRemove P items v = (Normal (), v') \<and> cmds v' = cmds v @ [cmd]"
  using assms
  by (auto simp: confirmRemove_def clearWin_def ask_def block.simps andThen_def io_defs
      returning_def exec_def Let_def)

text \<open>A question answered by running \<open>cmd\<close>, then a refresh: the commands of the whole.\<close>

lemma ask_refresh_cmds:
  assumes "confirm v = (Normal (), v')" "cmds v' = cs" "shell P cs ''svn st'' = Some out"
    and "\<And>u. cmds (snd (block ms u)) = cmds u"
    and "\<And>u. \<exists>u'. block ns u = (Normal (), u') \<and> cmds u' = cmds u"
  shows "cmds (snd (block (confirm # ns @ refreshStatusItems P # ms) v)) = cs @ [''svn st'']"
proof -
  obtain u where u: "block ns v' = (Normal (), u)" "cmds u = cs" using assms(2,5) by blast
  have "cmds (snd (andThen (refreshStatusItems P) (\<lambda>_. block ms) u)) = cs @ [''svn st'']"
    using snd_refresh_cmds [of P u out] assms(3,4) u(2)
    by (auto simp: andThen_def split: prod.splits outcome.splits)
  then show ?thesis
    using assms(1) u(1) by (simp add: block.simps(2) andThen_Normal block_append)
qed

text \<open>C5. Confirmed addition: \<^verbatim>\<open>a\<close> and \<^verbatim>\<open>y\<close> run \<^verbatim>\<open>svn add\<close> on the selected items with their first seven
  columns removed, joined by blanks, and then one \<^verbatim>\<open>svn st\<close>.\<close>

theorem add_runs_svn_add:
  assumes "keys w = 97 # 121 # ks" "join_law (boost_join P)" "\<forall>h c. shell P h c \<noteq> None"
  shows "cmds (snd (keyEvent P w)) =
     cmds w @ [''svn add '' @ join_with '' '' (map (drop 7) (selectedItems (st w))), ''svn st'']"
proof -
  let ?items = "map (\<lambda>str. string_erase0 str 7) (selectedItems (st w))"
  define cmd where "cmd = ''svn add '' @ boost_join P ?items '' ''"
  let ?v = "w\<lparr>keys := 121 # ks, trace := trace w @ [Wclear win, Wrefresh win,
      Mvwprintw win (bottomWindowSize - 1) 0 ''Add selected items? (y/n?)'', Wrefresh win,
      Timeout 12000]\<rparr>"
  obtain o1 where "shell P (cmds ?v) cmd = Some o1" using assms(3) by (metis not_None_eq)
  from confirmAdd_yes [OF _ this cmd_def] obtain v' where
    v': "confirmAdd P ?items ?v = (Normal (), v')" "cmds v' = cmds w @ [cmd]" by auto
  obtain o2 where o2: "shell P (cmds w @ [cmd]) ''svn st'' = Some o2"
    using assms(3) by (metis not_None_eq)
  have "keyEvent P w = block (confirmAdd P ?items # [] @ refreshStatusItems P # [clearWin]) ?v"
    by (simp add: keyEvent_eq [OF assms(1)] dispatch_def addKey_def andThen_getS Let_def
        clearWin_def [of] ask_def block.simps prog_simps)
  moreover have "cmds (snd (block [clearWin] u)) = cmds u" for u
    by (simp add: clearWin_def block.simps prog_simps)
  ultimately have "cmds (snd (keyEvent P w)) = cmds w @ [cmd] @ [''svn st'']"
    using ask_refresh_cmds [of "confirmAdd P ?items" ?v v' _ P o2 "[clearWin]" "[]", OF v' o2] by (simp add: block.simps returning_def)
  then show ?thesis
    by (simp add: cmd_def join_law_join_with [OF assms(2)] string_erase0_def)
qed

theorem add_runs_svn_add_witness:
  "cmds (snd (keyEvent (demo ''M       a\<newline>'')
      ((demoApp [] [97, 121])\<lparr>st := (demoState [])\<lparr>selectedItems := [''?       a.c'', ''?       b'']\<rparr>\<rparr>))) =
   [''svn add  a.c  b'', ''svn st'']"
  using add_runs_svn_add [of "(demoApp [] [97, 121])\<lparr>st := (demoState [])\<lparr>selectedItems := [''?       a.c'', ''?       b'']\<rparr>\<rparr>"
      "[]" "demo ''M       a\<newline>''"]
  by (simp add: demo_defs join_law_example)



section \<open>The cursor\<close>

text \<open>A session of two keys, for the witnesses.\<close>

lemma demo_bounded: "lists_bounded (demo ''M       a\<newline>'')"
  by (simp add: lists_bounded_def demo_def readPipe_append is_cstring_def)

lemma demo_down: "\<exists>w'. keyEvent P (demoApp [''M       a'', ''?       b''] [106]) = (Normal (), w') \<and>
   cursorPosition (st w') = 1"
proof -
  let ?w = "demoApp [''M       a'', ''?       b''] []"
  let ?v = "?w\<lparr>st := moveDownState (st ?w)\<rparr>"
  have "view_ok (st ?v)" "fitsFrom (nat (padPos (st ?v))) (st ?v)" "cursorPosition (st ?v) = 1"
    by (simp_all add: demo_defs moveDownState_def to_size_def view_ok_def sizes_ok_def fitsFrom_def
        bottomWindowSize_def Let_def)
  then show ?thesis
    using printAllStatus_ok [of ?v pad]
    by (simp add: keyEvent_eq [of _ 106 "[]"] dispatch_def moveOneRowDown_def block.simps
        andThen_modS andThen_Normal demoApp_def drawPad_def prog_simps padFrom_def)
qed

text \<open>C7. In every session in which the user types neither \<^verbatim>\<open>a\<close> nor \<^verbatim>\<open>u\<close>, the cursor stays inside
  the list: no key indexes outside the vector of status items.\<close>

theorem session_cursor_in_list:
  assumes "session P (- {97, 117}) w v" "cursor_ok (st w)"
    and "split_law (boost_split P)" "lists_bounded P"
  shows "0 \<le> cursorPosition (st v) \<and> cursorPosition (st v) < int (length (statusItems (st v)))"
  using cursor.session_I [OF assms] by (simp add: cursor_ok_def)

theorem session_cursor_in_list_witness:
  "\<exists>v :: App. cursorPosition (st v) = 1 \<and> cursorPosition (st v) < int (length (statusItems (st v)))"
proof -
  let ?w = "demoApp [''M       a'', ''?       b''] [106]"
  let ?P = "demo ''M       a\<newline>''"
  obtain v where v: "keyEvent ?P ?w = (Normal (), v)" "cursorPosition (st v) = 1"
    using demo_down by blast
  then have run: "session ?P (- {97, 117}) ?w v"
    using session_key [OF session_start, of ?w 106 "[]"] by (simp add: demoApp_def)
  have "cursor_ok (st ?w)" by (simp add: cursor_ok_def demo_defs)
  from session_cursor_in_list [OF run this demo_split demo_bounded] v(2) show ?thesis by (intro exI [of _ v] conjI) simp_all
qed

text \<open>C8. On a terminal with at least two rows for the list, in every session without \<^verbatim>\<open>G\<close>, \<^verbatim>\<open>a\<close> and
  \<^verbatim>\<open>u\<close> the item under the cursor is drawn in a row of the pad.\<close>

theorem session_cursor_on_screen:
  assumes "session P (- {71, 97, 117}) w v" "on_screen (st w)"
    and "split_law (boost_split P)" "lists_bounded P"
  shows "padPos (st v) \<le> cursorPosition (st v) \<and>
    cursorPosition (st v) < padPos (st v) + (maxY (st v) - bottomWindowSize)"
  using screen.session_I [OF assms] by (simp add: on_screen_def visible_def padRows_def)

theorem session_cursor_on_screen_witness:
  "\<exists>v :: App. cursorPosition (st v) = 1 \<and> padPos (st v) \<le> cursorPosition (st v)"
proof -
  let ?w = "demoApp [''M       a'', ''?       b''] [106]"
  let ?P = "demo ''M       a\<newline>''"
  obtain v where v: "keyEvent ?P ?w = (Normal (), v)" "cursorPosition (st v) = 1"
    using demo_down by blast
  then have run: "session ?P (- {71, 97, 117}) ?w v"
    using session_key [OF session_start, of ?w 106 "[]"] by (simp add: demoApp_def)
  have "on_screen (st ?w)"
    by (simp add: on_screen_def visible_def padRows_def bottomWindowSize_def cursor_ok_def demo_defs)
  from session_cursor_on_screen [OF run this demo_split demo_bounded] v(2) show ?thesis by (intro exI [of _ v] conjI) simp_all
qed

text \<open>\<^verbatim>\<open>G\<close> puts the cursor on the last item and keeps it on the screen exactly when the list is
  longer than the whole screen plus one, or already fits below the first visible item: it
  compares with the height of the screen instead of the height of the pad.\<close>

theorem bottom_visible_iff:
  assumes "cursor_ok s" "visible s" "9 \<le> maxY s" "maxY s < 2 ^ 31"
  shows "cursorPosition (bottomState s) = int (length (statusItems s)) - 1 \<and>
    (visible (bottomState s) \<longleftrightarrow>
       maxY s < int (length (statusItems s)) - 1 \<or>
       int (length (statusItems s)) \<le> padPos s + (maxY s - bottomWindowSize))"
  using assms by (simp add: bottom_cursor visible_bottom_iff padRows_def)

section \<open>Selection and modes\<close>

text \<open>The blank key selects or deselects the item under the cursor: afterwards exactly this
  item's membership in the selection has changed, every other item's is as before, and the cursor
  is one row further down, or where it was at the end of the list.\<close>

theorem select_toggles_item:
  assumes "keys w = 32 # ks" "cursor_ok (st w)" "item = statusItems (st w) ! nat (cursorPosition (st w))"
  shows "(\<forall>x. x \<in> set (selectedItems (st (snd (keyEvent P w)))) \<longleftrightarrow>
            (if x = item then x \<notin> set (selectedItems (st w)) else x \<in> set (selectedItems (st w)))) \<and>
         cursorPosition (st (snd (keyEvent P w))) =
            min (cursorPosition (st w) + 1) (int (length (statusItems (st w))) - 1)"
proof -
  let ?s = "(st w)\<lparr>selectedItems := toggleSelected item (selectedItems (st w))\<rparr>"
  let ?v = "w\<lparr>keys := ks, st := moveDownState ?s\<rparr>"
  let ?w = "snd (keyEvent P w)"
  have "selectAtCursor (w\<lparr>keys := ks\<rparr>) = (Normal (), w\<lparr>keys := ks, st := ?s\<rparr>)"
    using assms(2,3) by (simp add: selectAtCursor_def cursor_ok_def modS_def Let_def)
  then have "keyEvent P w = block [printAllStatus pad, drawPad] ?v"
    by (simp add: keyEvent_eq [OF assms(1)] dispatch_def selectKey_def moveOneRowDown_def block.simps
        andThen_Normal prog_simps del: returning_eq)
  then have "reprinted (moveDownState ?s) (st ?w)"
    using keepsD [OF keeps_reprints_show, of ?v pad] by (simp add: reprints_def)
  then have "selectedItems (st ?w) = toggleSelected item (selectedItems (st w))"
    and "cursorPosition (st ?w) = cursorPosition (moveDownState ?s)"
    by (auto simp: reprinted_def frame_simps)
  then show ?thesis
    using moveDown_cursor [of ?s] assms(2) by (auto simp: cursor_ok_def toggleSelected_def)
qed

text \<open>The mode flags: after any sequence of toggles from the initial state a mode is on exactly
  when it was toggled an odd number of times; toggles of the other modes do not matter.\<close>

theorem mode_parity: "getMode m (fold toggleMode ms State_init) = odd (count_list ms m)"
proof -
  have "\<not> getMode m State_init" by (cases m) (simp_all add: mode_defs State_init_def)
  then show ?thesis by (simp add: modes.get_fold_toggle)
qed

section \<open>The main loop\<close>

text \<open>The remaining keys end in enough \<^verbatim>\<open>q\<close>s that one of them is read as a command.\<close>

definition ends_in_q :: "nat \<Rightarrow> int list \<Rightarrow> bool" where
  "ends_in_q n ks \<longleftrightarrow> (\<exists>front m. ks = front @ replicate m 113 \<and> length front = n \<and>
     (if front = [] then 1 \<le> m else 3 \<le> m))"

lemma keyEvent_eats:
  assumes "keys w = c # ks"
  shows "\<exists>k \<le> 2. keys (snd (keyEvent P w)) = drop k ks"
proof -
  obtain k where "k \<le> 2" "keys (snd (dispatch P c (w\<lparr>keys := ks\<rparr>))) = drop k (keys (w\<lparr>keys := ks\<rparr>))"
    using eats_dispatch unfolding eats_def by blast
  then show ?thesis by (auto simp: keyEvent_eq [OF assms])
qed

lemma mainLoop_step:
  "keyEvent P w = (Normal x, w') \<Longrightarrow> isRunning (st w) \<Longrightarrow> mainLoop P (Suc n) w = mainLoop P n w'"
  by (simp add: mainLoop.simps [of P "Suc n" w])

lemma mainLoop_stopped: "\<not> isRunning (st w) \<Longrightarrow> mainLoop P n w = Some (Normal (), w)"
  by (simp add: mainLoop.simps)

lemma mainLoop_failed:
  "keyEvent P w = (r, w') \<Longrightarrow> isRunning (st w) \<Longrightarrow> r \<noteq> Normal () \<Longrightarrow>
     mainLoop P (Suc n) w = Some (r, w')"
  by (cases r) (simp_all add: mainLoop.simps [of P "Suc n" w])

lemma ends_in_q_drop:
  assumes "ends_in_q (Suc n) (c # ks)" "k \<le> 2"
  shows "\<exists>j \<le> n. ends_in_q j (drop k ks)"
proof -
  obtain front m where ks: "ks = front @ replicate m 113" "length front = n" "3 \<le> m"
    using assms(1) by (auto simp: ends_in_q_def length_Suc_conv)
  have "ends_in_q (n - k) (drop k ks)"
    unfolding ends_in_q_def
    using ks assms(2)
    by (intro exI [of _ "drop k front"] exI [of _ "m - (k - length front)"]) auto
  then show ?thesis by (meson diff_le_self)
qed

lemma mainLoop_ends:
  "ends_in_q n (keys w) \<Longrightarrow> n < fuel \<Longrightarrow> \<exists>r. mainLoop P fuel w = Some r"
proof (induction fuel arbitrary: n w)
  case (Suc fuel)
  obtain c ks where ks: "keys w = c # ks"
    using Suc.prems(1) by (cases "keys w") (auto simp: ends_in_q_def split: if_splits)
  obtain r w' where ev: "keyEvent P w = (r, w')" by (cases "keyEvent P w")
  show ?case
  proof (cases "isRunning (st w) \<and> r = Normal ()")
    case True
    note step = mainLoop_step [of P w "()" w' fuel] ev True
    show ?thesis
    proof (cases n)
      case 0
      then have "c = 113" using Suc.prems(1) ks by (auto simp: ends_in_q_def Cons_replicate_eq)
      then have "\<not> isRunning (st w')"
        using ev by (auto simp: keyEvent_eq [OF ks] dispatch_def quitKey_def modS_def)
      then show ?thesis using step mainLoop_stopped by simp
    next
      case (Suc j)
      obtain k where "k \<le> 2" "keys w' = drop k ks"
        using keyEvent_eats [OF ks, of P] ev by auto
      then obtain i where "i \<le> j" "ends_in_q i (keys w')"
        using ends_in_q_drop [of j c ks k] Suc.prems(1) ks Suc by auto
      then show ?thesis using Suc.IH [of i w'] Suc.prems(2) Suc step by simp
    qed
  next
    case False
    then show ?thesis
      using ev mainLoop_failed [of P w r w' fuel] mainLoop_stopped [of w P "Suc fuel"] by blast
  qed
qed simp

text \<open>C10. The main loop ends: whatever the user types first, three \<^verbatim>\<open>q\<close> make it stop within one
  iteration per key typed before them plus one, by leaving the loop or by failing. (A single \<^verbatim>\<open>q\<close>
  may be taken as the answer to a question; no key reads more than two further keys.)\<close>

theorem mainLoop_terminates:
  assumes "keys w = typed @ [113, 113, 113]"
  shows "\<exists>r. mainLoop P (length typed + 1) w = Some r"
proof (rule mainLoop_ends)
  have "[113, 113, 113] = replicate 3 (113 :: int)" by (simp add: numeral_3_eq_3)
  then show "ends_in_q (length typed) (keys w)"
    unfolding ends_in_q_def assms by (intro exI [of _ typed] exI [of _ 3]) simp
qed simp

theorem mainLoop_terminates_witness:
  "\<exists>r. mainLoop (demo ''M       a\<newline>'') 3 (demoApp [''M       a''] [117, 106, 113, 113, 113]) = Some r"
  using mainLoop_terminates [of "demoApp [''M       a''] [117, 106, 113, 113, 113]" "[117, 106]"
      "demo ''M       a\<newline>''"]
  by (simp add: demoApp_def numeral_3_eq_3)

section \<open>Failures\<close>

text \<open>C11. In a working copy without changes \<^verbatim>\<open>svn st\<close> prints nothing and the refresh calls
  \<^verbatim>\<open>pop_back\<close> on an empty string, which is undefined behaviour.\<close>

theorem clean_copy_undefined:
  assumes "shell P (cmds w) ''svn st'' = Some []"
  shows "fst (refreshStatusItems P w) = Undefined pop_back_on_empty"
  using assms
  by (simp add: refreshStatusItems_def block.simps prog_simps andThen_exec [OF assms])
     (simp add: readPipe.simps andThen_def popBack_def)

theorem clean_copy_undefined_witness:
  "fst (refreshStatusItems (demo []) (demoApp [] [])) = Undefined pop_back_on_empty"
  using clean_copy_undefined [of "demo []" "demoApp [] []"] by (simp add: demo_def)

text \<open>\<^verbatim>\<open>a\<close> and \<^verbatim>\<open>u\<close> refresh the list but not the cursor: when the new list is shorter, the cursor
  points outside it, and the next blank indexes the vector out of range.\<close>

theorem stale_cursor_undefined:
  assumes "keys w = 32 # ks" "int (length (statusItems (st w))) \<le> cursorPosition (st w)"
  shows "fst (keyEvent P w) = Undefined subscript_out_of_range"
  using assms(2)
  by (simp add: keyEvent_eq [OF assms(1)] dispatch_def selectKey_def block.simps andThen_def
      selectAtCursor_def Let_def)

end
