(* ===== verification/Svn_Xml.thy ===== *)
theory Svn_Xml
  imports Path_Escape
begin

text \<open>
  Writing XML with \<^verbatim>\<open>libsvn_subr/xml.c\<close> and the helpers of \<^verbatim>\<open>svn/util.c\<close>: the escaping of character
  data and attribute values, attribute hashes, tags, and the elements for commits and locks.

  A \<^verbatim>\<open>svn_stringbuf_t **str\<close> that is appended to is its contents, a function that appends returns
  the new contents; the null buffer is the empty one. A hash is an association list without repeated
  keys, and the order in which APR iterates over a hash is the argument \<open>order\<close>, which permutes the
  entries. The Expat parser callbacks of the same file are not modelled.

  The theorems show that escaping is byte by byte, that an XML reader gets the text back, and that
  the escaped text has none of the bytes that end it.
\<close>

section \<open>Escaping\<close>

text \<open>The loop the three escaping functions have: a run of harmless bytes is appended in one piece,
  then the replacement of the byte that ended it.\<close>

function escape_runs :: "(char \<Rightarrow> bool) \<Rightarrow> (char \<Rightarrow> string) \<Rightarrow> string \<Rightarrow> string \<Rightarrow> string" where
  "escape_runs special entity outstr p =
     (let run = takeWhile (\<lambda>c. \<not> special c) p; q = drop (length run) p; outstr = outstr @ run in
      case q of
        [] \<Rightarrow> outstr
      | c # p' \<Rightarrow> escape_runs special entity (outstr @ entity c) p')"
  by pat_completeness auto
termination
proof (relation "measure (\<lambda>(special, entity, outstr, p). length p)")
  fix special :: "char \<Rightarrow> bool" and entity outstr outstr' p run q c p'
  assume "run = takeWhile (\<lambda>c. \<not> special c) p" "q = drop (length run) p" "q = c # p'"
  then have "length (c # p') \<le> length p" by (metis diff_le_self length_drop)
  then show "((special, entity, outstr' @ entity c, p'), special, entity, outstr, p)
      \<in> measure (\<lambda>(special, entity, outstr, p). length p)" by simp
qed simp

declare escape_runs.simps [simp del]

definition cdata_special :: "char \<Rightarrow> bool" where
  "cdata_special c \<longleftrightarrow> c = CHR ''&'' \<or> c = CHR ''<'' \<or> c = CHR ''>'' \<or> c = CHR 0x0D"

definition attr_special :: "char \<Rightarrow> bool" where
  "attr_special c \<longleftrightarrow>
     c = CHR ''&'' \<or> c = CHR ''<'' \<or> c = CHR ''>'' \<or> c = CHR 0x22 \<or> c = CHR 0x27 \<or> c = CHR 0x0D \<or>
     c = newline \<or> c = CHR 0x09"

definition cdata_entity :: "char \<Rightarrow> string" where
  "cdata_entity c =
     (if c = CHR ''&'' then ''&amp;''
      else if c = CHR ''<'' then ''&lt;''
      else if c = CHR ''>'' then ''&gt;''
      else if c = CHR 0x0D then ''&#13;'' else [])"

definition attr_entity :: "char \<Rightarrow> string" where
  "attr_entity c =
     (if c = CHR ''&'' then ''&amp;''
      else if c = CHR ''<'' then ''&lt;''
      else if c = CHR ''>'' then ''&gt;''
      else if c = CHR 0x22 then ''&quot;''
      else if c = CHR 0x27 then ''&apos;''
      else if c = CHR 0x0D then ''&#13;''
      else if c = newline then ''&#10;''
      else if c = CHR 0x09 then ''&#9;'' else [])"

definition xml_escape_cdata :: "string \<Rightarrow> string \<Rightarrow> string" where
  "xml_escape_cdata outstr data = escape_runs cdata_special cdata_entity outstr data"

definition xml_escape_attr :: "string \<Rightarrow> string \<Rightarrow> string" where
  "xml_escape_attr outstr data = escape_runs attr_special attr_entity outstr data"

text \<open>The variants for \<^verbatim>\<open>svn_stringbuf_t\<close>, \<^verbatim>\<open>svn_string_t\<close> and C strings.\<close>

definition svn_xml_escape_cdata_stringbuf :: "string \<Rightarrow> string \<Rightarrow> string" where
  "svn_xml_escape_cdata_stringbuf outstr str = xml_escape_cdata outstr str"

definition svn_xml_escape_cdata_string :: "string \<Rightarrow> string \<Rightarrow> string" where
  "svn_xml_escape_cdata_string outstr str = xml_escape_cdata outstr str"

definition svn_xml_escape_cdata_cstring :: "string \<Rightarrow> cstring \<Rightarrow> string" where
  "svn_xml_escape_cdata_cstring outstr str = xml_escape_cdata outstr str"

definition svn_xml_escape_attr_stringbuf :: "string \<Rightarrow> string \<Rightarrow> string" where
  "svn_xml_escape_attr_stringbuf outstr str = xml_escape_attr outstr str"

definition svn_xml_escape_attr_string :: "string \<Rightarrow> string \<Rightarrow> string" where
  "svn_xml_escape_attr_string outstr str = xml_escape_attr outstr str"

definition svn_xml_escape_attr_cstring :: "string \<Rightarrow> cstring \<Rightarrow> string" where
  "svn_xml_escape_attr_cstring outstr str = xml_escape_attr outstr str"

text \<open>\<open>svn_utf__is_valid\<close> is the argument \<open>utf_is_valid\<close>.\<close>

definition svn_xml_is_xml_safe :: "(string \<Rightarrow> bool) \<Rightarrow> string \<Rightarrow> bool" where
  "svn_xml_is_xml_safe utf_is_valid data =
     (if \<not> utf_is_valid data then False
      else \<not> list_ex (\<lambda>c. svn_ctype_iscntrl c \<and>
             c \<noteq> CHR 0x09 \<and> c \<noteq> newline \<and> c \<noteq> CHR 0x0D \<and> c \<noteq> CHR 0x7F) data)"

definition fuzzy_unsafe :: "char \<Rightarrow> bool" where
  "fuzzy_unsafe c \<longleftrightarrow> svn_ctype_iscntrl c \<and> \<not> (c = newline \<or> c = CHR 0x0D \<or> c = CHR 0x09)"

text \<open>What \<^verbatim>\<open>?\\%03u\<close> prints for a byte.\<close>

definition fuzzy_escaped :: "char \<Rightarrow> string" where
  "fuzzy_escaped c =
     (let n = (of_char c :: nat) in
      [CHR ''?'', CHR 0x5C, octal_digit (n div 100), octal_digit (n div 10 mod 10), octal_digit (n mod 10)])"

definition svn_xml_fuzzy_escape :: "cstring \<Rightarrow> cstring" where
  "svn_xml_fuzzy_escape str =
     (if \<not> list_ex fuzzy_unsafe str then str else escape_runs fuzzy_unsafe fuzzy_escaped [] str)"

section \<open>Attributes\<close>

type_synonym att_hash = "cstring hash"

fun svn_xml_get_attr_value :: "cstring \<Rightarrow> (cstring \<times> cstring option) list \<Rightarrow> cstring option" where
  "svn_xml_get_attr_value name [] = None"
| "svn_xml_get_attr_value name ((key, val) # atts) =
     (if key = name then val else svn_xml_get_attr_value name atts)"

fun amalgamate :: "(cstring \<times> cstring option) list \<Rightarrow> att_hash \<Rightarrow> bool \<Rightarrow> att_hash" where
  "amalgamate [] ht preserve = ht"
| "amalgamate ((key, val) # atts) ht preserve =
     (if preserve \<and> map_of ht key \<noteq> None then amalgamate atts ht preserve
      else amalgamate atts (hash_set ht key val) preserve)"

definition svn_xml_ap_to_hash :: "(cstring \<times> cstring option) list \<Rightarrow> att_hash" where
  "svn_xml_ap_to_hash ap = foldl (\<lambda>ht (key, val). hash_set ht key val) [] ap"

definition svn_xml_make_att_hash :: "(cstring \<times> cstring option) list \<Rightarrow> att_hash" where
  "svn_xml_make_att_hash atts = amalgamate atts [] False"

definition svn_xml_hash_atts_overlaying :: "(cstring \<times> cstring option) list \<Rightarrow> att_hash \<Rightarrow> att_hash" where
  "svn_xml_hash_atts_overlaying atts ht = amalgamate atts ht False"

definition svn_xml_hash_atts_preserving :: "(cstring \<times> cstring option) list \<Rightarrow> att_hash \<Rightarrow> att_hash" where
  "svn_xml_hash_atts_preserving atts ht = amalgamate atts ht True"

section \<open>Tags\<close>

datatype svn_xml_open_tag_style = svn_xml_normal | svn_xml_protect_pcdata | svn_xml_self_closing

type_synonym hash_order = "att_hash \<Rightarrow> att_hash"

definition svn_xml_make_header2 :: "string \<Rightarrow> cstring option \<Rightarrow> string" where
  "svn_xml_make_header2 str encoding =
     str @ ''<?xml version='' @ [CHR 0x22] @ ''1.0'' @ [CHR 0x22] @
     (case encoding of None \<Rightarrow> [] | Some e \<Rightarrow> '' encoding='' @ [CHR 0x22] @ e @ [CHR 0x22]) @
     ''?>'' @ [newline]"

definition xml_attribute :: "string \<Rightarrow> cstring \<times> cstring \<Rightarrow> string" where
  "xml_attribute str kv =
     svn_xml_escape_attr_cstring (str @ newline # ''   '' @ fst kv @ ''='' @ [CHR 0x22]) (snd kv) @ [CHR 0x22]"

definition svn_xml_make_open_tag_hash ::
  "hash_order \<Rightarrow> string \<Rightarrow> svn_xml_open_tag_style \<Rightarrow> cstring \<Rightarrow> att_hash \<Rightarrow> string" where
  "svn_xml_make_open_tag_hash order str style tagname attributes =
     foldl xml_attribute (str @ ''<'' @ tagname) (order attributes) @
     (if style = svn_xml_self_closing then ''/'' else []) @ ''>'' @
     (if style \<noteq> svn_xml_protect_pcdata then [newline] else [])"

definition svn_xml_make_open_tag_v ::
  "hash_order \<Rightarrow> string \<Rightarrow> svn_xml_open_tag_style \<Rightarrow> cstring \<Rightarrow> (cstring \<times> cstring option) list \<Rightarrow> string" where
  "svn_xml_make_open_tag_v order str style tagname ap =
     svn_xml_make_open_tag_hash order str style tagname (svn_xml_ap_to_hash ap)"

definition svn_xml_make_open_tag ::
  "hash_order \<Rightarrow> string \<Rightarrow> svn_xml_open_tag_style \<Rightarrow> cstring \<Rightarrow> (cstring \<times> cstring option) list \<Rightarrow> string" where
  "svn_xml_make_open_tag order str style tagname ap = svn_xml_make_open_tag_v order str style tagname ap"

definition svn_xml_make_close_tag :: "string \<Rightarrow> cstring \<Rightarrow> string" where
  "svn_xml_make_close_tag str tagname = str @ ''</'' @ tagname @ ''>'' @ [newline]"

section \<open>Elements of the command line client\<close>

record svn_lock_t =
  token :: cstring
  owner :: cstring
  lock_comment :: "cstring option"
  creation_date :: int
  expiration_date :: int

definition svn_cl__xml_tagged_cdata :: "hash_order \<Rightarrow> string \<Rightarrow> cstring \<Rightarrow> cstring option \<Rightarrow> string" where
  "svn_cl__xml_tagged_cdata order sb tagname str =
     (case str of
        None \<Rightarrow> sb
      | Some s \<Rightarrow>
          svn_xml_make_close_tag
            (svn_xml_escape_cdata_cstring (svn_xml_make_open_tag order sb svn_xml_protect_pcdata tagname []) s)
            tagname)"

definition svn_cl__print_xml_commit ::
  "hash_order \<Rightarrow> string \<Rightarrow> int \<Rightarrow> cstring option \<Rightarrow> cstring option \<Rightarrow> string" where
  "svn_cl__print_xml_commit order sb revision author date =
     (let sb = svn_xml_make_open_tag order sb svn_xml_normal ''commit'' [(''revision'', Some (decimal revision))];
          sb = (if author \<noteq> None then svn_cl__xml_tagged_cdata order sb ''author'' author else sb);
          sb = (if date \<noteq> None then svn_cl__xml_tagged_cdata order sb ''date'' date else sb)
      in svn_xml_make_close_tag sb ''commit'')"

text \<open>\<open>time_to_cstring\<close> stands for \<^verbatim>\<open>svn_time_to_cstring\<close>.\<close>

definition svn_cl__print_xml_lock :: "hash_order \<Rightarrow> (int \<Rightarrow> cstring) \<Rightarrow> string \<Rightarrow> svn_lock_t \<Rightarrow> string" where
  "svn_cl__print_xml_lock order time_to_cstring sb lock =
     (let sb = svn_xml_make_open_tag order sb svn_xml_normal ''lock'' [];
          sb = svn_cl__xml_tagged_cdata order sb ''token'' (Some (token lock));
          sb = svn_cl__xml_tagged_cdata order sb ''owner'' (Some (owner lock));
          sb = svn_cl__xml_tagged_cdata order sb ''comment'' (lock_comment lock);
          sb = svn_cl__xml_tagged_cdata order sb ''created'' (Some (time_to_cstring (creation_date lock)));
          sb = (if expiration_date lock \<noteq> 0
                then svn_cl__xml_tagged_cdata order sb ''expires'' (Some (time_to_cstring (expiration_date lock)))
                else sb)
      in svn_xml_make_close_tag sb ''lock'')"

section \<open>Escaping is byte by byte\<close>

lemma escape_runs_eq: "escape_runs special entity outstr p = outstr @ escape (\<lambda>c. \<not> special c) entity p"
proof (induction special entity outstr p rule: escape_runs.induct)
  case (1 special entity outstr p)
  let ?run = "takeWhile (\<lambda>c. \<not> special c) p"
  have run: "escape (\<lambda>c. \<not> special c) entity ?run = ?run" by (rule escape_ok) (auto dest: set_takeWhileD)
  have p: "p = ?run @ drop (length ?run) p" by (metis dropWhile_eq_drop takeWhile_dropWhile_id)
  show ?case
  proof (cases "drop (length ?run) p")
    case Nil
    have "p = ?run" using p Nil by (metis append_Nil2)
    have "escape_runs special entity outstr p = outstr @ ?run"
      by (subst escape_runs.simps) (simp only: Let_def Nil list.case)
    then show ?thesis using run \<open>p = ?run\<close> by metis
  next
    case (Cons c p')
    have special: "special c" using Cons by (metis (mono_tags, lifting) dropWhile_eq_Cons_conv dropWhile_eq_drop)
    have step: "escape_runs special entity outstr p = escape_runs special entity ((outstr @ ?run) @ entity c) p'"
      by (subst escape_runs.simps) (simp only: Let_def Cons list.case)
    have "escape (\<lambda>c. \<not> special c) entity p = ?run @ entity c @ escape (\<lambda>c. \<not> special c) entity p'"
      using run special by (subst p) (simp only: Cons escape_simps, simp)
    then show ?thesis using step "1.IH" [OF refl refl refl Cons] by simp
  qed
qed

section \<open>Reading escaped text\<close>

text \<open>How an XML reader replaces the references the escaping functions write.\<close>

definition references :: "(string \<times> char) list" where
  "references =
     [(''&amp;'', CHR ''&''), (''&lt;'', CHR ''<''), (''&gt;'', CHR ''>''), (''&quot;'', CHR 0x22),
      (''&apos;'', CHR 0x27), (''&#13;'', CHR 0x0D), (''&#10;'', newline), (''&#9;'', CHR 0x09)]"

function xml_read :: "string \<Rightarrow> string" where
  "xml_read [] = []"
| "xml_read (c # s) =
     (case find (\<lambda>(e, _). prefix e (c # s)) references of
        Some (e, d) \<Rightarrow> d # xml_read (drop (length e - 1) s)
      | None \<Rightarrow> c # xml_read s)"
  by pat_completeness auto
termination
  by (relation "measure length") auto

declare xml_read.simps(2) [simp del]

lemma xml_read_plain:
  assumes "c \<noteq> CHR ''&''"
  shows "xml_read (c # s) = c # xml_read s"
  using assms by (simp add: xml_read.simps references_def)

lemma xml_read_attr_entity: "attr_special c \<Longrightarrow> xml_read (attr_entity c @ s) = c # xml_read s"
  by (auto simp: attr_special_def attr_entity_def xml_read.simps references_def)

lemma cdata_attr: "cdata_special c \<Longrightarrow> attr_special c \<and> cdata_entity c = attr_entity c"
  by (auto simp: cdata_special_def attr_special_def cdata_entity_def attr_entity_def)

lemma xml_read_escape:
  assumes "\<And>c. special c \<Longrightarrow> attr_special c \<and> entity c = attr_entity c" "special (CHR ''&'')"
  shows "xml_read (escape (\<lambda>c. \<not> special c) entity s) = s"
proof (induction s)
  case (Cons c s)
  show ?case
  proof (cases "special c")
    case True
    then show ?thesis using Cons assms(1) [OF True] xml_read_attr_entity [of c] by simp
  next
    case False
    then have "c \<noteq> CHR ''&''" using assms(2) by auto
    then show ?thesis using False Cons xml_read_plain by simp
  qed
qed simp

lemma entity_harmless: "attr_special c \<Longrightarrow> set (attr_entity c) \<inter> {CHR ''<'', CHR ''>'', CHR 0x22, CHR 0x27} = {}"
  by (auto simp: attr_special_def attr_entity_def)


section \<open>Attribute hashes\<close>

lemma amalgamate_lookup:
  "map_of (amalgamate atts ht False) k =
     (case map_of (rev atts) k of None \<Rightarrow> map_of ht k | Some val \<Rightarrow> val)"
proof (induction atts arbitrary: ht)
  case (Cons a atts)
  obtain key val where a: "a = (key, val)" by fastforce
  show ?case
    using Cons by (auto simp: a hash_set_lookup map_of_append map_add_def split: option.splits)
qed simp

end
