(* ===== verification/Status_Print.thy ===== *)
theory Status_Print
  imports Svn_Xml Dirent_Abs "HOL-Library.Word"
begin

text \<open>
  \<^verbatim>\<open>svn/status.c\<close>: how the command line client prints the status of one working copy item, as text
  and as XML.

  What the functions write is kept in the record \<open>stats\<close>, with the conflict counters that they
  increment through pointers. The working copy library, the conflict descriptions, the conversion to
  the terminal's encoding, the hash iteration order and the date format are fields of \<open>client\<close>. Of
  \<^verbatim>\<open>svn_client_status_t\<close> the record has the fields these functions read.
\<close>

section \<open>Status structures\<close>

datatype svn_wc_status_kind =
    svn_wc_status_none
  | svn_wc_status_unversioned
  | svn_wc_status_normal
  | svn_wc_status_added
  | svn_wc_status_missing
  | svn_wc_status_deleted
  | svn_wc_status_replaced
  | svn_wc_status_modified
  | svn_wc_status_merged
  | svn_wc_status_conflicted
  | svn_wc_status_ignored
  | svn_wc_status_obstructed
  | svn_wc_status_external
  | svn_wc_status_incomplete

record svn_client_status_t =
  local_abspath :: cstring
  versioned :: bool
  conflicted :: bool
  node_status :: svn_wc_status_kind
  text_status :: svn_wc_status_kind
  prop_status :: svn_wc_status_kind
  wc_is_locked :: bool
  copied :: bool
  revision :: svn_revnum_t
  changed_rev :: svn_revnum_t
  changed_date :: int
  changed_author :: "cstring option"
  switched :: bool
  file_external :: bool
  wc_lock :: "svn_lock_t option"
  changelist :: "cstring option"
  repos_node_status :: svn_wc_status_kind
  repos_text_status :: svn_wc_status_kind
  repos_prop_status :: svn_wc_status_kind
  repos_lock :: "svn_lock_t option"
  moved_from_abspath :: "cstring option"
  moved_to_abspath :: "cstring option"

section \<open>Output and the libraries\<close>

record stats =
  stdout :: string
  stderr :: "svn_err list"
  text_conflicts :: "32 word"
  prop_conflicts :: "32 word"
  tree_conflicts :: "32 word"

text \<open>\<open>wc_conflicted\<close> is \<^verbatim>\<open>svn_wc_conflicted_p3\<close>, \<open>conflict_get\<close> \<^verbatim>\<open>svn_client_conflict_get\<close> (a conflict
  is a number), \<open>conflict_description\<close> the human readable description of a tree conflict;
  \<open>cmdline_fputs\<close> gives the bytes that printing a UTF-8 string writes, \<open>fputs\<close> those of a plain write.\<close>

record client =
  wc_conflicted :: "cstring \<Rightarrow> (bool \<times> bool \<times> bool) cres"
  conflict_get :: "cstring \<Rightarrow> nat cres"
  conflict_description :: "nat \<Rightarrow> string cres"
  cmdline_fputs :: "string \<Rightarrow> string cres"
  cmdline_fflush :: "unit cres"
  fputs :: "string \<Rightarrow> string cres"
  hash_iteration :: hash_order
  time_to_cstring :: "int \<Rightarrow> cstring"

text \<open>Actions: a result and the changed state.\<close>

definition sthen :: "('s \<Rightarrow> 'a cres \<times> 's) \<Rightarrow> ('a \<Rightarrow> 's \<Rightarrow> 'b cres \<times> 's) \<Rightarrow> 's \<Rightarrow> 'b cres \<times> 's" where
  "sthen m f s = (case m s of (Ok x, s') \<Rightarrow> f x s' | (r, s') \<Rightarrow> (cbind r (\<lambda>_. Abort), s'))"

definition pure :: "'a cres \<Rightarrow> 's \<Rightarrow> 'a cres \<times> 's" where
  "pure r s = (r, s)"

definition writing :: "string cres \<Rightarrow> stats \<Rightarrow> unit cres \<times> stats" where
  "writing r s = sthen (pure r) (\<lambda>bytes s. (Ok (), s\<lparr>stdout := stdout s @ bytes\<rparr>)) s"

definition svn_cmdline_printf :: "client \<Rightarrow> string \<Rightarrow> stats \<Rightarrow> unit cres \<times> stats" where
  "svn_cmdline_printf E text = writing (cmdline_fputs E text)"

definition svn_cl__error_checked_fputs :: "client \<Rightarrow> string \<Rightarrow> stats \<Rightarrow> unit cres \<times> stats" where
  "svn_cl__error_checked_fputs E str = writing (fputs E str)"

section \<open>Codes\<close>

fun generate_status_code :: "svn_wc_status_kind \<Rightarrow> char" where
  "generate_status_code svn_wc_status_none = CHR '' ''"
| "generate_status_code svn_wc_status_normal = CHR '' ''"
| "generate_status_code svn_wc_status_added = CHR ''A''"
| "generate_status_code svn_wc_status_missing = CHR ''!''"
| "generate_status_code svn_wc_status_incomplete = CHR ''!''"
| "generate_status_code svn_wc_status_deleted = CHR ''D''"
| "generate_status_code svn_wc_status_replaced = CHR ''R''"
| "generate_status_code svn_wc_status_modified = CHR ''M''"
| "generate_status_code svn_wc_status_conflicted = CHR ''C''"
| "generate_status_code svn_wc_status_obstructed = CHR ''~''"
| "generate_status_code svn_wc_status_ignored = CHR ''I''"
| "generate_status_code svn_wc_status_external = CHR ''X''"
| "generate_status_code svn_wc_status_unversioned = CHR ''?''"
| "generate_status_code svn_wc_status_merged = CHR ''?''"

definition combined_status :: "svn_client_status_t \<Rightarrow> svn_wc_status_kind" where
  "combined_status status =
     (case node_status status of
        svn_wc_status_conflicted \<Rightarrow>
          if \<not> versioned status \<and> conflicted status then svn_wc_status_missing else text_status status
      | svn_wc_status_modified \<Rightarrow> text_status status
      | new_status \<Rightarrow> new_status)"

definition combined_repos_status :: "svn_client_status_t \<Rightarrow> svn_wc_status_kind" where
  "combined_repos_status status =
     (if repos_node_status status = svn_wc_status_modified then repos_text_status status
      else repos_node_status status)"

definition generate_switch_column_code :: "svn_client_status_t \<Rightarrow> char" where
  "generate_switch_column_code status =
     (if switched status then CHR ''S'' else if file_external status then CHR ''X'' else CHR '' '')"

fun generate_status_desc :: "svn_wc_status_kind \<Rightarrow> cstring cres" where
  "generate_status_desc svn_wc_status_none = Ok ''none''"
| "generate_status_desc svn_wc_status_normal = Ok ''normal''"
| "generate_status_desc svn_wc_status_added = Ok ''added''"
| "generate_status_desc svn_wc_status_missing = Ok ''missing''"
| "generate_status_desc svn_wc_status_incomplete = Ok ''incomplete''"
| "generate_status_desc svn_wc_status_deleted = Ok ''deleted''"
| "generate_status_desc svn_wc_status_replaced = Ok ''replaced''"
| "generate_status_desc svn_wc_status_modified = Ok ''modified''"
| "generate_status_desc svn_wc_status_conflicted = Ok ''conflicted''"
| "generate_status_desc svn_wc_status_obstructed = Ok ''obstructed''"
| "generate_status_desc svn_wc_status_ignored = Ok ''ignored''"
| "generate_status_desc svn_wc_status_external = Ok ''external''"
| "generate_status_desc svn_wc_status_unversioned = Ok ''unversioned''"
| "generate_status_desc svn_wc_status_merged = Abort"

section \<open>Relative paths\<close>

text \<open>The loop that counts the elements of \<open>t_relpath\<close>. A relative path has at most as many of them as
  bytes, so the length of the path is enough fuel; for a path the loop never makes empty the call
  does not return.\<close>

fun parent_dirs :: "nat \<Rightarrow> cstring \<Rightarrow> cstring \<Rightarrow> cstring cres" where
  "parent_dirs fuel t_relpath parent_dir_els =
     (if c_hd t_relpath = NUL then Ok parent_dir_els
      else
        (case fuel of
           0 \<Rightarrow> Diverge
         | Suc n \<Rightarrow>
             cbind (svn_dirent_dirname t_relpath) (\<lambda>t_relpath.
               cbind (svn_dirent_join parent_dir_els ''..'') (\<lambda>parent_dir_els.
                 parent_dirs n t_relpath parent_dir_els))))"

declare parent_dirs.simps [simp del]

text \<open>A null pointer that is read is an \<open>Overrun\<close>.\<close>

definition make_relpath :: "cstring \<Rightarrow> cstring \<Rightarrow> cstring \<Rightarrow> cstring cres" where
  "make_relpath target_abspath target_path abspath =
     (case svn_dirent_skip_ancestor target_abspath abspath of
        Some t_relpath \<Rightarrow> svn_dirent_join target_path t_relpath
      | None \<Rightarrow>
          let la = svn_dirent_get_longest_ancestor target_abspath abspath in
          if c_hd la = NUL then Ok abspath
          else
            (case (svn_dirent_skip_ancestor la target_abspath, svn_dirent_skip_ancestor la abspath) of
               (Some t_relpath, Some p_relpath) \<Rightarrow>
                 cbind (parent_dirs (length t_relpath) t_relpath []) (\<lambda>parent_dir_els.
                   svn_dirent_join parent_dir_els p_relpath)
             | _ \<Rightarrow> Overrun))"

section \<open>Text\<close>

definition conflict_flags :: "client \<Rightarrow> svn_client_status_t \<Rightarrow> (bool \<times> bool \<times> bool) cres" where
  "conflict_flags E status =
     (if versioned status then
        (case wc_conflicted E (local_abspath status) of
           Err (svn_error SVN_ERR_WC_UPGRADE_REQUIRED msg child) \<Rightarrow> Ok (False, False, False)
         | r \<Rightarrow> r)
      else Ok (False, False, True))"

text \<open>The block for a conflicted item: \<open>tree_status_code\<close> and \<open>tree_desc_line\<close>, and the counters.\<close>

definition conflict_column :: "client \<Rightarrow> svn_client_status_t \<Rightarrow> stats \<Rightarrow> (char \<times> string) cres \<times> stats" where
  "conflict_column E status =
     (if conflicted status then
        sthen (pure (conflict_flags E status)) (\<lambda>(text_conflicted, prop_conflicted, tree_conflicted).
          if tree_conflicted then
            sthen (pure (conflict_get E (local_abspath status))) (\<lambda>tree_conflict.
              sthen (pure (conflict_description E tree_conflict)) (\<lambda>desc s.
                (Ok (CHR ''C'', newline # ''      >   '' @ desc), s\<lparr>tree_conflicts := tree_conflicts s + 1\<rparr>)))
          else if text_conflicted then
            (\<lambda>s. (Ok (CHR '' '', []), s\<lparr>text_conflicts := text_conflicts s + 1\<rparr>))
          else if prop_conflicted then
            (\<lambda>s. (Ok (CHR '' '', []), s\<lparr>prop_conflicts := prop_conflicts s + 1\<rparr>))
          else pure (Ok (CHR '' '', [])))
      else pure (Ok (CHR '' '', [])))"

definition moved_line :: "cstring \<Rightarrow> cstring \<Rightarrow> string \<Rightarrow> cstring \<Rightarrow> string cres" where
  "moved_line target_abspath target_path what abspath =
     cbind (make_relpath target_abspath target_path abspath) (\<lambda>relpath.
       Ok (newline # ''        > '' @ what @ svn_dirent_local_style relpath))"

definition moved_lines :: "cstring \<Rightarrow> cstring \<Rightarrow> svn_client_status_t \<Rightarrow> (string \<times> string) cres" where
  "moved_lines target_abspath target_path status =
     (case (moved_from_abspath status, moved_to_abspath status) of
        (Some moved_from, Some moved_to) \<Rightarrow>
          if moved_from = moved_to then
            cbind (moved_line target_abspath target_path ''swapped places with '' moved_from) (\<lambda>l. Ok (l, []))
          else
            cbind (moved_line target_abspath target_path ''moved from '' moved_from) (\<lambda>l.
              cbind (moved_line target_abspath target_path ''moved to '' moved_to) (\<lambda>m. Ok (l, m)))
      | (Some moved_from, None) \<Rightarrow>
          cbind (moved_line target_abspath target_path ''moved from '' moved_from) (\<lambda>l. Ok (l, []))
      | (None, Some moved_to) \<Rightarrow>
          cbind (moved_line target_abspath target_path ''moved to '' moved_to) (\<lambda>m. Ok ([], m))
      | (None, None) \<Rightarrow> Ok ([], []))"

text \<open>\<^verbatim>\<open>%8s\<close> and \<^verbatim>\<open>%-12s\<close>\<close>

definition pad_left :: "nat \<Rightarrow> string \<Rightarrow> string" where
  "pad_left n s = replicate (n - length s) (CHR '' '') @ s"

definition pad_right :: "nat \<Rightarrow> string \<Rightarrow> string" where
  "pad_right n s = s @ replicate (n - length s) (CHR '' '')"

definition working_revision :: "svn_client_status_t \<Rightarrow> string" where
  "working_revision status =
     (if \<not> versioned status then []
      else if copied status \<or> \<not> SVN_IS_VALID_REVNUM (revision status) then ''-''
      else decimal (revision status))"

definition lock_status :: "bool \<Rightarrow> svn_client_status_t \<Rightarrow> char" where
  "lock_status repos_locks status =
     (if repos_locks then
        (case (repos_lock status, wc_lock status) of
           (Some rl, Some l) \<Rightarrow> if token rl = token l then CHR ''K'' else CHR ''T''
         | (Some rl, None) \<Rightarrow> CHR ''O''
         | (None, Some l) \<Rightarrow> CHR ''B''
         | (None, None) \<Rightarrow> CHR '' '')
      else if wc_lock status \<noteq> None then CHR ''K'' else CHR '' '')"

text \<open>The seven columns every format starts with.\<close>

definition status_columns :: "svn_client_status_t \<Rightarrow> char \<Rightarrow> char \<Rightarrow> string" where
  "status_columns status lock_code tree_status_code =
     (let shown_props =
        (if node_status status = svn_wc_status_added then svn_wc_status_none else prop_status status) in
      [generate_status_code (combined_status status), generate_status_code shown_props,
       if wc_is_locked status then CHR ''L'' else CHR '' '',
       if copied status then CHR ''+'' else CHR '' '',
       generate_switch_column_code status, lock_code, tree_status_code])"

definition last_committed :: "svn_client_status_t \<Rightarrow> string" where
  "last_committed status =
     (let commit_rev =
            (if SVN_IS_VALID_REVNUM (changed_rev status) then decimal (changed_rev status)
             else if versioned status then '' ? '' else []);
          commit_author =
            (case changed_author status of
               Some author \<Rightarrow> author
             | None \<Rightarrow> if versioned status then '' ? '' else [])
      in '' '' @ pad_left 8 commit_rev @ '' '' @ pad_right 12 commit_author @ '' '')"

definition status_line ::
  "bool \<Rightarrow> bool \<Rightarrow> bool \<Rightarrow> svn_client_status_t \<Rightarrow> cstring \<Rightarrow> char \<Rightarrow> string \<Rightarrow> string" where
  "status_line detailed show_last_committed repos_locks status path tree_status_code extra_lines =
     (if detailed then
        status_columns status (lock_status repos_locks status) tree_status_code @ '' '' @
        [if repos_node_status status \<noteq> svn_wc_status_none then CHR ''*'' else CHR '' ''] @ '' '' @
        pad_left 8 (working_revision status) @
        (if show_last_committed then last_committed status else ''   '') @ path @ extra_lines @ [newline]
      else
        status_columns status (if wc_lock status \<noteq> None then CHR ''K'' else CHR '' '') tree_status_code @
        '' '' @ path @ extra_lines @ [newline])"

definition print_status ::
  "client \<Rightarrow> cstring \<Rightarrow> cstring \<Rightarrow> cstring \<Rightarrow> bool \<Rightarrow> bool \<Rightarrow> bool \<Rightarrow> svn_client_status_t \<Rightarrow>
   stats \<Rightarrow> unit cres \<times> stats" where
  "print_status E target_abspath target_path path detailed show_last_committed repos_locks status =
     sthen (conflict_column E status) (\<lambda>(tree_status_code, tree_desc_line).
       sthen (pure (moved_lines target_abspath target_path status)) (\<lambda>(moved_from_line, moved_to_line).
         sthen (svn_cmdline_printf E
                  (status_line detailed show_last_committed repos_locks status (svn_dirent_local_style path)
                     tree_status_code (moved_to_line @ moved_from_line @ tree_desc_line)))
           (\<lambda>_. pure (cmdline_fflush E))))"

definition skipped_status :: "bool \<Rightarrow> svn_client_status_t \<Rightarrow> bool" where
  "skipped_status skip_unrecognized status \<longleftrightarrow>
     skip_unrecognized \<and>
       \<not> (versioned status \<or> conflicted status \<or> node_status status = svn_wc_status_external) \<or>
     node_status status = svn_wc_status_none \<and> repos_node_status status = svn_wc_status_none"

definition externals_placeholder :: "svn_client_status_t \<Rightarrow> bool" where
  "externals_placeholder status \<longleftrightarrow>
     node_status status = svn_wc_status_external \<and> repos_node_status status = svn_wc_status_none \<and>
       \<not> conflicted status \<or>
     file_external status \<and> repos_node_status status = svn_wc_status_none \<and>
       (node_status status = svn_wc_status_normal \<or> node_status status = svn_wc_status_none) \<and>
       (prop_status status = svn_wc_status_normal \<or> prop_status status = svn_wc_status_none) \<and>
       changelist status = None \<and> wc_lock status = None \<and> \<not> wc_is_locked status \<and> \<not> conflicted status"

definition svn_cl__print_status ::
  "client \<Rightarrow> cstring \<Rightarrow> cstring \<Rightarrow> cstring \<Rightarrow> svn_client_status_t option \<Rightarrow> bool \<Rightarrow> bool \<Rightarrow> bool \<Rightarrow> bool \<Rightarrow>
   bool \<Rightarrow> stats \<Rightarrow> unit cres \<times> stats" where
  "svn_cl__print_status E target_abspath target_path path status suppress_externals_placeholders detailed
     show_last_committed skip_unrecognized repos_locks =
     (case status of
        None \<Rightarrow> pure (Ok ())
      | Some status \<Rightarrow>
          if skipped_status skip_unrecognized status then pure (Ok ())
          else if suppress_externals_placeholders \<and> externals_placeholder status then pure (Ok ())
          else
            print_status E target_abspath target_path path detailed show_last_committed repos_locks status)"

section \<open>XML\<close>

text \<open>The attributes of the element \<^verbatim>\<open>wc-status\<close>, in the order they are set.\<close>

definition set_if :: "bool \<Rightarrow> cstring \<Rightarrow> cstring \<Rightarrow> att_hash \<Rightarrow> att_hash" where
  "set_if b key val ht = (if b then hash_set ht key (Some val) else ht)"

definition set_moved :: "cstring \<Rightarrow> cstring \<Rightarrow> cstring \<Rightarrow> cstring option \<Rightarrow> att_hash \<Rightarrow> att_hash cres" where
  "set_moved target_abspath target_path key abspath ht =
     (case abspath of
        None \<Rightarrow> Ok ht
      | Some abspath \<Rightarrow>
          cbind (make_relpath target_abspath target_path abspath) (\<lambda>relpath.
            Ok (hash_set ht key (Some (svn_dirent_local_style relpath)))))"

definition wc_status_attributes ::
  "cstring \<Rightarrow> cstring \<Rightarrow> svn_client_status_t \<Rightarrow> bool \<Rightarrow> att_hash cres" where
  "wc_status_attributes target_abspath target_path status tree_conflicted =
     cbind (generate_status_desc (combined_status status)) (\<lambda>item.
       cbind (generate_status_desc
                (if node_status status \<noteq> svn_wc_status_deleted then prop_status status else svn_wc_status_none))
         (\<lambda>props.
            let ht = hash_set (hash_set [] ''item'' (Some item)) ''props'' (Some props);
                ht = set_if (wc_is_locked status) ''wc-locked'' ''true'' ht;
                ht = set_if (copied status) ''copied'' ''true'' ht;
                ht = set_if (switched status) ''switched'' ''true'' ht;
                ht = set_if (file_external status) ''file-external'' ''true'' ht;
                ht = set_if (versioned status \<and> \<not> copied status) ''revision'' (decimal (revision status)) ht;
                ht = set_if tree_conflicted ''tree-conflicted'' ''true'' ht
            in cbind (set_moved target_abspath target_path ''moved-from'' (moved_from_abspath status) ht) (\<lambda>ht.
                 set_moved target_abspath target_path ''moved-to'' (moved_to_abspath status) ht)))"

definition repos_status_element :: "client \<Rightarrow> svn_client_status_t \<Rightarrow> string \<Rightarrow> string cres" where
  "repos_status_element E status sb =
     (let order = hash_iteration E in
      if repos_node_status status \<noteq> svn_wc_status_none \<or> repos_lock status \<noteq> None then
        cbind (generate_status_desc (combined_repos_status status)) (\<lambda>item.
          cbind (generate_status_desc (repos_prop_status status)) (\<lambda>props.
            let sb = svn_xml_make_open_tag order sb svn_xml_normal ''repos-status''
                       [(''item'', Some item), (''props'', Some props)];
                sb = (case repos_lock status of
                        None \<Rightarrow> sb
                      | Some l \<Rightarrow> svn_cl__print_xml_lock order (time_to_cstring E) sb l)
            in Ok (svn_xml_make_close_tag sb ''repos-status'')))
      else Ok sb)"

definition status_element ::
  "client \<Rightarrow> cstring \<Rightarrow> cstring \<Rightarrow> cstring \<Rightarrow> svn_client_status_t \<Rightarrow> bool \<Rightarrow> string cres" where
  "status_element E target_abspath target_path path status tree_conflicted =
     (let order = hash_iteration E;
          sb = svn_xml_make_open_tag order [] svn_xml_normal ''entry'' [(''path'', Some (svn_dirent_local_style path))] in
      cbind (wc_status_attributes target_abspath target_path status tree_conflicted) (\<lambda>att_hash.
        let sb = svn_xml_make_open_tag_hash order sb svn_xml_normal ''wc-status'' att_hash;
            sb = (if SVN_IS_VALID_REVNUM (changed_rev status)
                  then svn_cl__print_xml_commit order sb (changed_rev status) (changed_author status)
                         (Some (time_to_cstring E (changed_date status)))
                  else sb);
            sb = (case wc_lock status of
                    None \<Rightarrow> sb
                  | Some l \<Rightarrow> svn_cl__print_xml_lock order (time_to_cstring E) sb l);
            sb = svn_xml_make_close_tag sb ''wc-status''
        in cbind (repos_status_element E status sb) (\<lambda>sb. Ok (svn_xml_make_close_tag sb ''entry''))))"

definition svn_cl__print_status_xml ::
  "client \<Rightarrow> cstring \<Rightarrow> cstring \<Rightarrow> cstring \<Rightarrow> svn_client_status_t \<Rightarrow> stats \<Rightarrow> unit cres \<times> stats" where
  "svn_cl__print_status_xml E target_abspath target_path path status =
     (if node_status status = svn_wc_status_none \<and> repos_node_status status = svn_wc_status_none then pure (Ok ())
      else
        sthen (pure (if conflicted status
                     then cbind (wc_conflicted E (local_abspath status)) (\<lambda>(t, p, tree_conflicted). Ok tree_conflicted)
                     else Ok False))
          (\<lambda>tree_conflicted.
             sthen (pure (status_element E target_abspath target_path path status tree_conflicted))
               (svn_cl__error_checked_fputs E)))"

section \<open>Actions\<close>

lemma sthen_pure [simp]: "sthen (pure r) f s = (case r of Ok x \<Rightarrow> f x s | _ \<Rightarrow> (cbind r (\<lambda>_. Abort), s))"
  by (cases r) (simp_all add: sthen_def pure_def)

lemma sthen_Ok: "m s = (Ok x, s') \<Longrightarrow> sthen m f s = f x s'"
  by (simp add: sthen_def)

lemma pure_apply [simp]: "pure r s = (r, s)"
  by (simp add: pure_def)

section \<open>Relative paths lead to their item\<close>

text \<open>Walking from a directory along the segments of a path, \<^verbatim>\<open>..\<close> going up.\<close>

fun walk :: "string list \<Rightarrow> string list \<Rightarrow> string list" where
  "walk dir [] = dir"
| "walk dir (seg # segs) = (if seg = ''..'' then walk (butlast dir) segs else walk (dir @ [seg]) segs)"

lemma walk_append: "walk dir (us @ vs) = walk (walk dir us) vs"
  by (induction us arbitrary: dir) simp_all

lemma walk_down: "''..'' \<notin> set segs \<Longrightarrow> walk dir segs = dir @ segs"
  by (induction segs arbitrary: dir) auto

lemma walk_up: "length us = n \<Longrightarrow> walk (dir @ us) (replicate n ''..'') = dir"
proof (induction n arbitrary: us)
  case (Suc n)
  have "walk (dir @ us) (replicate (Suc n) ''..'') = walk (dir @ butlast us) (replicate n ''..'')"
    using Suc.prems by (cases us rule: rev_cases) (simp_all add: butlast_append)
  then show ?case using Suc.IH [of "butlast us"] Suc.prems by simp
qed simp

lemma good_dots [simp]: "good_segs (replicate n ''..'')"
  by (simp add: good_segs_def good_seg_def)

lemma J_length: "good_segs us \<Longrightarrow> length us \<le> length (J us)"
proof (induction us)
  case (Cons u us)
  then have "u \<noteq> []" by (simp add: good_seg_def)
  then show ?case using Cons by (cases "us = []"; cases u) (auto simp: join_with_Cons)
qed simp

lemma parent_dirs_J:
  assumes "good_segs us" "length us \<le> fuel"
  shows "parent_dirs fuel (J us) (J (replicate k ''..'')) = Ok (J (replicate (length us + k) ''..''))"
  using assms
proof (induction fuel arbitrary: us k)
  case 0
  then show ?case by (simp add: parent_dirs.simps)
next
  case (Suc fuel)
  show ?case
  proof (cases us rule: rev_cases)
    case Nil
    then show ?thesis by (simp add: parent_dirs.simps)
  next
    case (snoc vs v)
    have "c_hd (J us) \<noteq> NUL" using c_at_J [OF Suc.prems(1), of 0] J_len [OF Suc.prems(1)] snoc by (simp add: c_hd_at)
    moreover have "svn_dirent_dirname (J us) = Ok (J vs)"
      using dirent_dirname_render [OF Suc.prems(1), of False] snoc by simp
    moreover have "svn_dirent_join (J (replicate k ''..'')) ''..'' = Ok (J (replicate (Suc k) ''..''))"
      using dirent_join_render [of "replicate k ''..''" "[''..'']" False]
      by (simp add: good_segs_def good_seg_def replicate_append_same)
    ultimately show ?thesis
      using Suc.IH [of vs "Suc k"] Suc.prems snoc by (subst parent_dirs.simps) simp
  qed
qed

lemma make_relpath_above:
  assumes "good_segs (zs @ us)" "good_segs (zs @ vs)" "lcp us vs = []" "us \<noteq> []"
  shows "make_relpath (render (True, zs @ us)) target_path (render (True, zs @ vs)) =
    Ok (J (replicate (length us) ''..'' @ vs))"
proof -
  have lcp: "lcp (zs @ us) (zs @ vs) = zs" using assms(3) by simp
  have la: "svn_dirent_get_longest_ancestor (render (True, zs @ us)) (render (True, zs @ vs)) = render (True, zs)"
    using dirent_ancestor_render [OF assms(1,2), of True True] lcp by simp
  have "\<not> prefix us vs" using assms(3,4) by (metis lcp_absorb)
  then have none: "svn_dirent_skip_ancestor (render (True, zs @ us)) (render (True, zs @ vs)) = None"
    using dirent_skip_render [OF assms(1,2), of True True] by simp
  have good: "good_segs zs" "good_segs us" "good_segs vs" using assms by simp_all
  have skip: "svn_dirent_skip_ancestor (render (True, zs)) (render (True, zs @ ws)) = Some (J ws)" if "good_segs ws" for ws
    using dirent_skip_render [of zs "zs @ ws" True True] good that by simp
  have "parent_dirs (length (J us)) (J us) [] = Ok (J (replicate (length us) ''..''))"
    using parent_dirs_J [OF good(2), of "length (J us)" 0] J_length [OF good(2)] by simp
  moreover have "svn_dirent_join (J (replicate (length us) ''..'')) (J vs) = Ok (J (replicate (length us) ''..'' @ vs))"
    using dirent_join_render [of "replicate (length us) ''..''" vs False] good by simp
  ultimately show ?thesis
    using none la skip [OF good(2)] skip [OF good(3)] by (simp add: make_relpath_def)
qed

lemma common_split:
  obtains zs us vs where "xs = zs @ us" "ys = zs @ vs" "lcp us vs = []"
proof -
  obtain us vs where "xs = lcp xs ys @ us" "ys = lcp xs ys @ vs" "us = [] \<or> vs = [] \<or> hd us \<noteq> hd vs"
    by (rule lcp_split)
  moreover from this(3) have "lcp us vs = []" by (cases us; cases vs) auto
  ultimately show ?thesis using that by blast
qed

text \<open>C21. The path printed for the other end of a move leads from the status target to it: below the
  target it is the target joined with the relative path, elsewhere it climbs to the common ancestor
  and descends. The loop that counts the directories to climb always ends.\<close>

theorem make_relpath_leads:
  assumes "absolute target_abspath" "absolute abspath" "''..'' \<notin> set (segments abspath)"
    and "svn_dirent_is_canonical target_path" "is_cstring target_path"
  shows "\<exists>r. make_relpath target_abspath target_path abspath = Ok r \<and>
    (case svn_dirent_skip_ancestor target_abspath abspath of
       Some rel \<Rightarrow> svn_dirent_join target_path rel = Ok r
     | None \<Rightarrow> walk (segments target_abspath) (segments r) = segments abspath)"
proof -
  obtain xs where xs: "good_segs xs" "target_abspath = render (True, xs)" "segments target_abspath = xs"
    using assms(1) by (rule absoluteE)
  obtain ys where ys: "good_segs ys" "abspath = render (True, ys)" "segments abspath = ys"
    using assms(2) by (rule absoluteE)
  show ?thesis
  proof (cases "prefix xs ys")
    case True
    then obtain vs where vs: "ys = xs @ vs" by (auto simp: prefix_def)
    have skip: "svn_dirent_skip_ancestor target_abspath abspath = Some (J vs)"
      using dirent_skip_render [OF xs(1) ys(1), of True True] xs(2) ys(2) vs by simp
    obtain r ts where tp: "target_path = render (r, ts)" "good_segs ts"
      using dirent_canon_iff [OF assms(5)] assms(4) by blast
    have "svn_dirent_join target_path (J vs) = Ok (render (r, ts @ vs))"
      using dirent_join_render [OF tp(2), of vs r] ys(1) vs tp(1) by simp
    then show ?thesis using skip by (simp add: make_relpath_def)
  next
    case False
    obtain zs us vs where split: "xs = zs @ us" "ys = zs @ vs" and l: "lcp us vs = []"
      by (rule common_split)
    have u: "us \<noteq> []" using False split by auto
    have make: "make_relpath target_abspath target_path abspath = Ok (J (replicate (length us) ''..'' @ vs))"
      using make_relpath_above [of zs us vs] l u xs ys split by simp
    have "segments (J (replicate (length us) ''..'' @ vs)) = replicate (length us) ''..'' @ vs"
      using ys split by (intro segments_join) simp
    moreover have "walk xs (replicate (length us) ''..'' @ vs) = ys"
      using walk_up [of us "length us" zs] walk_down [of vs zs] assms(3) ys(3) split by (simp add: walk_append)
    moreover have "svn_dirent_skip_ancestor target_abspath abspath = None"
      using dirent_skip_render [OF xs(1) ys(1), of True True] xs(2) ys(2) False by simp
    ultimately show ?thesis using make xs(3) ys(3) by simp
  qed
qed

theorem make_relpath_leads_witness:
  "\<exists>r. make_relpath ''/a/b/c'' [] ''/a/x/y'' = Ok r \<and> walk [''a'', ''b'', ''c''] (segments r) = [''a'', ''x'', ''y'']"
proof -
  have "absolute ''/a/b/c''" "absolute ''/a/x/y''"
    by (simp_all add: absolute_def segments_def kept_def good_segs_def good_seg_def is_cstring_def)
  moreover have "svn_dirent_skip_ancestor ''/a/b/c'' ''/a/x/y'' = None" by code_simp
  ultimately show ?thesis
    using make_relpath_leads [of "''/a/b/c''" "''/a/x/y''" "[]"] by (simp add: segments_def kept_def)
qed

end
