(* ===== verification/Status_Cmd.thy ===== *)
theory Status_Cmd
  imports Status_Print
begin

text \<open>
  \<^verbatim>\<open>svn/status-cmd.c\<close>: the command \<^verbatim>\<open>svn status\<close>, with the functions of \<^verbatim>\<open>svn/util.c\<close> and
  \<^verbatim>\<open>libsvn_subr/opt.c\<close> it uses for its targets, and the command \<^verbatim>\<open>svn add\<close> of \<^verbatim>\<open>svn/add-cmd.c\<close>.

  The record \<open>session\<close> has the libraries that printing uses and the libraries the commands drive:
  \<^verbatim>\<open>svn_client_status6\<close> is the sequence of callbacks it makes and the result it has when every
  callback succeeded; a callback's error ends it.
\<close>

section \<open>Targets\<close>

definition svn_opt_push_implicit_dot_target :: "cstring list \<Rightarrow> cstring list cres" where
  "svn_opt_push_implicit_dot_target targets =
     (let targets = (if length targets = 0 then targets @ [[]] else targets) in
      asserting (length targets \<noteq> 0) (Ok targets))"

text \<open>The loop that looks for the peg revision from the end of the target: its offset.\<close>

fun peg_start :: "cstring \<Rightarrow> nat \<Rightarrow> nat option" where
  "peg_start target 0 = None"
| "peg_start target (Suc ptr) =
     (if c_at target ptr = slash then None
      else if c_at target ptr = CHR ''@'' then Some ptr
      else peg_start target ptr)"

definition svn_opt__split_arg_at_peg_revision :: "cstring \<Rightarrow> (cstring \<times> cstring) cres" where
  "svn_opt__split_arg_at_peg_revision utf8_target =
     (case peg_start utf8_target (length utf8_target) of
        Some ptr \<Rightarrow> Ok (take ptr utf8_target, drop ptr utf8_target)
      | None \<Rightarrow> Ok (utf8_target, []))"

definition svn_cl__eat_peg_revisions :: "cstring list \<Rightarrow> cstring list cres" where
  "svn_cl__eat_peg_revisions targets =
     map_res (\<lambda>target.
       cbind (svn_opt__split_arg_at_peg_revision target) (\<lambda>(true_target, peg).
         if c_at peg 0 \<noteq> NUL \<and> c_at peg 1 \<noteq> NUL
         then Err (svn_error_create SVN_ERR_ILLEGAL_TARGET
                (CHR 0x27 # target @ CHR 0x27 # '': a peg revision is not allowed here''))
         else Ok true_target)) targets"

definition svn_cl__check_target_is_local_path :: "cstring \<Rightarrow> unit cres" where
  "svn_cl__check_target_is_local_path target =
     (if svn_path_is_url target
      then Err (svn_error_create SVN_ERR_CL_ARG_PARSING_ERROR (CHR 0x27 # target @ CHR 0x27 # '' is not a local path''))
      else Ok ())"

definition svn_cl__check_targets_are_local_paths :: "cstring list \<Rightarrow> unit cres" where
  "svn_cl__check_targets_are_local_paths targets =
     cbind (map_res svn_cl__check_target_is_local_path targets) (\<lambda>_. Ok ())"

section \<open>The session\<close>

text \<open>A revision with the value its kind has, and the options of the command line the commands read
  themselves; the other ones only pass through to the libraries.\<close>

datatype svn_opt_revision =
    svn_opt_revision_unspecified
  | svn_opt_revision_number svn_revnum_t
  | svn_opt_revision_date int
  | svn_opt_revision_committed
  | svn_opt_revision_previous
  | svn_opt_revision_base
  | svn_opt_revision_working
  | svn_opt_revision_head

record opt_state =
  opt_start_revision :: svn_opt_revision
  opt_update :: bool
  opt_verbose :: bool
  opt_quiet :: bool
  opt_xml :: bool
  opt_incremental :: bool

text \<open>\<open>args_to_targets\<close> is \<^verbatim>\<open>svn_client_args_to_target_array2\<close>: its targets and its error, if it has
  one; \<open>node_get_pre_ng\<close> is \<^verbatim>\<open>svn_wc__node_get_pre_ng_status_data\<close>.\<close>

record session =
  library :: client
  platform_apr :: apr
  args_to_targets :: "cstring list \<times> svn_err option"
  check_cancel :: "unit cres"
  node_get_pre_ng :: "cstring \<Rightarrow> (svn_revnum_t \<times> svn_revnum_t \<times> int \<times> cstring option) cres"
  client_status6 :: "opt_state \<Rightarrow> svn_opt_revision \<Rightarrow> cstring \<Rightarrow>
                     (cstring \<times> svn_client_status_t) list \<times> svn_revnum_t cres"
  client_add5 :: "cstring \<Rightarrow> unit cres"

section \<open>The status callback\<close>

record status_cache =
  cache_path :: cstring
  cache_target_abspath :: cstring
  cache_target_path :: cstring
  cache_status :: svn_client_status_t

record status_baton =
  report :: stats
  target_abspath :: cstring
  target_path :: cstring
  suppress_externals_placeholders :: bool
  detailed :: bool
  show_last_committed :: bool
  skip_unrecognized :: bool
  repos_locks :: bool
  cached_changelists :: "(cstring \<times> status_cache list) list"
  had_print_error :: bool
  xml_mode :: bool

text \<open>A function that writes through the pointers into the baton, and to the standard output.\<close>

definition in_baton :: "(stats \<Rightarrow> 'a cres \<times> stats) \<Rightarrow> status_baton \<Rightarrow> 'a cres \<times> status_baton" where
  "in_baton f sb = (case f (report sb) of (r, s) \<Rightarrow> (r, sb\<lparr>report := s\<rparr>))"

definition print_conflict_stats :: "client \<Rightarrow> stats \<Rightarrow> unit cres \<times> stats" where
  "print_conflict_stats E s =
     (let line = (\<lambda>what n. if n > (0 :: 32 word)
                    then svn_cmdline_printf E (what @ decimal (uint n) @ [newline]) else pure (Ok ()));
          t = text_conflicts s; p = prop_conflicts s; tr = tree_conflicts s in
      sthen (if t > 0 \<or> p > 0 \<or> tr > 0
             then svn_cmdline_printf E (''Summary of conflicts:'' @ [newline]) else pure (Ok ())) (\<lambda>_.
        sthen (line ''  Text conflicts: '' t) (\<lambda>_.
          sthen (line ''  Property conflicts: '' p) (\<lambda>_.
            line ''  Tree conflicts: '' tr))) s)"

definition print_start_target_xml :: "client \<Rightarrow> cstring \<Rightarrow> stats \<Rightarrow> unit cres \<times> stats" where
  "print_start_target_xml E target =
     svn_cl__error_checked_fputs E
       (svn_xml_make_open_tag (hash_iteration E) [] svn_xml_normal ''target'' [(''path'', Some target)])"

definition print_finish_target_xml :: "client \<Rightarrow> svn_revnum_t \<Rightarrow> stats \<Rightarrow> unit cres \<times> stats" where
  "print_finish_target_xml E repos_rev =
     (let sb = (if SVN_IS_VALID_REVNUM repos_rev
                then svn_xml_make_open_tag (hash_iteration E) [] svn_xml_self_closing ''against''
                       [(''revision'', Some (decimal repos_rev))]
                else [])
      in svn_cl__error_checked_fputs E (svn_xml_make_close_tag sb ''target''))"

definition svn_cl__xml_print_header :: "client \<Rightarrow> cstring \<Rightarrow> stats \<Rightarrow> unit cres \<times> stats" where
  "svn_cl__xml_print_header E tagname =
     svn_cl__error_checked_fputs E
       (svn_xml_make_open_tag (hash_iteration E) (svn_xml_make_header2 [] (Some ''UTF-8'')) svn_xml_normal tagname [])"

definition svn_cl__xml_print_footer :: "client \<Rightarrow> cstring \<Rightarrow> stats \<Rightarrow> unit cres \<times> stats" where
  "svn_cl__xml_print_footer E tagname = svn_cl__error_checked_fputs E (svn_xml_make_close_tag [] tagname)"

definition print_status_normal_or_xml ::
  "client \<Rightarrow> cstring \<Rightarrow> svn_client_status_t \<Rightarrow> status_baton \<Rightarrow> unit cres \<times> status_baton" where
  "print_status_normal_or_xml E path status sb =
     in_baton
       (if xml_mode sb then svn_cl__print_status_xml E (target_abspath sb) (target_path sb) path status
        else svn_cl__print_status E (target_abspath sb) (target_path sb) path (Some status)
               (suppress_externals_placeholders sb) (detailed sb) (show_last_committed sb)
               (skip_unrecognized sb) (repos_locks sb)) sb"

text \<open>The data of the node below a replacement or a deletion.\<close>

definition tweaked_status :: "session \<Rightarrow> svn_client_status_t \<Rightarrow> svn_client_status_t cres" where
  "tweaked_status S status =
     (if versioned status \<and> \<not> SVN_IS_VALID_REVNUM (revision status) \<and> \<not> copied status then
        (case node_status status of
           svn_wc_status_replaced \<Rightarrow>
             cbind (node_get_pre_ng S (local_abspath status)) (\<lambda>(rev, crev, date, author).
               Ok (status\<lparr>revision := rev\<rparr>))
         | svn_wc_status_deleted \<Rightarrow>
             cbind (node_get_pre_ng S (local_abspath status)) (\<lambda>(rev, crev, date, author).
               Ok (status\<lparr>revision := rev, changed_rev := crev, changed_date := date, changed_author := author\<rparr>))
         | _ \<Rightarrow> Ok status)
      else Ok status)"

text \<open>Appending to the array of a changelist, which is made when it is not there.\<close>

definition cache_push ::
  "(cstring \<times> status_cache list) list \<Rightarrow> cstring \<Rightarrow> status_cache \<Rightarrow> (cstring \<times> status_cache list) list" where
  "cache_push cls cl_key scache =
     (case map_of cls cl_key of
        None \<Rightarrow> cls @ [(cl_key, [scache])]
      | Some path_array \<Rightarrow> map (\<lambda>(k, a). (k, if k = cl_key then a @ [scache] else a)) cls)"

definition print_status_func ::
  "session \<Rightarrow> cstring \<Rightarrow> svn_client_status_t \<Rightarrow> status_baton \<Rightarrow> unit cres \<times> status_baton" where
  "print_status_func S path status =
     sthen (pure (tweaked_status S status)) (\<lambda>status.
       case changelist status of
         Some cl \<Rightarrow>
           (\<lambda>sb. (Ok (), sb\<lparr>cached_changelists := cache_push (cached_changelists sb) cl
                     \<lparr>cache_path = path, cache_target_abspath = target_abspath sb,
                      cache_target_path = target_path sb, cache_status = status\<rparr>\<rparr>))
       | None \<Rightarrow> print_status_normal_or_xml (library S) path status)"

section \<open>Running a call with tolerated errors\<close>

text \<open>\<^verbatim>\<open>svn_cl__try\<close>: the codes seen are those compared with before the loop ends, without
  repetition; \<open>None\<close> stands for a null \<^verbatim>\<open>errors_seen\<close>.\<close>

definition svn_cl__try ::
  "unit cres \<Rightarrow> err_code list option \<Rightarrow> bool \<Rightarrow> err_code list \<Rightarrow> stats \<Rightarrow>
   (unit cres \<times> err_code list option) \<times> stats" where
  "svn_cl__try r errors_seen quiet codes s =
     (case r of
        Err err \<Rightarrow>
          let seen = (if codes = [] then errors_seen
                      else map_option (\<lambda>es. if err_code_of err \<in> set es then es else es @ [err_code_of err]) errors_seen) in
          if err_code_of err \<in> set codes
          then ((Ok (), seen), if quiet then s else s\<lparr>stderr := stderr s @ [err]\<rparr>)
          else ((Err err, seen), s)
      | _ \<Rightarrow> ((r, errors_seen), s))"

text \<open>The callbacks of a library call, which end at the first error.\<close>

fun run_callbacks :: "('x \<Rightarrow> 's \<Rightarrow> unit cres \<times> 's) \<Rightarrow> 'x list \<Rightarrow> 's \<Rightarrow> unit cres \<times> 's" where
  "run_callbacks f [] = pure (Ok ())"
| "run_callbacks f (x # xs) = sthen (f x) (\<lambda>_. run_callbacks f xs)"

section \<open>The status command\<close>

definition status_baton_init :: "opt_state \<Rightarrow> stats \<Rightarrow> status_baton" where
  "status_baton_init opt s =
     \<lparr>report = s\<lparr>text_conflicts := 0, prop_conflicts := 0, tree_conflicts := 0\<rparr>,
      target_abspath = [], target_path = [],
      suppress_externals_placeholders = (opt_quiet opt \<and> \<not> opt_verbose opt),
      detailed = (opt_verbose opt \<or> opt_update opt), show_last_committed = opt_verbose opt,
      skip_unrecognized = opt_quiet opt, repos_locks = opt_update opt,
      cached_changelists = [], had_print_error = False, xml_mode = opt_xml opt\<rparr>"

text \<open>The call of \<^verbatim>\<open>svn_client_status6\<close> inside \<^verbatim>\<open>svn_cl__try\<close>; it sets \<^verbatim>\<open>repos_rev\<close>.\<close>

definition status_walk ::
  "session \<Rightarrow> opt_state \<Rightarrow> svn_opt_revision \<Rightarrow> cstring \<Rightarrow> status_baton \<Rightarrow> svn_revnum_t cres \<times> status_baton" where
  "status_walk S opt at_rev target sb =
     (case client_status6 S opt at_rev target of
        (calls, result) \<Rightarrow>
          (case sthen (run_callbacks (\<lambda>(path, status). print_status_func S path status) calls) (\<lambda>_. pure result) sb of
             (r, sb) \<Rightarrow>
               let repos_rev = (case r of Ok n \<Rightarrow> n | _ \<Rightarrow> - 1);
                   ((r', _), s) =
                     svn_cl__try (cbind r (\<lambda>_. Ok ())) None (opt_quiet opt)
                       [SVN_ERR_WC_NOT_WORKING_COPY, SVN_ERR_WC_PATH_NOT_FOUND] (report sb)
               in (cbind r' (\<lambda>_. Ok repos_rev), sb\<lparr>report := s\<rparr>)))"

definition status_target ::
  "session \<Rightarrow> opt_state \<Rightarrow> svn_opt_revision \<Rightarrow> cstring \<Rightarrow> status_baton \<Rightarrow> unit cres \<times> status_baton" where
  "status_target S opt at_rev target =
     sthen (pure (svn_dirent_get_absolute (platform_apr S) target)) (\<lambda>abspath.
       sthen (\<lambda>sb. (Ok (), sb\<lparr>target_abspath := abspath, target_path := target\<rparr>)) (\<lambda>_.
         sthen (pure (check_cancel S)) (\<lambda>_.
           sthen (if opt_xml opt
                  then in_baton (print_start_target_xml (library S) (svn_dirent_local_style target))
                  else pure (Ok ())) (\<lambda>_.
             sthen (status_walk S opt at_rev target) (\<lambda>repos_rev.
               if opt_xml opt then in_baton (print_finish_target_xml (library S) repos_rev)
               else pure (Ok ()))))))"

definition print_cached :: "client \<Rightarrow> status_cache \<Rightarrow> status_baton \<Rightarrow> unit cres \<times> status_baton" where
  "print_cached E scache sb =
     print_status_normal_or_xml E (cache_path scache) (cache_status scache)
       (sb\<lparr>target_abspath := cache_target_abspath scache, target_path := cache_target_path scache\<rparr>)"

definition print_changelist ::
  "session \<Rightarrow> opt_state \<Rightarrow> cstring \<times> status_cache list \<Rightarrow> status_baton \<Rightarrow> unit cres \<times> status_baton" where
  "print_changelist S opt cl =
     (let E = library S; (changelist_name, path_array) = cl in
      sthen (in_baton
               (if opt_xml opt
                then svn_cl__error_checked_fputs E
                       (svn_xml_make_open_tag (hash_iteration E) [] svn_xml_normal ''changelist''
                          [(''name'', Some changelist_name)])
                else svn_cmdline_printf E
                       (newline # ''--- Changelist '' @ CHR 0x27 # changelist_name @ CHR 0x27 # '':'' @ [newline])))
        (\<lambda>_. sthen (run_callbacks (print_cached E) path_array) (\<lambda>_.
           if opt_xml opt
           then in_baton (svn_cl__error_checked_fputs E (svn_xml_make_close_tag [] ''changelist''))
           else pure (Ok ()))))"

text \<open>\<open>cl_order\<close> is the order in which APR iterates over the hash of changelists.\<close>

definition print_changelists ::
  "session \<Rightarrow> opt_state \<Rightarrow> ((cstring \<times> status_cache list) list \<Rightarrow> (cstring \<times> status_cache list) list) \<Rightarrow>
   status_baton \<Rightarrow> unit cres \<times> status_baton" where
  "print_changelists S opt cl_order sb =
     run_callbacks (print_changelist S opt) (cl_order (cached_changelists sb)) sb"

definition status_targets :: "session \<Rightarrow> stats \<Rightarrow> cstring list cres \<times> stats" where
  "status_targets S s =
     (case args_to_targets S of
        (targets, None) \<Rightarrow> (Ok targets, s)
      | (targets, Some err) \<Rightarrow>
          if err_code_of err = SVN_ERR_RESERVED_FILENAME_SPECIFIED
          then (Ok targets, s\<lparr>stderr := stderr s @ [err]\<rparr>)
          else (Err err, s))"

definition status_revision :: "opt_state \<Rightarrow> svn_opt_revision cres" where
  "status_revision opt =
     (if opt_start_revision opt = svn_opt_revision_unspecified then Ok svn_opt_revision_head
      else if \<not> opt_update opt
      then Err (svn_error_create SVN_ERR_CL_ARG_PARSING_ERROR
             ''--revision (-r) option valid only with --show-updates (-u) option'')
      else Ok (opt_start_revision opt))"

definition status_header :: "session \<Rightarrow> opt_state \<Rightarrow> stats \<Rightarrow> unit cres \<times> stats" where
  "status_header S opt =
     (if opt_xml opt then
        if \<not> opt_incremental opt then svn_cl__xml_print_header (library S) ''status'' else pure (Ok ())
      else if opt_incremental opt
      then pure (Err (svn_error_create SVN_ERR_CL_ARG_PARSING_ERROR
             (CHR 0x27 # ''incremental'' @ CHR 0x27 # '' option only valid in XML mode'')))
      else pure (Ok ()))"

definition svn_cl__status ::
  "session \<Rightarrow> opt_state \<Rightarrow> ((cstring \<times> status_cache list) list \<Rightarrow> (cstring \<times> status_cache list) list) \<Rightarrow>
   stats \<Rightarrow> unit cres \<times> stats" where
  "svn_cl__status S opt cl_order =
     sthen (status_targets S) (\<lambda>targets.
       sthen (pure (svn_opt_push_implicit_dot_target targets)) (\<lambda>targets.
         sthen (pure (svn_cl__check_targets_are_local_paths targets)) (\<lambda>_.
           sthen (pure (status_revision opt)) (\<lambda>at_rev.
             sthen (status_header S opt) (\<lambda>_.
               sthen (pure (svn_cl__eat_peg_revisions targets)) (\<lambda>targets s.
                 case sthen (run_callbacks (status_target S opt at_rev) targets) (\<lambda>_.
                        sthen (print_changelists S opt cl_order) (\<lambda>_.
                          sthen (if opt_xml opt \<and> \<not> opt_incremental opt
                                 then in_baton (svn_cl__xml_print_footer (library S) ''status'')
                                 else pure (Ok ())) (\<lambda>_.
                            if \<not> opt_quiet opt \<and> \<not> opt_xml opt
                            then in_baton (print_conflict_stats (library S)) else pure (Ok ()))))
                      (status_baton_init opt s) of
                   (r, sb) \<Rightarrow> (r, report sb)))))))"

section \<open>The add command\<close>

text \<open>Depth, force and the other options only pass through to \<^verbatim>\<open>svn_client_add5\<close>, so they are part of
  \<open>client_add5\<close>. The result of the loop: the error codes seen.\<close>

fun add_targets :: "session \<Rightarrow> bool \<Rightarrow> cstring list \<Rightarrow> err_code list \<Rightarrow> stats \<Rightarrow> err_code list cres \<times> stats" where
  "add_targets S quiet [] errors = pure (Ok errors)"
| "add_targets S quiet (target # targets) errors =
     sthen (pure (check_cancel S)) (\<lambda>_ s.
       case svn_cl__try (client_add5 S target) (Some errors) quiet
              [SVN_ERR_ENTRY_EXISTS, SVN_ERR_WC_PATH_NOT_FOUND] s of
         ((r, seen), s) \<Rightarrow>
           sthen (pure r) (\<lambda>_. add_targets S quiet targets (case seen of Some es \<Rightarrow> es | None \<Rightarrow> errors)) s)"

definition svn_error_quick_wrap :: "svn_err \<Rightarrow> string \<Rightarrow> svn_err" where
  "svn_error_quick_wrap child msg = svn_error (err_code_of child) msg (Some child)"

definition add_error :: "err_code list \<Rightarrow> svn_err" where
  "add_error errors =
     foldl (\<lambda>err status.
         if status = SVN_ERR_WC_PATH_NOT_FOUND
         then svn_error_quick_wrap err (''Could not add all targets because some targets don'' @ CHR 0x27 # ''t exist'')
         else if status = SVN_ERR_ENTRY_EXISTS
         then svn_error_quick_wrap err ''Could not add all targets because some targets are already versioned''
         else err)
       (svn_error_create SVN_ERR_ILLEGAL_TARGET []) errors"

definition svn_cl__add :: "session \<Rightarrow> bool \<Rightarrow> stats \<Rightarrow> unit cres \<times> stats" where
  "svn_cl__add S quiet =
     sthen (status_targets S) (\<lambda>targets.
       if targets = [] then pure (Err (svn_error_create SVN_ERR_CL_INSUFFICIENT_ARGS []))
       else
         sthen (pure (svn_cl__eat_peg_revisions targets)) (\<lambda>targets.
           sthen (pure (svn_cl__check_targets_are_local_paths targets)) (\<lambda>_.
             sthen (add_targets S quiet targets []) (\<lambda>errors.
               pure (if errors \<noteq> [] then Err (add_error errors) else Ok ())))))"

section \<open>Peg revisions\<close>

lemma peg_start_end: "peg_start (p @ ''@'') (length (p @ ''@'')) = Some (length p)"
  by (simp add: c_at_def nth_append)

lemma eat_final_at: "svn_cl__eat_peg_revisions (map (\<lambda>p. p @ ''@'') ps) = Ok ps"
  using peg_start_end
  by (induction ps) (simp_all add: svn_cl__eat_peg_revisions_def svn_opt__split_arg_at_peg_revision_def)

lemma peg_start_skip:
  assumes "slash \<notin> set r" "CHR ''@'' \<notin> set r" "k \<le> length r"
  shows "peg_start (u @ CHR ''@'' # r) (Suc (length u) + k) = Some (length u)"
  using assms(3)
proof (induction k)
  case 0
  then show ?case by (simp add: c_at_append)
next
  case (Suc k)
  have "c_at (u @ CHR ''@'' # r) (Suc (length u) + k) = r ! k"
    using Suc.prems by (simp add: c_at_def nth_append)
  moreover have "r ! k \<in> set r" using Suc.prems by simp
  ultimately have "c_at (u @ CHR ''@'' # r) (Suc (length u) + k) \<noteq> slash"
    "c_at (u @ CHR ''@'' # r) (Suc (length u) + k) \<noteq> CHR ''@''" using assms(1,2) by auto
  then show ?case using Suc by simp
qed

text \<open>A target followed by an at sign is taken literally, whatever it contains; a target with text
  after the last at sign of its last segment is rejected.\<close>

theorem peg_revision_rules:
  assumes "r \<noteq> []" "is_cstring r" "slash \<notin> set r" "CHR ''@'' \<notin> set r"
  shows "svn_cl__eat_peg_revisions (map (\<lambda>p. p @ ''@'') ps) = Ok ps \<and>
    (\<exists>e. svn_cl__eat_peg_revisions [p @ CHR ''@'' # r] = Err e)"
proof -
  have "peg_start (p @ CHR ''@'' # r) (length (p @ CHR ''@'' # r)) = Some (length p)"
    using peg_start_skip [OF assms(3,4), of "length r" p] by simp
  moreover have "c_at (CHR ''@'' # r) 1 \<noteq> NUL" using assms(1,2) by (cases r) auto
  ultimately have "\<exists>e. svn_cl__eat_peg_revisions [p @ CHR ''@'' # r] = Err e"
    by (simp add: svn_cl__eat_peg_revisions_def svn_opt__split_arg_at_peg_revision_def)
  then show ?thesis using eat_final_at by blast
qed

section \<open>Adding\<close>

text \<open>Errors \<^verbatim>\<open>svn_cl__add\<close> only warns about before it goes on with the next target.\<close>

definition tolerated :: "svn_err \<Rightarrow> bool" where
  "tolerated e \<longleftrightarrow> err_code_of e = SVN_ERR_ENTRY_EXISTS \<or> err_code_of e = SVN_ERR_WC_PATH_NOT_FOUND"

lemma add_targets_ok:
  assumes "check_cancel S = Ok ()" "\<forall>t \<in> set targets. client_add5 S t = Ok () \<or> (\<exists>e. client_add5 S t = Err e \<and> tolerated e)"
  shows "\<exists>errors' s'. add_targets S quiet targets errors s = (Ok errors', s') \<and>
    (errors' = [] \<longleftrightarrow> errors = [] \<and> (\<forall>t \<in> set targets. client_add5 S t = Ok ())) \<and>
    stderr s' = stderr s @ (if quiet then [] else concat (map (\<lambda>t. case client_add5 S t of Err e \<Rightarrow> [e] | _ \<Rightarrow> []) targets))"
  using assms(2)
proof (induction targets arbitrary: errors s)
  case (Cons t targets)
  show ?case
  proof (cases "client_add5 S t = Ok ()")
    case True
    then have "add_targets S quiet (t # targets) errors s = add_targets S quiet targets errors s"
      using assms(1) by (simp add: svn_cl__try_def)
    then show ?thesis using Cons.IH [of errors s] Cons.prems True by auto
  next
    case False
    then obtain e where e: "client_add5 S t = Err e" "tolerated e" using Cons.prems by auto
    define es where "es = (if err_code_of e \<in> set errors then errors else errors @ [err_code_of e])"
    define s1 where "s1 = (if quiet then s else s\<lparr>stderr := stderr s @ [e]\<rparr>)"
    have "add_targets S quiet (t # targets) errors s = add_targets S quiet targets es s1"
      using assms(1) e by (auto simp: svn_cl__try_def tolerated_def es_def s1_def)
    moreover have "es \<noteq> []" by (auto simp: es_def)
    ultimately show ?thesis using Cons.IH [of es s1] Cons.prems e by (auto simp: s1_def)
  qed
qed auto


section \<open>A plain status\<close>

text \<open>\<^verbatim>\<open>svn status\<close> without options, on items that have no conflict, were not moved and are in no
  changelist, on a terminal that prints UTF-8 unchanged.\<close>

definition no_options :: opt_state where
  "no_options =
     \<lparr>opt_start_revision = svn_opt_revision_unspecified, opt_update = False, opt_verbose = False,
      opt_quiet = False, opt_xml = False, opt_incremental = False\<rparr>"

definition plain_terminal :: "client \<Rightarrow> bool" where
  "plain_terminal E \<longleftrightarrow> (\<forall>t. cmdline_fputs E t = Ok t) \<and> cmdline_fflush E = Ok ()"

definition plain_item :: "svn_client_status_t \<Rightarrow> bool" where
  "plain_item status \<longleftrightarrow>
     \<not> conflicted status \<and> moved_from_abspath status = None \<and> moved_to_abspath status = None \<and>
     changelist status = None \<and>
     \<not> (node_status status = svn_wc_status_none \<and> repos_node_status status = svn_wc_status_none) \<and>
     \<not> (versioned status \<and> \<not> SVN_IS_VALID_REVNUM (revision status) \<and> \<not> copied status \<and>
        node_status status \<in> {svn_wc_status_deleted, svn_wc_status_replaced})"

definition plain_line :: "cstring \<times> svn_client_status_t \<Rightarrow> string" where
  "plain_line item =
     status_columns (snd item) (if wc_lock (snd item) \<noteq> None then CHR ''K'' else CHR '' '') (CHR '' '') @ '' '' @
     svn_dirent_local_style (fst item)"

lemma status_columns_length [simp]: "length (status_columns status l t) = 7"
  by (simp add: status_columns_def Let_def)

lemma print_plain:
  assumes "plain_terminal E" "plain_item status"
  shows "print_status E T tp path False False False status s =
    (Ok (), s\<lparr>stdout := stdout s @ plain_line (path, status) @ [newline]\<rparr>)"
  using assms
  by (simp add: print_status_def conflict_column_def moved_lines_def plain_item_def plain_terminal_def sthen_def
      svn_cmdline_printf_def writing_def status_line_def plain_line_def)

lemma tweaked_plain: "plain_item status \<Longrightarrow> tweaked_status S status = Ok status"
  by (auto simp: tweaked_status_def plain_item_def split: svn_wc_status_kind.splits)

definition plain_baton :: "status_baton \<Rightarrow> bool" where
  "plain_baton sb \<longleftrightarrow>
     \<not> xml_mode sb \<and> \<not> suppress_externals_placeholders sb \<and> \<not> detailed sb \<and> \<not> show_last_committed sb \<and>
     \<not> skip_unrecognized sb \<and> \<not> repos_locks sb"

lemma callback_plain:
  assumes "plain_terminal (library S)" "plain_item status" "plain_baton sb"
  shows "print_status_func S path status sb =
    (Ok (), sb\<lparr>report := (report sb)\<lparr>stdout := stdout (report sb) @ plain_line (path, status) @ [newline]\<rparr>\<rparr>)"
proof -
  have "\<not> skipped_status False status" "changelist status = None" using assms(2) by (auto simp: skipped_status_def plain_item_def)
  then show ?thesis
    using assms print_plain [OF assms(1,2)] tweaked_plain [OF assms(2)]
    by (simp add: print_status_func_def print_status_normal_or_xml_def in_baton_def svn_cl__print_status_def plain_baton_def)
qed

lemma callbacks_plain:
  assumes "plain_terminal (library S)" "\<forall>c \<in> set calls. plain_item (snd c)" "plain_baton sb"
  shows "run_callbacks (\<lambda>(path, status). print_status_func S path status) calls sb =
    (Ok (), sb\<lparr>report := (report sb)\<lparr>stdout := stdout (report sb) @ unlines (map plain_line calls)\<rparr>\<rparr>)"
  using assms(2,3)
proof (induction calls arbitrary: sb)
  case (Cons c calls)
  obtain path status where c: "c = (path, status)" by fastforce
  let ?sb = "sb\<lparr>report := (report sb)\<lparr>stdout := stdout (report sb) @ plain_line c @ [newline]\<rparr>\<rparr>"
  have "plain_baton ?sb" using Cons.prems(2) by (simp add: plain_baton_def)
  then show ?case
    using Cons.IH [of ?sb] Cons.prems callback_plain [OF assms(1), of status sb path] c
    by (simp add: sthen_def unlines_def)
qed (simp add: unlines_def)

lemma status_plain:
  assumes "plain_terminal (library S)" "args_to_targets S = ([], None)" "check_cancel S = Ok ()"
    and "svn_dirent_get_absolute (platform_apr S) [] = Ok cwd"
    and "client_status6 S no_options svn_opt_revision_head [] = (calls, Ok repos_rev)"
    and "\<forall>c \<in> set calls. plain_item (snd c)" "cl_order [] = []"
  shows "svn_cl__status S no_options cl_order s =
    (Ok (), s\<lparr>stdout := stdout s @ unlines (map plain_line calls),
              text_conflicts := 0, prop_conflicts := 0, tree_conflicts := 0\<rparr>)"
proof -
  let ?sb = "(status_baton_init no_options s)\<lparr>target_abspath := cwd, target_path := []\<rparr>"
  have sb: "plain_baton ?sb" by (simp add: plain_baton_def status_baton_init_def no_options_def)
  have targets: "status_targets S s = (Ok [], s)" using assms(2) by (simp add: status_targets_def)
  have checks: "svn_opt_push_implicit_dot_target [] = Ok [[]]" "svn_cl__check_targets_are_local_paths [[]] = Ok ()"
    "svn_cl__eat_peg_revisions [[]] = Ok [[]]" "status_revision no_options = Ok svn_opt_revision_head"
    by (simp_all add: svn_opt_push_implicit_dot_target_def svn_cl__check_targets_are_local_paths_def
        svn_cl__check_target_is_local_path_def svn_path_is_url_def skip_uri_scheme_def svn_cl__eat_peg_revisions_def
        svn_opt__split_arg_at_peg_revision_def status_revision_def no_options_def)
  have header: "status_header S no_options = pure (Ok ())" by (simp add: status_header_def no_options_def)
  have walk: "status_walk S no_options svn_opt_revision_head [] ?sb =
    (Ok repos_rev, ?sb\<lparr>report := (report ?sb)\<lparr>stdout := stdout (report ?sb) @ unlines (map plain_line calls)\<rparr>\<rparr>)"
    using callbacks_plain [OF assms(1,6) sb] assms(5) by (simp add: status_walk_def sthen_def svn_cl__try_def)
  have target: "status_target S no_options svn_opt_revision_head [] (status_baton_init no_options s) =
    (Ok (), ?sb\<lparr>report := (report ?sb)\<lparr>stdout := stdout (report ?sb) @ unlines (map plain_line calls)\<rparr>\<rparr>)"
    using walk assms(3,4) by (simp add: status_target_def sthen_def no_options_def)
  show ?thesis
    using targets checks header target assms(7)
    by (simp add: svn_cl__status_def sthen_def print_changelists_def print_conflict_stats_def in_baton_def
        status_baton_init_def no_options_def)
qed

section \<open>A session to evaluate the commands on\<close>

definition demo_client :: client where
  "demo_client =
     \<lparr>wc_conflicted = (\<lambda>_. Ok (False, False, False)), conflict_get = (\<lambda>_. Ok 0),
      conflict_description = (\<lambda>_. Ok []), cmdline_fputs = Ok, cmdline_fflush = Ok (), fputs = Ok,
      hash_iteration = id, time_to_cstring = (\<lambda>_. [])\<rparr>"

definition demo_item :: "svn_wc_status_kind \<Rightarrow> svn_client_status_t" where
  "demo_item kind =
     \<lparr>local_abspath = ''/w/x'', versioned = True, conflicted = False, node_status = kind, text_status = kind,
      prop_status = svn_wc_status_none, wc_is_locked = False, copied = False, revision = 1, changed_rev = 1,
      changed_date = 0, changed_author = None, switched = False, file_external = False, wc_lock = None,
      changelist = None, repos_node_status = svn_wc_status_none, repos_text_status = svn_wc_status_none,
      repos_prop_status = svn_wc_status_none, repos_lock = None, moved_from_abspath = None,
      moved_to_abspath = None\<rparr>"

definition demo_calls :: "(cstring \<times> svn_client_status_t) list" where
  "demo_calls = [(''a.c'', demo_item svn_wc_status_modified), (''new'', demo_item svn_wc_status_unversioned)]"

definition demo_session :: "(cstring \<times> svn_client_status_t) list \<Rightarrow> session" where
  "demo_session calls =
     \<lparr>library = demo_client, platform_apr = demo_apr, args_to_targets = ([], None), check_cancel = Ok (),
      node_get_pre_ng = (\<lambda>_. Ok (1, 1, 0, None)), client_status6 = (\<lambda>opt rev target. (calls, Ok 0)),
      client_add5 = (\<lambda>_. Ok ())\<rparr>"

definition no_output :: stats where
  "no_output = \<lparr>stdout = [], stderr = [], text_conflicts = 0, prop_conflicts = 0, tree_conflicts = 0\<rparr>"


end
