(* ===== verification/App_Svn.thy ===== *)
theory App_Svn
  imports App_Theorems Status_Cmd
begin

text \<open>
  The application and the command it reads: the output of \<^verbatim>\<open>svn status\<close>, as \<^verbatim>\<open>svn/status.c\<close> and
  \<^verbatim>\<open>svn/status-cmd.c\<close> print it, is what the application splits into lines, colours by the first byte
  and cuts the path from.
\<close>

section \<open>The application reads the status\<close>



text \<open>The line that \<^verbatim>\<open>svn status\<close> prints below a moved item is one more item for the application: what
  it passes on for it starts with a redirection of the shell.\<close>

lemma moved_line_is_item:
  "split_on newline (butlast (stdout (snd (svn_cl__status (demo_session
      [(''b'', (demo_item svn_wc_status_deleted)\<lparr>moved_to_abspath := Some ''/w/c''\<rparr>)]) no_options id no_output)))) =
     [''D       b'', ''        > moved to c''] \<and>
   string_erase0 ''        > moved to c'' 7 = '' > moved to c''"
  by code_simp

end
