(* ===== verification/Svn_Stringbuf.thy ===== *)
theory Svn_Stringbuf
  imports Svn_Base
begin

text \<open>
  The byte buffers of \<^verbatim>\<open>string.c\<close>: memory blocks that grow by doubling and \<^verbatim>\<open>svn_stringbuf_t\<close>.

  A block is the list of its bytes; a byte that was never written is None. Reading or writing outside
  a block is \<open>Overrun\<close>. Sizes are \<^verbatim>\<open>apr_size_t\<close>, numbers below \<open>2^64\<close>, and their sums wrap around.
  A pointer into a block is the part of the block from there on, so \<^verbatim>\<open>str->data += n\<close> drops bytes.
\<close>

section \<open>White space\<close>

definition svn_ctype_isspace :: "char \<Rightarrow> bool" where
  "svn_ctype_isspace c \<longleftrightarrow> (let n = (of_char c :: nat) in 9 \<le> n \<and> n \<le> 13 \<or> n = 32)"

section \<open>Memory\<close>

type_synonym memory = "char option list"

definition size_limit :: nat where
  "size_limit = 2 ^ 64"

definition size_add :: "nat \<Rightarrow> nat \<Rightarrow> nat" where
  "size_add a b = (a + b) mod size_limit"

definition size_sub :: "nat \<Rightarrow> nat \<Rightarrow> nat" where
  "size_sub a b = (a + (size_limit - b)) mod size_limit"

text \<open>\<^verbatim>\<open>memcpy\<close> to a position of a block, reading a part of a block, and \<^verbatim>\<open>memmove\<close> inside a block.\<close>

definition write_at :: "memory \<Rightarrow> nat \<Rightarrow> memory \<Rightarrow> memory cres" where
  "write_at mem pos bs =
     (if pos + length bs \<le> length mem then Ok (take pos mem @ bs @ drop (pos + length bs) mem) else Overrun)"

definition read_at :: "memory \<Rightarrow> nat \<Rightarrow> nat \<Rightarrow> memory cres" where
  "read_at mem pos n = (if pos + n \<le> length mem then Ok (take n (drop pos mem)) else Overrun)"

definition memmove :: "memory \<Rightarrow> nat \<Rightarrow> nat \<Rightarrow> nat \<Rightarrow> memory cres" where
  "memmove mem dest src n = cbind (read_at mem src n) (write_at mem dest)"

definition write_byte :: "memory \<Rightarrow> nat \<Rightarrow> char \<Rightarrow> memory cres" where
  "write_byte mem pos c = write_at mem pos [Some c]"

text \<open>Reading a byte whose value matters: it must have been written.\<close>

definition read_byte :: "memory \<Rightarrow> nat \<Rightarrow> char cres" where
  "read_byte mem pos = (if pos < length mem then case mem ! pos of Some c \<Rightarrow> Ok c | None \<Rightarrow> Overrun else Overrun)"

definition read_bytes :: "memory \<Rightarrow> nat \<Rightarrow> nat \<Rightarrow> string cres" where
  "read_bytes mem pos n =
     cbind (read_at mem pos n) (\<lambda>bs. if None \<in> set bs then Overrun else Ok (map the bs))"

text \<open>The C string that starts at a pointer.\<close>

fun read_cstring :: "memory \<Rightarrow> cstring cres" where
  "read_cstring [] = Overrun"
| "read_cstring (None # mem) = Overrun"
| "read_cstring (Some c # mem) =
     (if c = NUL then Ok [] else cbind (read_cstring mem) (\<lambda>s. Ok (c # s)))"

section \<open>Growing blocks\<close>

definition APR_ALIGN_DEFAULT :: "nat \<Rightarrow> nat" where
  "APR_ALIGN_DEFAULT n = size_add n 7 div 8 * 8"

definition membuf_create :: "nat \<Rightarrow> memory" where
  "membuf_create minimum_size = replicate (APR_ALIGN_DEFAULT minimum_size) None"

text \<open>A size of 0 becomes the size that is needed; another one is doubled until it is large enough or the
  doubling overflows.\<close>

function doubled_size :: "nat \<Rightarrow> nat \<Rightarrow> nat" where
  "doubled_size new_size minimum_size =
     (if new_size = 0 then minimum_size
      else if new_size < minimum_size then
        let prev_size = new_size; new_size = new_size * 2 mod size_limit in
        if prev_size > new_size then minimum_size else doubled_size new_size minimum_size
      else new_size)"
  by pat_completeness auto
termination
proof (relation "measure (\<lambda>(n, m). m - n)", goal_cases)
  case (2 n m p d)
  have "d = n * 2"
  proof (rule ccontr)
    assume "d \<noteq> n * 2"
    then have "\<not> n * 2 < size_limit" using 2 by auto
    moreover have "d < size_limit" using 2 by (simp add: size_limit_def)
    moreover have "n \<le> d" using 2 by simp
    ultimately have "n * 2 - size_limit < size_limit" by linarith
    then have "d = n * 2 - size_limit" using 2 \<open>\<not> n * 2 < size_limit\<close> by (simp add: le_mod_geq)
    then show False using \<open>n \<le> d\<close> \<open>d < size_limit\<close> \<open>\<not> n * 2 < size_limit\<close> by simp
  qed
  then show ?case using 2 by auto
qed simp

declare doubled_size.simps [simp del]

text \<open>A new block if the old one is too small.\<close>

definition membuf_ensure :: "nat \<Rightarrow> nat \<Rightarrow> memory option" where
  "membuf_ensure blocksize minimum_size =
     (if minimum_size > blocksize then Some (membuf_create (doubled_size blocksize minimum_size)) else None)"

text \<open>The data pointer of a \<^verbatim>\<open>svn_membuf_t\<close> may be null.\<close>

record svn_membuf_t =
  mb_data :: "memory option"
  mb_size :: nat

definition svn_membuf__create :: "nat \<Rightarrow> svn_membuf_t" where
  "svn_membuf__create n = (let mem = membuf_create n in \<lparr>mb_data = Some mem, mb_size = length mem\<rparr>)"

definition svn_membuf__ensure :: "svn_membuf_t \<Rightarrow> nat \<Rightarrow> svn_membuf_t" where
  "svn_membuf__ensure membuf n =
     (case membuf_ensure (mb_size membuf) n of
        Some mem \<Rightarrow> membuf\<lparr>mb_data := Some mem, mb_size := length mem\<rparr>
      | None \<Rightarrow> membuf)"

definition svn_membuf__resize :: "svn_membuf_t \<Rightarrow> nat \<Rightarrow> svn_membuf_t cres" where
  "svn_membuf__resize membuf n =
     (case membuf_ensure (mb_size membuf) n of
        None \<Rightarrow> Ok membuf
      | Some mem \<Rightarrow>
          cbind (case mb_data membuf of
                   None \<Rightarrow> Ok mem
                 | Some old_data \<Rightarrow> cbind (read_at old_data 0 (mb_size membuf)) (write_at mem 0)) (\<lambda>data.
            Ok (membuf\<lparr>mb_data := Some data, mb_size := length mem\<rparr>)))"

text \<open>\<^verbatim>\<open>memset\<close> on a null pointer is undefined.\<close>

definition svn_membuf__nzero :: "svn_membuf_t \<Rightarrow> nat \<Rightarrow> svn_membuf_t cres" where
  "svn_membuf__nzero membuf n =
     (case mb_data membuf of
        None \<Rightarrow> Overrun
      | Some data \<Rightarrow>
          cbind (write_at data 0 (replicate (if n > mb_size membuf then mb_size membuf else n) (Some NUL)))
            (\<lambda>data. Ok (membuf\<lparr>mb_data := Some data\<rparr>)))"

definition svn_membuf__zero :: "svn_membuf_t \<Rightarrow> svn_membuf_t cres" where
  "svn_membuf__zero membuf =
     (case mb_data membuf of
        None \<Rightarrow> Overrun
      | Some data \<Rightarrow>
          cbind (write_at data 0 (replicate (mb_size membuf) (Some NUL)))
            (\<lambda>data. Ok (membuf\<lparr>mb_data := Some data\<rparr>)))"

section \<open>Counted bytes\<close>

definition string_compare :: "memory \<Rightarrow> memory \<Rightarrow> nat \<Rightarrow> nat \<Rightarrow> bool cres" where
  "string_compare str1 str2 len1 len2 =
     (if len1 \<noteq> len2 then Ok False
      else cbind (read_bytes str1 0 len1) (\<lambda>a. cbind (read_bytes str2 0 len1) (\<lambda>b. Ok (a = b))))"

text \<open>The loop over the index, with the bytes that are left to visit as the number of turns.\<close>

fun first_non_whitespace_loop :: "memory \<Rightarrow> nat \<Rightarrow> nat \<Rightarrow> nat cres" where
  "first_non_whitespace_loop str i 0 = Ok i"
| "first_non_whitespace_loop str i (Suc n) =
     cbind (read_byte str i) (\<lambda>c.
       if \<not> svn_ctype_isspace c then Ok i else first_non_whitespace_loop str (i + 1) n)"

definition string_first_non_whitespace :: "memory \<Rightarrow> nat \<Rightarrow> nat cres" where
  "string_first_non_whitespace str len = first_non_whitespace_loop str 0 len"

fun find_char_loop :: "memory \<Rightarrow> nat \<Rightarrow> char \<Rightarrow> nat \<Rightarrow> nat cres" where
  "find_char_loop str len ch 0 = Ok len"
| "find_char_loop str len ch (Suc i) =
     cbind (read_byte str i) (\<lambda>c. if c = ch then Ok i else find_char_loop str len ch i)"

definition find_char_backward :: "memory \<Rightarrow> nat \<Rightarrow> char \<Rightarrow> nat cres" where
  "find_char_backward str len ch = find_char_loop str len ch len"

section \<open>String buffers\<close>

record svn_stringbuf_t =
  sb_data :: memory
  sb_len :: nat
  sb_blocksize :: nat

text \<open>The size of the structure, which is allocated in front of the bytes.\<close>

definition sizeof_stringbuf :: nat where
  "sizeof_stringbuf = 32"

definition svn_stringbuf_create_ensure :: "nat \<Rightarrow> svn_stringbuf_t cres" where
  "svn_stringbuf_create_ensure blocksize =
     (let mem = membuf_create (size_add (size_add blocksize 1) sizeof_stringbuf) in
      cbind (write_byte (drop sizeof_stringbuf mem) 0 NUL) (\<lambda>data.
        Ok \<lparr>sb_data = data, sb_len = 0, sb_blocksize = length mem - sizeof_stringbuf\<rparr>))"

definition svn_stringbuf_create_empty :: "svn_stringbuf_t cres" where
  "svn_stringbuf_create_empty = svn_stringbuf_create_ensure 0"

definition svn_stringbuf_ncreate :: "string \<Rightarrow> svn_stringbuf_t cres" where
  "svn_stringbuf_ncreate bytes =
     cbind (svn_stringbuf_create_ensure (length bytes)) (\<lambda>strbuf.
     cbind (if length bytes \<noteq> 0 then write_at (sb_data strbuf) 0 (map Some bytes) else Ok (sb_data strbuf)) (\<lambda>data.
     cbind (write_byte data (length bytes) NUL) (\<lambda>data.
       Ok (strbuf\<lparr>sb_data := data, sb_len := length bytes\<rparr>))))"

definition svn_stringbuf_create :: "cstring \<Rightarrow> svn_stringbuf_t cres" where
  "svn_stringbuf_create cstring = svn_stringbuf_ncreate cstring"

definition svn_stringbuf_create_wrap :: "cstring \<Rightarrow> svn_stringbuf_t" where
  "svn_stringbuf_create_wrap str =
     \<lparr>sb_data = map Some str @ [Some NUL], sb_len = length str, sb_blocksize = length str + 1\<rparr>"

definition svn_stringbuf_fillchar :: "svn_stringbuf_t \<Rightarrow> char \<Rightarrow> svn_stringbuf_t cres" where
  "svn_stringbuf_fillchar str c =
     cbind (write_at (sb_data str) 0 (replicate (sb_len str) (Some c))) (\<lambda>data. Ok (str\<lparr>sb_data := data\<rparr>))"

definition svn_stringbuf_set :: "svn_stringbuf_t \<Rightarrow> cstring \<Rightarrow> svn_stringbuf_t cres" where
  "svn_stringbuf_set str val =
     (let amt = length val;
          str = (case membuf_ensure (sb_blocksize str) (size_add amt 1) of
                   Some mem \<Rightarrow> str\<lparr>sb_data := mem, sb_blocksize := length mem\<rparr>
                 | None \<Rightarrow> str) in
      cbind (write_at (sb_data str) 0 (map Some val @ [Some NUL])) (\<lambda>data.
        Ok (str\<lparr>sb_data := data, sb_len := amt\<rparr>)))"

definition svn_stringbuf_setempty :: "svn_stringbuf_t \<Rightarrow> svn_stringbuf_t cres" where
  "svn_stringbuf_setempty str =
     cbind (write_byte (sb_data str) 0 NUL) (\<lambda>data. Ok (str\<lparr>sb_data := data, sb_len := 0\<rparr>))"

definition svn_stringbuf_chop :: "svn_stringbuf_t \<Rightarrow> nat \<Rightarrow> svn_stringbuf_t cres" where
  "svn_stringbuf_chop str nbytes =
     (let len = (if nbytes > sb_len str then 0 else sb_len str - nbytes) in
      cbind (write_byte (sb_data str) len NUL) (\<lambda>data. Ok (str\<lparr>sb_data := data, sb_len := len\<rparr>)))"

definition svn_stringbuf_leftchop :: "svn_stringbuf_t \<Rightarrow> nat \<Rightarrow> svn_stringbuf_t cres" where
  "svn_stringbuf_leftchop str nbytes =
     (if sb_len str = 0 then Ok str
      else if nbytes \<ge> sb_len str then
        cbind (write_byte (sb_data str) 0 NUL) (\<lambda>data. Ok (str\<lparr>sb_data := data, sb_len := 0\<rparr>))
      else Ok (str\<lparr>sb_data := drop nbytes (sb_data str), sb_len := sb_len str - nbytes,
                   sb_blocksize := sb_blocksize str - nbytes\<rparr>))"

definition svn_stringbuf_isempty :: "svn_stringbuf_t \<Rightarrow> bool" where
  "svn_stringbuf_isempty str \<longleftrightarrow> sb_len str = 0"

definition svn_stringbuf_ensure :: "svn_stringbuf_t \<Rightarrow> nat \<Rightarrow> svn_stringbuf_t cres" where
  "svn_stringbuf_ensure str minimum_size =
     (case membuf_ensure (sb_blocksize str) (size_add minimum_size 1) of
        None \<Rightarrow> Ok str
      | Some mem \<Rightarrow>
          cbind (read_at (sb_data str) 0 (sb_len str + 1)) (\<lambda>old.
          cbind (write_at mem 0 old) (\<lambda>data.
            Ok (str\<lparr>sb_data := data, sb_blocksize := length mem\<rparr>))))"

definition svn_stringbuf_appendbytes :: "svn_stringbuf_t \<Rightarrow> string \<Rightarrow> svn_stringbuf_t cres" where
  "svn_stringbuf_appendbytes str bytes =
     (if length bytes = 0 then Ok str
      else
        let total_len = size_add (sb_len str) (length bytes) in
        cbind (svn_stringbuf_ensure str total_len) (\<lambda>str.
        cbind (write_at (sb_data str) (sb_len str) (map Some bytes)) (\<lambda>data.
        cbind (write_byte data total_len NUL) (\<lambda>data.
          Ok (str\<lparr>sb_data := data, sb_len := total_len\<rparr>)))))"

definition svn_stringbuf_appendbyte :: "svn_stringbuf_t \<Rightarrow> char \<Rightarrow> svn_stringbuf_t cres" where
  "svn_stringbuf_appendbyte str byte =
     (let old_len = sb_len str in
      if sb_blocksize str > size_add old_len 1 then
        cbind (write_byte (sb_data str) old_len byte) (\<lambda>data.
        cbind (write_byte data (old_len + 1) NUL) (\<lambda>data.
          Ok (str\<lparr>sb_data := data, sb_len := old_len + 1\<rparr>)))
      else svn_stringbuf_appendbytes str [byte])"

definition svn_stringbuf_appendfill :: "svn_stringbuf_t \<Rightarrow> char \<Rightarrow> nat \<Rightarrow> svn_stringbuf_t cres" where
  "svn_stringbuf_appendfill str byte count =
     (let new_len = size_add (sb_len str) count in
      cbind (svn_stringbuf_ensure str new_len) (\<lambda>str.
      cbind (write_at (sb_data str) (sb_len str) (replicate count (Some byte))) (\<lambda>data.
      cbind (write_byte data new_len NUL) (\<lambda>data.
        Ok (str\<lparr>sb_data := data, sb_len := new_len\<rparr>)))))"

definition svn_stringbuf_appendstr :: "svn_stringbuf_t \<Rightarrow> svn_stringbuf_t \<Rightarrow> svn_stringbuf_t cres" where
  "svn_stringbuf_appendstr targetstr appendstr =
     cbind (read_bytes (sb_data appendstr) 0 (sb_len appendstr)) (svn_stringbuf_appendbytes targetstr)"

definition svn_stringbuf_appendcstr :: "svn_stringbuf_t \<Rightarrow> cstring \<Rightarrow> svn_stringbuf_t cres" where
  "svn_stringbuf_appendcstr targetstr cstr = svn_stringbuf_appendbytes targetstr cstr"

definition svn_stringbuf_insert :: "svn_stringbuf_t \<Rightarrow> nat \<Rightarrow> string \<Rightarrow> svn_stringbuf_t cres" where
  "svn_stringbuf_insert str pos bytes =
     (if length bytes = 0 then Ok str
      else
        let count = length bytes; pos = (if pos > sb_len str then sb_len str else pos) in
        cbind (svn_stringbuf_ensure str (size_add (sb_len str) count)) (\<lambda>str.
        cbind (memmove (sb_data str) (pos + count) pos (sb_len str - pos + 1)) (\<lambda>data.
        cbind (write_at data pos (map Some bytes)) (\<lambda>data.
          Ok (str\<lparr>sb_data := data, sb_len := size_add (sb_len str) count\<rparr>)))))"

definition svn_stringbuf_remove :: "svn_stringbuf_t \<Rightarrow> nat \<Rightarrow> nat \<Rightarrow> svn_stringbuf_t cres" where
  "svn_stringbuf_remove str pos count =
     (let pos = (if pos > sb_len str then sb_len str else pos);
          count = (if count > sb_len str - pos then sb_len str - pos else count) in
      cbind (memmove (sb_data str) pos (pos + count) (sb_len str - pos - count + 1)) (\<lambda>data.
        Ok (str\<lparr>sb_data := data, sb_len := sb_len str - count\<rparr>)))"

definition svn_stringbuf_replace :: "svn_stringbuf_t \<Rightarrow> nat \<Rightarrow> nat \<Rightarrow> string \<Rightarrow> svn_stringbuf_t cres" where
  "svn_stringbuf_replace str pos old_count bytes =
     (let new_count = length bytes in
      if new_count = 0 then svn_stringbuf_remove str pos old_count
      else
        let pos = (if pos > sb_len str then sb_len str else pos);
            old_count = (if old_count > sb_len str - pos then sb_len str - pos else old_count) in
        cbind (if old_count < new_count
               then svn_stringbuf_ensure str (size_add (sb_len str) (new_count - old_count))
               else Ok str) (\<lambda>str.
        cbind (if old_count \<noteq> new_count
               then memmove (sb_data str) (pos + new_count) (pos + old_count) (sb_len str - pos - old_count + 1)
               else Ok (sb_data str)) (\<lambda>data.
        cbind (write_at data pos (map Some bytes)) (\<lambda>data.
          Ok (str\<lparr>sb_data := data, sb_len := sb_len str + new_count - old_count\<rparr>)))))"

section \<open>Replacing and stripping\<close>

text \<open>\<^verbatim>\<open>strstr (str->data + current, to_find)\<close>, as an offset from \<open>current\<close>.\<close>

definition find_from :: "svn_stringbuf_t \<Rightarrow> nat \<Rightarrow> cstring \<Rightarrow> nat option cres" where
  "find_from str start to_find =
     cbind (read_cstring (drop start (sb_data str))) (\<lambda>s. Ok (strstr s to_find))"

text \<open>One turn of the loop of \<^verbatim>\<open>svn_stringbuf_replace_all\<close>, for a match \<open>to_copy\<close> bytes after \<open>start\<close>.\<close>

definition replace_turn :: "svn_stringbuf_t \<Rightarrow> nat \<Rightarrow> nat \<Rightarrow> cstring \<Rightarrow> svn_stringbuf_t cres" where
  "replace_turn str start to_copy replacement =
     cbind (svn_stringbuf_ensure str (size_add (size_add (sb_len str) to_copy) (length replacement))) (\<lambda>str.
     cbind (if to_copy \<noteq> 0
            then cbind (read_at (sb_data str) start to_copy) (write_at (sb_data str) (sb_len str))
            else Ok (sb_data str)) (\<lambda>data.
     cbind (write_at data (sb_len str + to_copy) (map Some replacement)) (\<lambda>data.
       Ok (str\<lparr>sb_data := data, sb_len := sb_len str + to_copy + length replacement\<rparr>))))"

text \<open>The loop. Every turn moves \<open>start\<close> on by the length of \<open>to_find\<close> at least; for an empty one it never
  ends, which is what is left when the turns are used up.\<close>

fun replace_loop ::
  "nat \<Rightarrow> svn_stringbuf_t \<Rightarrow> nat \<Rightarrow> nat \<Rightarrow> nat option \<Rightarrow> cstring \<Rightarrow> cstring \<Rightarrow>
     (svn_stringbuf_t \<times> nat \<times> nat) cres" where
  "replace_loop n str start replacements None to_find replacement = Ok (str, start, replacements)"
| "replace_loop 0 str start replacements (Some to_copy) to_find replacement = Diverge"
| "replace_loop (Suc n) str start replacements (Some to_copy) to_find replacement =
     cbind (replace_turn str start to_copy replacement) (\<lambda>str.
       let start = start + to_copy + length to_find in
       cbind (find_from str start to_find) (\<lambda>pos.
         replace_loop n str start (replacements + 1) pos to_find replacement))"

definition svn_stringbuf_replace_all ::
  "svn_stringbuf_t \<Rightarrow> cstring \<Rightarrow> cstring \<Rightarrow> (svn_stringbuf_t \<times> nat) cres" where
  "svn_stringbuf_replace_all str to_find replacement =
     (let original_length = sb_len str in
      cbind (find_from str 0 to_find) (\<lambda>pos.
        if pos = None then Ok (str, 0)
        else
          cbind (replace_loop (original_length + 1) (str\<lparr>sb_len := size_add original_length 1\<rparr>) 0 0 pos
                   to_find replacement) (\<lambda>(str, start, replacements).
          let to_copy = size_sub original_length start in
          cbind (if to_copy \<noteq> 0
                 then cbind (svn_stringbuf_ensure str (size_add (sb_len str) to_copy)) (\<lambda>str.
                      cbind (read_at (sb_data str) start to_copy) (\<lambda>bs.
                      cbind (write_at (sb_data str) (sb_len str) bs) (\<lambda>data.
                        Ok (str\<lparr>sb_data := data, sb_len := sb_len str + to_copy\<rparr>))))
                 else Ok str) (\<lambda>str.
          let new_length = size_sub (size_sub (sb_len str) original_length) 1 in
          cbind (memmove (sb_data str) 0 (original_length + 1) new_length) (\<lambda>data.
          cbind (write_byte data new_length NUL) (\<lambda>data.
            Ok (str\<lparr>sb_data := data, sb_len := new_length\<rparr>, replacements)))))))"

definition svn_stringbuf_dup :: "svn_stringbuf_t \<Rightarrow> svn_stringbuf_t cres" where
  "svn_stringbuf_dup original_string =
     cbind (read_bytes (sb_data original_string) 0 (sb_len original_string)) svn_stringbuf_ncreate"

definition svn_stringbuf_compare :: "svn_stringbuf_t \<Rightarrow> svn_stringbuf_t \<Rightarrow> bool cres" where
  "svn_stringbuf_compare str1 str2 = string_compare (sb_data str1) (sb_data str2) (sb_len str1) (sb_len str2)"

definition svn_stringbuf_first_non_whitespace :: "svn_stringbuf_t \<Rightarrow> nat cres" where
  "svn_stringbuf_first_non_whitespace str = string_first_non_whitespace (sb_data str) (sb_len str)"

definition svn_stringbuf_find_char_backward :: "svn_stringbuf_t \<Rightarrow> char \<Rightarrow> nat cres" where
  "svn_stringbuf_find_char_backward str ch = find_char_backward (sb_data str) (sb_len str) ch"

fun strip_end_loop :: "memory \<Rightarrow> nat \<Rightarrow> nat cres" where
  "strip_end_loop data 0 = Ok 0"
| "strip_end_loop data (Suc n) =
     cbind (read_byte data n) (\<lambda>c. if svn_ctype_isspace c then strip_end_loop data n else Ok (Suc n))"

definition svn_stringbuf_strip_whitespace :: "svn_stringbuf_t \<Rightarrow> svn_stringbuf_t cres" where
  "svn_stringbuf_strip_whitespace str =
     cbind (read_byte (sb_data str) 0) (\<lambda>c.
     cbind (if svn_ctype_isspace c
            then cbind (string_first_non_whitespace (drop 1 (sb_data str)) (size_sub (sb_len str) 1)) (\<lambda>i.
              let offset = size_add i 1 in
              Ok (str\<lparr>sb_data := drop offset (sb_data str), sb_len := size_sub (sb_len str) offset,
                      sb_blocksize := size_sub (sb_blocksize str) offset\<rparr>))
            else Ok str) (\<lambda>str.
     cbind (strip_end_loop (sb_data str) (sb_len str)) (\<lambda>n.
     cbind (write_byte (sb_data str) n NUL) (\<lambda>data.
       Ok (str\<lparr>sb_data := data, sb_len := n\<rparr>)))))"

section \<open>Counted strings\<close>

record svn_string_t =
  str_data :: memory
  str_len :: nat

definition create_string :: "memory \<Rightarrow> nat \<Rightarrow> svn_string_t" where
  "create_string data len = \<lparr>str_data = data, str_len = len\<rparr>"

definition svn_string_create_empty :: svn_string_t where
  "svn_string_create_empty = \<lparr>str_data = [Some NUL], str_len = 0\<rparr>"

text \<open>The structure has 16 bytes; the block behind it has room for the bytes and the terminator.\<close>

definition svn_string_ncreate :: "string \<Rightarrow> svn_string_t cres" where
  "svn_string_ncreate bytes =
     (let n = length bytes;
          mem = replicate (size_add (size_add 16 n) 1) None;
          data = drop 16 mem in
      cbind (if n \<noteq> 0 then write_at data 0 (map Some bytes) else Ok data) (\<lambda>data.
      cbind (write_byte data n NUL) (\<lambda>data.
        Ok \<lparr>str_data = data, str_len = n\<rparr>)))"

definition svn_string_create :: "cstring \<Rightarrow> svn_string_t cres" where
  "svn_string_create cstring = svn_string_ncreate cstring"

definition svn_string_create_from_buf :: "svn_stringbuf_t \<Rightarrow> svn_string_t cres" where
  "svn_string_create_from_buf strbuf = cbind (read_bytes (sb_data strbuf) 0 (sb_len strbuf)) svn_string_ncreate"

definition svn_string_isempty :: "svn_string_t \<Rightarrow> bool" where
  "svn_string_isempty str \<longleftrightarrow> str_len str = 0"

definition svn_string_dup :: "svn_string_t option \<Rightarrow> svn_string_t option cres" where
  "svn_string_dup original_string =
     (case original_string of
        None \<Rightarrow> Ok None
      | Some s \<Rightarrow>
          cbind (read_bytes (str_data s) 0 (str_len s)) (\<lambda>bs.
          cbind (svn_string_ncreate bs) (\<lambda>s'. Ok (Some s'))))"

definition svn_string_compare :: "svn_string_t \<Rightarrow> svn_string_t \<Rightarrow> bool cres" where
  "svn_string_compare str1 str2 = string_compare (str_data str1) (str_data str2) (str_len str1) (str_len str2)"

definition svn_string_first_non_whitespace :: "svn_string_t \<Rightarrow> nat cres" where
  "svn_string_first_non_whitespace str = string_first_non_whitespace (str_data str) (str_len str)"

definition svn_string_find_char_backward :: "svn_string_t \<Rightarrow> char \<Rightarrow> nat cres" where
  "svn_string_find_char_backward str ch = find_char_backward (str_data str) (str_len str) ch"

text \<open>The buffer is taken as a string as it is.\<close>

definition svn_stringbuf__morph_into_string :: "svn_stringbuf_t \<Rightarrow> svn_string_t" where
  "svn_stringbuf__morph_into_string strbuf = \<lparr>str_data = sb_data strbuf, str_len = sb_len strbuf\<rparr>"

definition svn_stringbuf_create_from_string :: "svn_string_t \<Rightarrow> svn_stringbuf_t cres" where
  "svn_stringbuf_create_from_string str = cbind (read_bytes (str_data str) 0 (str_len str)) svn_stringbuf_ncreate"

definition svn_string_compare_stringbuf :: "svn_string_t \<Rightarrow> svn_stringbuf_t \<Rightarrow> bool cres" where
  "svn_string_compare_stringbuf str1 str2 =
     string_compare (str_data str1) (sb_data str2) (str_len str1) (sb_len str2)"

end
