(* ===== verification/Stringbuf_Ops.thy ===== *)
theory Stringbuf_Ops
  imports Svn_Stringbuf
begin

text \<open>
  What the operations on string buffers do to the bytes a buffer holds. The relation \<open>holds\<close> between a
  buffer and its contents is the invariant of the structure: a block as long as the structure says, the
  contents at its start, and a NUL behind them. Every operation on a buffer that holds \<open>s\<close> returns one that
  holds the result of the list operation, and stays inside the block.
\<close>

section \<open>Sizes\<close>

lemma size_add_small [simp]: "a + b < size_limit \<Longrightarrow> size_add a b = a + b"
  by (simp add: size_add_def)

lemma size_sub_small [simp]:
  assumes "b \<le> a" "a < size_limit"
  shows "size_sub a b = a - b"
proof -
  have "a + (size_limit - b) = a - b + size_limit" using assms by simp
  then have "size_sub a b = (a - b) mod size_limit" by (simp add: size_sub_def)
  then show ?thesis using assms by simp
qed

lemma align_bounds:
  assumes "n + 7 < size_limit"
  shows "n \<le> APR_ALIGN_DEFAULT n" "APR_ALIGN_DEFAULT n \<le> n + 7"
  using assms by (simp_all add: APR_ALIGN_DEFAULT_def)

text \<open>Sizes up to \<open>2^62\<close> can be doubled and aligned without wrapping around.\<close>

definition fits :: "nat \<Rightarrow> bool" where
  "fits n \<longleftrightarrow> n < 2 ^ 62"

lemma fits_limit: "fits n \<Longrightarrow> 2 * n + 64 < size_limit"
  by (simp add: fits_def size_limit_def)

lemma fits_mono: "fits n \<Longrightarrow> m \<le> n \<Longrightarrow> fits m"
  by (simp add: fits_def)

lemma doubled_size_bounds:
  assumes "m \<le> 2 ^ 62"
  shows "m \<le> doubled_size b m" "doubled_size b m \<le> max b (2 * m)"
  using assms
proof (induction b m rule: doubled_size.induct)
  case (1 b m)
  {
    case 1
    then show ?case
      using "1.IH"(1) [OF _ _ refl refl] by (subst doubled_size.simps) (auto simp: Let_def)
  next
    case 2
    show ?case
    proof (cases "b = 0 \<or> m \<le> b")
      case True
      then show ?thesis using 2 by (subst doubled_size.simps) auto
    next
      case False
      then have d: "b * 2 mod size_limit = b * 2" using 2 by (simp add: size_limit_def)
      have "doubled_size b m = doubled_size (b * 2) m"
        using False by (subst doubled_size.simps) (simp add: Let_def d)
      moreover have "doubled_size (b * 2) m \<le> max (b * 2) (2 * m)"
        using "1.IH"(2) [OF _ _ refl refl] False d 2 by simp
      ultimately show ?thesis using False by simp
    qed
  }
qed

lemma membuf_ensure_cases:
  assumes "fits n"
  obtains (enough) "membuf_ensure b (n + 1) = None" "n < b"
  | (grown) mem where "membuf_ensure b (n + 1) = Some mem" "b \<le> n" "n < length mem" "length mem < size_limit"
proof (cases "n < b")
  case False
  have m: "n + 1 \<le> 2 ^ 62" using assms by (simp add: fits_def)
  let ?d = "doubled_size b (n + 1)"
  have "n + 1 \<le> ?d" "?d \<le> 2 * (n + 1)" using doubled_size_bounds [OF m, of b] False by auto
  moreover have "2 * (n + 1) + 8 < size_limit" using fits_limit [OF assms] by simp
  ultimately have "n + 1 \<le> APR_ALIGN_DEFAULT ?d" "APR_ALIGN_DEFAULT ?d < size_limit"
    using align_bounds [of ?d] by linarith+
  then show ?thesis
    using False by (intro grown [of "membuf_create ?d"]) (simp_all add: membuf_ensure_def membuf_create_def)
qed (auto intro: enough simp: membuf_ensure_def)

section \<open>What a buffer holds\<close>

text \<open>A block as long as \<open>sb_blocksize\<close> says, with room for a byte behind the contents.\<close>

definition block_ok :: "svn_stringbuf_t \<Rightarrow> bool" where
  "block_ok b \<longleftrightarrow> sb_blocksize b = length (sb_data b) \<and> sb_blocksize b < size_limit \<and> sb_len b < sb_blocksize b"

text \<open>The buffer holds the bytes \<open>s\<close>: they are its first ones, a NUL follows, and the structure says so.\<close>

definition holds :: "svn_stringbuf_t \<Rightarrow> string \<Rightarrow> bool" where
  "holds b s \<longleftrightarrow> block_ok b \<and> sb_len b = length s \<and> prefix (map Some s @ [Some NUL]) (sb_data b)"

text \<open>A call returns a buffer with the given bytes.\<close>

definition gives :: "svn_stringbuf_t cres \<Rightarrow> string \<Rightarrow> bool" where
  "gives r s \<longleftrightarrow> (case r of Ok b \<Rightarrow> holds b s | _ \<Rightarrow> False)"

lemma gives_Ok [simp]: "gives (Ok b) s \<longleftrightarrow> holds b s"
  by (simp add: gives_def)

lemma givesE: "gives r s \<Longrightarrow> (\<And>b. r = Ok b \<Longrightarrow> holds b s \<Longrightarrow> P) \<Longrightarrow> P"
  by (cases r) (auto simp: gives_def)

lemma holdsE:
  assumes "holds b s"
  obtains rest where "sb_data b = map Some s @ Some NUL # rest" "sb_len b = length s"
    "sb_blocksize b = length s + length rest + 1" "length s + length rest + 1 < size_limit"
  using assms by (auto simp: holds_def block_ok_def prefix_def)

lemma holdsI:
  assumes "sb_data b = map Some s @ Some NUL # rest" "sb_len b = length s"
    "sb_blocksize b = length s + length rest + 1" "length s + length rest + 1 < size_limit"
  shows "holds b s"
  using assms by (simp add: holds_def block_ok_def prefix_def)

lemma holds_unique: "holds b s \<Longrightarrow> holds b t \<Longrightarrow> s = t"
  by (erule holdsE, erule holdsE) (auto simp: append_eq_append_conv inj_map_eq_map)

lemma write_at_split:
  "length xs = pos \<Longrightarrow> length ys = length bs \<Longrightarrow> write_at (xs @ ys @ zs) pos bs = Ok (xs @ bs @ zs)"
  by (simp add: write_at_def)

lemma read_bytes_prefix: "read_bytes (map Some s @ rest) 0 (length s) = Ok s"
  by (auto simp: read_bytes_def read_at_def comp_def)

lemma holds_read: "holds b s \<Longrightarrow> read_bytes (sb_data b) 0 (sb_len b) = Ok s"
  by (erule holdsE) (simp add: read_bytes_prefix)

section \<open>The operations on the contents\<close>

text \<open>Growing keeps every byte up to the one behind the contents.\<close>

lemma ensure_block:
  assumes "block_ok b" "fits n"
  obtains b' where "svn_stringbuf_ensure b n = Ok b'" "block_ok b'" "sb_len b' = sb_len b"
    "n < sb_blocksize b'" "take (sb_len b + 1) (sb_data b') = take (sb_len b + 1) (sb_data b)"
proof -
  have s: "size_add n (Suc 0) = Suc n" using fits_limit [OF assms(2)] by simp
  show ?thesis
  proof (rule membuf_ensure_cases [OF assms(2), of "sb_blocksize b"])
    assume "membuf_ensure (sb_blocksize b) (n + 1) = None" "n < sb_blocksize b"
    then show ?thesis using assms by (intro that [of b]) (simp_all add: svn_stringbuf_ensure_def s)
  next
    fix mem assume m: "membuf_ensure (sb_blocksize b) (n + 1) = Some mem" "sb_blocksize b \<le> n"
      "n < length mem" "length mem < size_limit"
    have l: "sb_len b + 1 \<le> length (sb_data b)" "sb_len b + 1 \<le> length mem"
      using assms m by (auto simp: block_ok_def)
    let ?b = "b\<lparr>sb_data := take (sb_len b + 1) (sb_data b) @ drop (sb_len b + 1) mem, sb_blocksize := length mem\<rparr>"
    have "svn_stringbuf_ensure b n = Ok ?b"
      using m l by (simp add: svn_stringbuf_ensure_def s read_at_def write_at_def min_def)
    then show ?thesis
      using m l by (intro that [of ?b]) (simp_all add: block_ok_def min_def)
  qed
qed

lemma ensure_gives:
  assumes "holds b s" "fits n"
  obtains b' where "svn_stringbuf_ensure b n = Ok b'" "holds b' s" "n < sb_blocksize b'"
proof -
  have b: "block_ok b" using assms by (simp add: holds_def)
  obtain b' where b': "svn_stringbuf_ensure b n = Ok b'" "block_ok b'" "sb_len b' = sb_len b"
    "n < sb_blocksize b'" "take (sb_len b + 1) (sb_data b') = take (sb_len b + 1) (sb_data b)"
    using ensure_block [OF b assms(2)] by metis
  have "take (sb_len b + 1) (sb_data b) = map Some s @ [Some NUL]"
    using assms(1) by (auto elim: holdsE)
  then have "prefix (map Some s @ [Some NUL]) (sb_data b')" using b'(5) by (metis take_is_prefix)
  then have "holds b' s" using assms(1) b' by (simp add: holds_def)
  then show ?thesis using that b' by blast
qed

lemma stringbuf_ensure: "holds b s \<Longrightarrow> fits n \<Longrightarrow> gives (svn_stringbuf_ensure b n) s"
  by (erule (1) ensure_gives) simp

text \<open>Overwriting behind the contents, with the new terminator.\<close>

lemma extend_holds:
  assumes "holds b s" "length s + length bs < sb_blocksize b"
  shows "gives (cbind (write_at (sb_data b) (sb_len b) (map Some bs)) (\<lambda>data.
           cbind (write_byte data (length s + length bs) NUL) (\<lambda>data.
             Ok (b\<lparr>sb_data := data, sb_len := length s + length bs\<rparr>)))) (s @ bs)"
  using assms(1)
proof (rule holdsE)
  fix rest assume r: "sb_data b = map Some s @ Some NUL # rest" "sb_len b = length s"
    "sb_blocksize b = length s + length rest + 1" "length s + length rest + 1 < size_limit"
  have l: "length bs \<le> length rest" using assms(2) r by simp
  have "write_at (sb_data b) (sb_len b) (map Some bs) = Ok (map Some (s @ bs) @ drop (length bs) (Some NUL # rest))"
    using l r by (simp add: write_at_def)
  moreover have "write_byte (map Some (s @ bs) @ drop (length bs) (Some NUL # rest)) (length s + length bs) NUL =
    Ok (map Some (s @ bs) @ Some NUL # drop (length bs) rest)"
    using l by (simp add: write_byte_def write_at_def)
  ultimately show ?thesis
    using l r by (auto intro!: holdsI [of _ _ "drop (length bs) rest"])
qed

lemma stringbuf_appendbytes:
  assumes "holds b s" "fits (length s + length bytes)"
  shows "gives (svn_stringbuf_appendbytes b bytes) (s @ bytes)"
proof (cases "bytes = []")
  case False
  have n: "size_add (sb_len b) (length bytes) = length s + length bytes"
    using assms fits_limit [OF assms(2)] by (simp add: holds_def)
  obtain b' where b': "svn_stringbuf_ensure b (length s + length bytes) = Ok b'" "holds b' s"
    "length s + length bytes < sb_blocksize b'"
    using ensure_gives [OF assms] by metis
  show ?thesis
    using extend_holds [OF b'(2,3)] False b'(1) by (simp add: svn_stringbuf_appendbytes_def n Let_def)
qed (use assms in \<open>simp add: svn_stringbuf_appendbytes_def\<close>)

lemma stringbuf_appendbyte:
  assumes "holds b s" "fits (length s + 1)"
  shows "gives (svn_stringbuf_appendbyte b c) (s @ [c])"
proof (cases "sb_blocksize b > size_add (sb_len b) 1")
  case True
  have "sb_len b = length s" "size_add (sb_len b) 1 = length s + 1"
    using assms fits_limit [OF assms(2)] by (simp_all add: holds_def)
  then show ?thesis
    using extend_holds [OF assms(1), of "[c]"] True by (simp add: svn_stringbuf_appendbyte_def Let_def write_byte_def)
next
  case False
  then show ?thesis using stringbuf_appendbytes [OF assms(1), of "[c]"] assms(2) by (simp add: svn_stringbuf_appendbyte_def)
qed

lemma stringbuf_appendfill:
  assumes "holds b s" "fits (length s + n)"
  shows "gives (svn_stringbuf_appendfill b c n) (s @ replicate n c)"
proof -
  have n: "size_add (sb_len b) n = length s + n" using assms fits_limit [OF assms(2)] by (simp add: holds_def)
  obtain b' where b': "svn_stringbuf_ensure b (length s + n) = Ok b'" "holds b' s" "length s + n < sb_blocksize b'"
    using ensure_gives [OF assms] by metis
  show ?thesis
    using extend_holds [OF b'(2), of "replicate n c"] b' by (simp add: svn_stringbuf_appendfill_def n Let_def)
qed

lemma stringbuf_appendstr:
  assumes "holds b s" "holds a t" "fits (length s + length t)"
  shows "gives (svn_stringbuf_appendstr b a) (s @ t)"
  using stringbuf_appendbytes [OF assms(1,3)] by (simp add: svn_stringbuf_appendstr_def holds_read [OF assms(2)])

lemma stringbuf_appendcstr:
  "holds b s \<Longrightarrow> fits (length s + length t) \<Longrightarrow> gives (svn_stringbuf_appendcstr b t) (s @ t)"
  by (simp add: svn_stringbuf_appendcstr_def stringbuf_appendbytes)

lemma stringbuf_create_ensure:
  assumes "fits n"
  obtains b where "svn_stringbuf_create_ensure n = Ok b" "holds b []" "n < sb_blocksize b"
proof -
  have n: "size_add (size_add n 1) sizeof_stringbuf = n + 33"
    using fits_limit [OF assms] by (simp add: sizeof_stringbuf_def)
  let ?m = "APR_ALIGN_DEFAULT (n + 33)"
  have m: "n + 33 \<le> ?m" "?m \<le> n + 40" "?m < size_limit"
    using align_bounds [of "n + 33"] fits_limit [OF assms] by simp_all
  let ?b = "\<lparr>sb_data = Some NUL # replicate (?m - 33) None, sb_len = 0, sb_blocksize = ?m - 32\<rparr>"
  have "svn_stringbuf_create_ensure n = Ok ?b"
    using m by (simp add: svn_stringbuf_create_ensure_def n membuf_create_def sizeof_stringbuf_def write_byte_def
        write_at_def Let_def add.commute)
  moreover have "holds ?b []"
    using m by (intro holdsI [of _ _ "replicate (?m - 33) None"]) auto
  ultimately show ?thesis using that m by simp
qed

lemma stringbuf_create_empty: "gives svn_stringbuf_create_empty []"
  by (rule stringbuf_create_ensure [of 0]) (simp_all add: svn_stringbuf_create_empty_def fits_def)

lemma stringbuf_ncreate:
  assumes "fits (length bytes)"
  shows "gives (svn_stringbuf_ncreate bytes) bytes"
proof -
  obtain b where b: "svn_stringbuf_create_ensure (length bytes) = Ok b" "holds b []" "length bytes < sb_blocksize b"
    using stringbuf_create_ensure [OF assms] by metis
  have "gives (cbind (write_at (sb_data b) (sb_len b) (map Some bytes)) (\<lambda>data.
           cbind (write_byte data (length bytes) NUL) (\<lambda>data.
             Ok (b\<lparr>sb_data := data, sb_len := length bytes\<rparr>)))) bytes"
    using extend_holds [OF b(2), of bytes] b(3) by simp
  moreover have "sb_len b = 0" using b(2) by (simp add: holds_def)
  ultimately show ?thesis using b(1) by (cases "bytes = []") (simp_all add: svn_stringbuf_ncreate_def write_at_def)
qed

lemma stringbuf_dup: "holds b s \<Longrightarrow> fits (length s) \<Longrightarrow> gives (svn_stringbuf_dup b) s"
  by (simp add: svn_stringbuf_dup_def holds_read stringbuf_ncreate)

lemma stringbuf_create_wrap: "fits (length s) \<Longrightarrow> holds (svn_stringbuf_create_wrap s) s"
  by (rule holdsI [of _ _ "[]"]) (use fits_limit in \<open>force simp: svn_stringbuf_create_wrap_def\<close>)+

section \<open>Cutting and replacing\<close>

lemma stringbuf_fillchar:
  assumes "holds b s"
  shows "gives (svn_stringbuf_fillchar b c) (replicate (length s) c)"
  using assms
  by (rule holdsE) (auto simp: svn_stringbuf_fillchar_def write_at_def intro!: holdsI)

lemma stringbuf_set:
  assumes "holds b s" "fits (length t)"
  shows "gives (svn_stringbuf_set b t) t"
proof -
  have s: "size_add (length t) (Suc 0) = Suc (length t)" using fits_limit [OF assms(2)] by simp
  have w: "gives (cbind (write_at data 0 (map Some t @ [Some NUL])) (\<lambda>data.
      Ok (b'\<lparr>sb_data := data, sb_len := length t\<rparr>))) t"
    if "sb_blocksize b' = length data" "length t < length data" "length data < size_limit" for data b'
    using that by (auto simp: write_at_def intro!: holdsI [of _ _ "drop (Suc (length t)) data"])
  have b: "length (sb_data b) < size_limit" "sb_blocksize b = length (sb_data b)"
    using assms(1) by (simp_all add: holds_def block_ok_def)
  show ?thesis
  proof (rule membuf_ensure_cases [OF assms(2), of "sb_blocksize b"])
    assume "membuf_ensure (sb_blocksize b) (length t + 1) = None" "length t < sb_blocksize b"
    then show ?thesis using w [OF b(2)] b by (simp add: svn_stringbuf_set_def s Let_def)
  next
    fix mem assume "membuf_ensure (sb_blocksize b) (length t + 1) = Some mem" "sb_blocksize b \<le> length t"
      "length t < length mem" "length mem < size_limit"
    then show ?thesis using w [of "b\<lparr>sb_data := mem, sb_blocksize := length mem\<rparr>" mem] by (simp add: svn_stringbuf_set_def s Let_def)
  qed
qed

lemma stringbuf_setempty:
  assumes "holds b s"
  shows "gives (svn_stringbuf_setempty b) []"
  using assms
proof (rule holdsE)
  fix rest assume "sb_data b = map Some s @ Some NUL # rest" "sb_len b = length s"
    "sb_blocksize b = length s + length rest + 1" "length s + length rest + 1 < size_limit"
  then show ?thesis
    by (auto simp: svn_stringbuf_setempty_def write_byte_def write_at_def
        intro!: holdsI [of _ _ "drop 1 (map Some s @ Some NUL # rest)"])
qed

text \<open>Writing a terminator inside the contents cuts them there.\<close>

lemma cut_holds:
  assumes "holds b s" "n \<le> length s"
  shows "gives (cbind (write_byte (sb_data b) n NUL) (\<lambda>data. Ok (b\<lparr>sb_data := data, sb_len := n\<rparr>))) (take n s)"
  using assms(1)
proof (rule holdsE)
  fix rest assume r: "sb_data b = map Some s @ Some NUL # rest" "sb_len b = length s"
    "sb_blocksize b = length s + length rest + 1" "length s + length rest + 1 < size_limit"
  have "write_byte (sb_data b) n NUL =
    Ok (map Some (take n s) @ Some NUL # drop (Suc n) (map Some s @ Some NUL # rest))"
    using assms(2) r by (simp add: write_byte_def write_at_def take_map)
  then show ?thesis
    using assms(2) r by (auto intro!: holdsI [of _ _ "drop (Suc n) (map Some s @ Some NUL # rest)"])
qed

lemma stringbuf_chop:
  assumes "holds b s"
  shows "gives (svn_stringbuf_chop b n) (take (length s - n) s)"
proof -
  have "(if n > sb_len b then 0 else sb_len b - n) = length s - n" using assms by (simp add: holds_def)
  then show ?thesis using cut_holds [OF assms, of "length s - n"] by (simp add: svn_stringbuf_chop_def Let_def)
qed

text \<open>Moving the data pointer forward drops bytes at the front.\<close>

lemma skip_holds:
  assumes "holds b s" "n \<le> length s"
  shows "holds (b\<lparr>sb_data := drop n (sb_data b), sb_len := sb_len b - n, sb_blocksize := sb_blocksize b - n\<rparr>) (drop n s)"
  using assms(1) by (rule holdsE) (use assms(2) in \<open>auto intro!: holdsI simp: drop_map\<close>)

lemma stringbuf_leftchop:
  assumes "holds b s"
  shows "gives (svn_stringbuf_leftchop b n) (drop n s)"
proof -
  have len: "sb_len b = length s" using assms by (simp add: holds_def)
  show ?thesis
  proof (cases "s = []")
    case False
    then show ?thesis
      using len cut_holds [OF assms, of 0] skip_holds [OF assms, of n]
      by (cases "n \<ge> length s") (simp_all add: svn_stringbuf_leftchop_def)
  qed (use assms len in \<open>simp add: svn_stringbuf_leftchop_def\<close>)
qed

text \<open>A move of the bytes from a position up to the terminator, over the bytes in front of it.\<close>

lemma move_tail:
  assumes "holds b s" "pos + old \<le> length s" "length s - old + n < sb_blocksize b"
  obtains data where
    "memmove (sb_data b) (pos + n) (pos + old) (length s - pos - old + 1) = Ok data"
    "length data = length (sb_data b)" "take pos data = map Some (take pos s)"
    "prefix (map Some (drop (pos + old) s) @ [Some NUL]) (drop (pos + n) data)"
  using assms(1)
proof (rule holdsE)
  fix rest assume r: "sb_data b = map Some s @ Some NUL # rest" "sb_len b = length s"
    "sb_blocksize b = length s + length rest + 1" "length s + length rest + 1 < size_limit"
  let ?m = "length s - pos - old + 1" and ?t = "map Some (drop (pos + old) s) @ [Some NUL]"
  have "take ?m (drop (pos + old) (sb_data b)) = ?t" using assms(2) r by (simp add: drop_map)
  then have rd: "read_at (sb_data b) (pos + old) ?m = Ok ?t" using assms(2) r by (simp add: read_at_def)
  have "length ?t = ?m" using assms(2) by simp
  then have w: "pos + n + length ?t \<le> length (sb_data b)" using assms(2,3) r by simp
  let ?d = "take (pos + n) (sb_data b) @ ?t @ drop (pos + n + length ?t) (sb_data b)"
  have "memmove (sb_data b) (pos + n) (pos + old) ?m = Ok ?d" using rd w by (simp add: memmove_def write_at_def)
  moreover have "length ?d = length (sb_data b)" using w by simp
  moreover have "take pos ?d = map Some (take pos s)" using assms(2) r w by (simp add: min_def take_map)
  moreover have "prefix ?t (drop (pos + n) ?d)" using w by (simp add: prefix_def)
  ultimately show ?thesis using that by blast
qed

text \<open>After the move the gap is filled.\<close>

lemma fill_gap:
  assumes "length data = sb_blocksize b" "sb_blocksize b < size_limit" "take pos data = map Some (take pos s)" "pos \<le> length s"
    "prefix (map Some t @ [Some NUL]) (drop (pos + length bs) data)"
  shows "gives (cbind (write_at data pos (map Some bs)) (\<lambda>data.
           Ok (b\<lparr>sb_data := data, sb_len := pos + length bs + length t\<rparr>))) (take pos s @ bs @ t)"
proof -
  obtain rest where rest: "drop (pos + length bs) data = map Some t @ Some NUL # rest"
    using assms(5) by (auto simp: prefix_def)
  have l: "length (drop (pos + length bs) data) = length t + 1 + length rest" using rest by simp
  then have "pos + length bs \<le> length data" by simp
  then have "write_at data pos (map Some bs) = Ok (map Some (take pos s @ bs @ t) @ Some NUL # rest)"
    using assms(3) rest by (simp add: write_at_def)
  then show ?thesis using assms l by (auto intro!: holdsI [of _ _ rest])
qed

lemma memmove_same: "pos + n \<le> length mem \<Longrightarrow> memmove mem pos pos n = Ok mem"
  by (simp add: memmove_def read_at_def write_at_def min_def) (metis append.assoc append_take_drop_id take_add)

lemma stringbuf_remove:
  assumes "holds b s"
  shows "gives (svn_stringbuf_remove b pos n) (take pos s @ drop (pos + n) s)"
proof -
  define p where "p = min pos (length s)"
  define c where "c = min n (length s - p)"
  have len: "sb_len b = length s" "sb_blocksize b < size_limit" "sb_blocksize b = length (sb_data b)" "length s < sb_blocksize b"
    using assms by (auto simp: holds_def block_ok_def)
  have pc: "(if pos > sb_len b then sb_len b else pos) = p" "(if n > sb_len b - p then sb_len b - p else n) = c"
    by (auto simp: p_def c_def len)
  have le: "p + c \<le> length s" by (auto simp: p_def c_def)
  have room: "length s - c + 0 < sb_blocksize b" using len by simp
  obtain data where d: "memmove (sb_data b) (p + 0) (p + c) (length s - p - c + 1) = Ok data"
    "length data = length (sb_data b)" "take p data = map Some (take p s)"
    "prefix (map Some (drop (p + c) s) @ [Some NUL]) (drop (p + 0) data)"
    using move_tail [OF assms le room] by blast
  have "svn_stringbuf_remove b pos n = Ok (b\<lparr>sb_data := data, sb_len := length s - c\<rparr>)"
    unfolding svn_stringbuf_remove_def Let_def pc using d(1) len by simp
  moreover have "write_at data p [] = Ok data" using d(2) le len by (simp add: write_at_def)
  ultimately have "gives (svn_stringbuf_remove b pos n) (take p s @ [] @ drop (p + c) s)"
    using fill_gap [of data b p s "drop (p + c) s" "[]"] d le len by simp
  moreover have "take p s = take pos s" "drop (p + c) s = drop (pos + n) s"
    by (auto simp: p_def c_def min_def)
  ultimately show ?thesis by simp
qed

lemma stringbuf_replace:
  assumes "holds b s" "fits (length s + length bytes)"
  shows "gives (svn_stringbuf_replace b pos n bytes) (take pos s @ bytes @ drop (pos + n) s)"
proof (cases "bytes = []")
  case False
  define p where "p = min pos (length s)"
  define c where "c = min n (length s - p)"
  have len: "sb_len b = length s" using assms(1) by (simp add: holds_def)
  have pc: "(if pos > sb_len b then sb_len b else pos) = p" "(if n > sb_len b - p then sb_len b - p else n) = c"
    by (auto simp: p_def c_def len)
  have le: "p + c \<le> length s" by (auto simp: p_def c_def)
  have z: "size_add (sb_len b) (length bytes - c) = length s + (length bytes - c)"
    using fits_limit [OF assms(2)] len by simp
  obtain b' where b': "(if c < length bytes then svn_stringbuf_ensure b (size_add (sb_len b) (length bytes - c)) else Ok b) = Ok b'"
    "holds b' s" "length s - c + length bytes < sb_blocksize b'"
  proof (cases "c < length bytes")
    case True
    have "fits (length s + (length bytes - c))" using assms(2) by (rule fits_mono) simp
    then obtain b' where b': "svn_stringbuf_ensure b (length s + (length bytes - c)) = Ok b'" "holds b' s"
      "length s + (length bytes - c) < sb_blocksize b'"
      using ensure_gives [OF assms(1)] by metis
    then show ?thesis using that [of b'] True z le by simp
  next
    case False
    have "length s < sb_blocksize b" using assms(1) by (simp add: holds_def block_ok_def)
    then have "length s - c + length bytes < sb_blocksize b" using False le by simp
    then show ?thesis using that [of b] False assms(1) by simp
  qed
  have len': "sb_len b' = length s" "sb_blocksize b' < size_limit" "sb_blocksize b' = length (sb_data b')"
    using b'(2) by (auto simp: holds_def block_ok_def)
  obtain data where d: "memmove (sb_data b') (p + length bytes) (p + c) (length s - p - c + 1) = Ok data"
    "length data = length (sb_data b')" "take p data = map Some (take p s)"
    "prefix (map Some (drop (p + c) s) @ [Some NUL]) (drop (p + length bytes) data)"
    using move_tail [OF b'(2) le b'(3)] by blast
  have same: "memmove (sb_data b') (p + c) (p + c) (length s - p - c + 1) = Ok (sb_data b')"
    using le len' b'(2) by (intro memmove_same) (simp add: holds_def block_ok_def)
  have mv: "(if c \<noteq> length bytes then memmove (sb_data b') (p + length bytes) (p + c) (sb_len b' - p - c + 1)
             else Ok (sb_data b')) = Ok data"
    using d(1) same len' by auto
  have "svn_stringbuf_replace b pos n bytes = cbind (write_at data p (map Some bytes)) (\<lambda>data.
     Ok (b'\<lparr>sb_data := data, sb_len := sb_len b' + length bytes - c\<rparr>))"
    unfolding svn_stringbuf_replace_def Let_def pc using False by (simp only: length_0_conv if_False b'(1) mv cbind_simps)
  moreover have "sb_len b' + length bytes - c = p + length bytes + length (drop (p + c) s)" using le len' by simp
  ultimately have "gives (svn_stringbuf_replace b pos n bytes) (take p s @ bytes @ drop (p + c) s)"
    using fill_gap [of data b' p s "drop (p + c) s" bytes] d le len' by simp
  moreover have "take p s = take pos s" "drop (p + c) s = drop (pos + n) s"
    by (auto simp: p_def c_def min_def)
  ultimately show ?thesis by simp
qed (use stringbuf_remove [OF assms(1)] in \<open>simp add: svn_stringbuf_replace_def\<close>)

text \<open>Inserting is replacing nothing, except that an empty text changes nothing.\<close>

lemma stringbuf_insert:
  assumes "holds b s" "fits (length s + length bytes)"
  shows "gives (svn_stringbuf_insert b pos bytes) (take pos s @ bytes @ drop pos s)"
proof (cases "bytes = []")
  case False
  have len: "sb_len b = length s" using assms(1) by (simp add: holds_def)
  have z: "size_add (length s) (length bytes) = length s + length bytes" using fits_limit [OF assms(2)] by simp
  obtain b' where b': "svn_stringbuf_ensure b (length s + length bytes) = Ok b'" "holds b' s"
    using ensure_gives [OF assms] by metis
  have "sb_len b' = length s" using b'(2) by (simp add: holds_def)
  then have "svn_stringbuf_insert b pos bytes = svn_stringbuf_replace b pos 0 bytes"
    using False by (simp add: svn_stringbuf_insert_def svn_stringbuf_replace_def Let_def len z b'(1))
  then show ?thesis using stringbuf_replace [OF assms, of pos 0] by simp
qed (use assms in \<open>simp add: svn_stringbuf_insert_def\<close>)

section \<open>Searching and stripping\<close>

lemma read_byte_contents: "i < length s \<Longrightarrow> read_byte (map Some s @ rest) i = Ok (s ! i)"
  by (simp add: read_byte_def nth_append)

lemma first_non_whitespace_loop_spec:
  "first_non_whitespace_loop (map Some (u @ s) @ rest) (length u) (length s) =
     Ok (length u + length (takeWhile svn_ctype_isspace s))"
proof (induction s arbitrary: u)
  case (Cons c s)
  have "read_byte (map Some (u @ c # s) @ rest) (length u) = Ok c" by (subst read_byte_contents) auto
  then show ?case using Cons.IH [of "u @ [c]"] by simp
qed simp

lemma string_first_non_whitespace_spec:
  "string_first_non_whitespace (map Some s @ rest) (length s) = Ok (length (takeWhile svn_ctype_isspace s))"
  using first_non_whitespace_loop_spec [of "[]" s rest] by (simp add: string_first_non_whitespace_def)

lemma stringbuf_first_non_whitespace:
  "holds b s \<Longrightarrow> svn_stringbuf_first_non_whitespace b = Ok (length (takeWhile svn_ctype_isspace s))"
  by (erule holdsE) (simp add: svn_stringbuf_first_non_whitespace_def string_first_non_whitespace_spec)

lemma find_char_loop_spec:
  "n \<le> length s \<Longrightarrow> find_char_loop (map Some s @ rest) len c n =
     Ok (case strrchr (take n s) c of Some i \<Rightarrow> i | None \<Rightarrow> len)"
proof (induction n)
  case (Suc n)
  have t: "take (Suc n) s = take n s @ [s ! n]" using Suc.prems by (simp add: take_Suc_conv_app_nth)
  show ?case
  proof (cases "s ! n = c")
    case True
    then have "strrchr (take (Suc n) s) c = Some n" using Suc.prems by (simp add: strrchr_Some)
    then show ?thesis using Suc.prems True by (simp add: read_byte_contents)
  next
    case False
    have "strrchr (take (Suc n) s) c = strrchr (take n s) c"
    proof (cases "strrchr (take n s) c")
      case None
      have "c \<notin> set (take n s)" using None strrchr_None by metis
      then have "c \<notin> set (take (Suc n) s)" using False t by simp
      then show ?thesis using None strrchr_None by metis
    next
      case (Some i)
      then have "i < n \<and> take n s ! i = c \<and> c \<notin> set (drop (Suc i) (take n s))"
        by (auto simp: strrchr_Some)
      then have "strrchr (take (Suc n) s) c = Some i"
        using False Suc.prems t by (simp add: strrchr_Some nth_append)
      then show ?thesis using Some by simp
    qed
    then show ?thesis using Suc False by (simp add: read_byte_contents)
  qed
qed simp

lemma stringbuf_find_char_backward:
  "holds b s \<Longrightarrow> svn_stringbuf_find_char_backward b c = Ok (case strrchr s c of Some i \<Rightarrow> i | None \<Rightarrow> length s)"
  by (erule holdsE) (simp add: svn_stringbuf_find_char_backward_def find_char_backward_def find_char_loop_spec)

lemma stringbuf_compare:
  assumes "holds a s" "holds b t"
  shows "svn_stringbuf_compare a b = Ok (s = t)"
proof -
  have "sb_len a = length s" "sb_len b = length t" using assms by (simp_all add: holds_def)
  then show ?thesis
    using holds_read [OF assms(1)] holds_read [OF assms(2)]
    by (auto simp: svn_stringbuf_compare_def string_compare_def)
qed

text \<open>The text without the white space at both ends.\<close>

definition strip :: "(char \<Rightarrow> bool) \<Rightarrow> string \<Rightarrow> string" where
  "strip space s = List.rev (dropWhile space (List.rev (dropWhile space s)))"

lemma strip_end_loop_spec:
  "n \<le> length s \<Longrightarrow> strip_end_loop (map Some s @ rest) n =
     Ok (length (dropWhile svn_ctype_isspace (List.rev (take n s))))"
  by (induction n) (simp_all add: read_byte_contents take_Suc_conv_app_nth)

lemma take_dropWhile_rev: "take (length (dropWhile p (List.rev s))) s = List.rev (dropWhile p (List.rev s))"
proof -
  have "s = List.rev (dropWhile p (List.rev s)) @ List.rev (takeWhile p (List.rev s))"
    by (metis rev_append rev_rev_ident takeWhile_dropWhile_id)
  then show ?thesis by (metis append_eq_conv_conj length_rev)
qed

lemma isspace_NUL [simp]: "\<not> svn_ctype_isspace NUL"
  by (simp add: svn_ctype_isspace_def)

lemma stringbuf_strip_whitespace:
  assumes "holds b s"
  shows "gives (svn_stringbuf_strip_whitespace b) (strip svn_ctype_isspace s)"
proof -
  let ?k = "length (takeWhile svn_ctype_isspace s)"
  let ?b = "b\<lparr>sb_data := drop ?k (sb_data b), sb_len := sb_len b - ?k, sb_blocksize := sb_blocksize b - ?k\<rparr>"
  have k: "?k \<le> length s" by (rule length_takeWhile_le)
  have d: "drop ?k s = dropWhile svn_ctype_isspace s" by (rule dropWhile_eq_drop [symmetric])
  have h: "holds ?b (dropWhile svn_ctype_isspace s)" using skip_holds [OF assms k] d by simp
  let ?n = "length (dropWhile svn_ctype_isspace (List.rev (dropWhile svn_ctype_isspace s)))"
  have n: "strip_end_loop (sb_data ?b) (sb_len ?b) = Ok ?n"
    using h by (rule holdsE) (simp add: strip_end_loop_spec)
  have "?n \<le> length (dropWhile svn_ctype_isspace s)" by (metis length_dropWhile_le length_rev)
  then have "gives (cbind (write_byte (sb_data ?b) ?n NUL) (\<lambda>data. Ok (?b\<lparr>sb_data := data, sb_len := ?n\<rparr>)))
    (strip svn_ctype_isspace s)"
    using cut_holds [OF h, of ?n] by (simp add: strip_def take_dropWhile_rev)
  moreover have "svn_stringbuf_strip_whitespace b =
     cbind (strip_end_loop (sb_data ?b) (sb_len ?b)) (\<lambda>n.
     cbind (write_byte (sb_data ?b) n NUL) (\<lambda>data. Ok (?b\<lparr>sb_data := data, sb_len := n\<rparr>)))"
    using assms
  proof (rule holdsE)
    fix rest assume r: "sb_data b = map Some s @ Some NUL # rest" "sb_len b = length s"
      "sb_blocksize b = length s + length rest + 1" "length s + length rest + 1 < size_limit"
    show ?thesis
    proof (cases s)
      case Nil
      then show ?thesis using r by (cases b) (simp add: svn_stringbuf_strip_whitespace_def read_byte_def)
    next
      case (Cons c t)
      have "string_first_non_whitespace (drop 1 (sb_data b)) (length t) = Ok (length (takeWhile svn_ctype_isspace t))"
        using r Cons by (simp add: string_first_non_whitespace_spec)
      moreover have "length (takeWhile svn_ctype_isspace t) \<le> length t" by (rule length_takeWhile_le)
      ultimately show ?thesis
        using r Cons by (cases b) (simp add: svn_stringbuf_strip_whitespace_def read_byte_def Let_def)
    qed
  qed
  ultimately show ?thesis using n by simp
qed

end
