(* ===== verification/Stringbuf_Correct.thy ===== *)
theory Stringbuf_Correct
  imports Stringbuf_Ops
begin

text \<open>
  \<^verbatim>\<open>svn_stringbuf_replace_all\<close>, memory buffers and counted strings, and sequences of operations. Any
  sequence of edits on a buffer simulates the same edits on a list (locale \<open>simulation\<close>); replacing
  all occurrences is described by the pieces of the text between them.
\<close>

section \<open>Replacing every occurrence\<close>

text \<open>The pieces of a text between the occurrences of another, found from left to right.\<close>

lemma strstr_Some: "strstr s t = Some i \<Longrightarrow> i + length t \<le> length s \<and> take (length t) (drop i s) = t"
proof (induction s arbitrary: i)
  case (Cons x s)
  show ?case
  proof (cases "prefix t (x # s)")
    case True
    then show ?thesis using Cons.prems prefix_length_le [OF True] by (auto simp: prefix_def)
  qed (use Cons in auto)
qed (auto split: if_splits)

function pieces :: "cstring \<Rightarrow> cstring \<Rightarrow> cstring list" where
  "pieces f s =
     (case strstr s f of
        None \<Rightarrow> [s]
      | Some i \<Rightarrow> if f = [] then [s] else take i s # pieces f (drop (i + length f) s))"
  by pat_completeness auto
termination
proof (relation "measure (\<lambda>(f, s). length s)", goal_cases)
  case (2 f s i)
  then have "i + length f \<le> length s" "f \<noteq> []" using strstr_Some by blast+
  moreover have "0 < length f" using \<open>f \<noteq> []\<close> by simp
  ultimately have "length s - (i + length f) < length s" by linarith
  then show ?case by simp
qed simp

declare pieces.simps [simp del]

lemma pieces_not_Nil [simp]: "pieces f s \<noteq> []"
  by (subst pieces.simps) (auto split: option.split)

lemma join_with_last:
  "ps \<noteq> [] \<Longrightarrow> join_with sep ps = concat (map (\<lambda>p. p @ sep) (butlast ps)) @ last ps"
  by (induction sep ps rule: join_with.induct) auto

text \<open>The pieces are those of the leftmost search, and joined with the text that was searched for they
  are the whole text.\<close>

lemma pieces_join: "f \<noteq> [] \<Longrightarrow> join_with f (pieces f s) = s"
proof (induction f s rule: pieces.induct)
  case (1 f s)
  show ?case
  proof (cases "strstr s f")
    case (Some i)
    have "s = take i s @ f @ drop (i + length f) s"
      using strstr_Some [OF Some] by (metis add.commute append_take_drop_id drop_drop)
    then show ?thesis using 1 Some by (subst pieces.simps) (simp add: join_with_Cons)
  qed (subst pieces.simps, simp)
qed

lemma pieces_last: "f \<noteq> [] \<Longrightarrow> strstr (last (pieces f s)) f = None"
proof (induction f s rule: pieces.induct)
  case (1 f s)
  then show ?case by (subst pieces.simps) (auto split: option.split)
qed

lemma strstr_stop: "strstr s f = Some i \<Longrightarrow> strstr (take i s @ f) f = Some i"
proof (induction s arbitrary: i)
  case (Cons x s)
  show ?case
  proof (cases "prefix f (x # s)")
    case True
    then have "i = 0" using Cons.prems by simp
    then show ?thesis by (cases f) auto
  next
    case False
    then obtain j where j: "strstr s f = Some j" "i = Suc j" using Cons.prems by auto
    have "\<not> prefix f (x # take j s @ f)"
    proof
      assume p: "prefix f (x # take j s @ f)"
      have "s = take j s @ f @ drop (j + length f) s"
        using strstr_Some [OF j(1)] by (metis add.commute append_take_drop_id drop_drop)
      then have "x # s = (x # take j s @ f) @ drop (j + length f) s" by simp
      then have "prefix f (x # s)" using p by (metis append_prefixD prefixI prefix_order.trans)
      then show False using False by simp
    qed
    then show ?thesis using Cons.IH [OF j(1)] j by simp
  qed
qed (auto split: if_splits)

lemma pieces_leftmost: "f \<noteq> [] \<Longrightarrow> \<forall>p \<in> set (butlast (pieces f s)). strstr (p @ f) f = Some (length p)"
proof (induction f s rule: pieces.induct)
  case (1 f s)
  show ?case
  proof (cases "strstr s f")
    case (Some i)
    have "length (take i s) = i" using strstr_Some [OF Some] by simp
    then show ?thesis using 1 Some strstr_stop [OF Some] by (subst pieces.simps) simp
  qed (subst pieces.simps, simp)
qed

section \<open>The loop\<close>

text \<open>During the loop the new contents grow behind the old ones; there is no terminator behind them.\<close>

definition carries :: "svn_stringbuf_t \<Rightarrow> string \<Rightarrow> bool" where
  "carries b s \<longleftrightarrow> block_ok b \<and> sb_len b = length s \<and> prefix (map Some s) (sb_data b)"

lemma carries_ensure:
  assumes "carries b s" "fits n"
  obtains b' where "svn_stringbuf_ensure b n = Ok b'" "carries b' s" "n < sb_blocksize b'"
proof -
  have b: "block_ok b" using assms by (simp add: carries_def)
  obtain b' where b': "svn_stringbuf_ensure b n = Ok b'" "block_ok b'" "sb_len b' = sb_len b"
    "n < sb_blocksize b'" "take (sb_len b + 1) (sb_data b') = take (sb_len b + 1) (sb_data b)"
    using ensure_block [OF b assms(2)] by metis
  have "take (sb_len b) (sb_data b) = map Some s" using assms(1) by (auto simp: carries_def prefix_def)
  then have "take (sb_len b) (sb_data b') = map Some s"
    using b'(5) by (metis le_add1 min_absorb1 take_take)
  then have "prefix (map Some s) (sb_data b')" by (metis take_is_prefix)
  then show ?thesis using that b' assms(1) by (simp add: carries_def)
qed

lemma carries_write:
  assumes "carries b s" "length s + length t < sb_blocksize b"
  obtains data where "write_at (sb_data b) (length s) (map Some t) = Ok data"
    "carries (b\<lparr>sb_data := data, sb_len := length s + length t\<rparr>) (s @ t)"
proof -
  obtain rest where r: "sb_data b = map Some s @ rest" using assms(1) by (auto simp: carries_def prefix_def)
  have l: "length t < length rest" using assms r by (simp add: carries_def block_ok_def)
  let ?d = "map Some (s @ t) @ drop (length t) rest"
  have "write_at (sb_data b) (length s) (map Some t) = Ok ?d" using l r by (simp add: write_at_def)
  moreover have "carries (b\<lparr>sb_data := ?d, sb_len := length s + length t\<rparr>) (s @ t)"
    using assms l r by (simp add: carries_def block_ok_def)
  ultimately show ?thesis by (rule that)
qed

lemma carries_read:
  assumes "carries b s" "start + n \<le> length s"
  shows "read_at (sb_data b) start n = Ok (map Some (take n (drop start s)))"
  using assms by (auto simp: carries_def prefix_def read_at_def drop_map take_map)

lemma carries_copy:
  assumes "carries b s" "start + n \<le> length s" "length s + n < sb_blocksize b"
  obtains data where
    "(if n \<noteq> 0 then cbind (read_at (sb_data b) start n) (write_at (sb_data b) (sb_len b)) else Ok (sb_data b)) = Ok data"
    "carries (b\<lparr>sb_data := data, sb_len := length s + n\<rparr>) (s @ take n (drop start s))"
proof (cases "n = 0")
  case True
  have "b\<lparr>sb_data := sb_data b, sb_len := length s\<rparr> = b" using assms(1) by (cases b) (simp add: carries_def)
  then show ?thesis using that [of "sb_data b"] True assms(1) by simp
next
  case False
  have l: "length (take n (drop start s)) = n" using assms(2) by simp
  obtain data where d: "write_at (sb_data b) (length s) (map Some (take n (drop start s))) = Ok data"
    "carries (b\<lparr>sb_data := data, sb_len := length s + n\<rparr>) (s @ take n (drop start s))"
    using carries_write [OF assms(1), of "take n (drop start s)"] assms(3) unfolding l by blast
  have "sb_len b = length s" using assms(1) by (simp add: carries_def)
  then show ?thesis using that [of data] d False carries_read [OF assms(1,2)] by simp
qed

lemma replace_turn_gives:
  assumes "carries b s" "start + n \<le> length s" "fits (length s + n + length r)"
  obtains b' where "replace_turn b start n r = Ok b'" "carries b' (s @ take n (drop start s) @ r)"
proof -
  have len: "sb_len b = length s" using assms(1) by (simp add: carries_def)
  have z: "size_add (size_add (sb_len b) n) (length r) = length s + n + length r"
    using fits_limit [OF assms(3)] len by simp
  obtain b1 where b1: "svn_stringbuf_ensure b (length s + n + length r) = Ok b1" "carries b1 s"
    "length s + n + length r < sb_blocksize b1"
    using carries_ensure [OF assms(1,3)] by metis
  have "length s + n < sb_blocksize b1" using b1(3) by simp
  then obtain d where d: "(if n \<noteq> 0 then cbind (read_at (sb_data b1) start n) (write_at (sb_data b1) (sb_len b1))
      else Ok (sb_data b1)) = Ok d"
    "carries (b1\<lparr>sb_data := d, sb_len := length s + n\<rparr>) (s @ take n (drop start s))"
    using carries_copy [OF b1(2) assms(2)] by metis
  have l: "length (s @ take n (drop start s)) = length s + n" using assms(2) by simp
  obtain d' where d': "write_at d (length s + n) (map Some r) = Ok d'"
    "carries (b1\<lparr>sb_data := d', sb_len := length s + n + length r\<rparr>) (s @ take n (drop start s) @ r)"
    using carries_write [OF d(2), of r] b1(3) unfolding l by auto
  have "sb_len b1 = length s" using b1(2) by (simp add: carries_def)
  then have "replace_turn b start n r = Ok (b1\<lparr>sb_data := d', sb_len := length s + n + length r\<rparr>)"
    unfolding replace_turn_def z b1(1) cbind_simps d(1) using d'(1) by simp
  then show ?thesis using that d'(2) by blast
qed

definition upto_NUL :: "string \<Rightarrow> cstring" where
  "upto_NUL s = takeWhile (\<lambda>c. c \<noteq> NUL) s"

lemma read_cstring_upto: "read_cstring (map Some s @ Some NUL # rest) = Ok (upto_NUL s)"
  by (induction s) (simp_all add: upto_NUL_def)

lemma upto_NUL_drop: "n \<le> length (upto_NUL s) \<Longrightarrow> upto_NUL (drop n s) = drop n (upto_NUL s)"
proof (induction n arbitrary: s)
  case (Suc n)
  then show ?case by (cases s) (auto simp: upto_NUL_def split: if_splits)
qed simp

lemma find_from_gives:
  assumes "carries b (s @ NUL # t)" "start \<le> length s"
  shows "find_from b start f = Ok (strstr (upto_NUL (drop start s)) f)"
proof -
  obtain rest where "sb_data b = map Some (s @ NUL # t) @ rest" using assms(1) by (auto simp: carries_def prefix_def)
  then have "drop start (sb_data b) = map Some (drop start s) @ Some NUL # map Some t @ rest"
    using assms(2) by (simp add: drop_map)
  then show ?thesis by (simp add: find_from_def read_cstring_upto)
qed

lemma upto_NUL_split: "s = upto_NUL s @ drop (length (upto_NUL s)) s"
  by (metis takeWhile_dropWhile_id dropWhile_eq_drop upto_NUL_def)

text \<open>The loop appends the pieces, each followed by the replacement; the last piece is left over.\<close>

lemma replace_loop_gives:
  assumes "carries b (s @ NUL # t)" "start \<le> length s" "f \<noteq> []" "length s - start < n"
    "fits (length s + length t + length (join_with r (pieces f (upto_NUL (drop start s)))) + 1)"
  shows "\<exists>b' start'. replace_loop n b start k (strstr (upto_NUL (drop start s)) f) f r =
       Ok (b', start', k + (length (pieces f (upto_NUL (drop start s))) - 1)) \<and>
     start' \<le> length s \<and> start \<le> start' \<and>
     drop start' s = last (pieces f (upto_NUL (drop start s))) @ drop (length (upto_NUL (drop start s))) (drop start s) \<and>
     carries b' (s @ NUL # t @ concat (map (\<lambda>p. p @ r) (butlast (pieces f (upto_NUL (drop start s))))))"
  using assms
proof (induction n arbitrary: b start t k)
  case (Suc n)
  let ?w = "upto_NUL (drop start s)"
  show ?case
  proof (cases "strstr ?w f")
    case None
    have "drop start s = ?w @ drop (length ?w) (drop start s)" by (rule upto_NUL_split)
    moreover have "pieces f ?w = [?w]" using None by (subst pieces.simps) simp
    ultimately show ?thesis using Suc.prems None by (auto simp del: drop_drop)
  next
    case (Some i)
    let ?start = "start + i + length f"
    have wl: "length ?w \<le> length s - start" unfolding upto_NUL_def using length_takeWhile_le [of _ "drop start s"] by simp
    have i: "i + length f \<le> length ?w" using strstr_Some [OF Some] by simp
    have le: "?start \<le> length s" using wl i Suc.prems(2) by linarith
    have w: "upto_NUL (drop ?start s) = drop (i + length f) ?w"
      using upto_NUL_drop [OF i] by (simp add: add.commute add.left_commute)
    have ps: "pieces f ?w = take i ?w # pieces f (upto_NUL (drop ?start s))"
      using Some Suc.prems(3) by (subst pieces.simps) (simp add: w)
    have tk: "take i (drop start s) = take i ?w"
      using i by (metis (no_types, lifting) add_leD1 append_take_drop_id min.absorb1 take_append take_take takeWhile_eq_take upto_NUL_def)
    let ?t = "t @ take i ?w @ r"
    have li: "length (take i ?w) = i" using i by simp
    have join: "length (join_with r (pieces f ?w)) = i + length r + length (join_with r (pieces f (upto_NUL (drop ?start s))))"
      using li by (simp add: ps join_with_Cons)
    have "fits (length (s @ NUL # t) + i + length r)" using Suc.prems(5) by (rule fits_mono) (simp add: join)
    moreover have "start + i \<le> length (s @ NUL # t)" using le by simp
    ultimately obtain b1 where b1: "replace_turn b start i r = Ok b1"
      "carries b1 ((s @ NUL # t) @ take i (drop start (s @ NUL # t)) @ r)"
      using replace_turn_gives [OF Suc.prems(1)] by metis
    have "take i (drop start (s @ NUL # t)) = take i ?w" using le Suc.prems(2) tk by simp
    then have c1: "carries b1 (s @ NUL # ?t)" using b1(2) by simp
    have fit: "fits (length s + length ?t + length (join_with r (pieces f (upto_NUL (drop ?start s)))) + 1)"
      using Suc.prems(5) by (rule fits_mono) (use join li in simp)
    have n: "length s - ?start < n" using Suc.prems(2,3,4) le by (cases f) auto
    have "replace_loop (Suc n) b start k (strstr ?w f) f r =
      replace_loop n b1 ?start (k + 1) (strstr (upto_NUL (drop ?start s)) f) f r"
      using Some b1(1) find_from_gives [OF c1 le] by (simp add: Let_def)
    moreover have "drop (length ?w) (drop start s) = drop (length (upto_NUL (drop ?start s))) (drop ?start s)"
    proof -
      have "length ?w + start = length (upto_NUL (drop ?start s)) + ?start" unfolding w using i by simp
      then show ?thesis by (simp only: drop_drop)
    qed
    ultimately show ?thesis using Suc.IH [OF c1 le Suc.prems(3) n fit, of "k + 1"] ps
      by (auto simp: Suc_le_eq length_greater_0_conv)
  qed
qed simp

text \<open>Replacing all occurrences up to the first NUL byte: the pieces between them are joined with the
  replacement.\<close>

definition replaced :: "cstring \<Rightarrow> cstring \<Rightarrow> string \<Rightarrow> string" where
  "replaced f r s = join_with r (pieces f (upto_NUL s)) @ drop (length (upto_NUL s)) s"

lemma replaced_last:
  "replaced f r s = concat (map (\<lambda>p. p @ r) (butlast (pieces f (upto_NUL s)))) @
     last (pieces f (upto_NUL s)) @ drop (length (upto_NUL s)) s"
  by (simp add: replaced_def join_with_last)

lemma no_occurrence: "strstr (upto_NUL s) f = None \<Longrightarrow> replaced f r s = s \<and> length (pieces f (upto_NUL s)) = 1"
  unfolding replaced_def by (subst (1 2) pieces.simps) (simp flip: upto_NUL_split)

lemma remainder_gives:
  assumes "carries b (s @ NUL # t)" "start \<le> length s" "fits (length s + length t + (length s - start) + 1)"
  obtains b' where
    "(if size_sub (length s) start \<noteq> 0
      then cbind (svn_stringbuf_ensure b (size_add (sb_len b) (size_sub (length s) start))) (\<lambda>str.
           cbind (read_at (sb_data str) start (size_sub (length s) start)) (\<lambda>bs.
           cbind (write_at (sb_data str) (sb_len str) bs) (\<lambda>data.
             Ok (str\<lparr>sb_data := data, sb_len := sb_len str + size_sub (length s) start\<rparr>))))
      else Ok b) = Ok b'"
    "carries b' (s @ NUL # t @ drop start s)"
proof -
  have lim: "length s < size_limit" using fits_limit [OF assms(3)] by simp
  have n: "size_sub (length s) start = length s - start" using assms(2) lim by simp
  show ?thesis
  proof (cases "start = length s")
    case True
    then show ?thesis using that [of b] assms(1) n by simp
  next
    case False
    let ?n = "length s - start" and ?c = "s @ NUL # t"
    have len: "sb_len b = length ?c" using assms(1) by (simp add: carries_def)
    have z: "size_add (length ?c) ?n = length ?c + ?n" using fits_limit [OF assms(3)] by simp
    have "fits (length ?c + ?n)" using assms(3) by simp
    then obtain b1 where b1: "svn_stringbuf_ensure b (length ?c + ?n) = Ok b1" "carries b1 ?c" "length ?c + ?n < sb_blocksize b1"
      using carries_ensure [OF assms(1)] by metis
    have l: "length (drop start s) = ?n" by simp
    have "length ?c + length (drop start s) < sb_blocksize b1" using b1(3) by simp
    from carries_write [OF b1(2) this] obtain d where d: "write_at (sb_data b1) (length ?c) (map Some (drop start s)) = Ok d"
      "carries (b1\<lparr>sb_data := d, sb_len := length ?c + ?n\<rparr>) (?c @ drop start s)"
      unfolding l by metis
    have "start + ?n \<le> length ?c" using assms(2) by simp
    then have rd: "read_at (sb_data b1) start ?n = Ok (map Some (drop start s))"
      using carries_read [OF b1(2)] assms(2) by simp
    have "sb_len b1 = length ?c" using b1(2) by (simp add: carries_def)
    then show ?thesis
      using that [of "b1\<lparr>sb_data := d, sb_len := length ?c + ?n\<rparr>"] False assms(2) b1(1) d n rd len z
      by (simp del: length_append)
  qed
qed

text \<open>The new contents are moved to the front and terminated.\<close>

lemma finish_gives:
  assumes "carries b (s @ NUL # t)"
  shows "gives (cbind (memmove (sb_data b) 0 (length s + 1) (length t)) (\<lambda>data.
           cbind (write_byte data (length t) NUL) (\<lambda>data. Ok (b\<lparr>sb_data := data, sb_len := length t\<rparr>)))) t"
proof -
  obtain rest where r: "sb_data b = map Some (s @ NUL # t) @ rest" using assms by (auto simp: carries_def prefix_def)
  have l: "length (sb_data b) < size_limit" "length s + length t + 1 < length (sb_data b)" "sb_blocksize b = length (sb_data b)"
    using assms by (auto simp: carries_def block_ok_def)
  let ?d = "map Some t @ drop (length t) (sb_data b)"
  have "memmove (sb_data b) 0 (length s + 1) (length t) = Ok ?d"
    using l(2) r by (simp add: memmove_def read_at_def write_at_def)
  moreover have "write_byte ?d (length t) NUL = Ok (map Some t @ Some NUL # drop (length t + 1) (sb_data b))"
    using l(2) by (simp add: write_byte_def write_at_def)
  ultimately show ?thesis
    using l by (auto intro!: holdsI [of _ _ "drop (length t + 1) (sb_data b)"])
qed

lemma stringbuf_replace_all_gives:
  assumes "holds b s" "f \<noteq> []" "length s + 1 < sb_blocksize b" "fits (length s + length (replaced f r s) + 1)"
  obtains b' where "svn_stringbuf_replace_all b f r = Ok (b', length (pieces f (upto_NUL s)) - 1)"
    "holds b' (replaced f r s)"
proof -
  have len: "sb_len b = length s" using assms(1) by (simp add: holds_def)
  have find: "find_from b 0 f = Ok (strstr (upto_NUL s) f)"
    using assms(1) by (rule holdsE) (simp add: find_from_def read_cstring_upto)
  show ?thesis
  proof (cases "strstr (upto_NUL s) f")
    case None
    then show ?thesis
      using that [of b] assms(1) find no_occurrence [OF None] by (simp add: svn_stringbuf_replace_all_def)
  next
    case (Some i)
    have lim: "length s + 1 < size_limit" using fits_limit [OF assms(4)] by simp
    let ?b = "b\<lparr>sb_len := length s + 1\<rparr>" and ?ps = "pieces f (upto_NUL s)"
    have c: "carries ?b (s @ NUL # [])" using assms(1,3) by (auto simp: holds_def carries_def block_ok_def)
    have fit: "fits (length s + length [] + length (join_with r (pieces f (upto_NUL (drop 0 s)))) + 1)"
      using assms(4) by (rule fits_mono) (simp add: replaced_def)
    obtain b1 start where b1: "replace_loop (length s + 1) ?b 0 0 (strstr (upto_NUL s) f) f r = Ok (b1, start, length ?ps - 1)"
      "start \<le> length s" "drop start s = last ?ps @ drop (length (upto_NUL s)) s"
      "carries b1 (s @ NUL # concat (map (\<lambda>p. p @ r) (butlast ?ps)))"
      using replace_loop_gives [OF c _ assms(2) _ fit, of "length s + 1" 0] by auto
    let ?t = "concat (map (\<lambda>p. p @ r) (butlast ?ps))"
    have all: "?t @ drop start s = replaced f r s" by (simp add: replaced_last b1(3))
    have "length (replaced f r s) = length ?t + (length s - start)" unfolding all [symmetric] by simp
    then have "fits (length s + length ?t + (length s - start) + 1)" using assms(4) by (simp add: add.assoc)
    from remainder_gives [OF b1(4,2) this] obtain b2 where b2:
      "(if size_sub (length s) start \<noteq> 0
        then cbind (svn_stringbuf_ensure b1 (size_add (sb_len b1) (size_sub (length s) start))) (\<lambda>str.
             cbind (read_at (sb_data str) start (size_sub (length s) start)) (\<lambda>bs.
             cbind (write_at (sb_data str) (sb_len str) bs) (\<lambda>data.
               Ok (str\<lparr>sb_data := data, sb_len := sb_len str + size_sub (length s) start\<rparr>))))
        else Ok b1) = Ok b2" "carries b2 (s @ NUL # replaced f r s)"
      unfolding all by blast
    have l2: "sb_len b2 = length s + length (replaced f r s) + 1" using b2(2) by (simp add: carries_def)
    then have nl: "size_sub (size_sub (sb_len b2) (length s)) 1 = length (replaced f r s)"
      using fits_limit [OF assms(4)] by simp
    have "svn_stringbuf_replace_all b f r =
      cbind (memmove (sb_data b2) 0 (length s + 1) (length (replaced f r s))) (\<lambda>data.
      cbind (write_byte data (length (replaced f r s)) NUL) (\<lambda>data.
        Ok (b2\<lparr>sb_data := data, sb_len := length (replaced f r s)\<rparr>, length ?ps - 1)))"
      unfolding svn_stringbuf_replace_all_def Let_def find len size_add_small [OF lim] cbind_simps b1(1) prod.case b2(1) nl
      using Some by simp
    moreover obtain b3 where "cbind (memmove (sb_data b2) 0 (length s + 1) (length (replaced f r s))) (\<lambda>data.
      cbind (write_byte data (length (replaced f r s)) NUL) (\<lambda>data.
        Ok (b2\<lparr>sb_data := data, sb_len := length (replaced f r s)\<rparr>))) = Ok b3" "holds b3 (replaced f r s)"
      using finish_gives [OF b2(2)] by (rule givesE)
    ultimately show ?thesis using that [of b3] by (auto simp: cbind_Ok_iff)
  qed
qed

section \<open>Blocks without room behind the terminator\<close>

text \<open>The loop counts the terminator as contents. Growing copies the contents and one byte more, which
  is outside the block when the terminator is its last byte.\<close>

lemma stringbuf_replace_all_overrun:
  assumes "holds b s" "sb_blocksize b = length s + 1" "strstr (upto_NUL s) f = Some i" "fits (length s + length r + i + 2)"
  shows "svn_stringbuf_replace_all b f r = Overrun"
proof -
  have len: "sb_len b = length s" and d: "length (sb_data b) = length s + 1"
    using assms(1,2) by (auto simp: holds_def block_ok_def)
  have find: "find_from b 0 f = Ok (strstr (upto_NUL s) f)"
    using assms(1) by (rule holdsE) (simp add: find_from_def read_cstring_upto)
  have lim: "length s + 1 < size_limit" "length s + 1 + i + length r < size_limit"
    using fits_limit [OF assms(4)] by simp_all
  let ?n = "length s + 1 + i + length r"
  have z: "size_add (size_add (sb_len (b\<lparr>sb_len := length s + 1\<rparr>)) i) (length r) = ?n" using lim by simp
  have n: "size_add ?n 1 = ?n + 1" using fits_limit [OF assms(4)] by simp
  obtain mem where "membuf_ensure (sb_blocksize b) (?n + 1) = Some mem" using assms(2) by (simp add: membuf_ensure_def)
  then have "svn_stringbuf_ensure (b\<lparr>sb_len := length s + 1\<rparr>) ?n = Overrun"
    unfolding svn_stringbuf_ensure_def n using d by (simp add: read_at_def)
  then have "replace_turn (b\<lparr>sb_len := length s + 1\<rparr>) 0 i r = Overrun"
    by (simp only: replace_turn_def z cbind_simps)
  then show ?thesis
    unfolding svn_stringbuf_replace_all_def Let_def find len size_add_small [OF lim(1)] cbind_simps
    using assms(3) by simp
qed

lemma ncreate_blocksize:
  assumes "fits (length s)" "svn_stringbuf_ncreate s = Ok b"
  shows "sb_blocksize b = APR_ALIGN_DEFAULT (length s + 33) - 32"
proof -
  have n: "size_add (size_add (length s) 1) sizeof_stringbuf = length s + 33"
    using fits_limit [OF assms(1)] by (simp add: sizeof_stringbuf_def)
  show ?thesis
    using assms(2) unfolding svn_stringbuf_ncreate_def svn_stringbuf_create_ensure_def n
    by (auto simp: cbind_Ok_iff Let_def membuf_create_def sizeof_stringbuf_def split: if_splits)
qed

text \<open>For an empty text the loop finds it again and again.\<close>

lemma strstr_Nil [simp]: "strstr s [] = Some 0"
  by (cases s) simp_all

lemma replace_loop_empty:
  assumes "carries b (s @ NUL # t)" "start \<le> length s" "fits (length s + length t + n * length r + 1)"
  shows "replace_loop n b start k (Some 0) [] r = Diverge"
  using assms
proof (induction n arbitrary: b t k)
  case (Suc n)
  have "fits (length (s @ NUL # t) + 0 + length r)" using Suc.prems(3) by (rule fits_mono) simp
  moreover have "start + 0 \<le> length (s @ NUL # t)" using Suc.prems(2) by simp
  ultimately obtain b1 where b1: "replace_turn b start 0 r = Ok b1" "carries b1 (s @ NUL # t @ r)"
    using replace_turn_gives [OF Suc.prems(1)] by (metis append.assoc append_Cons append_Nil take0)
  have "fits (length s + length (t @ r) + n * length r + 1)" using Suc.prems(3) by (simp add: add.assoc)
  then show ?case
    using Suc.IH [OF b1(2) Suc.prems(2)] b1(1) find_from_gives [OF b1(2) Suc.prems(2), of "[]"] by simp
qed simp

section \<open>Memory buffers and counted strings\<close>

lemma membuf_resize_keeps:
  assumes "mb_data m = Some d" "length d = mb_size m" "fits n"
  obtains m' d' where "svn_membuf__resize m (n + 1) = Ok m'" "mb_data m' = Some d'" "length d' = mb_size m'"
    "n < mb_size m'" "prefix d d'"
proof (rule membuf_ensure_cases [OF assms(3), of "mb_size m"])
  assume "membuf_ensure (mb_size m) (n + 1) = None" "n < mb_size m"
  then show ?thesis using that [of m d] assms by (simp add: svn_membuf__resize_def)
next
  fix mem assume "membuf_ensure (mb_size m) (n + 1) = Some mem" "mb_size m \<le> n" "n < length mem" "length mem < size_limit"
  then show ?thesis
    using that [of "m\<lparr>mb_data := Some (d @ drop (length d) mem), mb_size := length mem\<rparr>" "d @ drop (length d) mem"] assms
    by (simp add: svn_membuf__resize_def read_at_def write_at_def)
qed

lemma string_ncreate:
  assumes "fits (length s)"
  shows "svn_string_ncreate s = Ok (create_string (map Some s @ [Some NUL]) (length s))"
proof -
  have z: "size_add (size_add 16 (length s)) 1 = length s + 17" using fits_limit [OF assms] by simp
  show ?thesis
    unfolding svn_string_ncreate_def Let_def z
    by (auto simp: write_at_def write_byte_def create_string_def)
qed

lemma string_of_buffer:
  "holds b s \<Longrightarrow> fits (length s) \<Longrightarrow>
     svn_string_create_from_buf b = Ok (create_string (map Some s @ [Some NUL]) (length s))"
  by (simp add: svn_string_create_from_buf_def holds_read string_ncreate)

lemma buffer_of_string:
  "fits (length s) \<Longrightarrow> gives (svn_stringbuf_create_from_string (create_string (map Some s @ rest) (length s))) s"
  by (simp add: svn_stringbuf_create_from_string_def create_string_def read_bytes_prefix stringbuf_ncreate)

lemma morphed_buffer_compare:
  "holds a s \<Longrightarrow> holds b t \<Longrightarrow> svn_string_compare (svn_stringbuf__morph_into_string a) (svn_stringbuf__morph_into_string b) = Ok (s = t)"
  using stringbuf_compare
  by (simp add: svn_string_compare_def svn_stringbuf__morph_into_string_def svn_stringbuf_compare_def)

section \<open>Sequences of operations\<close>

text \<open>An implementation whose steps can fail simulates a specification as long as the steps stay within
  its limits; then so do sequences of steps.\<close>

fun run_steps :: "('c \<Rightarrow> 'op \<Rightarrow> 'c cres) \<Rightarrow> 'c \<Rightarrow> 'op list \<Rightarrow> 'c cres" where
  "run_steps step c [] = Ok c"
| "run_steps step c (x # xs) = cbind (step c x) (\<lambda>c. run_steps step c xs)"

fun all_within :: "('a \<Rightarrow> 'op \<Rightarrow> bool) \<Rightarrow> ('a \<Rightarrow> 'op \<Rightarrow> 'a) \<Rightarrow> 'a \<Rightarrow> 'op list \<Rightarrow> bool" where
  "all_within within spec a [] = True"
| "all_within within spec a (x # xs) = (within a x \<and> all_within within spec (spec a x) xs)"

locale simulation =
  fixes rel :: "'c \<Rightarrow> 'a \<Rightarrow> bool"
    and step :: "'c \<Rightarrow> 'op \<Rightarrow> 'c cres"
    and spec :: "'a \<Rightarrow> 'op \<Rightarrow> 'a"
    and within :: "'a \<Rightarrow> 'op \<Rightarrow> bool"
  assumes step_simulates: "rel c a \<Longrightarrow> within a x \<Longrightarrow> \<exists>c'. step c x = Ok c' \<and> rel c' (spec a x)"
begin

lemma run_simulates:
  "rel c a \<Longrightarrow> all_within within spec a xs \<Longrightarrow> \<exists>c'. run_steps step c xs = Ok c' \<and> rel c' (foldl spec a xs)"
proof (induction xs arbitrary: c a)
  case (Cons x xs)
  then obtain c' where "step c x = Ok c'" "rel c' (spec a x)" using step_simulates by fastforce
  then show ?case using Cons by simp
qed simp

end

datatype edit =
    Append string | Append_byte char | Append_fill char nat | Insert nat string | Remove nat nat
  | Replace nat nat string | Chop nat | Leftchop nat | Set_to cstring | Set_empty | Fill char | Strip

fun buffer_step :: "svn_stringbuf_t \<Rightarrow> edit \<Rightarrow> svn_stringbuf_t cres" where
  "buffer_step b (Append bytes) = svn_stringbuf_appendbytes b bytes"
| "buffer_step b (Append_byte c) = svn_stringbuf_appendbyte b c"
| "buffer_step b (Append_fill c n) = svn_stringbuf_appendfill b c n"
| "buffer_step b (Insert pos bytes) = svn_stringbuf_insert b pos bytes"
| "buffer_step b (Remove pos n) = svn_stringbuf_remove b pos n"
| "buffer_step b (Replace pos n bytes) = svn_stringbuf_replace b pos n bytes"
| "buffer_step b (Chop n) = svn_stringbuf_chop b n"
| "buffer_step b (Leftchop n) = svn_stringbuf_leftchop b n"
| "buffer_step b (Set_to val) = svn_stringbuf_set b val"
| "buffer_step b Set_empty = svn_stringbuf_setempty b"
| "buffer_step b (Fill c) = svn_stringbuf_fillchar b c"
| "buffer_step b Strip = svn_stringbuf_strip_whitespace b"

fun edited :: "string \<Rightarrow> edit \<Rightarrow> string" where
  "edited s (Append bytes) = s @ bytes"
| "edited s (Append_byte c) = s @ [c]"
| "edited s (Append_fill c n) = s @ replicate n c"
| "edited s (Insert pos bytes) = take pos s @ bytes @ drop pos s"
| "edited s (Remove pos n) = take pos s @ drop (pos + n) s"
| "edited s (Replace pos n bytes) = take pos s @ bytes @ drop (pos + n) s"
| "edited s (Chop n) = take (length s - n) s"
| "edited s (Leftchop n) = drop n s"
| "edited s (Set_to val) = val"
| "edited s Set_empty = []"
| "edited s (Fill c) = replicate (length s) c"
| "edited s Strip = strip svn_ctype_isspace s"

text \<open>The bytes an edit adds, and the limit on the total.\<close>

fun added :: "edit \<Rightarrow> nat" where
  "added (Append bytes) = length bytes"
| "added (Append_byte c) = 1"
| "added (Append_fill c n) = n"
| "added (Insert pos bytes) = length bytes"
| "added (Remove pos n) = 0"
| "added (Replace pos n bytes) = length bytes"
| "added (Chop n) = 0"
| "added (Leftchop n) = 0"
| "added (Set_to val) = length val"
| "added Set_empty = 0"
| "added (Fill c) = 0"
| "added Strip = 0"

definition edit_fits :: "string \<Rightarrow> edit \<Rightarrow> bool" where
  "edit_fits s e \<longleftrightarrow> fits (length s + added e)"

lemmas buffer_operations =
  stringbuf_appendbytes stringbuf_appendbyte stringbuf_appendfill stringbuf_insert stringbuf_remove stringbuf_replace
  stringbuf_chop stringbuf_leftchop stringbuf_setempty stringbuf_fillchar stringbuf_strip_whitespace

lemma buffer_step_gives: "holds b s \<Longrightarrow> edit_fits s e \<Longrightarrow> gives (buffer_step b e) (edited s e)"
  by (cases e) (auto simp: edit_fits_def intro: buffer_operations stringbuf_set [OF _ fits_mono])

interpretation buffers: simulation holds buffer_step edited edit_fits
proof
  fix b s e assume "holds b s" "edit_fits s e"
  then have "gives (buffer_step b e) (edited s e)" by (rule buffer_step_gives)
  then show "\<exists>b'. buffer_step b e = Ok b' \<and> holds b' (edited s e)" by (rule givesE) blast
qed

section \<open>Properties\<close>

text \<open>C32. A string buffer is a list of bytes: after any sequence of the editing operations, none of which
  exceeds the size limit, every call has returned, no byte outside a block was touched, and the buffer
  holds what the same edits make of the list, with a terminator behind it.\<close>

theorem stringbuf_edits:
  assumes "holds b s" "all_within edit_fits edited s es"
  shows "gives (run_steps buffer_step b es) (foldl edited s es)"
  using buffers.run_simulates [OF assms] by (auto simp: gives_def)

theorem stringbuf_edits_witness:
  "gives (run_steps buffer_step (svn_stringbuf_create_wrap ''  ab'')
     [Append ''cdefgh'', Insert 3 ''XY'', Remove 8 2, Replace 0 1 ''---'', Leftchop 3, Chop 1, Strip]) ''aXYbcdg''"
proof -
  let ?es = "[Append ''cdefgh'', Insert 3 ''XY'', Remove 8 2, Replace 0 1 ''---'', Leftchop 3, Chop 1, Strip]"
  have "holds (svn_stringbuf_create_wrap ''  ab'') ''  ab''" by (rule stringbuf_create_wrap) (simp add: fits_def)
  moreover have "all_within edit_fits edited ''  ab'' ?es" by (simp add: edit_fits_def fits_def)
  moreover have "foldl edited ''  ab'' ?es = ''aXYbcdg''" by code_simp
  ultimately show ?thesis using stringbuf_edits [of "svn_stringbuf_create_wrap ''  ab''" "''  ab''" ?es] by simp
qed


definition sample_buffer :: svn_stringbuf_t where
  "sample_buffer = \<lparr>sb_data = map Some ''a--b--'' @ Some NUL # replicate 9 None, sb_len = 6, sb_blocksize = 16\<rparr>"


text \<open>When the terminator is the last byte of the block, \<^verbatim>\<open>svn_stringbuf_replace_all\<close> reads the byte
  behind the block as soon as there is something to replace. A buffer made by
  \<^verbatim>\<open>svn_stringbuf_create\<close> is of this kind when the length of its text is 7 modulo 8.\<close>

theorem replace_all_reads_past_block:
  assumes "length s mod 8 = 7" "strstr (upto_NUL s) f = Some i" "fits (length s + length r + i + 2)"
  shows "cbind (svn_stringbuf_ncreate s) (\<lambda>b. svn_stringbuf_replace_all b f r) = Overrun"
proof -
  have fit: "fits (length s)" using assms(3) by (rule fits_mono) simp
  obtain b where b: "svn_stringbuf_ncreate s = Ok b" "holds b s" using stringbuf_ncreate [OF fit] by (rule givesE)
  have "sb_blocksize b = APR_ALIGN_DEFAULT (length s + 33) - 32" using b(1) by (rule ncreate_blocksize [OF fit])
  moreover have "APR_ALIGN_DEFAULT (length s + 33) = length s + 33"
  proof -
    have "size_add (length s + 33) 7 = length s + 40" using fits_limit [OF fit] by simp
    then have "APR_ALIGN_DEFAULT (length s + 33) = (length s + 40) div 8 * 8" by (simp add: APR_ALIGN_DEFAULT_def)
    also have "\<dots> = length s + 33" using assms(1) by presburger
    finally show ?thesis .
  qed
  ultimately show ?thesis using stringbuf_replace_all_overrun [OF b(2) _ assms(2,3)] b(1) by simp
qed

end
