(* ===== verification/Number_Print.thy ===== *)
theory Number_Print
  imports Range_Text Stringbuf_Correct
begin

text \<open>
  Numbers as text in \<^verbatim>\<open>string.c\<close>: the fast decimal printer \<^verbatim>\<open>svn__ui64toa\<close>, which fills a buffer
  of 21 bytes from the back two digits at a time, and printing with separators and in base 36. Every number of 64 bits
  is printed correctly, inside the buffers, and base 36 reads back.

  Unsigned 64 bit numbers are naturals below \<open>2^64\<close>, signed ones integers; casts to 32 bits are written out.
  What a function writes to its argument \<^verbatim>\<open>dest\<close> is returned, terminator included, with the number it returns.
\<close>

section \<open>Decimal numbers\<close>

definition SVN_INT64_BUFFER_SIZE :: nat where
  "SVN_INT64_BUFFER_SIZE = 21"

text \<open>The table has the two digits of every number below 100, with leading zeros.\<close>

definition decimal_table :: "string list" where
  "decimal_table = map (\<lambda>i. [octal_digit (i div 10), octal_digit (i mod 10)]) [0..<100]"

text \<open>\<^verbatim>\<open>COPY_TWO_BYTES\<close> into the buffer.\<close>

definition copy_two_bytes :: "memory \<Rightarrow> int \<Rightarrow> nat \<Rightarrow> memory cres" where
  "copy_two_bytes buffer target n =
     (if target < 0 \<or> length decimal_table \<le> n then Overrun
      else write_at buffer (nat target) (map Some (decimal_table ! n)))"

function write_groups :: "nat \<Rightarrow> memory \<Rightarrow> int \<Rightarrow> (nat \<times> memory \<times> int) cres" where
  "write_groups number buffer target =
     (if number \<ge> 100000000 then
        let reduced = number mod 100000000 mod 2 ^ 32; number = number div 100000000 in
        cbind (copy_two_bytes buffer target (reduced mod 100)) (\<lambda>buffer.
        let reduced = reduced div 100 in
        cbind (copy_two_bytes buffer (target - 2) (reduced mod 100)) (\<lambda>buffer.
        let reduced = reduced div 100 in
        cbind (copy_two_bytes buffer (target - 4) (reduced mod 100)) (\<lambda>buffer.
        let reduced = reduced div 100 in
        cbind (copy_two_bytes buffer (target - 6) (reduced mod 100)) (\<lambda>buffer.
          write_groups number buffer (target - 8)))))
      else Ok (number, buffer, target))"
  by pat_completeness auto
termination by (relation "measure fst") auto

function write_pairs :: "nat \<Rightarrow> memory \<Rightarrow> int \<Rightarrow> (nat \<times> memory \<times> int) cres" where
  "write_pairs reduced buffer target =
     (if reduced \<ge> 100 then
        cbind (copy_two_bytes buffer target (reduced mod 100)) (\<lambda>buffer.
          write_pairs (reduced div 100) buffer (target - 2))
      else Ok (reduced, buffer, target))"
  by pat_completeness auto
termination by (relation "measure fst") auto

declare write_groups.simps [simp del] write_pairs.simps [simp del]

definition svn__ui64toa :: "nat \<Rightarrow> (memory \<times> nat) cres" where
  "svn__ui64toa number =
     (if number < 100 then
        if number < 10 then Ok ([Some (char_of (48 + number)), Some NUL], 1)
        else Ok (map Some (decimal_table ! number) @ [Some NUL], 2)
      else
        cbind (write_byte (replicate SVN_INT64_BUFFER_SIZE None) (SVN_INT64_BUFFER_SIZE - 1) NUL) (\<lambda>buffer.
        cbind (write_groups number buffer (int SVN_INT64_BUFFER_SIZE - 3)) (\<lambda>(number, buffer, target).
        cbind (write_pairs (number mod 2 ^ 32) buffer target) (\<lambda>(reduced, buffer, target).
        cbind (copy_two_bytes buffer target reduced) (\<lambda>buffer.
          let target = (if reduced < 10 then target + 1 else target) in
          if target < 0 then Overrun
          else
            cbind (read_at buffer (nat target) (SVN_INT64_BUFFER_SIZE - nat target)) (\<lambda>bytes.
              Ok (bytes, SVN_INT64_BUFFER_SIZE - nat target - 1)))))))"

definition svn__i64toa :: "int \<Rightarrow> (memory \<times> nat) cres" where
  "svn__i64toa number =
     (if number \<ge> 0 then svn__ui64toa (nat number)
      else
        cbind (svn__ui64toa (nat ((0 - number mod 2 ^ 64) mod 2 ^ 64))) (\<lambda>(bytes, n).
          Ok (Some (CHR ''-'') # bytes, n + 1)))"

text \<open>The index \<open>i\<close> of the loop goes down by three; every turn moves the bytes from \<open>i - 3\<close> on by one.\<close>

function sep_loop :: "memory \<Rightarrow> char \<Rightarrow> nat \<Rightarrow> nat \<Rightarrow> (memory \<times> nat) cres" where
  "sep_loop buffer separator len i =
     (if i > 3 then
        cbind (memmove buffer (i - 2) (i - 3) (len - i + 3)) (\<lambda>buffer.
        cbind (write_byte buffer (i - 3) separator) (\<lambda>buffer.
          sep_loop buffer separator (len + 1) (i - 3)))
      else Ok (buffer, len))"
  by pat_completeness auto
termination by (relation "measure (\<lambda>(_, _, _, i). i)") auto

declare sep_loop.simps [simp del]

definition ui64toa_sep :: "nat \<Rightarrow> char \<Rightarrow> memory \<Rightarrow> memory cres" where
  "ui64toa_sep number separator buffer =
     cbind (svn__ui64toa number) (\<lambda>(bytes, len).
     cbind (write_at buffer 0 bytes) (\<lambda>buffer.
     cbind (sep_loop buffer separator len len) (\<lambda>(buffer, len).
       write_byte buffer len NUL)))"

definition svn__ui64toa_sep :: "nat \<Rightarrow> char \<Rightarrow> cstring cres" where
  "svn__ui64toa_sep number separator =
     cbind (ui64toa_sep number separator (replicate (2 * SVN_INT64_BUFFER_SIZE) None)) read_cstring"

text \<open>Negating the smallest number overflows; its cast gives \<open>2^63\<close> in two's complement.\<close>

definition svn__i64toa_sep :: "int \<Rightarrow> char \<Rightarrow> cstring cres" where
  "svn__i64toa_sep number separator =
     (let buffer = replicate (2 * SVN_INT64_BUFFER_SIZE) None in
      if number < 0 then
        cbind (write_byte buffer 0 (CHR ''-'')) (\<lambda>buffer.
        cbind (ui64toa_sep (nat (- number mod 2 ^ 64)) separator (drop 1 buffer)) (\<lambda>rest.
          read_cstring (take 1 buffer @ rest)))
      else cbind (ui64toa_sep (nat number) separator buffer) read_cstring)"

section \<open>Base 36\<close>

text \<open>The digits from the last one on, in a buffer of 21 bytes.\<close>

function base36_digits :: "nat \<Rightarrow> string \<Rightarrow> string cres" where
  "base36_digits n buffer =
     (if n > 0 then
        let c = n mod 36 in
        if length buffer \<ge> SVN_INT64_BUFFER_SIZE then Overrun
        else base36_digits (n div 36) (buffer @ [char_of (if c \<le> 9 then c + 48 else c - 10 + 97)])
      else Ok buffer)"
  by pat_completeness auto
termination by (relation "measure fst") auto

declare base36_digits.simps [simp del]

definition svn__ui64tobase36 :: "nat \<Rightarrow> cstring cres" where
  "svn__ui64tobase36 n =
     (if n < 10 then Ok [char_of (n + 48)] else cbind (base36_digits n []) (\<lambda>buffer. Ok (List.rev buffer)))"

text \<open>The values of at most 21 digits, and the rest of the text.\<close>

fun base36_values :: "nat list \<Rightarrow> cstring \<Rightarrow> nat list \<times> cstring" where
  "base36_values digits source =
     (if length digits < SVN_INT64_BUFFER_SIZE then
        case source of
          [] \<Rightarrow> (digits, [])
        | c # rest \<Rightarrow>
            let n = (of_char c :: nat) in
            if n < 97 then if n < 48 \<or> n > 57 then (digits, source) else base36_values (digits @ [n - 48]) rest
            else if n > 122 then (digits, source) else base36_values (digits @ [n - 87]) rest
      else (digits, source))"

declare base36_values.simps [simp del]

fun base36_fold :: "64 word \<Rightarrow> 64 word \<Rightarrow> nat list \<Rightarrow> 64 word" where
  "base36_fold result factor [] = result"
| "base36_fold result factor (d # ds) = base36_fold (result + factor * of_nat d) (factor * 36) ds"

definition svn__base36toui64 :: "cstring \<Rightarrow> 64 word \<times> cstring" where
  "svn__base36toui64 source =
     (case base36_values [] source of (digits, rest) \<Rightarrow> (base36_fold 0 1 (List.rev digits), rest))"

section \<open>Printing decimal numbers\<close>

definition two_digits :: "nat \<Rightarrow> string" where
  "two_digits n = [octal_digit (n div 10), octal_digit (n mod 10)]"

lemma two_digits_table: "n < 100 \<Longrightarrow> decimal_table ! n = two_digits n" "length decimal_table = 100"
  by (simp_all add: decimal_table_def two_digits_def)

lemma decimal_nat_pair:
  assumes "0 < q" "r < 100"
  shows "decimal_nat (q * 100 + r) = decimal_nat q @ two_digits r"
proof -
  have "decimal_nat (q * 100 + r) = decimal_nat (q * 10 + r div 10) @ [octal_digit (r mod 10)]"
  proof -
    have "(q * 100 + r) div 10 = q * 10 + r div 10" "(q * 100 + r) mod 10 = r mod 10"
      using div_mult_self4 [of 10 "q * 10" r] mod_mult_self4 [of 10 "q * 10" r] by (simp_all add: mult.commute)
    then show ?thesis using assms by (subst decimal_nat.simps) simp
  qed
  also have "decimal_nat (q * 10 + r div 10) = decimal_nat q @ [octal_digit (r div 10)]"
    using assms by (subst decimal_nat.simps) auto
  finally show ?thesis by (simp add: two_digits_def)
qed

lemma decimal_nat_pair': "100 \<le> n \<Longrightarrow> decimal_nat n = decimal_nat (n div 100) @ two_digits (n mod 100)"
  using decimal_nat_pair [of "n div 100" "n mod 100"] by simp

lemma length_two_digits [simp]: "length (two_digits n) = 2"
  by (simp add: two_digits_def)

text \<open>The buffer behind \<open>target + 2\<close> has the digits written so far.\<close>

definition filled :: "memory \<Rightarrow> int \<Rightarrow> string \<Rightarrow> bool" where
  "filled buffer target t \<longleftrightarrow>
     length buffer = 21 \<and> target = 18 - int (length t) \<and> even (length t) \<and> length t \<le> 20 \<and>
     drop (20 - length t) buffer = map Some t @ [Some NUL]"

lemma copy_two_bytes_filled:
  assumes "filled buffer target t" "length t < 20" "n < 100"
  obtains buffer' where "copy_two_bytes buffer target n = Ok buffer'" "filled buffer' (target - 2) (two_digits n @ t)"
proof -
  have t: "length t \<le> 18" "nat target = 18 - length t" "0 \<le> target" using assms by (auto simp: filled_def elim: evenE)
  let ?b = "take (18 - length t) buffer @ map Some (two_digits n) @ drop (20 - length t) buffer"
  have "copy_two_bytes buffer target n = Ok ?b"
  proof -
    have "Suc (Suc (18 - length t)) = 20 - length t" using t by simp
    then show ?thesis
      using assms t two_digits_table by (simp add: copy_two_bytes_def write_at_def filled_def)
  qed
  moreover have "filled ?b (target - 2) (two_digits n @ t)"
    using assms t by (simp add: filled_def)
  ultimately show ?thesis by (rule that)
qed

lemma write_pairs_filled:
  assumes "filled buffer target t" "0 < n" "length (decimal_nat n) + length t \<le> 20"
  shows "\<exists>q buffer' target' t'. write_pairs n buffer target = Ok (q, buffer', target') \<and> 0 < q \<and> q < 100 \<and>
    filled buffer' target' t' \<and> decimal_nat n @ t = decimal_nat q @ t'"
  using assms
proof (induction n buffer target arbitrary: t rule: write_pairs.induct)
  case (1 n buffer target)
  show ?case
  proof (cases "100 \<le> n")
    case True
    have d: "decimal_nat n = decimal_nat (n div 100) @ two_digits (n mod 100)" using True by (rule decimal_nat_pair')
    then have "length t < 20" using "1.prems"(3) by simp
    then obtain b where b: "copy_two_bytes buffer target (n mod 100) = Ok b" "filled b (target - 2) (two_digits (n mod 100) @ t)"
      using copy_two_bytes_filled [OF "1.prems"(1)] by (metis mod_less_divisor zero_less_numeral)
    have "0 < n div 100" "length (decimal_nat (n div 100)) + length (two_digits (n mod 100) @ t) \<le> 20"
      using True "1.prems"(3) d by (simp_all add: div_greater_zero_iff)
    from "1.IH" [OF True b(1) b(2) this] show ?thesis
      using True b(1) d by (subst write_pairs.simps) simp
  next
    case False
    then show ?thesis using "1.prems" by (subst write_pairs.simps) auto
  qed
qed

lemma mod_mult_div: "0 < a \<Longrightarrow> n mod (a * b) div a = n div a mod (b :: nat)"
  by (simp add: mod_mult2_eq)

lemma decimal_nat_8:
  assumes "100000000 \<le> n"
  shows "decimal_nat n = decimal_nat (n div 100000000) @ two_digits (n mod 100000000 div 100 div 100 div 100 mod 100) @
    two_digits (n mod 100000000 div 100 div 100 mod 100) @ two_digits (n mod 100000000 div 100 mod 100) @
    two_digits (n mod 100000000 mod 100)"
proof -
  have e: "n mod 100000000 mod 100 = n mod 100" "n mod 100000000 div 100 mod 100 = n div 100 mod 100"
    "n mod 100000000 div 100 div 100 mod 100 = n div 100 div 100 mod 100"
    "n mod 100000000 div 100 div 100 div 100 mod 100 = n div 100 div 100 div 100 mod 100"
    "n div 100000000 = n div 100 div 100 div 100 div 100"
    using mod_mult_div [of 100 n 1000000] mod_mult_div [of 100 "n div 100" 10000] mod_mult_div [of 100 "n div 100 div 100" 100]
    by (simp_all add: mod_mod_cancel div_mult2_eq [symmetric])
  have "decimal_nat n = decimal_nat (n div 100) @ two_digits (n mod 100)"
    "decimal_nat (n div 100) = decimal_nat (n div 100 div 100) @ two_digits (n div 100 mod 100)"
    "decimal_nat (n div 100 div 100) = decimal_nat (n div 100 div 100 div 100) @ two_digits (n div 100 div 100 mod 100)"
    "decimal_nat (n div 100 div 100 div 100) =
       decimal_nat (n div 100 div 100 div 100 div 100) @ two_digits (n div 100 div 100 div 100 mod 100)"
    using assms by (intro decimal_nat_pair', linarith)+
  then show ?thesis unfolding e by simp
qed

lemma write_groups_filled:
  assumes "filled buffer target t" "0 < n" "length (decimal_nat n) + length t \<le> 20"
  shows "\<exists>q buffer' target' t'. write_groups n buffer target = Ok (q, buffer', target') \<and> 0 < q \<and> q < 100000000 \<and>
    filled buffer' target' t' \<and> decimal_nat n @ t = decimal_nat q @ t'"
  using assms
proof (induction n buffer target arbitrary: t rule: write_groups.induct)
  case (1 n buffer target)
  show ?case
  proof (cases "100000000 \<le> n")
    case True
    let ?r = "n mod 100000000"
    let ?a = "?r mod 100" and ?b = "?r div 100 mod 100" and ?c = "?r div 100 div 100 mod 100"
      and ?d = "?r div 100 div 100 div 100 mod 100"
    have r: "?r mod 2 ^ 32 = ?r" by (intro mod_less, rule less_trans [of _ 100000000]) simp_all
    have d: "decimal_nat n = decimal_nat (n div 100000000) @ two_digits ?d @ two_digits ?c @ two_digits ?b @ two_digits ?a"
      by (rule decimal_nat_8 [OF True])
    have t: "length t + 8 < 20" using "1.prems"(3) d decimal_nat_ok [of "n div 100000000"] by (cases "decimal_nat (n div 100000000)") auto
    obtain b1 where b1: "copy_two_bytes buffer target ?a = Ok b1" "filled b1 (target - 2) (two_digits ?a @ t)"
      using copy_two_bytes_filled [OF "1.prems"(1), of ?a] t by auto
    obtain b2 where b2: "copy_two_bytes b1 (target - 2) ?b = Ok b2" "filled b2 (target - 4) (two_digits ?b @ two_digits ?a @ t)"
      using copy_two_bytes_filled [OF b1(2), of ?b] t by auto
    obtain b3 where b3: "copy_two_bytes b2 (target - 4) ?c = Ok b3"
      "filled b3 (target - 6) (two_digits ?c @ two_digits ?b @ two_digits ?a @ t)"
      using copy_two_bytes_filled [OF b2(2), of ?c] t by auto
    have len: "length (two_digits ?c @ two_digits ?b @ two_digits ?a @ t) < 20" using t by simp
    have lt: "?d < 100" by (rule mod_less_divisor) simp
    have t8: "target - 6 - 2 = target - 8" by simp
    obtain b4 where b4: "copy_two_bytes b3 (target - 6) ?d = Ok b4"
      "filled b4 (target - 8) (two_digits ?d @ two_digits ?c @ two_digits ?b @ two_digits ?a @ t)"
      using copy_two_bytes_filled [OF b3(2) len lt] unfolding t8 by metis
    have step: "write_groups n buffer target = write_groups (n div 100000000) b4 (target - 8)"
      using True b1(1) b2(1) b3(1) b4(1) by (subst write_groups.simps) (simp add: Let_def r)
    have "0 < n div 100000000" using True by (simp add: div_greater_zero_iff)
    then show ?thesis
      using "1.IH" [OF True refl refl _ refl _ refl _ refl, of b1 b2 b3 b4] b1(1) b2(1) b3(1) b4 r d "1.prems"(3) step
      by simp
  next
    case False
    then show ?thesis using "1.prems" by (subst write_groups.simps) auto
  qed
qed

text \<open>\<^verbatim>\<open>svn__ui64toa\<close> prints the decimal digits and returns their number.\<close>

lemma ui64toa_decimal:
  assumes "n < 2 ^ 64"
  shows "svn__ui64toa n = Ok (map Some (decimal_nat n) @ [Some NUL], length (decimal_nat n))" "length (decimal_nat n) \<le> 20"
proof -
  show l: "length (decimal_nat n) \<le> 20" using assms by (intro decimal_nat_length) simp_all
  show "svn__ui64toa n = Ok (map Some (decimal_nat n) @ [Some NUL], length (decimal_nat n))"
  proof (cases "n < 100")
    case True
    have "decimal_nat n = (if n < 10 then [octal_digit n] else two_digits n)"
      using True by (subst decimal_nat.simps, subst decimal_nat.simps) (auto simp: two_digits_def)
    then show ?thesis
      using True two_digits_table by (simp add: svn__ui64toa_def octal_digit_def add.commute)
  next
    case False
    let ?b = "replicate 20 None @ [Some NUL]"
    have "write_byte (replicate SVN_INT64_BUFFER_SIZE None) (SVN_INT64_BUFFER_SIZE - 1) NUL = Ok ?b"
      by (simp add: SVN_INT64_BUFFER_SIZE_def write_byte_def write_at_def)
    moreover have "filled ?b (int SVN_INT64_BUFFER_SIZE - 3) []" by (simp add: filled_def SVN_INT64_BUFFER_SIZE_def)
    then obtain q b1 t1 s1 where g: "write_groups n ?b (int SVN_INT64_BUFFER_SIZE - 3) = Ok (q, b1, t1)" "0 < q" "q < 100000000"
      "filled b1 t1 s1" "decimal_nat n = decimal_nat q @ s1"
      using write_groups_filled [of ?b "int SVN_INT64_BUFFER_SIZE - 3" "[]" n] False l by auto
    have q: "q mod 2 ^ 32 = q" using g(3) by simp
    obtain p b2 t2 s2 where p: "write_pairs q b1 t1 = Ok (p, b2, t2)" "0 < p" "p < 100" "filled b2 t2 s2"
      "decimal_nat n = decimal_nat p @ s2"
      using write_pairs_filled [OF g(4,2)] g(5) l by auto
    have s2: "length s2 < 20" using p(5) l decimal_nat_ok [of p] by (cases "decimal_nat p") auto
    obtain b3 where b3: "copy_two_bytes b2 t2 p = Ok b3" "filled b3 (t2 - 2) (two_digits p @ s2)"
      using copy_two_bytes_filled [OF p(4) s2 p(3)] by blast
    let ?t = "if p < 10 then t2 + 1 else t2"
    have dp: "decimal_nat p = (if p < 10 then [octal_digit p] else two_digits p)"
      using p(3) by (subst decimal_nat.simps, subst decimal_nat.simps) (auto simp: two_digits_def)
    have t2: "t2 = 18 - int (length s2)" "length b3 = 21" "drop (18 - length s2) b3 = map Some (two_digits p @ s2) @ [Some NUL]"
      using p(4) b3(2) s2 by (auto simp: filled_def)
    have ev: "length s2 \<le> 18" using p(4) s2 by (auto simp: filled_def elim: evenE)
    have nt: "nat ?t = 20 - length (decimal_nat n)" "0 \<le> ?t" "length (decimal_nat n) = length (decimal_nat p) + length s2"
      using p(5) dp t2(1) ev by auto
    have "drop (nat ?t) b3 = map Some (decimal_nat n) @ [Some NUL]"
    proof (cases "p < 10")
      case True
      have "drop (Suc (18 - length s2)) b3 = drop 1 (drop (18 - length s2) b3)" by simp
      then show ?thesis using True t2 nt ev p(5) dp by (simp add: two_digits_def Suc_diff_le [symmetric])
    next
      case False
      then show ?thesis using t2 nt ev p(5) dp by simp
    qed
    then have rd: "read_at b3 (nat ?t) (SVN_INT64_BUFFER_SIZE - nat ?t) = Ok (map Some (decimal_nat n) @ [Some NUL])"
      using t2(2) nt l by (simp add: read_at_def SVN_INT64_BUFFER_SIZE_def)
    have "SVN_INT64_BUFFER_SIZE - nat ?t - 1 = length (decimal_nat n)" using nt l by (simp add: SVN_INT64_BUFFER_SIZE_def)
    then show ?thesis
      using False calculation g(1) q p(1) b3(1) rd nt(2) by (simp add: svn__ui64toa_def Let_def)
  qed
qed

lemma i64toa_decimal:
  assumes "- (2 ^ 63) \<le> n" "n < 2 ^ 63"
  shows "svn__i64toa n = Ok (map Some (decimal n) @ [Some NUL], length (decimal n))"
proof (cases "n \<ge> 0")
  case True
  then show ?thesis using ui64toa_decimal(1) [of "nat n"] assms by (simp add: svn__i64toa_def decimal_def)
next
  case False
  have "(0 - n mod 2 ^ 64) mod 2 ^ 64 = (- n) mod 2 ^ 64" by (simp add: mod_simps)
  also have "\<dots> = - n" using False assms by (intro mod_pos_pos_trivial) simp_all
  finally show ?thesis
    using ui64toa_decimal(1) [of "nat (- n)"] False assms unfolding svn__i64toa_def by (simp add: decimal_def)
qed

section \<open>Separators\<close>

text \<open>Groups of three digits, counted from the end.\<close>

function groups3 :: "string \<Rightarrow> string list" where
  "groups3 s = (if length s \<le> 3 then [s] else groups3 (take (length s - 3) s) @ [drop (length s - 3) s])"
  by pat_completeness auto
termination by (relation "measure length") auto

declare groups3.simps [simp del]

lemma groups3_not_Nil [simp]: "groups3 s \<noteq> []"
  by (subst groups3.simps) simp

lemma groups3_concat: "concat (groups3 s) = s"
proof (induction s rule: groups3.induct)
  case (1 s)
  then show ?case by (cases "length s \<le> 3") (simp_all add: groups3.simps [of s])
qed

lemma groups3_lengths: "s \<noteq> [] \<Longrightarrow> hd (groups3 s) \<noteq> [] \<and> length (hd (groups3 s)) \<le> 3 \<and> (\<forall>g \<in> set (tl (groups3 s)). length g = 3)"
proof (induction s rule: groups3.induct)
  case (1 s)
  show ?case
  proof (cases "length s \<le> 3")
    case True
    then have "groups3 s = [s]" by (subst groups3.simps) simp
    then show ?thesis using True "1.prems" by simp
  next
    case False
    let ?v = "take (length s - 3) s"
    have g: "groups3 s = groups3 ?v @ [drop (length s - 3) s]" using False by (subst groups3.simps) simp
    have w: "length (drop (length s - 3) s) = 3" using False by simp
    have v: "?v \<noteq> []" using False by auto
    obtain x xs where x: "groups3 ?v = x # xs" by (meson groups3_not_Nil list.exhaust)
    show ?thesis using "1.IH" [OF False v] w unfolding g x by simp
  qed
qed

lemma join_with_last_piece: "ps \<noteq> [] \<Longrightarrow> join_with sep (ps @ [p]) = join_with sep ps @ sep @ p"
  by (induction sep ps rule: join_with.induct) auto

lemma join_groups3_step:
  "3 < length s \<Longrightarrow>
     join_with sep (groups3 s) = join_with sep (groups3 (take (length s - 3) s)) @ sep @ drop (length s - 3) s"
  by (subst groups3.simps) (simp add: join_with_last_piece)

lemma join_groups3_length: "length (join_with [c] (groups3 s)) \<le> 2 * length s"
proof (induction s rule: groups3.induct)
  case (1 s)
  show ?case
  proof (cases "length s \<le> 3")
    case True
    then show ?thesis by (subst groups3.simps) simp
  next
    case False
    then show ?thesis using 1 join_groups3_step [of s "[c]"] by simp
  qed
qed

lemma sep_loop_spec:
  assumes "prefix (map Some (u @ t)) buffer"
    "length (join_with [c] (groups3 u)) + length t < length buffer"
  shows "\<exists>buffer'. sep_loop buffer c (length u + length t) (length u) =
      Ok (buffer', length (join_with [c] (groups3 u) @ t)) \<and>
    prefix (map Some (join_with [c] (groups3 u) @ t)) buffer' \<and> length buffer' = length buffer"
  using assms
proof (induction u arbitrary: buffer t rule: groups3.induct)
  case (1 u)
  show ?case
  proof (cases "length u \<le> 3")
    case True
    then show ?thesis using "1.prems" by (subst sep_loop.simps, subst (1 2) groups3.simps) simp
  next
    case False
    let ?i = "length u - 3"
    let ?v = "take ?i u" and ?w = "drop ?i u"
    obtain rest where r: "buffer = map Some (u @ t) @ rest" using "1.prems"(1) by (auto simp: prefix_def)
    have u: "u = ?v @ ?w" "length ?v = ?i" "length ?w = 3" using False by simp_all
    have j: "join_with [c] (groups3 u) = join_with [c] (groups3 ?v) @ [c] @ ?w" using False join_groups3_step [of u "[c]"] by simp
    have "length u \<le> length (join_with [c] (groups3 ?v)) + 3"
    proof -
      have "length (concat ps) \<le> length (join_with [c] ps)" for ps by (induction "[c]" ps rule: join_with.induct) auto
      from this [of "groups3 ?v"] show ?thesis using u(2) by (simp add: groups3_concat)
    qed
    then have room: "rest \<noteq> []" using "1.prems"(2) j r by auto
    have rd: "read_at buffer ?i (length t + 3) = Ok (map Some (?w @ t))"
      using u r False by (simp add: read_at_def drop_map)
    let ?b = "map Some (?v @ c # ?w @ t) @ tl rest"
    have mv: "memmove buffer (length u - 2) ?i (length t + 3) = Ok (take (Suc ?i) buffer @ map Some (?w @ t) @ tl rest)"
    proof -
      have "length u - 2 = Suc ?i" using False by simp
      moreover have "Suc ?i + length (?w @ t) \<le> length buffer" using r u room by (cases rest) auto
      moreover have "drop (Suc ?i + length (?w @ t)) buffer = tl rest" using r u(2,3) False room by (cases rest) auto
      ultimately show ?thesis unfolding memmove_def rd by (simp add: write_at_def)
    qed
    have "write_byte (take (Suc ?i) buffer @ map Some (?w @ t) @ tl rest) ?i c = Ok ?b"
      using r u False by (simp add: write_byte_def write_at_def take_map)
    then have step: "sep_loop buffer c (length u + length t) (length u) = sep_loop ?b c (length ?v + length (c # ?w @ t)) (length ?v)"
      using False mv u(2,3) by (subst sep_loop.simps) (simp add: add.commute Suc_diff_le)
    have "length ?b = length buffer" using r u room by (cases rest) auto
    moreover have "prefix (map Some (?v @ c # ?w @ t)) ?b" by (simp add: prefix_def)
    moreover have "length (join_with [c] (groups3 ?v)) + length (c # ?w @ t) < length ?b"
      using "1.prems"(2) j \<open>length ?b = length buffer\<close> by simp
    ultimately show ?thesis
      using "1.IH" [OF False, of "c # ?w @ t" ?b] step j by simp
  qed
qed

lemma decimal_nat_no_NUL: "NUL \<notin> set (decimal_nat n)"
  using decimal_nat_ok [of n] by (auto simp: ascii_digit_def Let_def)

lemma set_join_groups3: "set (join_with [c] (groups3 s)) \<subseteq> insert c (set s)"
proof -
  have "set (join_with [c] ps) \<subseteq> insert c (set (concat ps))" for ps by (induction "[c]" ps rule: join_with.induct) auto
  from this [of "groups3 s"] show ?thesis by (simp add: groups3_concat)
qed

lemma ui64toa_sep_buffer:
  assumes "n < 2 ^ 64" "40 < length buffer"
  obtains rest where "ui64toa_sep n c buffer = Ok (map Some (join_with [c] (groups3 (decimal_nat n))) @ Some NUL # rest)"
proof -
  let ?d = "decimal_nat n" and ?j = "join_with [c] (groups3 (decimal_nat n))"
  have l: "length ?d \<le> 20" by (rule ui64toa_decimal(2) [OF assms(1)])
  have j: "length ?j \<le> 40" using join_groups3_length [of c ?d] l by simp
  let ?b = "map Some ?d @ Some NUL # drop (Suc (length ?d)) buffer"
  have w: "write_at buffer 0 (map Some ?d @ [Some NUL]) = Ok ?b" using assms(2) l by (simp add: write_at_def)
  have "prefix (map Some (?d @ [])) ?b" by (simp add: prefix_def)
  moreover have "length ?j + length [] < length ?b" using j assms(2) l by simp
  ultimately obtain b where b: "sep_loop ?b c (length ?d) (length ?d) = Ok (b, length ?j)" "prefix (map Some ?j) b" "length b = length ?b"
    using sep_loop_spec [of ?d "[]" ?b c] by auto
  obtain r where r: "b = map Some ?j @ r" using b(2) by (auto simp: prefix_def)
  have "r \<noteq> []" using r b(3) j assms(2) l by auto
  then have "write_byte b (length ?j) NUL = Ok (map Some ?j @ Some NUL # tl r)"
    using r by (cases r) (simp_all add: write_byte_def write_at_def)
  then show ?thesis
    using that [of "tl r"] ui64toa_decimal(1) [OF assms(1)] w b(1) by (simp add: ui64toa_sep_def)
qed

lemma upto_NUL_id: "NUL \<notin> set s \<Longrightarrow> upto_NUL s = s"
  by (auto simp: upto_NUL_def takeWhile_eq_all_conv)

lemma ui64toa_sep_groups:
  assumes "n < 2 ^ 64" "c \<noteq> NUL"
  shows "svn__ui64toa_sep n c = Ok (join_with [c] (groups3 (decimal_nat n)))"
proof -
  have "NUL \<notin> set (join_with [c] (groups3 (decimal_nat n)))"
    using set_join_groups3 decimal_nat_no_NUL assms(2) by blast
  moreover have len: "40 < length (replicate 42 (None :: char option))" by simp
  obtain rest where "ui64toa_sep n c (replicate 42 None) = Ok (map Some (join_with [c] (groups3 (decimal_nat n))) @ Some NUL # rest)"
    using ui64toa_sep_buffer [OF assms(1) len] by blast
  ultimately show ?thesis
    by (simp add: svn__ui64toa_sep_def SVN_INT64_BUFFER_SIZE_def read_cstring_upto upto_NUL_id)
qed

lemma i64toa_sep_groups:
  assumes "- (2 ^ 63) \<le> n" "n < 2 ^ 63" "c \<noteq> NUL"
  shows "svn__i64toa_sep n c =
     Ok ((if n < 0 then ''-'' else []) @ join_with [c] (groups3 (decimal_nat (nat \<bar>n\<bar>))))"
proof (cases "n < 0")
  case False
  then show ?thesis
    using ui64toa_sep_groups [of "nat n" c] assms by (simp add: svn__i64toa_sep_def svn__ui64toa_sep_def)
next
  case True
  let ?j = "join_with [c] (groups3 (decimal_nat (nat (- n))))"
  have m: "nat (- n mod 2 ^ 64) = nat (- n)" using True assms by simp
  have "NUL \<notin> set (CHR ''-'' # ?j)" using set_join_groups3 decimal_nat_no_NUL assms(3) by auto
  then have u: "upto_NUL (CHR ''-'' # ?j) = CHR ''-'' # ?j" by (rule upto_NUL_id)
  have lim: "nat (- n) < 2 ^ 64" using True assms by simp
  have len: "40 < length (replicate 41 (None :: char option))" by simp
  obtain rest where "ui64toa_sep (nat (- n)) c (replicate 41 None) = Ok (map Some ?j @ Some NUL # rest)"
    using ui64toa_sep_buffer [OF lim len] by blast
  then show ?thesis
    using True m u read_cstring_upto [of "CHR ''-'' # ?j" rest]
    by (simp add: svn__i64toa_sep_def Let_def SVN_INT64_BUFFER_SIZE_def write_byte_def write_at_def)
qed

section \<open>Reading back base 36\<close>

definition digit36 :: "nat \<Rightarrow> char" where
  "digit36 d = char_of (if d \<le> 9 then d + 48 else d - 10 + 97)"

definition is_digit36 :: "char \<Rightarrow> bool" where
  "is_digit36 c \<longleftrightarrow> (let n = (of_char c :: nat) in 48 \<le> n \<and> n \<le> 57 \<or> 97 \<le> n \<and> n \<le> 122)"

function little36 :: "nat \<Rightarrow> nat list" where
  "little36 n = (if n = 0 then [] else n mod 36 # little36 (n div 36))"
  by pat_completeness auto
termination by (relation "measure id") auto

declare little36.simps [simp del]

lemma little36_0 [simp]: "little36 0 = []"
  by (simp add: little36.simps)

lemma base36_digits_0 [simp]: "base36_digits 0 buffer = Ok buffer"
  by (simp add: base36_digits.simps)

lemma little36_length: "n < 36 ^ k \<Longrightarrow> length (little36 n) \<le> k"
proof (induction k arbitrary: n)
  case 0
  then show ?case by simp
next
  case (Suc k)
  then have "n div 36 < 36 ^ k" by (simp add: less_mult_imp_div_less mult.commute)
  then show ?case using Suc.IH [of "n div 36"] by (simp add: little36.simps [of n])
qed

lemma little36_digits: "d \<in> set (little36 n) \<Longrightarrow> d < 36"
proof (induction n rule: little36.induct)
  case (1 n)
  show ?case
  proof (cases "n = 0")
    case False
    then have "d = n mod 36 \<or> d \<in> set (little36 (n div 36))" using "1.prems" by (simp add: little36.simps [of n])
    then show ?thesis using "1.IH" [OF False] by auto
  qed (use "1.prems" in simp)
qed

lemma base36_digits_little:
  "length buffer + length (little36 n) \<le> 21 \<Longrightarrow> base36_digits n buffer = Ok (buffer @ map digit36 (little36 n))"
proof (induction n buffer rule: base36_digits.induct)
  case (1 n buffer)
  show ?case
  proof (cases "n = 0")
    case True
    then show ?thesis by simp
  next
    case False
    have l: "little36 n = n mod 36 # little36 (n div 36)" using False by (simp add: little36.simps [of n])
    then have "length buffer < 21" "length (buffer @ [digit36 (n mod 36)]) + length (little36 (n div 36)) \<le> 21"
      using "1.prems" by simp_all
    then show ?thesis
      using "1.IH" [OF _ refl] False l by (simp add: base36_digits.simps [of n buffer] Let_def SVN_INT64_BUFFER_SIZE_def digit36_def)
  qed
qed

lemma digit36_value:
  assumes "d < 36"
  shows "(of_char (digit36 d) :: nat) = (if d \<le> 9 then d + 48 else d + 87)" "is_digit36 (digit36 d)"
  using assms by (auto simp: digit36_def is_digit36_def Let_def)

lemma base36_values_text:
  assumes "\<forall>d \<in> set ds. d < 36" "length acc + length ds < 21" "rest = [] \<or> \<not> is_digit36 (hd rest)"
  shows "base36_values acc (map digit36 ds @ rest) = (acc @ ds, rest)"
  using assms(1,2)
proof (induction ds arbitrary: acc)
  case Nil
  then show ?case
    using assms(3) by (cases rest) (auto simp: base36_values.simps [of acc] SVN_INT64_BUFFER_SIZE_def is_digit36_def Let_def)
next
  case (Cons d ds)
  have "base36_values acc (map digit36 (d # ds) @ rest) = base36_values (acc @ [d]) (map digit36 ds @ rest)"
    using Cons.prems digit36_value [of d] by (subst base36_values.simps) (simp add: SVN_INT64_BUFFER_SIZE_def Let_def)
  then show ?case using Cons by simp
qed

lemma base36_fold_little: "base36_fold r f (little36 n) = r + f * of_nat n"
proof (induction n arbitrary: r f rule: little36.induct)
  case (1 n)
  show ?case
  proof (cases "n = 0")
    case False
    have "base36_fold r f (little36 n) = r + f * of_nat (n mod 36) + f * 36 * of_nat (n div 36)"
      using "1.IH" [OF False] False by (simp add: little36.simps [of n])
    also have "\<dots> = r + f * (of_nat (n mod 36 + 36 * (n div 36)))" by (simp only: of_nat_add of_nat_mult of_nat_numeral distrib_left mult.assoc add.assoc)
    finally show ?thesis by simp
  qed simp
qed

lemma base36_roundtrip:
  assumes "n < 2 ^ 64"
  obtains s where "svn__ui64tobase36 n = Ok s" "s \<noteq> []" "length s \<le> 13" "\<forall>c \<in> set s. is_digit36 c"
    "\<And>rest. rest = [] \<or> \<not> is_digit36 (hd rest) \<Longrightarrow> svn__base36toui64 (s @ rest) = (of_nat n, rest)"
proof -
  let ?ds = "if n = 0 then [0] else List.rev (little36 n)"
  have l: "length (little36 n) \<le> 13" using assms by (intro little36_length) simp
  have d: "\<forall>d \<in> set ?ds. d < 36" using little36_digits by auto
  have ds: "length ?ds \<le> 13" "?ds \<noteq> []" using l little36.simps [of n] by auto
  have "svn__ui64tobase36 n = Ok (map digit36 ?ds)"
  proof (cases "n < 10")
    case True
    then have "?ds = [n]" by (simp add: little36.simps [of n])
    then show ?thesis using True by (simp add: svn__ui64tobase36_def digit36_def)
  next
    case False
    then show ?thesis using base36_digits_little [of "[]" n] l by (simp add: svn__ui64tobase36_def rev_map)
  qed
  moreover have "svn__base36toui64 (map digit36 ?ds @ rest) = (of_nat n, rest)" if "rest = [] \<or> \<not> is_digit36 (hd rest)" for rest
  proof -
    have "base36_values [] (map digit36 ?ds @ rest) = (?ds, rest)"
      using base36_values_text [OF d _ that, of "[]"] ds by simp
    moreover have "base36_fold 0 1 (List.rev ?ds) = of_nat n" by (simp add: base36_fold_little)
    ultimately show ?thesis by (simp add: svn__base36toui64_def)
  qed
  moreover have "\<forall>c \<in> set (map digit36 ?ds). is_digit36 c" using d digit36_value by auto
  ultimately show ?thesis using that [of "map digit36 ?ds"] ds by simp
qed

end
