(* ===== verification/Number_Parse.thy ===== *)
theory Number_Parse
  imports Number_Print
begin

text \<open>
  Reading numbers: the standard's \<^verbatim>\<open>strtol\<close>, the conversion \<^verbatim>\<open>apr_strtoi64\<close> of \<^verbatim>\<open>apr_strings.c\<close> in its
  two versions, the checked parsers of \<^verbatim>\<open>string.c\<close> on top of it, and the simple printers of APR. The theorems
  say which texts the checked parsers accept and that printed numbers read back.
\<close>

section \<open>Parsing numbers\<close>

text \<open>The standard's \<^verbatim>\<open>strtol\<close>, with 64 bits: white space, a sign, \<^verbatim>\<open>0x\<close> in base 16, digits. The result is
  the value, the rest of the text and \<^verbatim>\<open>errno\<close>; without digits the rest is the whole text.\<close>

datatype errno_t = No_errno | EINVAL | ERANGE

definition digit_of :: "char \<Rightarrow> nat option" where
  "digit_of c =
     (let n = (of_char c :: nat) in
      if 48 \<le> n \<and> n \<le> 57 then Some (n - 48)
      else if 65 \<le> n \<and> n \<le> 90 then Some (n - 55)
      else if 97 \<le> n \<and> n \<le> 122 then Some (n - 87)
      else None)"

definition is_digit :: "int \<Rightarrow> char \<Rightarrow> bool" where
  "is_digit base c \<longleftrightarrow> (case digit_of c of Some d \<Rightarrow> int d < base | None \<Rightarrow> False)"

definition number_value :: "int \<Rightarrow> cstring \<Rightarrow> int" where
  "number_value base ds = foldl (\<lambda>v c. v * base + int (the (digit_of c))) 0 ds"

definition skip_sign :: "cstring \<Rightarrow> bool \<times> cstring" where
  "skip_sign s =
     (case s of
        [] \<Rightarrow> (False, [])
      | c # rest \<Rightarrow> if c = CHR ''-'' then (True, rest) else if c = CHR ''+'' then (False, rest) else (False, s))"

definition hex_prefix :: "cstring \<Rightarrow> bool" where
  "hex_prefix s \<longleftrightarrow> c_at s 0 = CHR ''0'' \<and> (c_at s 1 = CHR ''x'' \<or> c_at s 1 = CHR ''X'')"

definition strtol :: "cstring \<Rightarrow> int \<Rightarrow> int \<times> cstring \<times> errno_t" where
  "strtol str base =
     (if base \<noteq> 0 \<and> base < 2 \<or> base > 36 then (0, str, EINVAL)
      else
        case skip_sign (dropWhile svn_ctype_isspace str) of (neg, s) \<Rightarrow>
        let hex = ((base = 0 \<or> base = 16) \<and> hex_prefix s \<and> is_digit 16 (c_at s 2));
            base = (if base \<noteq> 0 then base else if hex then 16 else if c_hd s = CHR ''0'' then 8 else 10);
            s = (if hex then drop 2 s else s);
            ds = takeWhile (is_digit base) s; rest = dropWhile (is_digit base) s;
            val = (if neg then - number_value base ds else number_value base ds) in
        if ds = [] then (0, str, No_errno)
        else if val < - (2 ^ 63) then (- (2 ^ 63), rest, ERANGE)
        else if val > 2 ^ 63 - 1 then (2 ^ 63 - 1, rest, ERANGE)
        else (val, rest, No_errno))"

text \<open>\<^verbatim>\<open>apr_strtoi64\<close> where the platform has a 64 bit conversion function, as POSIX has.\<close>

definition apr_strtoi64 :: "cstring \<Rightarrow> int \<Rightarrow> int \<times> cstring \<times> errno_t" where
  "apr_strtoi64 nptr base = strtol nptr base"

section \<open>The portable version\<close>

text \<open>The conversion APR brings along for other platforms, in 64 bit signed arithmetic that wraps
  around. The loop keeps the last value without an overflow in \<open>acc\<close> and notes an overflow by \<open>any = -1\<close>.\<close>

definition wrap64 :: "int \<Rightarrow> int" where
  "wrap64 n = (n + 2 ^ 63) mod 2 ^ 64 - 2 ^ 63"

fun strtoi64_loop :: "int \<Rightarrow> bool \<Rightarrow> int \<Rightarrow> int \<Rightarrow> int \<Rightarrow> cstring \<Rightarrow> int \<times> int \<times> cstring" where
  "strtoi64_loop base neg acc val any [] = (acc, any, [])"
| "strtoi64_loop base neg acc val any (c # s) =
     (case digit_of c of
        None \<Rightarrow> (acc, any, c # s)
      | Some d \<Rightarrow>
          if int d \<ge> base then (acc, any, c # s)
          else
            let val = wrap64 (val * base) in
            if any < 0 then strtoi64_loop base neg acc val (- 1) s
            else if neg then
              if val > acc then strtoi64_loop base neg acc val (- 1) s
              else
                let val = wrap64 (val - int d) in
                if val > acc then strtoi64_loop base neg acc val (- 1) s else strtoi64_loop base neg val val 1 s
            else if val < acc then strtoi64_loop base neg acc val (- 1) s
            else
              let val = wrap64 (val + int d) in
              if val < acc then strtoi64_loop base neg acc val (- 1) s else strtoi64_loop base neg val val 1 s)"

definition portable_strtoi64 :: "cstring \<Rightarrow> int \<Rightarrow> int \<times> cstring \<times> errno_t" where
  "portable_strtoi64 nptr base =
     (case skip_sign (dropWhile svn_ctype_isspace nptr) of (neg, s) \<Rightarrow>
      let hex = ((base = 0 \<or> base = 16) \<and> hex_prefix s);
          s = (if hex then drop 2 s else s);
          base = (if hex then 16 else base);
          base = (if base = 0 then if c_hd s = CHR ''0'' then 8 else 10 else base) in
      if base < 2 \<or> base > 36 then (0, nptr, EINVAL)
      else
        case strtoi64_loop base neg 0 0 0 s of (acc, any, rest) \<Rightarrow>
        if any < 0 then (if neg then - (2 ^ 63) else 2 ^ 63 - 1, rest, ERANGE)
        else if any = 0 then (acc, nptr, EINVAL)
        else (acc, rest, No_errno))"

section \<open>The checked conversions\<close>

definition quoted :: "string \<Rightarrow> string" where
  "quoted s = CHR 0x27 # s @ [CHR 0x27]"

definition not_a_number :: "cstring \<Rightarrow> svn_err" where
  "not_a_number str = svn_error_create SVN_ERR_INCORRECT_PARAMS (''Could not convert '' @ quoted str @ '' into a number'')"

definition out_of_range :: "cstring \<Rightarrow> string \<Rightarrow> string \<Rightarrow> svn_err" where
  "out_of_range str minval maxval =
     svn_error_create SVN_ERR_INCORRECT_PARAMS
       (''Number '' @ quoted str @ '' is out of range '' @ quoted (''['' @ minval @ '', '' @ maxval @ '']''))"

text \<open>\<^verbatim>\<open>endptr == str\<close> holds when nothing was read, and then the rest is as long as the text.\<close>

definition svn_cstring_strtoui64 :: "cstring \<Rightarrow> nat \<Rightarrow> nat \<Rightarrow> int \<Rightarrow> nat cres" where
  "svn_cstring_strtoui64 str minval maxval base =
     (case apr_strtoi64 str base of (val, rest, errno) \<Rightarrow>
      if errno = EINVAL \<or> length rest = length str \<or> c_hd str = NUL \<or> c_hd rest \<noteq> NUL then Err (not_a_number str)
      else if errno = ERANGE \<and> (val = - (2 ^ 63) \<or> val = 2 ^ 63 - 1) \<or> val < 0 \<or> nat val < minval \<or> nat val > maxval
      then Err (out_of_range str (decimal_nat minval) (decimal_nat maxval))
      else Ok (nat val))"

definition svn_cstring_atoui64 :: "cstring \<Rightarrow> nat cres" where
  "svn_cstring_atoui64 str = svn_cstring_strtoui64 str 0 (2 ^ 64 - 1) 10"

definition svn_cstring_atoui :: "cstring \<Rightarrow> nat cres" where
  "svn_cstring_atoui str = svn_cstring_strtoui64 str 0 (2 ^ 32 - 1) 10"

definition svn_cstring_strtoi64 :: "cstring \<Rightarrow> int \<Rightarrow> int \<Rightarrow> int \<Rightarrow> int cres" where
  "svn_cstring_strtoi64 str minval maxval base =
     (case apr_strtoi64 str base of (val, rest, errno) \<Rightarrow>
      if errno = EINVAL \<or> length rest = length str \<or> c_hd str = NUL \<or> c_hd rest \<noteq> NUL then Err (not_a_number str)
      else if errno = ERANGE \<and> (val = - (2 ^ 63) \<or> val = 2 ^ 63 - 1) \<or> val < minval \<or> val > maxval
      then Err (out_of_range str (decimal minval) (decimal maxval))
      else Ok val)"

definition svn_cstring_atoi64 :: "cstring \<Rightarrow> int cres" where
  "svn_cstring_atoi64 str = svn_cstring_strtoi64 str (- (2 ^ 63)) (2 ^ 63 - 1) 10"

definition svn_cstring_atoi :: "cstring \<Rightarrow> int cres" where
  "svn_cstring_atoi str = svn_cstring_strtoi64 str (- (2 ^ 31)) (2 ^ 31 - 1) 10"

section \<open>What the conversions accept\<close>

text \<open>A text that reads as a number: white space, perhaps a sign, digits, and nothing else.\<close>

definition reads_as :: "cstring \<Rightarrow> int \<Rightarrow> bool" where
  "reads_as str n \<longleftrightarrow>
     (\<exists>ws sg ds. str = ws @ sg @ ds \<and> (\<forall>c \<in> set ws. svn_ctype_isspace c) \<and> ds \<noteq> [] \<and> (\<forall>c \<in> set ds. ascii_digit c) \<and>
        ((sg = [] \<or> sg = ''+'') \<and> n = int (digits_value ds) \<or> sg = ''-'' \<and> n = - int (digits_value ds)))"

lemma is_digit_10: "is_digit 10 = ascii_digit"
  by (rule ext) (auto simp: is_digit_def digit_of_def ascii_digit_def Let_def)

lemma number_value_10: "\<forall>c \<in> set ds. ascii_digit c \<Longrightarrow> number_value 10 ds = int (digits_value ds)"
proof (induction ds rule: rev_induct)
  case (snoc c ds)
  have "int (the (digit_of c)) = int (of_char c - 48)"
    using snoc.prems by (auto simp: digit_of_def ascii_digit_def Let_def)
  then show ?case using snoc by (simp add: number_value_def)
qed (simp add: number_value_def)

lemma digit_no_sign: "ascii_digit c \<Longrightarrow> \<not> svn_ctype_isspace c \<and> c \<noteq> CHR ''-'' \<and> c \<noteq> CHR ''+'' \<and> c \<noteq> NUL"
  by (auto simp: ascii_digit_def svn_ctype_isspace_def Let_def)

lemma dropWhile_app: "\<forall>c \<in> set ws. P c \<Longrightarrow> s = [] \<or> \<not> P (hd s) \<Longrightarrow> dropWhile P (ws @ s) = s"
  by (cases s) (auto simp: dropWhile_append2)

text \<open>Reading the same text as the C functions do.\<close>

lemma reads_as_scan:
  assumes "skip_sign (dropWhile svn_ctype_isspace str) = (neg, s)"
  shows "reads_as str n \<longleftrightarrow> s \<noteq> [] \<and> (\<forall>c \<in> set s. ascii_digit c) \<and>
    n = (if neg then - int (digits_value s) else int (digits_value s))"
proof
  assume "reads_as str n"
  then obtain ws sg ds where r: "str = ws @ sg @ ds" "\<forall>c \<in> set ws. svn_ctype_isspace c" "ds \<noteq> []"
    "\<forall>c \<in> set ds. ascii_digit c"
    "(sg = [] \<or> sg = ''+'') \<and> n = int (digits_value ds) \<or> sg = ''-'' \<and> n = - int (digits_value ds)"
    unfolding reads_as_def by blast
  obtain d ds' where ds: "ds = d # ds'" using r(3) by (cases ds) auto
  have d: "\<not> svn_ctype_isspace d" "d \<noteq> CHR ''-''" "d \<noteq> CHR ''+''" using digit_no_sign r(4) ds by auto
  have "\<not> svn_ctype_isspace (hd (sg @ ds))" using r(5) d(1) ds by (auto simp: svn_ctype_isspace_def)
  then have "dropWhile svn_ctype_isspace str = sg @ ds" unfolding r(1) by (intro dropWhile_app) (use r in auto)
  then have "skip_sign (sg @ ds) = (neg, s)" using assms by simp
  then have "s = ds \<and> (neg \<longleftrightarrow> sg = ''-'')" using r(5) d ds by (auto simp: skip_sign_def)
  then show "s \<noteq> [] \<and> (\<forall>c \<in> set s. ascii_digit c) \<and> n = (if neg then - int (digits_value s) else int (digits_value s))"
    using r by auto
next
  assume a: "s \<noteq> [] \<and> (\<forall>c \<in> set s. ascii_digit c) \<and> n = (if neg then - int (digits_value s) else int (digits_value s))"
  let ?ws = "takeWhile svn_ctype_isspace str"
  have ws: "\<forall>c \<in> set ?ws. svn_ctype_isspace c" using set_takeWhileD by metis
  obtain sg where sg: "dropWhile svn_ctype_isspace str = sg @ s" "if neg then sg = ''-'' else sg = [] \<or> sg = ''+''"
  proof (cases "dropWhile svn_ctype_isspace str")
    case Nil
    have "(neg, s) = (False, [])" using assms unfolding Nil by (simp add: skip_sign_def)
    then show ?thesis using that [of "[]"] unfolding Nil by simp
  next
    case (Cons c t)
    then show ?thesis using assms that [of "[]"] that [of "[c]"] by (auto simp: skip_sign_def split: if_splits)
  qed
  have "str = ?ws @ sg @ s" using sg(1) by (metis takeWhile_dropWhile_id)
  then show "reads_as str n" unfolding reads_as_def using ws a sg(2) by (metis (full_types))
qed

lemma strtol_10:
  assumes "skip_sign (dropWhile svn_ctype_isspace str) = (neg, s)" "ds = takeWhile ascii_digit s"
    "v = (if neg then - int (digits_value ds) else int (digits_value ds))"
  shows "strtol str 10 =
    (if ds = [] then (0, str, No_errno)
     else if v < - (2 ^ 63) then (- (2 ^ 63), dropWhile ascii_digit s, ERANGE)
     else if v > 2 ^ 63 - 1 then (2 ^ 63 - 1, dropWhile ascii_digit s, ERANGE)
     else (v, dropWhile ascii_digit s, No_errno))"
proof -
  have "\<forall>c \<in> set ds. ascii_digit c" unfolding assms(2) using set_takeWhileD by metis
  then have "number_value 10 ds = int (digits_value ds)" by (rule number_value_10)
  then show ?thesis using assms(2,3) unfolding strtol_def assms(1) prod.case Let_def by (simp add: is_digit_10)
qed

lemma skip_sign_suffix: "skip_sign s = (neg, t) \<Longrightarrow> suffix t s"
  by (auto simp: skip_sign_def suffix_def split: list.splits if_splits)

lemma is_cstring_hd: "is_cstring s \<Longrightarrow> c_hd s \<noteq> NUL \<longleftrightarrow> s \<noteq> []"
  by (cases s) auto

text \<open>What \<^verbatim>\<open>strtol\<close> returns for a text that reads as a number, and for another one.\<close>

lemma strtol_reads:
  assumes "is_cstring str"
  obtains (number) v where "\<And>n. reads_as str n \<longleftrightarrow> n = v" "str \<noteq> []"
    "strtol str 10 = (if v < - (2 ^ 63) then (- (2 ^ 63), [], ERANGE) else if v > 2 ^ 63 - 1 then (2 ^ 63 - 1, [], ERANGE)
       else (v, [], No_errno))"
  | (other) v rest errno where "\<And>n. \<not> reads_as str n" "strtol str 10 = (v, rest, errno)"
    "length rest = length str \<or> c_hd rest \<noteq> NUL" "- (2 ^ 63) \<le> v" "v \<le> 2 ^ 63 - 1"
proof -
  obtain neg s where k: "skip_sign (dropWhile svn_ctype_isspace str) = (neg, s)" by fastforce
  obtain ds where ds: "ds = takeWhile ascii_digit s" by blast
  obtain v where v: "v = (if neg then - int (digits_value ds) else int (digits_value ds))" by blast
  note st = strtol_10 [OF k ds v]
  show ?thesis
  proof (cases "ds \<noteq> [] \<and> dropWhile ascii_digit s = []")
    case True
    then have all: "\<forall>c \<in> set s. ascii_digit c" by (simp add: dropWhile_eq_Nil_conv)
    then have s: "ds = s" unfolding ds by (simp add: takeWhile_eq_all_conv)
    have "reads_as str n \<longleftrightarrow> n = v" for n using reads_as_scan [OF k, of n] all s v True by simp
    moreover have "str \<noteq> []" using k s True by (auto simp: skip_sign_def)
    moreover have "strtol str 10 = (if v < - (2 ^ 63) then (- (2 ^ 63), [], ERANGE) else if v > 2 ^ 63 - 1 then (2 ^ 63 - 1, [], ERANGE)
       else (v, [], No_errno))"
      unfolding st using True by simp
    ultimately show ?thesis by (rule number)
  next
    case False
    have "\<not> reads_as str n" for n
    proof
      assume "reads_as str n"
      then have "s \<noteq> []" "\<forall>c \<in> set s. ascii_digit c" using reads_as_scan [OF k, of n] by blast+
      moreover from this have "ds = s" unfolding ds by (simp add: takeWhile_eq_all_conv)
      ultimately show False using False by (simp add: dropWhile_eq_Nil_conv)
    qed
    moreover obtain w rest errno where w: "strtol str 10 = (w, rest, errno)" by (metis prod_cases3)
    moreover have "length rest = length str \<or> c_hd rest \<noteq> NUL"
    proof (cases "ds = []")
      case True
      then show ?thesis using st w by simp
    next
      case dsn: False
      have "suffix s str" using skip_sign_suffix [OF k] suffix_dropWhile suffix_order.trans by blast
      then have "is_cstring (dropWhile ascii_digit s)"
        using assms by (auto simp: is_cstring_def dest!: set_mono_suffix dest: set_dropWhileD)
      then have "c_hd (dropWhile ascii_digit s) \<noteq> NUL" using is_cstring_hd False dsn by blast
      moreover have "rest = dropWhile ascii_digit s" using st w dsn by (auto split: if_splits)
      ultimately show ?thesis by simp
    qed
    moreover have "- (2 ^ 63) \<le> w" "w \<le> 2 ^ 63 - 1" using st w by (auto split: if_splits)
    ultimately show ?thesis by (intro other)
  qed
qed

lemma conversion_errors [simp]:
  "err_code_of (not_a_number str) = SVN_ERR_INCORRECT_PARAMS" "err_code_of (out_of_range str a b) = SVN_ERR_INCORRECT_PARAMS"
  by (simp_all add: not_a_number_def out_of_range_def svn_error_create_def)

lemma checked_number:
  assumes "str \<noteq> []" "is_cstring str" "strtol str 10 = (v, [], errno)"
  shows "svn_cstring_strtoi64 str lo hi 10 =
      (if errno = EINVAL then Err (not_a_number str)
       else if errno = ERANGE \<and> (v = - (2 ^ 63) \<or> v = 2 ^ 63 - 1) \<or> v < lo \<or> v > hi
       then Err (out_of_range str (decimal lo) (decimal hi)) else Ok v)"
    "svn_cstring_strtoui64 str a b 10 =
      (if errno = EINVAL then Err (not_a_number str)
       else if errno = ERANGE \<and> (v = - (2 ^ 63) \<or> v = 2 ^ 63 - 1) \<or> v < 0 \<or> nat v < a \<or> nat v > b
       then Err (out_of_range str (decimal_nat a) (decimal_nat b)) else Ok (nat v))"
  using assms(1) is_cstring_hd [OF assms(2)]
  unfolding svn_cstring_strtoi64_def svn_cstring_strtoui64_def apr_strtoi64_def assms(3) prod.case by simp_all

lemma checked_other:
  assumes "strtol str 10 = (v, rest, errno)" "length rest = length str \<or> c_hd rest \<noteq> NUL"
  shows "svn_cstring_strtoi64 str lo hi 10 = Err (not_a_number str)"
    "svn_cstring_strtoui64 str a b 10 = Err (not_a_number str)"
  using assms(2) unfolding svn_cstring_strtoi64_def svn_cstring_strtoui64_def apr_strtoi64_def assms(1) prod.case by auto

text \<open>The signed conversion with a range inside the 64 bit numbers, and the unsigned conversion, which reads a
  signed number.\<close>

lemma strtoi64_exact:
  assumes "is_cstring str" "- (2 ^ 63) \<le> lo" "hi \<le> 2 ^ 63 - 1"
  shows "svn_cstring_strtoi64 str lo hi 10 = Ok n \<longleftrightarrow> reads_as str n \<and> lo \<le> n \<and> n \<le> hi" (is "?ok n \<longleftrightarrow> ?in n")
    "(\<nexists>n. reads_as str n \<and> lo \<le> n \<and> n \<le> hi) \<Longrightarrow>
      \<exists>e. svn_cstring_strtoi64 str lo hi 10 = Err e \<and> err_code_of e = SVN_ERR_INCORRECT_PARAMS"
proof -
  have "(?ok n \<longleftrightarrow> ?in n) \<and> ((\<nexists>n. ?in n) \<longrightarrow>
      (\<exists>e. svn_cstring_strtoi64 str lo hi 10 = Err e \<and> err_code_of e = SVN_ERR_INCORRECT_PARAMS))"
    using assms(1)
  proof (cases rule: strtol_reads)
    case (number v)
    obtain w errno where w: "strtol str 10 = (w, [], errno)"
      "errno = ERANGE \<and> (w = - (2 ^ 63) \<or> w = 2 ^ 63 - 1) \<and> (v < - (2 ^ 63) \<or> v > 2 ^ 63 - 1) \<or>
       errno = No_errno \<and> w = v"
      using number(3) by (cases "v < - (2 ^ 63) \<or> v > 2 ^ 63 - 1") (auto split: if_splits)
    show ?thesis
      unfolding checked_number(1) [OF number(2) assms(1) w(1)] number(1) using w(2) assms(2,3) by auto
  next
    case (other v rest errno)
    show ?thesis unfolding checked_other(1) [OF other(2,3)] using other(1) by simp
  qed
  then show "?ok n \<longleftrightarrow> ?in n" "(\<nexists>n. ?in n) \<Longrightarrow>
      \<exists>e. svn_cstring_strtoi64 str lo hi 10 = Err e \<and> err_code_of e = SVN_ERR_INCORRECT_PARAMS" by blast+
qed

lemma strtoui64_exact:
  assumes "is_cstring str"
  shows "svn_cstring_strtoui64 str lo hi 10 = Ok m \<longleftrightarrow> reads_as str (int m) \<and> lo \<le> m \<and> m \<le> hi \<and> m < 2 ^ 63"
  using assms
proof (cases rule: strtol_reads)
  case (number v)
  obtain w errno where w: "strtol str 10 = (w, [], errno)"
    "errno = ERANGE \<and> (w = - (2 ^ 63) \<or> w = 2 ^ 63 - 1) \<and> (v < - (2 ^ 63) \<or> v > 2 ^ 63 - 1) \<or>
     errno = No_errno \<and> w = v \<and> v \<le> 2 ^ 63 - 1"
    using number(3) by (cases "v < - (2 ^ 63) \<or> v > 2 ^ 63 - 1") (auto split: if_splits)
  show ?thesis
    unfolding checked_number(2) [OF number(2) assms(1) w(1)] number(1) using w(2) by auto
next
  case (other v rest errno)
  show ?thesis unfolding checked_other(2) [OF other(2,3)] using other(1) by simp
qed

lemma decimal_reads: "reads_as (decimal n) n" "is_cstring (decimal n)"
proof -
  note ok = decimal_nat_ok
  have "\<exists>sg ds. decimal n = [] @ sg @ ds \<and> ds \<noteq> [] \<and> (\<forall>c \<in> set ds. ascii_digit c) \<and>
    ((sg = [] \<or> sg = ''+'') \<and> n = int (digits_value ds) \<or> sg = ''-'' \<and> n = - int (digits_value ds))"
  proof (cases "n < 0")
    case True
    then show ?thesis
      using ok [of "nat (- n)"] by (intro exI [of _ "''-''"] exI [of _ "decimal_nat (nat (- n))"]) (simp add: decimal_def)
  next
    case False
    then show ?thesis
      using ok [of "nat n"] by (intro exI [of _ "[]"] exI [of _ "decimal_nat (nat n)"]) (simp add: decimal_def)
  qed
  then show "reads_as (decimal n) n" unfolding reads_as_def by - (rule exI [of _ "[]"], simp)
  show "is_cstring (decimal n)" using decimal_nat_no_NUL by (simp add: decimal_def is_cstring_def)
qed

section \<open>The portable conversion\<close>

lemma wrap64_small: "- (2 ^ 63) \<le> n \<Longrightarrow> n < 2 ^ 63 \<Longrightarrow> wrap64 n = n"
  by (simp add: wrap64_def)

text \<open>As long as the values fit, nothing wraps around and the loop computes the number.\<close>

lemma strtoi64_loop_digits:
  assumes "\<forall>c \<in> set ds. ascii_digit c" "ds \<noteq> []" "0 \<le> v"
    "foldl (\<lambda>v c. v * 10 + int (of_char c - 48)) v ds \<le> 2 ^ 63 - (if neg then 0 else 1)" "any \<ge> 0" "rest = [] \<or> \<not> ascii_digit (hd rest)"
  shows "strtoi64_loop 10 neg (if neg then - v else v) (if neg then - v else v) any (ds @ rest) =
    (let w = foldl (\<lambda>v c. v * 10 + int (of_char c - 48)) v ds in (if neg then - w else w, 1, rest))"
  using assms
proof (induction ds arbitrary: v any)
  case (Cons c ds)
  let ?f = "\<lambda>v c. v * 10 + int (of_char c - 48)"
  let ?d = "(of_char c :: nat) - 48"
  have d: "digit_of c = Some ?d" "?d < 10" using Cons.prems(1) by (auto simp: digit_of_def ascii_digit_def Let_def)
  have grow: "v \<le> foldl ?f v ds" if "0 \<le> v" for v :: int and ds
    using that
  proof (induction ds arbitrary: v)
    case (Cons x xs)
    have "0 \<le> ?f v x" using Cons.prems by simp
    from Cons.IH [OF this] show ?case using Cons.prems by simp
  qed simp
  let ?w = "?f v c"
  have w: "0 \<le> ?w" "?w \<le> foldl ?f ?w ds" "foldl ?f ?w ds \<le> 2 ^ 63 - (if neg then 0 else 1)"
    using Cons.prems(3,4) grow [of ?w ds] by simp_all
  then have b: "v * 10 \<le> 2 ^ 63 - (if neg then 0 else 1)" "?w \<le> 2 ^ 63 - (if neg then 0 else 1)" by simp_all
  have step: "strtoi64_loop 10 neg (if neg then - v else v) (if neg then - v else v) any ((c # ds) @ rest) =
    strtoi64_loop 10 neg (if neg then - ?w else ?w) (if neg then - ?w else ?w) 1 (ds @ rest)"
    using b Cons.prems(3,5) d by (cases neg) (simp_all add: wrap64_small Let_def)
  show ?case
  proof (cases "ds = []")
    case True
    have "strtoi64_loop 10 neg a a 1 rest = (a, 1, rest)" for a
      using Cons.prems(6) is_digit_10 [THEN fun_cong, of "hd rest"]
      by (cases rest) (auto simp: is_digit_def split: option.split)
    then show ?thesis using step True by (simp add: Let_def)
  next
    case False
    then show ?thesis using Cons.IH [of ?w 1] Cons.prems w step by (simp add: Let_def)
  qed
qed simp

lemma number_value_foldl:
  "\<forall>c \<in> set ds. ascii_digit c \<Longrightarrow> foldl (\<lambda>v c. v * 10 + int (of_char c - 48)) (int v) ds = int (foldl (\<lambda>v c. v * 10 + (of_char c - 48)) v ds)"
proof (induction ds rule: rev_induct)
  case (snoc c ds)
  then show ?case by simp
qed simp

lemma portable_strtoi64_agrees:
  assumes "skip_sign (dropWhile svn_ctype_isspace str) = (neg, s)" "takeWhile ascii_digit s \<noteq> []"
    "int (digits_value (takeWhile ascii_digit s)) \<le> 2 ^ 63 - (if neg then 0 else 1)"
  shows "portable_strtoi64 str 10 = strtol str 10"
proof -
  let ?ds = "takeWhile ascii_digit s" and ?r = "dropWhile ascii_digit s"
  have d: "\<forall>c \<in> set ?ds. ascii_digit c" using set_takeWhileD by metis
  have r: "?r = [] \<or> \<not> ascii_digit (hd ?r)" using hd_dropWhile by blast
  have v: "foldl (\<lambda>v c. v * 10 + int (of_char c - 48)) 0 ?ds = int (digits_value ?ds)"
    using number_value_foldl [OF d, of 0] by (simp add: digits_value_def)
  have "strtoi64_loop 10 neg 0 0 0 s = (if neg then - int (digits_value ?ds) else int (digits_value ?ds), 1, ?r)"
    using strtoi64_loop_digits [OF d assms(2), of 0 neg 0 ?r] r assms(3) by (cases neg) (simp_all add: v Let_def)
  then have "portable_strtoi64 str 10 = (if neg then - int (digits_value ?ds) else int (digits_value ?ds), ?r, No_errno)"
    unfolding portable_strtoi64_def assms(1) by (simp add: Let_def)
  moreover have "strtol str 10 = (if neg then - int (digits_value ?ds) else int (digits_value ?ds), ?r, No_errno)"
    unfolding strtol_10 [OF assms(1) refl refl] using assms(2,3) by auto
  ultimately show ?thesis by simp
qed

text \<open>Its test for an overflow compares the wrapped product with the value before, which misses some.\<close>

lemma portable_strtoi64_misses_overflow:
  "portable_strtoi64 ''23000000000000000000'' 10 = (4553255926290448384, [], No_errno)"
  by code_simp

section \<open>Printing in APR\<close>

text \<open>\<^verbatim>\<open>apr_itoa\<close>, \<^verbatim>\<open>apr_ltoa\<close> and \<^verbatim>\<open>apr_off_t_toa\<close> differ in the width of their argument only. The buffer is
  filled from its end; \<open>room\<close> is the number of bytes in front of the text. Division and remainder of C
  round towards zero.\<close>

definition c_div10 :: "int \<Rightarrow> int" where
  "c_div10 n = (if n \<ge> 0 then n div 10 else - (- n div 10))"

definition c_mod10 :: "int \<Rightarrow> int" where
  "c_mod10 n = (if n \<ge> 0 then n mod 10 else - (- n mod 10))"

function toa_loop :: "int \<Rightarrow> nat \<Rightarrow> cstring \<Rightarrow> (nat \<times> cstring) cres" where
  "toa_loop n room out =
     (if room = 0 then Overrun
      else
        let out = char_of (nat ((48 + c_mod10 n) mod 256)) # out; n = c_div10 n in
        if n \<noteq> 0 then toa_loop n (room - 1) out else Ok (room - 1, out))"
  by pat_completeness auto
termination by (relation "measure (\<lambda>(n, room, out). room)") auto

declare toa_loop.simps [simp del]

text \<open>Negation wraps around at the smallest number of the width.\<close>

definition toa :: "nat \<Rightarrow> int \<Rightarrow> cstring cres" where
  "toa bytes n =
     (let negative = n < 0;
          n = (if negative then (- n + 2 ^ (8 * bytes - 1)) mod 2 ^ (8 * bytes) - 2 ^ (8 * bytes - 1) else n) in
      cbind (toa_loop n (bytes * 3 + 1) []) (\<lambda>(room, out).
        if negative then if room = 0 then Overrun else Ok (CHR ''-'' # out) else Ok out))"

definition apr_itoa :: "int \<Rightarrow> cstring cres" where
  "apr_itoa n = toa 4 n"

definition apr_ltoa :: "int \<Rightarrow> cstring cres" where
  "apr_ltoa n = toa 8 n"

definition apr_off_t_toa :: "int \<Rightarrow> cstring cres" where
  "apr_off_t_toa n = toa 8 n"

text \<open>\<^verbatim>\<open>apr_strfsize\<close>: a size in four characters. \<^verbatim>\<open>%3d\<close> pads to three characters, and \<^verbatim>\<open>apr_snprintf\<close>
  with a buffer of five bytes writes the first four characters.\<close>

definition pad3 :: "nat \<Rightarrow> string" where
  "pad3 n = replicate (3 - length (decimal_nat n)) (CHR '' '') @ decimal_nat n"

definition size_units :: string where
  "size_units = ''KMGTPE''"

function strfsize_loop :: "nat \<Rightarrow> nat \<Rightarrow> cstring cres" where
  "strfsize_loop n unit =
     (let remain = n mod 1024; n = n div 1024 in
      if n \<ge> 973 then strfsize_loop n (unit + 1)
      else if unit > length size_units then Overrun
      else
        let c = c_at size_units unit in
        if n < 9 \<or> n = 9 \<and> remain < 973 then
          let remain = (remain * 5 + 256) div 512;
              (n, remain) = (if remain \<ge> 10 then (n + 1, 0) else (n, remain)) in
          Ok (take 4 (decimal_nat n @ ''.'' @ decimal_nat remain @ [c]))
        else
          let n = (if remain \<ge> 512 then n + 1 else n) in Ok (take 4 (pad3 n @ [c])))"
  by pat_completeness auto
termination by (relation "measure fst") auto

declare strfsize_loop.simps [simp del]

definition apr_strfsize :: "int \<Rightarrow> cstring cres" where
  "apr_strfsize n =
     (if n < 0 then Ok ''  - ''
      else if n < 973 then Ok (take 4 (pad3 (nat n) @ '' ''))
      else strfsize_loop (nat n) 0)"

lemma toa_loop_decimal:
  "length (decimal_nat n) \<le> room \<Longrightarrow>
     toa_loop (int n) room out = Ok (room - length (decimal_nat n), decimal_nat n @ out)"
proof (induction n arbitrary: room out rule: decimal_nat.induct)
  case (1 n)
  have c: "char_of (nat ((48 + c_mod10 (int n)) mod 256)) = octal_digit (n mod 10)"
  proof -
    have "(48 + int n mod 10) mod 256 = int (48 + n mod 10)"
      using pos_mod_bound [of 10 "int n"] by (simp add: zmod_int)
    then show ?thesis by (simp add: c_mod10_def octal_digit_def add.commute del: of_nat_add)
  qed
  have q: "c_div10 (int n) = int (n div 10)" by (simp add: c_div10_def zdiv_int)
  show ?case
  proof (cases "n < 10")
    case True
    then show ?thesis using "1.prems" c q by (subst toa_loop.simps) (simp add: decimal_nat.simps [of n] Let_def)
  next
    case False
    then have d: "decimal_nat n = decimal_nat (n div 10) @ [octal_digit (n mod 10)]" by (simp add: decimal_nat.simps [of n])
    have nz: "n div 10 \<noteq> 0" using False by (simp add: div_eq_0_iff)
    have "toa_loop (int n) room out = toa_loop (int (n div 10)) (room - 1) (octal_digit (n mod 10) # out)"
      using nz "1.prems" d c q by (subst toa_loop.simps) (simp add: Let_def)
    then show ?thesis using "1.IH" [OF False, of "room - 1"] "1.prems" d by simp
  qed
qed

lemma toa_decimal:
  assumes "0 < bytes" "\<bar>n\<bar> < 2 ^ (8 * bytes - 1)" "length (decimal_nat (nat \<bar>n\<bar>)) \<le> bytes * 3"
  shows "toa bytes n = Ok (decimal n)"
proof (cases "n < 0")
  case True
  have p: "(2 :: int) ^ (8 * bytes) = 2 * 2 ^ (8 * bytes - 1)" using assms(1) by (simp flip: power_Suc)
  have w: "(- n + 2 ^ (8 * bytes - 1)) mod 2 ^ (8 * bytes) - 2 ^ (8 * bytes - 1) = - n"
    using True assms(2) p by (subst mod_pos_pos_trivial) auto
  have "toa_loop (int (nat (- n))) (bytes * 3 + 1) [] =
    Ok (bytes * 3 + 1 - length (decimal_nat (nat (- n))), decimal_nat (nat (- n)) @ [])"
    using assms(3) True by (intro toa_loop_decimal) simp
  then show ?thesis using True assms(3) unfolding toa_def w Let_def by (simp add: decimal_def w)
next
  case False
  have "toa_loop (int (nat n)) (bytes * 3 + 1) [] = Ok (bytes * 3 + 1 - length (decimal_nat (nat n)), decimal_nat (nat n) @ [])"
    using assms(3) False by (intro toa_loop_decimal) simp
  then show ?thesis using False by (simp add: toa_def decimal_def)
qed

lemma apr_toa_decimal:
  "- (2 ^ 31) < n \<Longrightarrow> n < 2 ^ 31 \<Longrightarrow> apr_itoa n = Ok (decimal n)"
  "- (2 ^ 63) < n \<Longrightarrow> n < 2 ^ 63 \<Longrightarrow> apr_ltoa n = Ok (decimal n)"
  "- (2 ^ 63) < n \<Longrightarrow> n < 2 ^ 63 \<Longrightarrow> apr_off_t_toa n = Ok (decimal n)"
  unfolding apr_itoa_def apr_ltoa_def apr_off_t_toa_def
  by (rule toa_decimal; (rule decimal_nat_length)?; simp)+

text \<open>The smallest number is its own negation, and its digits are counted down from \<^verbatim>\<open>0\<close>.\<close>

lemma apr_itoa_smallest: "apr_itoa (- (2 ^ 31)) = Ok ''-./,),(-*,(''"
  by code_simp

lemma decimal_nat_lengths: "n < 10 \<Longrightarrow> length (decimal_nat n) = 1" "10 \<le> n \<Longrightarrow> n < 100 \<Longrightarrow> length (decimal_nat n) = 2"
  "100 \<le> n \<Longrightarrow> n < 1000 \<Longrightarrow> length (decimal_nat n) = 3"
proof -
  show "100 \<le> n \<Longrightarrow> n < 1000 \<Longrightarrow> length (decimal_nat n) = 3"
    using decimal_nat_pair' [of n] by (simp add: decimal_nat.simps [of "n div 100"])
qed (simp_all add: decimal_nat.simps [of n] decimal_nat.simps [of "n div 10"])

lemma pad3_length: "n < 1000 \<Longrightarrow> length (pad3 n) = 3"
  using decimal_nat_lengths [of n] by (cases "n < 10"; cases "n < 100") (auto simp: pad3_def)

lemma rounded_tenths:
  fixes r :: nat
  assumes "10 \<le> (r * 5 + 256) div 512"
  shows "973 \<le> r"
proof (rule ccontr)
  assume "\<not> 973 \<le> r"
  then have "(r * 5 + 256) div 512 \<le> 5116 div 512" by (intro div_le_mono) simp
  then show False using assms by simp
qed

lemma strfsize_loop_length:
  assumes "n < 2 ^ (63 - 10 * unit)" "unit < 6" "973 \<le> n"
  shows "\<exists>s. strfsize_loop n unit = Ok s \<and> length s = 4"
  using assms
proof (induction n unit rule: strfsize_loop.induct)
  case (1 n unit)
  let ?q = "n div 1024" and ?r = "n mod 1024"
  show ?case
  proof (cases "973 \<le> ?q")
    case True
    have "unit < 5"
    proof (rule ccontr)
      assume "\<not> unit < 5"
      then have "unit = 5" using "1.prems"(2) by simp
      then show False using "1.prems"(1) True by simp
    qed
    have "63 - 10 * unit = 10 + (63 - 10 * (unit + 1))" using \<open>unit < 5\<close> by simp
    then have "(2 :: nat) ^ (63 - 10 * unit) = 2 ^ 10 * 2 ^ (63 - 10 * (unit + 1))" by (simp only: power_add)
    then have "(2 :: nat) ^ (63 - 10 * unit) = 1024 * 2 ^ (63 - 10 * (unit + 1))" by simp
    then have "?q < 2 ^ (63 - 10 * (unit + 1))" using "1.prems"(1) by (simp add: less_mult_imp_div_less mult.commute)
    then show ?thesis using "1.IH" [OF refl refl True] True \<open>unit < 5\<close> by (subst strfsize_loop.simps) simp
  next
    case False
    let ?m = "(?r * 5 + 256) div 512"
    have u: "\<not> length size_units < unit" using "1.prems"(2) by (simp add: size_units_def)
    show ?thesis
    proof (cases "?q < 9 \<or> ?q = 9 \<and> ?r < 973")
      case True
      obtain a b where ab: "(if 10 \<le> ?m then (?q + 1, 0) else (?q, ?m)) = (a, b)" "a < 10" "b < 10"
      proof (cases "10 \<le> ?m")
        case m10: True
        then have "973 \<le> ?r" by (rule rounded_tenths)
        then show ?thesis using that [of "?q + 1" 0] m10 True by simp
      next
        case m9: False
        then show ?thesis using that [of ?q ?m] True by auto
      qed
      have "strfsize_loop n unit = Ok (take 4 (decimal_nat a @ ''.'' @ decimal_nat b @ [c_at size_units unit]))"
        using False True u ab(1) by (subst strfsize_loop.simps) (simp add: Let_def split: prod.split)
      then show ?thesis using decimal_nat_lengths(1) ab(2,3) by simp
    next
      case no: False
      let ?n = "if 512 \<le> ?r then ?q + 1 else ?q"
      have "strfsize_loop n unit = Ok (take 4 (pad3 ?n @ [c_at size_units unit]))"
        using False u Eq_FalseI [OF no] by (subst strfsize_loop.simps) (simp only: Let_def if_False)
      moreover have "?n < 1000" using False by simp
      ultimately show ?thesis using pad3_length by simp
    qed
  qed
qed

lemma strfsize_four_characters:
  assumes "n < 2 ^ 63"
  shows "\<exists>s. apr_strfsize n = Ok s \<and> length s = 4"
proof (cases "n < 973")
  case True
  then have "0 \<le> n \<Longrightarrow> length (pad3 (nat n)) = 3" by (intro pad3_length) simp
  then show ?thesis using True by (simp add: apr_strfsize_def)
next
  case False
  have "nat n < 2 ^ (63 - 10 * 0)" "973 \<le> nat n" using assms False by (simp_all add: nat_less_iff)
  from strfsize_loop_length [OF this(1) _ this(2)] show ?thesis using False by (simp add: apr_strfsize_def)
qed

section \<open>Properties\<close>

text \<open>C34. Decimal numbers survive printing and parsing: for every signed 64 bit number the printer
  returns the number of bytes it wrote in front of the terminator, at most 20 of them, so that the 21 bytes
  the callers provide are enough, and \<^verbatim>\<open>svn_cstring_atoi64\<close> reads the number back. The unsigned parser
  reads back the unsigned numbers below \<open>2^63\<close> only.\<close>

theorem decimal_roundtrip:
  assumes "- (2 ^ 63) \<le> n" "n < 2 ^ 63" "m < 2 ^ 64"
  shows "(\<exists>bytes s. svn__i64toa n = Ok (bytes, length s) \<and> length bytes = length s + 1 \<and> length bytes \<le> SVN_INT64_BUFFER_SIZE \<and>
      read_cstring bytes = Ok s \<and> svn_cstring_atoi64 s = Ok n) \<and>
    (\<exists>bytes s. svn__ui64toa m = Ok (bytes, length s) \<and> length bytes = length s + 1 \<and> length bytes \<le> SVN_INT64_BUFFER_SIZE \<and>
      read_cstring bytes = Ok s \<and> (svn_cstring_atoui64 s = Ok m \<longleftrightarrow> m < 2 ^ 63))"
proof (rule conjI)
  have rd: "read_cstring (map Some s @ [Some NUL]) = Ok s" if "is_cstring s" for s
    using read_cstring_upto [of s "[]"] upto_NUL_id [of s] that by (simp add: is_cstring_def)
  note i = decimal_reads [of n]
  have "length (decimal_nat (nat \<bar>n\<bar>)) \<le> 19" using assms(1,2) by (intro decimal_nat_length) (simp_all add: nat_less_iff)
  then have "length (decimal n) \<le> 20" by (auto simp: decimal_def abs_if)
  moreover have "svn_cstring_atoi64 (decimal n) = Ok n"
    using strtoi64_exact(1) [OF i(2), of "- (2 ^ 63)" "2 ^ 63 - 1" n] i(1) assms by (simp add: svn_cstring_atoi64_def)
  ultimately show "\<exists>bytes s. svn__i64toa n = Ok (bytes, length s) \<and> length bytes = length s + 1 \<and>
      length bytes \<le> SVN_INT64_BUFFER_SIZE \<and> read_cstring bytes = Ok s \<and> svn_cstring_atoi64 s = Ok n"
    using i64toa_decimal [OF assms(1,2)] rd [OF i(2)] by (intro exI conjI) (auto simp: SVN_INT64_BUFFER_SIZE_def)
  have d: "decimal (int m) = decimal_nat m" by (simp add: decimal_def)
  have "svn_cstring_atoui64 (decimal_nat m) = Ok m \<longleftrightarrow> m < 2 ^ 63"
    using strtoui64_exact [of "decimal_nat m" 0 "2 ^ 64 - 1" m] decimal_reads [of "int m"] d
    by (auto simp: svn_cstring_atoui64_def)
  then show "\<exists>bytes s. svn__ui64toa m = Ok (bytes, length s) \<and> length bytes = length s + 1 \<and>
      length bytes \<le> SVN_INT64_BUFFER_SIZE \<and> read_cstring bytes = Ok s \<and> (svn_cstring_atoui64 s = Ok m \<longleftrightarrow> m < 2 ^ 63)"
    using ui64toa_decimal [OF assms(3)] rd [of "decimal_nat m"] decimal_reads(2) [of "int m"] d
    by (intro exI conjI) (auto simp: SVN_INT64_BUFFER_SIZE_def)
qed

theorem decimal_roundtrip_witness:
  "\<exists>bytes s. svn__i64toa (- (2 ^ 63)) = Ok (bytes, length s) \<and> length bytes = length s + 1 \<and>
     length bytes \<le> SVN_INT64_BUFFER_SIZE \<and> read_cstring bytes = Ok s \<and> svn_cstring_atoi64 s = Ok (- (2 ^ 63))"
  by (rule decimal_roundtrip [of _ 0, THEN conjunct1]) simp_all

text \<open>\<^verbatim>\<open>svn_cstring_atoi\<close> accepts exactly the texts that read as a number of 32 bits: white space, perhaps
  a sign, and digits to the end; it returns their value, however many digits there are. Every other text
  is an error with the code \<^verbatim>\<open>SVN_ERR_INCORRECT_PARAMS\<close>.\<close>

theorem atoi_exact:
  assumes "is_cstring str"
  shows "(svn_cstring_atoi str = Ok n \<longleftrightarrow> reads_as str n \<and> - (2 ^ 31) \<le> n \<and> n < 2 ^ 31) \<and>
    ((\<nexists>n. reads_as str n \<and> - (2 ^ 31) \<le> n \<and> n < 2 ^ 31) \<longrightarrow>
      (\<exists>e. svn_cstring_atoi str = Err e \<and> err_code_of e = SVN_ERR_INCORRECT_PARAMS))"
proof -
  have "n \<le> 2 ^ 31 - 1 \<longleftrightarrow> n < 2 ^ 31" for n :: int by auto
  moreover have "- (2 ^ 63) \<le> (- (2 ^ 31) :: int)" "(2 ^ 31 - 1 :: int) \<le> 2 ^ 63 - 1" by simp_all
  note strtoi64_exact [OF assms this]
  ultimately show ?thesis unfolding svn_cstring_atoi_def by simp
qed

text \<open>The text of a number in base 36 has at most 13 digits and reads back as the number, whatever other
  text follows.\<close>

theorem base36_text_roundtrip:
  assumes "n < 2 ^ 64" "rest = [] \<or> \<not> is_digit36 (hd rest)"
  shows "\<exists>s. svn__ui64tobase36 n = Ok s \<and> length s \<le> 13 \<and> svn__base36toui64 (s @ rest) = (of_nat n, rest)"
  using base36_roundtrip [OF assms(1)] assms(2) by metis

end
