(* ===== verification/Svn_Skel.thy ===== *)
theory Svn_Skel
  imports Number_Parse
begin

text \<open>
  Skeletons, \<^verbatim>\<open>skel.c\<close>: the syntax of atoms and lists that working copies keep structured data in.

  A \<^verbatim>\<open>svn_skel_t\<close> has its bytes (\<^verbatim>\<open>data\<close> and \<^verbatim>\<open>len\<close>; None is the null pointer with the length 0) and its
  children. The elements that are linked through \<^verbatim>\<open>next\<close> are a list, and a pointer to an element
  stands for the list that starts there. Parsing returns the skeleton and the input behind
  \<^verbatim>\<open>data + len\<close>, from which the loop over a list goes on; a null result is None.
\<close>

section \<open>Characters\<close>

datatype char_type = type_nothing | type_space | type_digit | type_paren | type_name

text \<open>The table has spaces at 9, 10, 12, 13 and 32, digits, letters as names, and parentheses and square
  brackets.\<close>

definition skel_char_type :: "char \<Rightarrow> char_type" where
  "skel_char_type c =
     (let n = (of_char c :: nat) in
      if n = 9 \<or> n = 10 \<or> n = 12 \<or> n = 13 \<or> n = 32 then type_space
      else if n = 40 \<or> n = 41 \<or> n = 91 \<or> n = 93 then type_paren
      else if 48 \<le> n \<and> n \<le> 57 then type_digit
      else if 65 \<le> n \<and> n \<le> 90 \<or> 97 \<le> n \<and> n \<le> 122 then type_name
      else type_nothing)"

section \<open>Sizes\<close>

text \<open>The loop of \<^verbatim>\<open>getsize\<close>, with the digits seen so far counted by \<open>i\<close>. None is the end pointer 0.\<close>

fun getsize_loop :: "nat \<Rightarrow> nat \<Rightarrow> nat \<Rightarrow> nat \<Rightarrow> string \<Rightarrow> (nat \<times> nat \<times> string) option" where
  "getsize_loop max_prefix max_digit value i data =
     (case data of
        [] \<Rightarrow> Some (value, i, [])
      | c # rest \<Rightarrow>
          if 48 \<le> (of_char c :: nat) \<and> (of_char c :: nat) \<le> 57 then
            let digit = of_char c - 48 in
            if value > max_prefix \<or> value = max_prefix \<and> digit > max_digit then None
            else getsize_loop max_prefix max_digit ((value * 10 + digit) mod size_limit) (i + 1) rest
          else Some (value, i, data))"

declare getsize_loop.simps [simp del]

definition getsize :: "string \<Rightarrow> nat \<Rightarrow> (nat \<times> string) option" where
  "getsize data maxval =
     (case getsize_loop (maxval div 10) (maxval mod 10) 0 0 data of
        None \<Rightarrow> None
      | Some (value, i, rest) \<Rightarrow> if i = 0 then None else Some (value, rest))"

section \<open>Skeletons\<close>

datatype svn_skel_t = Skel (is_atom: bool) (sk_data: "string option") (children: "svn_skel_t list")

definition sk_bytes :: "svn_skel_t \<Rightarrow> string" where
  "sk_bytes skel = (case sk_data skel of None \<Rightarrow> [] | Some bytes \<Rightarrow> bytes)"

definition sk_len :: "svn_skel_t \<Rightarrow> nat" where
  "sk_len skel = length (sk_bytes skel)"

section \<open>Parsing\<close>

text \<open>An atom with implicit length goes to the next space, parenthesis or bracket.\<close>

definition delimits :: "char \<Rightarrow> bool" where
  "delimits c \<longleftrightarrow> skel_char_type c = type_space \<or> skel_char_type c = type_paren"

definition implicit_atom :: "string \<Rightarrow> (svn_skel_t \<times> string) option" where
  "implicit_atom data =
     (case data of
        [] \<Rightarrow> None
      | c # cs \<Rightarrow>
          if skel_char_type c \<noteq> type_name then None
          else Some (Skel True (Some (c # takeWhile (\<lambda>x. \<not> delimits x) cs)) [], dropWhile (\<lambda>x. \<not> delimits x) cs))"

definition explicit_atom :: "string \<Rightarrow> (svn_skel_t \<times> string) option" where
  "explicit_atom data =
     (case getsize data (length data) of
        None \<Rightarrow> None
      | Some (sz, data) \<Rightarrow>
          (case data of
             [] \<Rightarrow> None
           | c # data \<Rightarrow>
               if skel_char_type c \<noteq> type_space then None
               else if length data < sz then None
               else Some (Skel True (Some (take sz data)) [], drop sz data)))"

lemma getsize_loop_shorter: "getsize_loop p d v i data = Some (w, j, rest) \<Longrightarrow> length rest \<le> length data"
proof (induction data arbitrary: v i)
  case Nil
  then show ?case by (simp add: getsize_loop.simps)
next
  case (Cons c data)
  then show ?case by (subst (asm) (2) getsize_loop.simps) (fastforce simp: Let_def split: if_splits)
qed

lemma getsize_shorter: "getsize data m = Some (n, rest) \<Longrightarrow> length rest \<le> length data"
  by (auto simp: getsize_def split: option.splits if_splits dest: getsize_loop_shorter)

lemma explicit_atom_Some:
  "explicit_atom data = Some (k, rest) \<longleftrightarrow>
     (\<exists>n c bytes. getsize data (length data) = Some (n, c # bytes @ rest) \<and> skel_char_type c = type_space \<and>
        length bytes = n \<and> k = Skel True (Some bytes) [])"
proof -
  have t: "n \<le> length d \<and> take n d = b \<and> drop n d = rest \<longleftrightarrow> d = b @ rest \<and> length b = n" for n and b d :: string
    by (auto simp: min_def)
  show ?thesis
  proof (cases "\<exists>n c d. getsize data (length data) = Some (n, c # d)")
    case True
    then obtain n c d where "getsize data (length data) = Some (n, c # d)" by blast
    then have "explicit_atom data = Some (k, rest) \<longleftrightarrow>
        skel_char_type c = type_space \<and> n \<le> length d \<and> k = Skel True (Some (take n d)) [] \<and> drop n d = rest"
      by (auto simp: explicit_atom_def)
    also have "\<dots> \<longleftrightarrow> skel_char_type c = type_space \<and> (\<exists>b. (n \<le> length d \<and> take n d = b \<and> drop n d = rest) \<and> k = Skel True (Some b) [])"
      by blast
    finally show ?thesis using \<open>getsize data (length data) = Some (n, c # d)\<close> unfolding t by auto
  next
    case False
    then show ?thesis by (auto simp: explicit_atom_def split: option.split list.split)
  qed
qed

lemma explicit_atom_shorter: "explicit_atom data = Some (k, rest) \<Longrightarrow> length rest < length data"
  by (auto simp: explicit_atom_Some dest!: getsize_shorter)

lemma implicit_atom_shorter: "implicit_atom data = Some (k, rest) \<Longrightarrow> length rest < length data"
  by (auto simp: implicit_atom_def length_dropWhile_le less_Suc_eq_le split: list.splits if_splits)

lemma dropWhile_shorter: "dropWhile p xs = y # ys \<Longrightarrow> length ys < length xs"
  by (metis Suc_le_lessD length_Cons length_dropWhile_le)

text \<open>\<open>list_children\<close> is the loop of the function \<open>list\<close>: spaces are skipped before every element.\<close>

function parse :: "string \<Rightarrow> (svn_skel_t \<times> string) option"
  and list_skel :: "string \<Rightarrow> (svn_skel_t \<times> string) option"
  and list_children :: "string \<Rightarrow> (svn_skel_t list \<times> string) option" where
  "parse data =
     (case data of
        [] \<Rightarrow> None
      | c # _ \<Rightarrow>
          if c = CHR ''('' then list_skel data
          else if skel_char_type c = type_name then implicit_atom data
          else explicit_atom data)"
| "list_skel data =
     (case data of
        [] \<Rightarrow> None
      | c # rest \<Rightarrow>
          if c \<noteq> CHR ''('' then None
          else
            case list_children rest of
              None \<Rightarrow> None
            | Some (cs, behind) \<Rightarrow> Some (Skel False (Some (take (length data - length behind) data)) cs, behind))"
| "list_children data =
     (let data = dropWhile (\<lambda>c. skel_char_type c = type_space) data in
      case data of
        [] \<Rightarrow> None
      | c # rest \<Rightarrow>
          if c = CHR '')'' then Some ([], rest)
          else
            case parse data of
              None \<Rightarrow> None
            | Some (element, data) \<Rightarrow>
                case list_children data of
                  None \<Rightarrow> None
                | Some (cs, data) \<Rightarrow> Some (element # cs, data))"
  by pat_completeness auto

termination
proof -
  have parse_shorter: "parse_list_skel_list_children_dom (Inl data) \<Longrightarrow> parse data = Some (k, rest) \<Longrightarrow> length rest < length data"
    and list_shorter: "parse_list_skel_list_children_dom (Inr (Inl data)) \<Longrightarrow> list_skel data = Some (k, rest) \<Longrightarrow> length rest < length data"
    and children_shorter: "parse_list_skel_list_children_dom (Inr (Inr data)) \<Longrightarrow> list_children data = Some (ks, rest) \<Longrightarrow> length rest < length data" for data k rest ks
  proof (induction data and data and data arbitrary: k rest and k rest and ks rest rule: parse_list_skel_list_children.pinduct)
    case (1 data)
    show ?case
    proof (cases data)
      case (Cons c cs)
      then show ?thesis
        using "1.prems" "1.IH" [OF Cons] "1.hyps" implicit_atom_shorter [of data k rest] explicit_atom_shorter [of data k rest]
        by (auto simp: parse.psimps split: if_splits)
    qed (use 1 in \<open>simp add: parse.psimps\<close>)
  next
    case (2 data)
    show ?case
    proof (cases data)
      case (Cons c cs)
      then show ?thesis using "2.prems" "2.IH" [OF Cons] "2.hyps"
        by (fastforce simp: list_skel.psimps split: if_splits option.splits)
    qed (use 2 in \<open>simp add: list_skel.psimps\<close>)
  next
    case (3 data)
    let ?d = "dropWhile (\<lambda>c. skel_char_type c = type_space) data"
    show ?case
    proof (cases ?d)
      case (Cons c cs)
      show ?thesis
      proof (cases "c = CHR '')''")
        case True
        then show ?thesis using "3.prems" "3.hyps" Cons dropWhile_shorter [OF Cons] by (simp add: list_children.psimps)
      next
        case False
        obtain e d ks' where e: "parse ?d = Some (e, d)" "list_children d = Some (ks', rest)"
          using "3.prems" "3.hyps" Cons False by (auto simp: list_children.psimps split: option.splits)
        have "length d < length ?d" using "3.IH"(1) [OF refl Cons False] e(1) by blast
        moreover have "length rest < length d" using "3.IH"(2) [OF refl Cons False e(1) refl] e(2) by blast
        moreover have "length ?d \<le> length data" by (rule length_dropWhile_le)
        ultimately show ?thesis by linarith
      qed
    qed (use "3.prems" "3.hyps" in \<open>simp add: list_children.psimps del: dropWhile_eq_Nil_conv\<close>)
  qed
  show ?thesis
  proof (relation "measure (\<lambda>x. case x of Inl data \<Rightarrow> 3 * length data + 1
      | Inr (Inl data) \<Rightarrow> 3 * length data | Inr (Inr data) \<Rightarrow> 3 * length data + 2)", goal_cases)
    case (4 data d c rest)
    then show ?case using length_dropWhile_le [of "\<lambda>c. skel_char_type c = type_space" data] by simp
  next
    case (5 data d c rest x e behind)
    then have "length behind < length d" using parse_shorter by fastforce
    then show ?case using 5(1) length_dropWhile_le [of "\<lambda>c. skel_char_type c = type_space" data] by simp
  qed auto
qed

declare parse.simps [simp del] list_skel.simps [simp del] list_children.simps [simp del]

definition svn_skel__parse :: "string \<Rightarrow> svn_skel_t option" where
  "svn_skel__parse data = map_option fst (parse data)"

section \<open>Unparsing\<close>

fun estimate_unparsed_size :: "svn_skel_t \<Rightarrow> nat"
  and estimate_children :: "svn_skel_t list \<Rightarrow> nat \<Rightarrow> nat" where
  "estimate_unparsed_size (Skel atom bytes cs) =
     (if atom then
        let n = sk_len (Skel atom bytes cs) in if n < 100 then size_add n 3 else size_add n 30
      else estimate_children cs 2)"
| "estimate_children [] total_len = total_len"
| "estimate_children (child # cs) total_len =
     estimate_children cs (size_add total_len (size_add (estimate_unparsed_size child) 1))"

definition use_implicit :: "svn_skel_t \<Rightarrow> bool" where
  "use_implicit skel =
     (if sk_len skel = 0 \<or> sk_len skel \<ge> 100 then False
      else if skel_char_type (hd (sk_bytes skel)) \<noteq> type_name then False
      else list_all (\<lambda>c. \<not> delimits c) (tl (sk_bytes skel)))"

definition unparse_atom :: "svn_skel_t \<Rightarrow> svn_stringbuf_t \<Rightarrow> svn_stringbuf_t cres" where
  "unparse_atom skel str =
     (if use_implicit skel then svn_stringbuf_appendbytes str (sk_bytes skel)
      else
        cbind (svn__ui64toa (sk_len skel)) (\<lambda>(buf, length_len).
        asserting (length_len > 0)
          (cbind (svn_stringbuf_ensure str (size_add (size_add (size_add (sb_len str) length_len) 1) (sk_len skel))) (\<lambda>str.
           cbind (cbind (read_bytes buf 0 length_len) (svn_stringbuf_appendbytes str)) (\<lambda>str.
           cbind (svn_stringbuf_appendbyte str (CHR '' '')) (\<lambda>str.
             svn_stringbuf_appendbytes str (sk_bytes skel)))))))"

fun unparse :: "svn_skel_t \<Rightarrow> svn_stringbuf_t \<Rightarrow> svn_stringbuf_t cres"
  and unparse_children :: "svn_skel_t list \<Rightarrow> svn_stringbuf_t \<Rightarrow> svn_stringbuf_t cres" where
  "unparse (Skel atom bytes cs) str =
     (if atom then unparse_atom (Skel atom bytes cs) str
      else
        cbind (svn_stringbuf_appendbyte str (CHR ''('')) (\<lambda>str.
        cbind (unparse_children cs str) (\<lambda>str.
          svn_stringbuf_appendbyte str (CHR '')''))))"
| "unparse_children [] str = Ok str"
| "unparse_children (child # cs) str =
     cbind (unparse child str) (\<lambda>str.
     cbind (if cs \<noteq> [] then svn_stringbuf_appendbyte str (CHR '' '') else Ok str) (\<lambda>str.
       unparse_children cs str))"

definition svn_skel__unparse :: "svn_skel_t \<Rightarrow> svn_stringbuf_t cres" where
  "svn_skel__unparse skel =
     cbind (svn_stringbuf_create_ensure (size_add (estimate_unparsed_size skel) 200)) (unparse skel)"

section \<open>Building\<close>

definition svn_skel__str_atom :: "cstring \<Rightarrow> svn_skel_t" where
  "svn_skel__str_atom str = Skel True (Some str) []"

definition svn_skel__mem_atom :: "string \<Rightarrow> svn_skel_t" where
  "svn_skel__mem_atom addr = Skel True (Some addr) []"

definition svn_skel__make_empty_list :: svn_skel_t where
  "svn_skel__make_empty_list = Skel False None []"

text \<open>Copies of an element, of its children and of everything that is linked behind it.\<close>

fun dup_chain :: "bool \<Rightarrow> svn_skel_t list \<Rightarrow> svn_skel_t list" where
  "dup_chain dup_data [] = []"
| "dup_chain dup_data (Skel atom bytes cs # linked) =
     Skel atom (if dup_data \<and> bytes \<noteq> None then if atom then bytes else None else bytes) (dup_chain dup_data cs) #
     dup_chain dup_data linked"

definition svn_skel__dup :: "svn_skel_t list \<Rightarrow> bool \<Rightarrow> svn_skel_t list cres" where
  "svn_skel__dup src_skel dup_data = (if src_skel = [] then Overrun else Ok (dup_chain dup_data src_skel))"

text \<open>The list with the new first element; its former link is overwritten.\<close>

definition svn_skel__prepend :: "svn_skel_t \<Rightarrow> svn_skel_t \<Rightarrow> svn_skel_t cres" where
  "svn_skel__prepend skel lst =
     asserting (\<not> is_atom lst) (Ok (Skel (is_atom lst) (sk_data lst) (skel # children lst)))"

definition svn_skel__prepend_str :: "cstring \<Rightarrow> svn_skel_t \<Rightarrow> svn_skel_t cres" where
  "svn_skel__prepend_str val skel = svn_skel__prepend (svn_skel__str_atom val) skel"

definition svn_skel__prepend_int :: "int \<Rightarrow> svn_skel_t \<Rightarrow> svn_skel_t cres" where
  "svn_skel__prepend_int val skel =
     cbind (svn__i64toa val) (\<lambda>(val_string, _).
     cbind (read_cstring val_string) (\<lambda>val_string. svn_skel__prepend_str val_string skel))"

text \<open>The new element is appended with everything that is linked behind it.\<close>

definition svn_skel__append :: "svn_skel_t option \<Rightarrow> svn_skel_t list \<Rightarrow> svn_skel_t cres" where
  "svn_skel__append arg skel =
     (case arg of
        None \<Rightarrow> Abort
      | Some lst \<Rightarrow>
          asserting (\<not> is_atom lst) (Ok (Skel (is_atom lst) (sk_data lst) (children lst @ skel))))"

section \<open>Examining\<close>

definition svn_skel__matches_atom :: "svn_skel_t option \<Rightarrow> cstring \<Rightarrow> bool" where
  "svn_skel__matches_atom skel str =
     (case skel of None \<Rightarrow> False | Some s \<Rightarrow> is_atom s \<and> sk_len s = length str \<and> sk_bytes s = str)"

definition svn_skel__list_length :: "svn_skel_t option \<Rightarrow> int" where
  "svn_skel__list_length skel =
     (case skel of None \<Rightarrow> - 1 | Some s \<Rightarrow> if is_atom s then - 1 else int (length (children s)))"

definition is_valid_proplist_skel :: "svn_skel_t \<Rightarrow> bool" where
  "is_valid_proplist_skel skel =
     (let len = svn_skel__list_length (Some skel) in
      if len \<ge> 0 \<and> len mod 2 = 0 then list_all is_atom (children skel) else False)"

fun iproplist_elements :: "svn_skel_t list \<Rightarrow> bool" where
  "iproplist_elements [] = True"
| "iproplist_elements [elt] = False"
| "iproplist_elements (elt # props # rest) =
     (if \<not> is_atom elt then False else if \<not> is_valid_proplist_skel props then False else iproplist_elements rest)"

definition is_valid_iproplist_skel :: "svn_skel_t \<Rightarrow> bool" where
  "is_valid_iproplist_skel skel =
     (let len = svn_skel__list_length (Some skel) in
      if len \<ge> 0 \<and> len mod 2 = 0 then iproplist_elements (children skel) else False)"

definition skel_err :: "cstring option \<Rightarrow> svn_err" where
  "skel_err skel_type =
     svn_error_create SVN_ERR_FS_MALFORMED_SKEL
       (''Malformed'' @ (case skel_type of None \<Rightarrow> [] | Some s \<Rightarrow> '' '' @ s) @ '' skeleton'')"

section \<open>Integers and property lists\<close>

text \<open>The bytes are copied and read as a C string.\<close>

definition svn_skel__parse_int :: "svn_skel_t \<Rightarrow> int cres" where
  "svn_skel__parse_int skel = svn_cstring_atoi64 (upto_NUL (sk_bytes skel))"

fun proplist_loop :: "svn_skel_t list \<Rightarrow> string hash \<Rightarrow> string hash cres" where
  "proplist_loop [] proplist = Ok proplist"
| "proplist_loop [elt] proplist = Overrun"
| "proplist_loop (elt # val # rest) proplist =
     proplist_loop rest (hash_set proplist (sk_bytes elt) (Some (sk_bytes val)))"

definition svn_skel__parse_proplist :: "svn_skel_t \<Rightarrow> string hash cres" where
  "svn_skel__parse_proplist skel =
     (if \<not> is_valid_proplist_skel skel then Err (skel_err (Some ''proplist'')) else proplist_loop (children skel) [])"

record svn_prop_inherited_item_t =
  path_or_url :: cstring
  prop_hash :: "string hash"

fun iprops_loop :: "svn_skel_t list \<Rightarrow> svn_prop_inherited_item_t list \<Rightarrow> svn_prop_inherited_item_t list cres" where
  "iprops_loop [] iprops = Ok iprops"
| "iprops_loop [elt] iprops = Overrun"
| "iprops_loop (elt # props # rest) iprops =
     cbind (svn_skel__parse_proplist props) (\<lambda>h.
       iprops_loop rest (iprops @ [\<lparr>path_or_url = upto_NUL (sk_bytes elt), prop_hash = h\<rparr>]))"

definition svn_skel__parse_iprops :: "svn_skel_t \<Rightarrow> svn_prop_inherited_item_t list cres" where
  "svn_skel__parse_iprops skel =
     (if \<not> is_valid_iproplist_skel skel then Err (skel_err (Some ''iprops'')) else iprops_loop (children skel) [])"

fun prop_loop :: "svn_skel_t list \<Rightarrow> cstring \<Rightarrow> string option cres" where
  "prop_loop [] propname = Ok None"
| "prop_loop [elt] propname = Overrun"
| "prop_loop (elt # val # rest) propname =
     (if sk_len elt = length propname \<and> strncmp_eq propname (sk_bytes elt) (sk_len elt) then Ok (Some (sk_bytes val))
      else prop_loop rest propname)"

definition svn_skel__parse_prop :: "svn_skel_t \<Rightarrow> cstring \<Rightarrow> string option cres" where
  "svn_skel__parse_prop skel propname =
     (if \<not> is_valid_proplist_skel skel then Err (skel_err (Some ''proplist'')) else prop_loop (children skel) propname)"

text \<open>The loop over the entries of a hash: the value and then the name are put in front.\<close>

fun prepend_props :: "string hash \<Rightarrow> svn_skel_t \<Rightarrow> svn_skel_t cres" where
  "prepend_props [] skel = Ok skel"
| "prepend_props ((key, val) # hi) skel =
     cbind (svn_skel__prepend (svn_skel__mem_atom val) skel) (\<lambda>skel.
     cbind (svn_skel__prepend (svn_skel__mem_atom key) skel) (\<lambda>skel.
       prepend_props hi skel))"

definition svn_skel__unparse_proplist :: "string hash option \<Rightarrow> svn_skel_t cres" where
  "svn_skel__unparse_proplist proplist =
     cbind (case proplist of
              None \<Rightarrow> Ok svn_skel__make_empty_list
            | Some h \<Rightarrow> prepend_props h svn_skel__make_empty_list) (\<lambda>skel.
       if \<not> is_valid_proplist_skel skel then Err (skel_err (Some ''proplist'')) else Ok skel)"

fun append_iprops :: "svn_prop_inherited_item_t list \<Rightarrow> svn_skel_t \<Rightarrow> svn_skel_t cres" where
  "append_iprops [] skel = Ok skel"
| "append_iprops (iprop # rest) skel =
     cbind (prepend_props (prop_hash iprop) svn_skel__make_empty_list) (\<lambda>skel_list.
     cbind (svn_skel__append (Some skel) [svn_skel__str_atom (path_or_url iprop)]) (\<lambda>skel.
     cbind (svn_skel__append (Some skel) [skel_list]) (\<lambda>skel.
       append_iprops rest skel)))"

definition svn_skel__unparse_iproplist :: "svn_prop_inherited_item_t list option \<Rightarrow> svn_skel_t cres" where
  "svn_skel__unparse_iproplist inherited_props =
     cbind (case inherited_props of
              None \<Rightarrow> Ok svn_skel__make_empty_list
            | Some iprops \<Rightarrow> append_iprops iprops svn_skel__make_empty_list) (\<lambda>skel.
       if \<not> is_valid_iproplist_skel skel then Err (skel_err (Some ''iproplist'')) else Ok skel)"

section \<open>The language of skeletons\<close>

text \<open>What a skeleton means: a tree of atoms and lists.\<close>

datatype skel_tree = Atom string | Listed "skel_tree list"

fun tree :: "svn_skel_t \<Rightarrow> skel_tree" where
  "tree (Skel atom bytes cs) =
     (if atom then Atom (sk_bytes (Skel atom bytes cs)) else Listed (map tree cs))"

text \<open>\<open>denotes data t rest\<close>: the input \<open>data\<close> starts with the text of \<open>t\<close>, behind which \<open>rest\<close> is left.
  An atom without a length goes as far as it can.\<close>

inductive denotes :: "string \<Rightarrow> skel_tree \<Rightarrow> string \<Rightarrow> bool"
  and elements :: "string \<Rightarrow> skel_tree list \<Rightarrow> string \<Rightarrow> bool" where
  implicit: "skel_char_type c = type_name \<Longrightarrow> \<forall>x \<in> set cs. \<not> delimits x \<Longrightarrow> rest = [] \<or> delimits (hd rest) \<Longrightarrow>
    denotes (c # cs @ rest) (Atom (c # cs)) rest"
| explicit: "ds \<noteq> [] \<Longrightarrow> \<forall>d \<in> set ds. ascii_digit d \<Longrightarrow> digits_value ds = length bytes \<Longrightarrow>
    skel_char_type c = type_space \<Longrightarrow> denotes (ds @ c # bytes @ rest) (Atom bytes) rest"
| listed: "elements data ts rest \<Longrightarrow> denotes (CHR ''('' # data) (Listed ts) rest"
| no_element: "\<forall>x \<in> set ws. skel_char_type x = type_space \<Longrightarrow> elements (ws @ CHR '')'' # rest) [] rest"
| element: "\<forall>x \<in> set ws. skel_char_type x = type_space \<Longrightarrow> denotes data t mid \<Longrightarrow> elements mid ts rest \<Longrightarrow>
    elements (ws @ data) (t # ts) rest"

lemma denotes_shorter: "denotes data t rest \<Longrightarrow> length rest < length data"
  and elements_shorter: "elements data ts rest \<Longrightarrow> length rest < length data"
  by (induction rule: denotes_elements.inducts) auto

lemma ascii_digit_code: "ascii_digit c \<longleftrightarrow> 48 \<le> (of_char c :: nat) \<and> (of_char c :: nat) \<le> 57"
  by (simp add: ascii_digit_def Let_def)

lemma type_digit: "ascii_digit c \<longleftrightarrow> skel_char_type c = type_digit"
  by (auto simp: ascii_digit_code skel_char_type_def Let_def)

section \<open>Sizes\<close>

definition read_on :: "nat \<Rightarrow> string \<Rightarrow> nat" where
  "read_on v ds = foldl (\<lambda>v c. v * 10 + (of_char c - 48)) v ds"

lemma read_on_simps [simp]: "read_on v [] = v" "read_on v (c # ds) = read_on (v * 10 + (of_char c - 48)) ds"
  by (simp_all add: read_on_def)

lemma read_on_0: "read_on 0 ds = digits_value ds"
  by (simp add: read_on_def digits_value_def)

lemma read_on_ge: "v \<le> read_on v ds"
proof (induction ds arbitrary: v)
  case (Cons c ds)
  have "v \<le> v * 10 + (of_char c - 48)" by simp
  also have "\<dots> \<le> read_on v (c # ds)" using Cons by simp
  finally show ?case .
qed simp

text \<open>The test before the multiplication is exact: nothing wraps around.\<close>

lemma digit_test: "d \<le> 9 \<Longrightarrow> v > m div 10 \<or> v = m div 10 \<and> d > m mod 10 \<longleftrightarrow> v * 10 + d > (m :: nat)"
proof -
  assume d: "d \<le> 9"
  have m: "m = m div 10 * 10 + m mod 10" "m mod 10 < 10" by simp_all
  show ?thesis using m d by (cases v "m div 10" rule: linorder_cases) linarith+
qed

lemma getsize_loop_spec:
  assumes "v \<le> m" "m < size_limit"
  shows "getsize_loop (m div 10) (m mod 10) v i data =
    (let ds = takeWhile ascii_digit data in
     if read_on v ds \<le> m then Some (read_on v ds, i + length ds, dropWhile ascii_digit data) else None)"
  using assms(1)
proof (induction data arbitrary: v i)
  case Nil
  then show ?case by (subst getsize_loop.simps) simp
next
  case (Cons c data)
  show ?case
  proof (cases "ascii_digit c")
    case True
    let ?d = "of_char c - 48 :: nat"
    have d: "?d \<le> 9" using True by (simp add: ascii_digit_code le_diff_conv)
    have step: "getsize_loop (m div 10) (m mod 10) v i (c # data) =
        (if v * 10 + ?d > m then None
         else getsize_loop (m div 10) (m mod 10) ((v * 10 + ?d) mod size_limit) (i + 1) data)"
      using True digit_test [OF d, of m v] by (subst getsize_loop.simps) (simp add: ascii_digit_code Let_def)
    show ?thesis
    proof (cases "v * 10 + ?d > m")
      case True
      then show ?thesis using step read_on_ge [of "v * 10 + ?d" "takeWhile ascii_digit data"] \<open>ascii_digit c\<close>
        by (simp add: Let_def)
    next
      case False
      then have "(v * 10 + ?d) mod size_limit = v * 10 + ?d" using assms(2) by simp
      then show ?thesis using step False Cons.IH [of "v * 10 + ?d" "i + 1"] \<open>ascii_digit c\<close> by (simp add: Let_def)
    qed
  next
    case False
    then show ?thesis using Cons.prems by (subst getsize_loop.simps) (auto simp: ascii_digit_code)
  qed
qed

lemma getsize_spec:
  assumes "m < size_limit"
  shows "getsize data m =
    (let ds = takeWhile ascii_digit data in
     if ds \<noteq> [] \<and> digits_value ds \<le> m then Some (digits_value ds, dropWhile ascii_digit data) else None)"
  using getsize_loop_spec [OF _ assms, of 0 0 data] by (simp add: getsize_def read_on_0 Let_def)

lemma getsize_digits:
  assumes "m < size_limit" "ds \<noteq> []" "\<forall>d \<in> set ds. ascii_digit d" "rest = [] \<or> \<not> ascii_digit (hd rest)" "digits_value ds \<le> m"
  shows "getsize (ds @ rest) m = Some (digits_value ds, rest)"
proof -
  have "takeWhile ascii_digit (ds @ rest) = ds" "dropWhile ascii_digit (ds @ rest) = rest"
    using assms(3,4) by (cases rest; simp add: takeWhile_append2 dropWhile_append2)+
  then show ?thesis using assms(2,5) by (simp add: getsize_spec [OF assms(1)] Let_def)
qed

section \<open>Parsing follows the grammar\<close>

lemma takeWhile_dropWhile_hd: "dropWhile p xs = [] \<or> \<not> p (hd (dropWhile p xs))"
  using hd_dropWhile by blast

lemma explicit_denotes:
  assumes "explicit_atom data = Some (k, rest)" "length data < size_limit"
  shows "denotes data (tree k) rest"
proof -
  from assms(1) obtain n c bytes where e: "getsize data (length data) = Some (n, c # bytes @ rest)"
    "skel_char_type c = type_space" "length bytes = n" "k = Skel True (Some bytes) []"
    unfolding explicit_atom_Some by blast
  let ?ds = "takeWhile ascii_digit data"
  have ds: "?ds \<noteq> []" "n = digits_value ?ds" "dropWhile ascii_digit data = c # bytes @ rest"
    using e(1) by (auto simp: getsize_spec [OF assms(2)] Let_def split: if_splits)
  have "data = ?ds @ c # bytes @ rest" using ds(3) by (metis takeWhile_dropWhile_id)
  moreover have "\<forall>d \<in> set ?ds. ascii_digit d" by (meson set_takeWhileD)
  ultimately show ?thesis
    using denotes_elements.explicit [of ?ds bytes c rest] ds(1,2) e by (simp add: sk_bytes_def)
qed

lemma implicit_denotes: "implicit_atom data = Some (k, rest) \<Longrightarrow> denotes data (tree k) rest"
proof -
  assume a: "implicit_atom data = Some (k, rest)"
  then obtain c cs where d: "data = c # cs" "skel_char_type c = type_name"
    "k = Skel True (Some (c # takeWhile (\<lambda>x. \<not> delimits x) cs)) []" "rest = dropWhile (\<lambda>x. \<not> delimits x) cs"
    by (auto simp: implicit_atom_def split: list.splits if_splits)
  have "\<forall>x \<in> set (takeWhile (\<lambda>x. \<not> delimits x) cs). \<not> delimits x" by (auto dest: set_takeWhileD)
  moreover have "rest = [] \<or> delimits (hd rest)" using takeWhile_dropWhile_hd [of "\<lambda>x. \<not> delimits x" cs] d(4) by simp
  moreover have "cs = takeWhile (\<lambda>x. \<not> delimits x) cs @ rest" using d(4) by simp
  ultimately show ?thesis
    using denotes_elements.implicit [OF d(2), of "takeWhile (\<lambda>x. \<not> delimits x) cs" rest] d(1,3) by (simp add: sk_bytes_def)
qed

lemma parse_sound:
  "parse data = Some (k, rest) \<Longrightarrow> length data < size_limit \<Longrightarrow> denotes data (tree k) rest"
  and list_sound: "list_skel data = Some (k, rest) \<Longrightarrow> length data < size_limit \<Longrightarrow> denotes data (tree k) rest"
  and children_sound:
    "list_children data = Some (ks, rest) \<Longrightarrow> length data < size_limit \<Longrightarrow> elements data (map tree ks) rest"
proof (induction data and data and data arbitrary: k rest and k rest and ks rest rule: parse_list_skel_list_children.induct)
  case (1 data)
  show ?case
  proof (cases data)
    case (Cons c cs)
    then show ?thesis
      using "1.prems" "1.IH" [OF Cons] implicit_denotes [of data k rest] explicit_denotes [of data k rest]
      by (auto simp: parse.simps [of "c # cs"] split: if_splits)
  qed (use "1.prems" in \<open>simp add: parse.simps\<close>)
next
  case (2 data)
  show ?case
  proof (cases data)
    case (Cons c cs)
    then obtain ks where ks: "c = CHR ''(''" "list_children cs = Some (ks, rest)" "children k = ks" "\<not> is_atom k"
      using "2.prems" by (auto simp: list_skel.simps [of "c # cs"] split: if_splits option.splits)
    then have "elements cs (map tree ks) rest" using "2.IH" [OF Cons] "2.prems"(2) Cons by simp
    then show ?thesis using denotes_elements.listed [of cs "map tree ks" rest] ks Cons by (cases k) simp
  qed (use "2.prems" in \<open>simp add: list_skel.simps\<close>)
next
  case (3 data)
  let ?sp = "\<lambda>c. skel_char_type c = type_space"
  let ?d = "dropWhile ?sp data"
  have ws: "\<forall>x \<in> set (takeWhile ?sp data). skel_char_type x = type_space" by (meson set_takeWhileD)
  have data: "data = takeWhile ?sp data @ ?d" by simp
  show ?case
  proof (cases ?d)
    case (Cons c cs)
    show ?thesis
    proof (cases "c = CHR '')''")
      case True
      then show ?thesis
        using "3.prems" Cons denotes_elements.no_element [OF ws, of cs] data by (simp add: list_children.simps [of data])
    next
      case False
      obtain e d ks' where e: "parse ?d = Some (e, d)" "list_children d = Some (ks', rest)" "ks = e # ks'"
        using "3.prems" Cons False by (auto simp: list_children.simps [of data] split: option.splits)
      have l: "length ?d \<le> length data" by (rule length_dropWhile_le)
      have "denotes ?d (tree e) d" using "3.IH"(1) [OF refl Cons False] e(1) l "3.prems"(2) by simp
      moreover have "length d < size_limit"
        using l "3.prems"(2) denotes_shorter [OF calculation] by linarith
      ultimately show ?thesis
        using denotes_elements.element [OF ws, of ?d "tree e" d "map tree ks'" rest]
          "3.IH"(2) [OF refl Cons False e(1) refl] e(2,3) data by simp
    qed
  qed (use "3.prems" in \<open>simp add: list_children.simps [of data] del: dropWhile_eq_Nil_conv\<close>)
qed

lemma type_facts:
  "skel_char_type (CHR ''('') = type_paren" "skel_char_type (CHR '')'') = type_paren" "skel_char_type (CHR '' '') = type_space"
  by (simp_all add: skel_char_type_def)

lemma parse_implicit: 
  assumes "skel_char_type c = type_name" "\<forall>x \<in> set cs. \<not> delimits x" "rest = [] \<or> delimits (hd rest)"
  shows "parse (c # cs @ rest) = Some (Skel True (Some (c # cs)) [], rest)"
proof -
  have "takeWhile (\<lambda>x. \<not> delimits x) (cs @ rest) = cs" "dropWhile (\<lambda>x. \<not> delimits x) (cs @ rest) = rest"
    using assms(2,3) by (cases rest; simp add: takeWhile_append2 dropWhile_append2)+
  moreover have "c \<noteq> CHR ''(''" using assms(1) type_facts by auto
  ultimately show ?thesis using assms(1) by (subst parse.simps) (simp add: implicit_atom_def)
qed

lemma parse_explicit:
  assumes "ds \<noteq> []" "\<forall>d \<in> set ds. ascii_digit d" "digits_value ds = length bytes" "skel_char_type c = type_space"
    "length (ds @ c # bytes @ rest) < size_limit"
  shows "parse (ds @ c # bytes @ rest) = Some (Skel True (Some bytes) [], rest)"
proof -
  have "\<not> ascii_digit c" using assms(4) by (simp add: type_digit)
  then have "getsize (ds @ c # bytes @ rest) (length (ds @ c # bytes @ rest)) = Some (length bytes, c # bytes @ rest)"
    using getsize_digits [OF assms(5,1,2), of "c # bytes @ rest"] assms(3) by simp
  then have e: "explicit_atom (ds @ c # bytes @ rest) = Some (Skel True (Some bytes) [], rest)"
    using assms(4) by (simp add: explicit_atom_Some)
  obtain d ds' where d: "ds = d # ds'" using assms(1) by (cases ds) auto
  then have "skel_char_type d = type_digit" using assms(2) by (simp add: type_digit)
  then have "d \<noteq> CHR ''(''" "skel_char_type d \<noteq> type_name" using type_facts by auto
  then show ?thesis using e d by (subst parse.simps) simp
qed

lemma denotes_start: "denotes data t rest \<Longrightarrow> \<exists>c cs. data = c # cs \<and> c \<noteq> CHR '')'' \<and> skel_char_type c \<noteq> type_space"
proof (erule denotes.cases, goal_cases)
  case (2 ds bytes c rest)
  then show ?case by (cases ds) (auto simp: type_digit skel_char_type_def)
qed (auto simp: type_facts)

lemma children_step:
  assumes "\<forall>x \<in> set ws. skel_char_type x = type_space" "c \<noteq> CHR '')''" "skel_char_type c \<noteq> type_space"
    "parse (c # cs) = Some (k, mid)" "list_children mid = Some (ks, rest)"
  shows "list_children (ws @ c # cs) = Some (k # ks, rest)"
proof -
  have "dropWhile (\<lambda>c. skel_char_type c = type_space) (ws @ c # cs) = c # cs"
    using assms(1,3) by (simp add: dropWhile_append2)
  then show ?thesis using assms by (subst list_children.simps) simp
qed

lemma parse_complete:
  "denotes data t rest \<Longrightarrow> length data < size_limit \<Longrightarrow> \<exists>k. parse data = Some (k, rest) \<and> tree k = t"
  and children_complete:
  "elements data ts rest \<Longrightarrow> length data < size_limit \<Longrightarrow> \<exists>ks. list_children data = Some (ks, rest) \<and> map tree ks = ts"
proof (induction rule: denotes_elements.inducts)
  case (implicit c cs rest)
  then show ?case using parse_implicit by (auto simp: sk_bytes_def)
next
  case (explicit ds bytes c rest)
  then show ?case using parse_explicit by (auto simp: sk_bytes_def)
next
  case (listed data ts rest)
  then obtain ks where "list_children data = Some (ks, rest)" "map tree ks = ts" by auto
  then have "parse (CHR ''('' # data) = Some (Skel False (Some (take (length (CHR ''('' # data) - length rest) (CHR ''('' # data))) ks, rest)"
    by (simp add: parse.simps [of "CHR ''('' # data"] list_skel.simps [of "CHR ''('' # data"])
  moreover have "tree (Skel False bytes ks) = Listed ts" for bytes using \<open>map tree ks = ts\<close> by simp
  ultimately show ?case by blast
next
  case (no_element ws rest)
  have "dropWhile (\<lambda>c. skel_char_type c = type_space) (ws @ CHR '')'' # rest) = CHR '')'' # rest"
    using no_element(1) by (simp add: dropWhile_append2 type_facts)
  then show ?case by (subst list_children.simps) simp
next
  case (element ws data t mid ts rest)
  have l: "length data < size_limit" "length mid < size_limit"
    using element.prems denotes_shorter [OF element.hyps(2)] by simp_all
  obtain k where k: "parse data = Some (k, mid)" "tree k = t" using element.IH(1) l by blast
  obtain ks where ks: "list_children mid = Some (ks, rest)" "map tree ks = ts" using element.IH(2) l by blast
  obtain c cs where c: "data = c # cs" "c \<noteq> CHR '')''" "skel_char_type c \<noteq> type_space" using denotes_start [OF element.hyps(2)] by blast
  show ?case using children_step [OF element.hyps(1) c(2,3)] k ks c(1) by auto
qed

section \<open>The printed text\<close>

definition atom_text :: "string \<Rightarrow> string" where
  "atom_text bytes =
     (if use_implicit (Skel True (Some bytes) []) then bytes else decimal_nat (length bytes) @ CHR '' '' # bytes)"

fun skel_text :: "skel_tree \<Rightarrow> string" where
  "skel_text (Atom bytes) = atom_text bytes"
| "skel_text (Listed ts) = CHR ''('' # join_with '' '' (map skel_text ts) @ '')''"

lemma use_implicit_bytes: "use_implicit k = use_implicit (Skel True (Some (sk_bytes k)) [])"
  by (simp add: use_implicit_def sk_len_def sk_bytes_def)

lemma atom_text_denotes:
  assumes "use_implicit (Skel True (Some bytes) []) \<Longrightarrow> rest = [] \<or> delimits (hd rest)"
  shows "denotes (atom_text bytes @ rest) (Atom bytes) rest"
proof (cases "use_implicit (Skel True (Some bytes) [])")
  case True
  then obtain c cs where c: "bytes = c # cs" "skel_char_type c = type_name" "\<forall>x \<in> set cs. \<not> delimits x"
    by (cases bytes) (auto simp: use_implicit_def sk_len_def sk_bytes_def list_all_iff split: if_splits)
  show ?thesis using denotes_elements.implicit [OF c(2,3) assms [OF True]] True c(1) by (simp add: atom_text_def)
next
  case False
  note d = decimal_nat_ok [of "length bytes"]
  show ?thesis
    using denotes_elements.explicit [of "decimal_nat (length bytes)" bytes "CHR '' ''" rest] d False
    by (simp add: atom_text_def type_facts)
qed

lemma skel_text_denotes:
  assumes "\<And>bytes. t = Atom bytes \<Longrightarrow> use_implicit (Skel True (Some bytes) []) \<Longrightarrow> rest = [] \<or> delimits (hd rest)"
  shows "denotes (skel_text t @ rest) t rest"
  using assms
proof (induction t arbitrary: rest)
  case (Atom bytes)
  then show ?case using atom_text_denotes by simp
next
  case (Listed ts)
  have par: "delimits (CHR '')'')" "delimits (CHR '' '')" by (simp_all add: delimits_def type_facts)
  have "elements (join_with '' '' (map skel_text ts) @ CHR '')'' # rest) ts rest \<and>
      elements (CHR '' '' # join_with '' '' (map skel_text ts) @ CHR '')'' # rest) ts rest"
    using Listed.IH
  proof (induction ts)
    case Nil
    then show ?case using denotes_elements.no_element [of "[]" rest] denotes_elements.no_element [of "'' ''" rest]
      by (simp add: type_facts)
  next
    case (Cons t ts)
    let ?mid = "(if ts = [] then '')'' else CHR '' '' # join_with '' '' (map skel_text ts) @ '')'') @ rest"
    have "denotes (skel_text t @ ?mid) t ?mid" using Cons.prems [of t] par by (cases "ts = []") auto
    moreover have "elements ?mid ts rest"
      using Cons denotes_elements.no_element [of "[]" rest] by (cases "ts = []") auto
    ultimately have e: "elements (ws @ skel_text t @ ?mid) (t # ts) rest" if "\<forall>x \<in> set ws. skel_char_type x = type_space" for ws
      using denotes_elements.element [OF that] by blast
    have "skel_text t @ ?mid = join_with '' '' (map skel_text (t # ts)) @ CHR '')'' # rest"
      by (cases "ts = []") (simp_all add: join_with_Cons)
    then show ?case using e [of "[]"] e [of "'' ''"] unfolding \<open>skel_text t @ ?mid = _\<close> by (simp add: type_facts del: list.map)
  qed
  then show ?case using denotes_elements.listed by simp
qed

end
