(* ===== verification/Skel_Correct.thy ===== *)
theory Skel_Correct
  imports Svn_Skel
begin

text \<open>
  Writing skeletons and reading them back: \<^verbatim>\<open>svn_skel__unparse\<close> fills a buffer with the text of the tree, within
  the estimated size; the readers of property lists depend on the tree only, so they return the same
  for what was written and parsed (locale \<open>tree_reader\<close>).
\<close>

section \<open>Unparsing prints the text\<close>

lemma gives_bind: "gives r s \<Longrightarrow> (\<And>b. r = Ok b \<Longrightarrow> holds b s \<Longrightarrow> gives (f b) t) \<Longrightarrow> gives (cbind r f) t"
  by (auto elim: givesE)

lemma unparse_atom_gives:
  assumes "holds b s" "fits (length s + length (atom_text (sk_bytes k)))"
  shows "gives (unparse_atom k b) (s @ atom_text (sk_bytes k))"
proof (cases "use_implicit k")
  case True
  then show ?thesis
    using stringbuf_appendbytes [OF assms(1)] assms(2) use_implicit_bytes [of k]
    by (simp add: unparse_atom_def atom_text_def)
next
  case False
  let ?n = "sk_len k" and ?d = "decimal_nat (sk_len k)"
  have shape: "atom_text (sk_bytes k) = ?d @ CHR '' '' # sk_bytes k"
    using False use_implicit_bytes [of k] by (simp add: atom_text_def sk_len_def)
  have n: "?n < 2 ^ 64"
  proof -
    have "fits ?n" using assms(2) shape by (elim fits_mono) (simp add: sk_len_def)
    then show ?thesis using fits_limit [of ?n] by (simp add: size_limit_def)
  qed
  have u: "svn__ui64toa ?n = Ok (map Some ?d @ [Some NUL], length ?d)" by (rule ui64toa_decimal [OF n])
  have pos: "0 < length ?d" using decimal_nat_ok [of ?n] by simp
  have f: "fits (length s + length ?d + 1 + ?n)" using assms(2) by (simp add: shape sk_len_def ac_simps)
  have z: "size_add (size_add (size_add (sb_len b) (length ?d)) 1) ?n = length s + length ?d + 1 + ?n"
    using assms(1) fits_limit [OF f] by (simp add: holds_def)
  have r: "read_bytes (map Some ?d @ [Some NUL]) 0 (length ?d) = Ok ?d" by (rule read_bytes_prefix)
  have "gives (cbind (svn_stringbuf_ensure b (length s + length ?d + 1 + ?n)) (\<lambda>str.
           cbind (svn_stringbuf_appendbytes str ?d) (\<lambda>str.
           cbind (svn_stringbuf_appendbyte str (CHR '' '')) (\<lambda>str.
             svn_stringbuf_appendbytes str (sk_bytes k))))) (((s @ ?d) @ '' '') @ sk_bytes k)"
  proof (intro gives_bind)
    show "gives (svn_stringbuf_ensure b (length s + length ?d + 1 + ?n)) s" by (rule stringbuf_ensure [OF assms(1) f])
    show "gives (svn_stringbuf_appendbytes b' ?d) (s @ ?d)" if "holds b' s" for b'
      by (rule stringbuf_appendbytes [OF that]) (rule fits_mono [OF f], simp)
    show "gives (svn_stringbuf_appendbyte b' (CHR '' '')) ((s @ ?d) @ '' '')" if "holds b' (s @ ?d)" for b'
      by (rule stringbuf_appendbyte [OF that]) (rule fits_mono [OF f], simp)
    show "gives (svn_stringbuf_appendbytes b' (sk_bytes k)) (((s @ ?d) @ '' '') @ sk_bytes k)" if "holds b' ((s @ ?d) @ '' '')" for b'
      by (rule stringbuf_appendbytes [OF that]) (rule fits_mono [OF f], simp add: sk_len_def)
  qed
  then show ?thesis using False u pos unfolding unparse_atom_def by (simp add: z [simplified] r shape)
qed

lemma unparse_gives:
  "holds b s \<Longrightarrow> fits (length s + length (skel_text (tree k))) \<Longrightarrow> gives (unparse k b) (s @ skel_text (tree k))"
  and unparse_children_gives:
  "holds b s \<Longrightarrow> fits (length s + length (join_with '' '' (map (\<lambda>k. skel_text (tree k)) ks))) \<Longrightarrow>
     gives (unparse_children ks b) (s @ join_with '' '' (map (\<lambda>k. skel_text (tree k)) ks))"
proof (induction k b and ks b arbitrary: s and s rule: unparse_unparse_children.induct)
  case (1 atom bytes cs b)
  show ?case
  proof (cases atom)
    case True
    then show ?thesis using unparse_atom_gives [OF "1.prems"(1), of "Skel atom bytes cs"] "1.prems"(2) by simp
  next
    case False
    let ?j = "join_with '' '' (map (\<lambda>k. skel_text (tree k)) cs)"
    have f: "fits (length s + 1 + length ?j + 1)" using "1.prems"(2) False by (simp add: comp_def)
    have "gives (unparse (Skel atom bytes cs) b) (((s @ ''('') @ ?j) @ '')'')"
      unfolding unparse.simps if_not_P [OF False]
    proof (intro gives_bind)
      show "gives (svn_stringbuf_appendbyte b (CHR ''('')) (s @ ''('')"
        by (rule stringbuf_appendbyte [OF "1.prems"(1)]) (rule fits_mono [OF f], simp)
      show "gives (unparse_children cs b') ((s @ ''('') @ ?j)"
        if "svn_stringbuf_appendbyte b (CHR ''('') = Ok b'" "holds b' (s @ ''('')" for b'
        using "1.IH" [OF False that] fits_mono [OF f] by simp
      show "gives (svn_stringbuf_appendbyte b' (CHR '')'')) (((s @ ''('') @ ?j) @ '')'')" if "holds b' ((s @ ''('') @ ?j)" for b'
        by (rule stringbuf_appendbyte [OF that]) (rule fits_mono [OF f], simp)
    qed
    then show ?thesis using False by (simp add: comp_def)
  qed
next
  case (3 child cs b)
  let ?t = "skel_text (tree child)" and ?j = "join_with '' '' (map (\<lambda>k. skel_text (tree k)) cs)"
  let ?s = "if cs \<noteq> [] then '' '' else []"
  have j: "join_with '' '' (map (\<lambda>k. skel_text (tree k)) (child # cs)) = ?t @ ?s @ ?j"
    by (cases "cs = []") (simp_all add: join_with_Cons)
  have f: "fits (length s + length ?t + length ?s + length ?j)" using "3.prems"(2) unfolding j by (simp add: ac_simps)
  have "gives (unparse_children (child # cs) b) (((s @ ?t) @ ?s) @ ?j)"
    unfolding unparse_children.simps
  proof (intro gives_bind)
    show "gives (unparse child b) (s @ ?t)"
      by (rule "3.IH"(1) [OF "3.prems"(1)]) (rule fits_mono [OF f], simp)
    show "gives (if cs \<noteq> [] then svn_stringbuf_appendbyte b' (CHR '' '') else Ok b') ((s @ ?t) @ ?s)" if "holds b' (s @ ?t)" for b'
      using stringbuf_appendbyte [OF that, of "CHR '' ''"] fits_mono [OF f] that by (cases "cs = []") simp_all
    show "gives (unparse_children cs b2) (((s @ ?t) @ ?s) @ ?j)"
      if "unparse child b = Ok b1" "(if cs \<noteq> [] then svn_stringbuf_appendbyte b1 (CHR '' '') else Ok b1) = Ok b2"
        "holds b2 ((s @ ?t) @ ?s)" for b1 b2
      using "3.IH"(2) [OF that] fits_mono [OF f] by simp
  qed
  then show ?case unfolding j by simp
qed simp

section \<open>The estimate\<close>

fun room :: "skel_tree \<Rightarrow> nat" where
  "room (Atom bytes) = length bytes + (if length bytes < 100 then 3 else 30)"
| "room (Listed ts) = 2 + sum_list (map (\<lambda>t. room t + 1) ts)"

lemma estimate_room:
  "room (tree k) < size_limit \<Longrightarrow> estimate_unparsed_size k = room (tree k)"
  and estimate_children_room:
  "n + sum_list (map (\<lambda>k. room (tree k) + 1) ks) < size_limit \<Longrightarrow>
     estimate_children ks n = n + sum_list (map (\<lambda>k. room (tree k) + 1) ks)"
proof (induction k and ks n rule: estimate_unparsed_size_estimate_children.induct)
  case (1 atom bytes cs)
  then show ?case by (cases atom) (auto simp: sk_len_def Let_def comp_def)
next
  case (3 child cs n)
  then show ?case by simp
qed simp

lemma length_join: "length (join_with '' '' xs) \<le> sum_list (map (\<lambda>x. length x + 1) xs)"
  by (induction "'' ''" xs rule: join_with.induct) auto

lemma sum_list_le: "(\<And>x. x \<in> set xs \<Longrightarrow> f x \<le> g x) \<Longrightarrow> sum_list (map f xs) \<le> sum_list (map (g :: _ \<Rightarrow> nat) xs)"
  by (induction xs) (auto intro: add_mono)

lemma room_le_sum: "t \<in> set ts \<Longrightarrow> room t \<le> sum_list (map (\<lambda>t. room t + 1) ts)"
  by (induction ts) auto

text \<open>The estimate is enough for the text.\<close>

lemma text_in_room: "room t < size_limit \<Longrightarrow> length (skel_text t) \<le> room t"
proof (induction t)
  case (Atom bytes)
  then have "length (decimal_nat (length bytes)) \<le> 20"
    by (intro ui64toa_decimal(2)) (simp add: size_limit_def)
  moreover have "length (decimal_nat (length bytes)) \<le> 2" if "length bytes < 100"
    using decimal_nat_length [of "length bytes" 2] that by simp
  ultimately show ?case by (auto simp: atom_text_def)
next
  case (Listed ts)
  have "length (skel_text t) + 1 \<le> room t + 1" if "t \<in> set ts" for t
    using Listed.IH [OF that] room_le_sum [OF that] Listed.prems by simp
  then have "sum_list (map (\<lambda>t. length (skel_text t) + 1) ts) \<le> sum_list (map (\<lambda>t. room t + 1) ts)"
    by (rule sum_list_le)
  then show ?case using length_join [of "map skel_text ts"] by (simp add: comp_def)
qed

lemma svn_skel__unparse_gives:
  assumes "fits (room (tree k) + 200)"
  shows "gives (svn_skel__unparse k) (skel_text (tree k))"
proof -
  have r: "room (tree k) < size_limit" "room (tree k) + 200 < size_limit" using fits_limit [OF assms] by simp_all
  have e: "size_add (estimate_unparsed_size k) 200 = room (tree k) + 200" using r by (simp add: estimate_room)
  obtain b where b: "svn_stringbuf_create_ensure (room (tree k) + 200) = Ok b" "holds b []"
    using stringbuf_create_ensure [OF assms] by metis
  have "fits (length (skel_text (tree k)))" using text_in_room [OF r(1)] by (intro fits_mono [OF assms]) simp
  then show ?thesis using unparse_gives [OF b(2), of k] b(1) by (simp add: svn_skel__unparse_def e)
qed

lemma parse_unparsed:
  assumes "fits (room (tree k) + 200)"
  obtains b k' where "svn_skel__unparse k = Ok b" "holds b (skel_text (tree k))"
    "svn_skel__parse (skel_text (tree k)) = Some k'" "tree k' = tree k"
proof -
  have r: "room (tree k) < size_limit" using fits_limit [OF assms] by simp
  then have "length (skel_text (tree k)) < size_limit" using text_in_room [OF r] by simp
  moreover have "denotes (skel_text (tree k)) (tree k) []" using skel_text_denotes [of "tree k" "[]"] by simp
  ultimately obtain k' where "parse (skel_text (tree k)) = Some (k', [])" "tree k' = tree k" using parse_complete by blast
  moreover obtain b where "svn_skel__unparse k = Ok b" "holds b (skel_text (tree k))"
    using svn_skel__unparse_gives [OF assms] by (elim givesE)
  ultimately show ?thesis using that by (simp add: svn_skel__parse_def)
qed

lemma dup_chain_tree: "map tree (dup_chain dup ks) = map tree ks"
  by (induction dup ks rule: dup_chain.induct) (auto simp: sk_bytes_def)

section \<open>Property lists\<close>

text \<open>What the readers return depends on the tree only.\<close>

lemma tree_is_atom: "tree k = tree k' \<Longrightarrow> is_atom k = is_atom k'"
  by (cases k; cases k') (auto split: if_splits)

lemma tree_bytes: "tree k = tree k' \<Longrightarrow> is_atom k \<Longrightarrow> sk_bytes k = sk_bytes k'"
  by (cases k; cases k') (auto split: if_splits)

lemma tree_children: "tree k = tree k' \<Longrightarrow> \<not> is_atom k \<Longrightarrow> map tree (children k) = map tree (children k')"
  by (cases k; cases k') (auto split: if_splits)

lemma atoms_tree: "map tree ks = map tree ks' \<Longrightarrow> list_all is_atom ks = list_all is_atom ks'"
proof (induction ks arbitrary: ks')
  case (Cons k ks)
  then obtain k' l where "ks' = k' # l" by (cases ks') auto
  then show ?case using Cons tree_is_atom [of k k'] by auto
qed simp

lemma even_length_int: "int (length xs) mod 2 = 0 \<longleftrightarrow> even (length xs)"
  by presburger

lemma valid_proplist_iff:
  "is_valid_proplist_skel k \<longleftrightarrow> \<not> is_atom k \<and> even (length (children k)) \<and> list_all is_atom (children k)"
  by (auto simp: is_valid_proplist_skel_def svn_skel__list_length_def even_length_int)

lemma valid_iproplist_iff: "is_valid_iproplist_skel k \<longleftrightarrow> \<not> is_atom k \<and> iproplist_elements (children k)"
proof -
  have "iproplist_elements ks \<Longrightarrow> even (length ks)" for ks
    by (induction ks rule: iproplist_elements.induct) (auto split: if_splits)
  then show ?thesis
    by (auto simp: is_valid_iproplist_skel_def svn_skel__list_length_def even_length_int)
qed

lemma valid_proplist_tree: "tree k = tree k' \<Longrightarrow> is_valid_proplist_skel k = is_valid_proplist_skel k'"
  using tree_is_atom [of k k'] tree_children [of k k'] atoms_tree [of "children k" "children k'"]
  unfolding valid_proplist_iff by (metis map_eq_imp_length_eq)

lemma proplist_loop_tree:
  "map tree ks = map tree ks' \<Longrightarrow> list_all is_atom ks \<Longrightarrow> proplist_loop ks h = proplist_loop ks' h"
proof (induction ks h arbitrary: ks' rule: proplist_loop.induct)
  case (2 elt h)
  then obtain k where "ks' = [k]" by (cases ks') auto
  then show ?case by simp
next
  case (3 elt v rest h)
  then obtain a b l where "ks' = a # b # l" "tree elt = tree a" "tree v = tree b" "map tree rest = map tree l"
    by (cases ks'; cases "tl ks'") auto
  then show ?case using 3 tree_bytes [of elt a] tree_bytes [of v b] by simp
qed simp

lemma prop_loop_tree:
  "map tree ks = map tree ks' \<Longrightarrow> list_all is_atom ks \<Longrightarrow> prop_loop ks name = prop_loop ks' name"
proof (induction ks name arbitrary: ks' rule: prop_loop.induct)
  case (2 elt name)
  then obtain k where "ks' = [k]" by (cases ks') auto
  then show ?case by simp
next
  case (3 elt v rest name)
  then obtain a b l where "ks' = a # b # l" "tree elt = tree a" "tree v = tree b" "map tree rest = map tree l"
    by (cases ks'; cases "tl ks'") auto
  then show ?case using 3 tree_bytes [of elt a] tree_bytes [of v b] by (auto simp: sk_len_def)
qed simp

lemma parse_proplist_tree: "tree k = tree k' \<Longrightarrow> svn_skel__parse_proplist k = svn_skel__parse_proplist k'"
  using valid_proplist_tree [of k k'] proplist_loop_tree [OF tree_children, of k k']
  unfolding svn_skel__parse_proplist_def by (auto simp: valid_proplist_iff)

lemma parse_prop_tree: "tree k = tree k' \<Longrightarrow> svn_skel__parse_prop k name = svn_skel__parse_prop k' name"
  using valid_proplist_tree [of k k'] prop_loop_tree [OF tree_children, of k k']
  unfolding svn_skel__parse_prop_def by (auto simp: valid_proplist_iff)

lemma iproplist_elements_tree: "map tree ks = map tree ks' \<Longrightarrow> iproplist_elements ks = iproplist_elements ks'"
proof (induction ks arbitrary: ks' rule: iproplist_elements.induct)
  case (2 elt)
  then obtain k where "ks' = [k]" by (cases ks') auto
  then show ?case by simp
next
  case (3 elt v rest)
  then obtain a b l where "ks' = a # b # l" "tree elt = tree a" "tree v = tree b" "map tree rest = map tree l"
    by (cases ks'; cases "tl ks'") auto
  then show ?case using 3 tree_is_atom [of elt a] valid_proplist_tree [of v b] by simp
qed simp

lemma iprops_loop_tree:
  "map tree ks = map tree ks' \<Longrightarrow> iproplist_elements ks \<Longrightarrow> iprops_loop ks is = iprops_loop ks' is"
proof (induction ks "is" arbitrary: ks' rule: iprops_loop.induct)
  case (2 elt "is")
  then show ?case by simp
next
  case (3 elt v rest "is")
  then obtain a b l where l: "ks' = a # b # l" "tree elt = tree a" "tree v = tree b" "map tree rest = map tree l"
    by (cases ks'; cases "tl ks'") auto
  have e: "is_atom elt" "iproplist_elements rest" using "3.prems"(2) by (auto split: if_splits)
  show ?case unfolding l(1) iprops_loop.simps parse_proplist_tree [OF l(3)] tree_bytes [OF l(2) e(1)]
  proof (rule cbind_cong [OF refl])
    fix h assume h: "svn_skel__parse_proplist b = Ok h"
    show "iprops_loop rest (is @ [\<lparr>path_or_url = upto_NUL (sk_bytes a), prop_hash = h\<rparr>]) =
        iprops_loop l (is @ [\<lparr>path_or_url = upto_NUL (sk_bytes a), prop_hash = h\<rparr>])"
      using "3.IH" [of h l] h l e parse_proplist_tree [OF l(3)] tree_bytes [OF l(2) e(1)] by simp
  qed
qed simp

lemma parse_iprops_tree: "tree k = tree k' \<Longrightarrow> svn_skel__parse_iprops k = svn_skel__parse_iprops k'"
  using tree_is_atom [of k k'] tree_children [of k k'] iproplist_elements_tree [of "children k" "children k'"]
    iprops_loop_tree [of "children k" "children k'" "[]"]
  unfolding svn_skel__parse_iprops_def valid_iproplist_iff by auto

text \<open>The elements of a property list.\<close>

definition prop_atoms :: "string hash \<Rightarrow> svn_skel_t list" where
  "prop_atoms h = concat (map (\<lambda>(k, v). [svn_skel__mem_atom k, svn_skel__mem_atom v]) h)"

lemma prop_atoms_simps [simp]:
  "prop_atoms [] = []" "prop_atoms ((k, v) # h) = svn_skel__mem_atom k # svn_skel__mem_atom v # prop_atoms h"
  "prop_atoms (h @ h') = prop_atoms h @ prop_atoms h'"
  by (simp_all add: prop_atoms_def)

lemma prepend_props_elements:
  "prepend_props h (Skel False d cs) = Ok (Skel False d (prop_atoms (List.rev h) @ cs))"
  by (induction h arbitrary: cs) (auto simp: svn_skel__prepend_def)

lemma mem_atom_simps [simp]: "is_atom (svn_skel__mem_atom s)" "sk_bytes (svn_skel__mem_atom s) = s"
  by (simp_all add: svn_skel__mem_atom_def sk_bytes_def)

lemma prop_atoms_valid: "even (length (prop_atoms h)) \<and> list_all is_atom (prop_atoms h)"
  by (induction h) auto

lemma valid_prop_atoms [simp]: "is_valid_proplist_skel (Skel False d (prop_atoms h))"
  by (simp add: valid_proplist_iff prop_atoms_valid)

lemma proplist_loop_atoms:
  "distinct (map fst (h0 @ h)) \<Longrightarrow> proplist_loop (prop_atoms h) h0 = Ok (h0 @ h)"
proof (induction h arbitrary: h0)
  case (Cons e h)
  obtain k v where e: "e = (k, v)" by (cases e)
  have "hash_set h0 k (Some v) = h0 @ [(k, v)]" using Cons.prems e by (auto simp: hash_set_def)
  then show ?case using Cons.IH [of "h0 @ [(k, v)]"] Cons.prems e by simp
qed simp

lemma parse_proplist_atoms:
  "distinct (map fst h) \<Longrightarrow> svn_skel__parse_proplist (Skel False d (prop_atoms h)) = Ok h"
  using proplist_loop_atoms [of "[]" h] by (simp add: svn_skel__parse_proplist_def)

lemma prop_loop_atoms: "prop_loop (prop_atoms h) name = Ok (map_of h name)"
  by (induction h) (auto simp: sk_len_def strncmp_eq_def)

lemma unparse_proplist_elements:
  "svn_skel__unparse_proplist (Some h) = Ok (Skel False None (prop_atoms (List.rev h)))"
  "svn_skel__unparse_proplist None = Ok (Skel False None (prop_atoms []))"
  by (simp_all add: svn_skel__unparse_proplist_def svn_skel__make_empty_list_def prepend_props_elements)
     (use valid_prop_atoms [of None "[]"] in simp)

definition iprop_elements :: "svn_prop_inherited_item_t list \<Rightarrow> svn_skel_t list" where
  "iprop_elements is =
     concat (map (\<lambda>i. [svn_skel__str_atom (path_or_url i), Skel False None (prop_atoms (List.rev (prop_hash i)))]) is)"

lemma append_iprops_elements:
  "append_iprops is (Skel False d cs) = Ok (Skel False d (cs @ iprop_elements is))"
  by (induction "is" arbitrary: cs)
     (auto simp: iprop_elements_def svn_skel__make_empty_list_def prepend_props_elements svn_skel__append_def)

lemma iprop_elements_valid: "iproplist_elements (iprop_elements is)"
  by (induction "is") (auto simp: iprop_elements_def svn_skel__str_atom_def)

lemma unparse_iproplist_elements:
  "svn_skel__unparse_iproplist (Some is) = Ok (Skel False None (iprop_elements is))"
  using append_iprops_elements [of "is" None "[]"] iprop_elements_valid [of "is"]
  by (simp add: svn_skel__unparse_iproplist_def svn_skel__make_empty_list_def valid_iproplist_iff)

lemma iprops_loop_elements:
  assumes "\<forall>i \<in> set is. is_cstring (path_or_url i) \<and> distinct (map fst (prop_hash i))"
  shows "iprops_loop (iprop_elements is) acc = Ok (acc @ map (\<lambda>i. i\<lparr>prop_hash := List.rev (prop_hash i)\<rparr>) is)"
  using assms
proof (induction "is" arbitrary: acc)
  case (Cons i "is")
  have "svn_skel__parse_proplist (Skel False None (prop_atoms (List.rev (prop_hash i)))) = Ok (List.rev (prop_hash i))"
    using Cons.prems by (intro parse_proplist_atoms) (simp add: rev_map [symmetric])
  moreover have "upto_NUL (sk_bytes (svn_skel__str_atom (path_or_url i))) = path_or_url i"
    using Cons.prems by (simp add: svn_skel__str_atom_def sk_bytes_def upto_NUL_def takeWhile_eq_all_conv is_cstring_def) (metis)
  ultimately show ?case using Cons by (simp add: iprop_elements_def)
qed (simp add: iprop_elements_def)

section \<open>The readers\<close>

lemma proplist_loop_total: "even (length ks) \<Longrightarrow> \<exists>h. proplist_loop ks h0 = Ok h"
  by (induction ks h0 rule: proplist_loop.induct) auto

lemma prop_loop_total: "even (length ks) \<Longrightarrow> \<exists>v. prop_loop ks name = Ok v"
  by (induction ks name rule: prop_loop.induct) auto

lemma parse_proplist_cases:
  "if is_valid_proplist_skel k then \<exists>h. svn_skel__parse_proplist k = Ok h
   else svn_skel__parse_proplist k = Err (skel_err (Some ''proplist''))"
  using proplist_loop_total by (simp add: svn_skel__parse_proplist_def valid_proplist_iff)

lemma iprops_loop_total: "iproplist_elements ks \<Longrightarrow> \<exists>is. iprops_loop ks acc = Ok is"
proof (induction ks acc rule: iprops_loop.induct)
  case (3 elt props rest acc)
  then obtain h where h: "svn_skel__parse_proplist props = Ok h" using parse_proplist_cases [of props] by (auto split: if_splits)
  then show ?case using 3 by (auto split: if_splits)
qed auto

section \<open>Reading back\<close>

text \<open>A reader whose result depends on the tree only returns the same for the skeleton that was written
  and parsed again.\<close>

locale tree_reader =
  fixes reader :: "svn_skel_t \<Rightarrow> 'a cres"
  assumes reader_tree: "tree k = tree k' \<Longrightarrow> reader k = reader k'"
begin

lemma read_back:
  assumes "fits (room (tree k) + 200)"
  shows "\<exists>b t k'. svn_skel__unparse k = Ok b \<and> holds b t \<and> svn_skel__parse t = Some k' \<and> reader k' = reader k"
  using parse_unparsed [OF assms] reader_tree by metis

lemma read_dup: "svn_skel__dup [k] dup_data = Ok ks \<Longrightarrow> reader (hd ks) = reader k"
  using dup_chain_tree [of dup_data "[k]"] by (intro reader_tree) (cases k; auto simp: svn_skel__dup_def)

end

interpretation plist: tree_reader svn_skel__parse_proplist
  by unfold_locales (rule parse_proplist_tree)

interpretation pvalue: tree_reader "\<lambda>k. svn_skel__parse_prop k name" for name
  by unfold_locales (rule parse_prop_tree)

interpretation iprops: tree_reader svn_skel__parse_iprops
  by unfold_locales (rule parse_iprops_tree)

text \<open>Several readers at once.\<close>

interpretation props: tree_reader "\<lambda>k. Ok (svn_skel__parse_proplist k, \<lambda>name. svn_skel__parse_prop k name)"
  by unfold_locales (auto intro!: parse_proplist_tree parse_prop_tree)

lemma map_of_rev: "distinct (map fst h) \<Longrightarrow> map_of (List.rev h) = map_of h"
proof (induction h)
  case (Cons e h)
  obtain k v where e: "e = (k, v)" by (cases e)
  have "map_of h k = None" using Cons.prems e by (simp add: map_of_eq_None_iff)
  then have "map_of [(k, v)] ++ map_of h = map_of h ++ map_of [(k, v)]" by (intro map_add_comm) (auto simp: dom_def)
  then show ?case using Cons e by simp
qed simp

lemma proplist_written:
  assumes "distinct (map fst h)" "k = Skel False None (prop_atoms (List.rev h))" "fits (room (tree k) + 200)"
  shows "\<exists>b t k' g. svn_skel__unparse k = Ok b \<and> holds b t \<and> svn_skel__parse t = Some k' \<and>
    svn_skel__parse_proplist k' = Ok g \<and> map_of g = map_of h \<and> length g = length h \<and>
    (\<forall>name. svn_skel__parse_prop k' name = Ok (map_of h name))"
proof -
  have "svn_skel__parse_proplist k = Ok (List.rev h)"
    unfolding assms(2) using assms(1) by (intro parse_proplist_atoms) (simp add: rev_map [symmetric])
  moreover have "svn_skel__parse_prop k name = Ok (map_of h name)" for name
    using prop_loop_atoms [of "List.rev h" name] map_of_rev [OF assms(1)] by (simp add: svn_skel__parse_prop_def assms(2))
  moreover obtain b t k' where "svn_skel__unparse k = Ok b" "holds b t" "svn_skel__parse t = Some k'"
    "svn_skel__parse_proplist k' = svn_skel__parse_proplist k" "svn_skel__parse_prop k' = svn_skel__parse_prop k"
    using props.read_back [OF assms(3)] by auto
  ultimately show ?thesis using map_of_rev [OF assms(1)] by (intro exI [of _ b] exI [of _ t] exI [of _ k'] exI [of _ "List.rev h"]) simp
qed

lemma iprops_written:
  assumes "\<forall>i \<in> set is. is_cstring (path_or_url i) \<and> distinct (map fst (prop_hash i))"
    "k = Skel False None (iprop_elements is)" "fits (room (tree k) + 200)"
  shows "\<exists>b t k' js. svn_skel__unparse k = Ok b \<and> holds b t \<and> svn_skel__parse t = Some k' \<and>
    svn_skel__parse_iprops k' = Ok js \<and> map path_or_url js = map path_or_url is \<and>
    map (\<lambda>i. map_of (prop_hash i)) js = map (\<lambda>i. map_of (prop_hash i)) is"
proof -
  let ?js = "map (\<lambda>i. i\<lparr>prop_hash := List.rev (prop_hash i)\<rparr>) is"
  have "svn_skel__parse_iprops k = Ok ?js"
    using iprops_loop_elements [OF assms(1), of "[]"] iprop_elements_valid [of "is"]
    by (simp add: svn_skel__parse_iprops_def valid_iproplist_iff assms(2))
  moreover obtain b t k' where "svn_skel__unparse k = Ok b" "holds b t" "svn_skel__parse t = Some k'"
    "svn_skel__parse_iprops k' = svn_skel__parse_iprops k"
    using iprops.read_back [OF assms(3)] by auto
  moreover have "map (\<lambda>i. map_of (prop_hash i)) ?js = map (\<lambda>i. map_of (prop_hash i)) is"
    using assms(1) map_of_rev by auto
  ultimately show ?thesis by (intro exI [of _ b] exI [of _ t] exI [of _ k'] exI [of _ ?js]) simp
qed

lemma int_skel:
  assumes "- (2 ^ 63) \<le> n" "n < 2 ^ 63" "\<not> is_atom lst"
  obtains k where "svn_skel__prepend_int n lst = Ok (Skel False (sk_data lst) (k # children lst))"
    "tree k = Atom (decimal n)" "svn_skel__parse_int k = Ok n"
proof -
  note d = decimal_reads [of n]
  have "upto_NUL (decimal n) = decimal n" using d(2) by (simp add: is_cstring_def upto_NUL_def takeWhile_eq_all_conv) metis
  moreover have "svn_cstring_atoi64 (decimal n) = Ok n"
    using strtoi64_exact(1) [OF d(2), of "- (2 ^ 63)" "2 ^ 63 - 1" n] d(1) assms(1,2) by (simp add: svn_cstring_atoi64_def)
  moreover have "read_cstring (map Some (decimal n) @ [Some NUL]) = Ok (decimal n)"
    using read_cstring_upto [of "decimal n" "[]"] calculation(1) by simp
  ultimately show ?thesis
    using that [of "svn_skel__str_atom (decimal n)"] assms(3) i64toa_decimal [OF assms(1,2)]
    by (simp add: svn_skel__prepend_int_def svn_skel__prepend_str_def svn_skel__prepend_def svn_skel__parse_int_def
        svn_skel__str_atom_def sk_bytes_def)
qed

text \<open>The header promises three things that the parser does not do: square brackets end an atom and cannot
  stand in a list, two atoms need no space between them, and what follows the skeleton is ignored.\<close>

lemma skel_brackets:
  "svn_skel__parse ''(foo[1])'' = None"
  "map_option tree (svn_skel__parse ''foo[1]'') = Some (Atom ''foo'')"
  "map_option tree (svn_skel__parse ''(3 abcdef)'') = Some (Listed [Atom ''abc'', Atom ''def''])"
  "map_option tree (svn_skel__parse ''(a) b)'') = Some (Listed [Atom ''a''])"
  by code_simp+

section \<open>Properties of skeletons\<close>



text \<open>C37. What \<^verbatim>\<open>svn_skel__unparse\<close> writes, \<^verbatim>\<open>svn_skel__parse\<close> reads: for every skeleton, of
  whatever bytes, the text is parsed to a skeleton with the same atoms and lists. The text fits into the size that
  was estimated for it, and a copy made by \<^verbatim>\<open>svn_skel__dup\<close> is written as the same text.\<close>

theorem skel_roundtrip:
  assumes "fits (room (tree k) + 200)"
  shows "\<exists>b t k'. svn_skel__unparse k = Ok b \<and> holds b t \<and> length t \<le> estimate_unparsed_size k \<and>
    svn_skel__parse t = Some k' \<and> tree k' = tree k \<and>
    (\<forall>ks. svn_skel__dup [k] dup_data = Ok ks \<longrightarrow> (\<exists>b'. svn_skel__unparse (hd ks) = Ok b' \<and> holds b' t))"
proof -
  obtain b k' where b: "svn_skel__unparse k = Ok b" "holds b (skel_text (tree k))"
    "svn_skel__parse (skel_text (tree k)) = Some k'" "tree k' = tree k" using parse_unparsed [OF assms] .
  have r: "room (tree k) < size_limit" using fits_limit [OF assms] by simp
  have "\<exists>b'. svn_skel__unparse (hd ks) = Ok b' \<and> holds b' (skel_text (tree k))" if "svn_skel__dup [k] dup_data = Ok ks" for ks
  proof -
    have "tree (hd ks) = tree k" using dup_chain_tree [of dup_data "[k]"] that by (cases k) (auto simp: svn_skel__dup_def)
    then show ?thesis using svn_skel__unparse_gives [of "hd ks"] assms by (auto elim: givesE)
  qed
  then show ?thesis using b text_in_room [OF r] estimate_room [OF r] by metis
qed

theorem skel_roundtrip_witness:
  "\<exists>b t k'. svn_skel__unparse (Skel False None [Skel True (Some ''a b'') []]) = Ok b \<and> holds b t \<and>
     svn_skel__parse t = Some k' \<and> tree k' = Listed [Atom ''a b'']"
  using skel_roundtrip [of "Skel False None [Skel True (Some ''a b'') []]" True]
  by (auto simp: fits_def sk_bytes_def)

text \<open>C38. Property lists and inherited properties survive being written and read: from the text of a hash
  \<^verbatim>\<open>svn_skel__parse_proplist\<close> returns a hash with the same entries, \<^verbatim>\<open>svn_skel__parse_prop\<close> the value of every name, and
  \<^verbatim>\<open>svn_skel__parse_iprops\<close> the same paths in the same order with hashes of the same entries.\<close>

theorem proplist_roundtrip:
  assumes "distinct (map fst h)" "\<forall>i \<in> set is. is_cstring (path_or_url i) \<and> distinct (map fst (prop_hash i))"
  shows "(\<exists>k. svn_skel__unparse_proplist (Some h) = Ok k \<and> (fits (room (tree k) + 200) \<longrightarrow>
      (\<exists>b t k' g. svn_skel__unparse k = Ok b \<and> holds b t \<and> svn_skel__parse t = Some k' \<and>
         svn_skel__parse_proplist k' = Ok g \<and> map_of g = map_of h \<and> length g = length h \<and>
         (\<forall>name. svn_skel__parse_prop k' name = Ok (map_of h name))))) \<and>
    (\<exists>k. svn_skel__unparse_iproplist (Some is) = Ok k \<and> (fits (room (tree k) + 200) \<longrightarrow>
      (\<exists>b t k' js. svn_skel__unparse k = Ok b \<and> holds b t \<and> svn_skel__parse t = Some k' \<and>
         svn_skel__parse_iprops k' = Ok js \<and> map path_or_url js = map path_or_url is \<and>
         map (\<lambda>i. map_of (prop_hash i)) js = map (\<lambda>i. map_of (prop_hash i)) is)))"
  (is "?props \<and> ?iprops")
proof (rule conjI)
  show ?props using unparse_proplist_elements(1) [of h] proplist_written [OF assms(1) refl]
    by (intro exI [of _ "Skel False None (prop_atoms (List.rev h))"] conjI impI)
  show ?iprops using unparse_iproplist_elements [of "is"] iprops_written [OF assms(2) refl]
    by (intro exI [of _ "Skel False None (iprop_elements is)"] conjI impI)
qed

theorem proplist_roundtrip_witness:
  "\<exists>k. svn_skel__unparse_proplist (Some [(''svn:eol-style'', ''native''), (''p'', [])]) = Ok k \<and>
     (\<exists>k'. \<exists>b t. svn_skel__unparse k = Ok b \<and> holds b t \<and> svn_skel__parse t = Some k' \<and>
        svn_skel__parse_prop k' ''p'' = Ok (Some []))"
proof -
  let ?h = "[(''svn:eol-style'', ''native''), (''p'', [])]"
  from proplist_roundtrip [of ?h "[]", THEN conjunct1] obtain k where k: "svn_skel__unparse_proplist (Some ?h) = Ok k"
    "fits (room (tree k) + 200) \<Longrightarrow> \<exists>b t k' g. svn_skel__unparse k = Ok b \<and> holds b t \<and> svn_skel__parse t = Some k' \<and>
         svn_skel__parse_proplist k' = Ok g \<and> map_of g = map_of ?h \<and> length g = length ?h \<and>
         (\<forall>name. svn_skel__parse_prop k' name = Ok (map_of ?h name))" by fastforce
  have "k = Skel False None (prop_atoms (List.rev ?h))" using k(1) unfolding unparse_proplist_elements by simp
  then have "fits (room (tree k) + 200)" by (simp add: fits_def svn_skel__mem_atom_def sk_bytes_def)
  from k(2) [OF this] show ?thesis using k(1) by fastforce
qed

text \<open>The readers never go past the end of a list: on every skeleton they return a value exactly if it has the
  shape they expect, a list of an even number of atoms, or of paths and such lists, and the error
  \<^verbatim>\<open>SVN_ERR_FS_MALFORMED_SKEL\<close> otherwise.\<close>

theorem skel_readers_checked:
  "(if \<not> is_atom k \<and> even (length (children k)) \<and> list_all is_atom (children k)
    then (\<exists>h. svn_skel__parse_proplist k = Ok h) \<and> (\<exists>v. svn_skel__parse_prop k name = Ok v)
    else (\<exists>e. svn_skel__parse_proplist k = Err e \<and> svn_skel__parse_prop k name = Err e \<and>
            err_code_of e = SVN_ERR_FS_MALFORMED_SKEL)) \<and>
   (if \<not> is_atom k \<and> even (length (children k)) \<and>
       (\<forall>j < length (children k) div 2. is_atom (children k ! (2 * j)) \<and> is_valid_proplist_skel (children k ! (2 * j + 1)))
    then \<exists>is. svn_skel__parse_iprops k = Ok is
    else \<exists>e. svn_skel__parse_iprops k = Err e \<and> err_code_of e = SVN_ERR_FS_MALFORMED_SKEL)"
proof -
  have e: "iproplist_elements ks \<longleftrightarrow> even (length ks) \<and>
      (\<forall>j < length ks div 2. is_atom (ks ! (2 * j)) \<and> is_valid_proplist_skel (ks ! (2 * j + 1)))" for ks
  proof (induction ks rule: iproplist_elements.induct)
    case (3 elt props rest)
    have "(\<forall>j < Suc n. P j) \<longleftrightarrow> P 0 \<and> (\<forall>j < n. P (Suc j))" for n and P :: "nat \<Rightarrow> bool"
      by (auto simp: less_Suc_eq_0_disj)
    then show ?case using 3 by auto
  qed auto
  have c: "err_code_of (skel_err s) = SVN_ERR_FS_MALFORMED_SKEL" for s
    by (simp add: skel_err_def svn_error_create_def)
  have "\<exists>v. svn_skel__parse_prop k name = Ok v" if "is_valid_proplist_skel k"
    using that prop_loop_total [of "children k" name] by (simp add: svn_skel__parse_prop_def valid_proplist_iff)
  moreover have "svn_skel__parse_prop k name = Err (skel_err (Some ''proplist''))" if "\<not> is_valid_proplist_skel k"
    using that by (simp add: svn_skel__parse_prop_def)
  moreover have "if is_valid_iproplist_skel k then \<exists>is. svn_skel__parse_iprops k = Ok is
      else svn_skel__parse_iprops k = Err (skel_err (Some ''iprops''))"
    using iprops_loop_total by (simp add: svn_skel__parse_iprops_def valid_iproplist_iff)
  ultimately show ?thesis
    using parse_proplist_cases [of k] c unfolding valid_proplist_iff [of k] valid_iproplist_iff e by (auto split: if_splits)
qed

end
