(* ===== verification/Svn_Cstring.thy ===== *)
theory Svn_Cstring
  imports Stringbuf_Correct
begin

text \<open>
  The functions on C strings of \<^verbatim>\<open>string.c\<close>, with \<^verbatim>\<open>apr_strtok\<close> of APR: tokens, splitting and joining, line
  counting, comparing without case, and the lengths of common beginnings and ends, which are
  computed eight bytes at a time.

  The tokenizers write a NUL behind a token and move a pointer; the model returns the token and the
  text the pointer then points at.
\<close>

section \<open>Tokens\<close>

definition apr_strtok :: "cstring \<Rightarrow> cstring \<Rightarrow> (cstring \<times> cstring) option" where
  "apr_strtok str sep =
     (case dropWhile (\<lambda>c. strchr sep c \<noteq> None) str of
        [] \<Rightarrow> None
      | c # s \<Rightarrow>
          let token = c # takeWhile (\<lambda>c. strchr sep c = None) s;
              last_pos = dropWhile (\<lambda>c. strchr sep c = None) s in
          Some (token, drop 1 last_pos))"

definition svn_cstring_tokenize :: "cstring option \<Rightarrow> cstring option \<Rightarrow> (cstring \<times> cstring) option" where
  "svn_cstring_tokenize sep str =
     (case (sep, str) of
        (Some sep, Some str) \<Rightarrow>
          let csep = c_at sep 0 in
          if csep = NUL \<or> c_at sep 1 \<noteq> NUL then apr_strtok str sep
          else
            let token = dropWhile (\<lambda>c. c = csep) str in
            if token = [] then None
            else
              (case strchr token csep of
                 None \<Rightarrow> Some (token, [])
               | Some i \<Rightarrow> Some (take i token, drop (i + 1) token))
      | _ \<Rightarrow> None)"

text \<open>Trimming a token in place.\<close>

definition chop_spaces :: "cstring \<Rightarrow> cstring" where
  "chop_spaces p = List.rev (dropWhile svn_ctype_isspace (List.rev (dropWhile svn_ctype_isspace p)))"

lemma strtok_shorter: "apr_strtok str sep = Some (token, rest) \<Longrightarrow> length rest < length str"
proof -
  assume a: "apr_strtok str sep = Some (token, rest)"
  then obtain c s where s: "dropWhile (\<lambda>c. strchr sep c \<noteq> None) str = c # s" "rest = drop 1 (dropWhile (\<lambda>c. strchr sep c = None) s)"
    by (auto simp: apr_strtok_def Let_def split: list.splits)
  have "length (c # s) \<le> length str" unfolding s(1) [symmetric] by (rule length_dropWhile_le)
  moreover have "length rest \<le> length s" 
    using length_dropWhile_le [of "\<lambda>c. strchr sep c = None" s] unfolding s(2) by simp
  ultimately show ?thesis by simp
qed

lemma tokenize_shorter: "svn_cstring_tokenize sep (Some str) = Some (token, rest) \<Longrightarrow> length rest < length str"
proof -
  assume a: "svn_cstring_tokenize sep (Some str) = Some (token, rest)"
  then obtain sp where sp: "sep = Some sp" by (auto simp: svn_cstring_tokenize_def split: option.splits)
  show ?thesis
  proof (cases "c_at sp 0 = NUL \<or> c_at sp 1 \<noteq> NUL")
    case True
    then show ?thesis using a sp strtok_shorter by (simp add: svn_cstring_tokenize_def)
  next
    case False
    obtain t where t: "t = dropWhile (\<lambda>c. c = c_at sp 0) str" by blast
    have "length t \<le> length str" unfolding t by (rule length_dropWhile_le)
    moreover have "0 < length t \<and> (rest = [] \<or> (\<exists>i. rest = drop (i + 1) t))"
      using a sp False unfolding svn_cstring_tokenize_def
      by (auto simp: Let_def t [symmetric] split: if_splits option.splits)
    moreover have "0 < length t \<Longrightarrow> length (drop (i + 1) t) < length t" for i by simp
    ultimately show ?thesis by (metis le_trans less_le_trans list.size(3))
  qed
qed

text \<open>The loop over the tokens.\<close>

function split_tokens :: "cstring option \<Rightarrow> bool \<Rightarrow> cstring \<Rightarrow> cstring list" where
  "split_tokens sep_chars chop_whitespace pats =
     (case svn_cstring_tokenize sep_chars (Some pats) of
        None \<Rightarrow> []
      | Some (p, pats) \<Rightarrow>
          let p = (if chop_whitespace then chop_spaces p else p);
              later = split_tokens sep_chars chop_whitespace pats in
          if p \<noteq> [] then p # later else later)"
  by pat_completeness auto
termination
proof (relation "measure (\<lambda>(_, _, pats). length pats)", goal_cases)
  case (2 sep chop pats x p rest)
  then show ?case using tokenize_shorter [of sep pats p rest] by simp
qed simp

declare split_tokens.simps [simp del]

definition svn_cstring_split_append :: "cstring list \<Rightarrow> cstring \<Rightarrow> cstring option \<Rightarrow> bool \<Rightarrow> cstring list" where
  "svn_cstring_split_append array inp sep_chars chop_whitespace = array @ split_tokens sep_chars chop_whitespace inp"

definition svn_cstring_split :: "cstring \<Rightarrow> cstring option \<Rightarrow> bool \<Rightarrow> cstring list" where
  "svn_cstring_split inp sep_chars chop_whitespace = svn_cstring_split_append [] inp sep_chars chop_whitespace"

definition svn_cstring_match_list :: "cstring \<Rightarrow> cstring list \<Rightarrow> bool" where
  "svn_cstring_match_list str lst = list_ex (\<lambda>this_str. this_str = str) lst"

section \<open>Lines and joining\<close>

fun svn_cstring_count_newlines :: "cstring \<Rightarrow> int" where
  "svn_cstring_count_newlines [] = 0"
| "svn_cstring_count_newlines [c] = (if c = newline \<or> c = CHR 0x0D then 1 else 0)"
| "svn_cstring_count_newlines (c # d # msg) =
     (if c = newline then 1 + svn_cstring_count_newlines (if d = CHR 0x0D then msg else d # msg)
      else if c = CHR 0x0D then 1 + svn_cstring_count_newlines (if d = newline then msg else d # msg)
      else svn_cstring_count_newlines (d # msg))"

text \<open>The loop over the strings, with the separator before all but the first.\<close>

fun join2_loop :: "svn_stringbuf_t \<Rightarrow> cstring \<Rightarrow> bool \<Rightarrow> cstring list \<Rightarrow> svn_stringbuf_t cres" where
  "join2_loop new_str separator first [] = Ok new_str"
| "join2_loop new_str separator first (str # strings) =
     cbind (if first then Ok new_str else svn_stringbuf_appendbytes new_str separator) (\<lambda>new_str.
     cbind (svn_stringbuf_appendbytes new_str str) (\<lambda>new_str.
       join2_loop new_str separator False strings))"

definition svn_cstring_join2 :: "cstring list \<Rightarrow> cstring \<Rightarrow> bool \<Rightarrow> cstring cres" where
  "svn_cstring_join2 strings separator trailing_separator =
     cbind svn_stringbuf_create_empty (\<lambda>new_str.
     cbind (join2_loop new_str separator True strings) (\<lambda>new_str.
     cbind (if strings \<noteq> [] \<and> trailing_separator then svn_stringbuf_appendbytes new_str separator else Ok new_str) (\<lambda>new_str.
       read_cstring (sb_data new_str))))"

section \<open>Comparing\<close>

text \<open>The table folds the lower case letters of ASCII to upper case.\<close>

definition svn_ctype_casecmp :: "char \<Rightarrow> char \<Rightarrow> int" where
  "svn_ctype_casecmp a b = int (of_char (canonicalize_to_upper a)) - int (of_char (canonicalize_to_upper b))"

fun svn_cstring_casecmp :: "cstring \<Rightarrow> cstring \<Rightarrow> int" where
  "svn_cstring_casecmp [] s2 = svn_ctype_casecmp NUL (c_hd s2)"
| "svn_cstring_casecmp (a # s1) [] = svn_ctype_casecmp a NUL"
| "svn_cstring_casecmp (a # s1) (b # s2) =
     (let cmp = svn_ctype_casecmp a b in
      if cmp \<noteq> 0 \<or> a = NUL \<or> b = NUL then cmp else svn_cstring_casecmp s1 s2)"

definition svn_cstring_skip_prefix :: "cstring \<Rightarrow> cstring \<Rightarrow> cstring option" where
  "svn_cstring_skip_prefix str pre =
     (let len = length pre in if strncmp_eq str pre len then Some (drop len str) else None)"

text \<open>Eight bytes are compared as one number; then byte by byte.\<close>

function match_chunks :: "string \<Rightarrow> string \<Rightarrow> nat \<Rightarrow> nat \<Rightarrow> nat cres" where
  "match_chunks a b max_len pos =
     (if max_len - pos \<ge> 8 then
        if pos + 8 > length a \<or> pos + 8 > length b then Overrun
        else if take 8 (drop pos a) \<noteq> take 8 (drop pos b) then Ok pos
        else match_chunks a b max_len (pos + 8)
      else Ok pos)"
  by pat_completeness auto
termination by (relation "measure (\<lambda>(a, b, m, pos). m - pos)") auto

function match_bytes :: "string \<Rightarrow> string \<Rightarrow> nat \<Rightarrow> nat \<Rightarrow> nat cres" where
  "match_bytes a b max_len pos =
     (if pos < max_len then
        if pos \<ge> length a \<or> pos \<ge> length b then Overrun
        else if a ! pos \<noteq> b ! pos then Ok pos
        else match_bytes a b max_len (pos + 1)
      else Ok pos)"
  by pat_completeness auto
termination by (relation "measure (\<lambda>(a, b, m, pos). m - pos)") auto

declare match_chunks.simps [simp del] match_bytes.simps [simp del]

definition svn_cstring__match_length :: "string \<Rightarrow> string \<Rightarrow> nat \<Rightarrow> nat cres" where
  "svn_cstring__match_length a b max_len = cbind (match_chunks a b max_len 0) (match_bytes a b max_len)"

text \<open>From the end: the pointers are behind the bytes \<open>a\<close> and \<open>b\<close>.\<close>

function reverse_chunks :: "string \<Rightarrow> string \<Rightarrow> nat \<Rightarrow> nat \<Rightarrow> nat cres" where
  "reverse_chunks a b max_len pos =
     (if pos \<le> max_len then
        if pos > length a \<or> pos > length b then Overrun
        else if take 8 (drop (length a - pos) a) \<noteq> take 8 (drop (length b - pos) b) then Ok pos
        else reverse_chunks a b max_len (pos + 8)
      else Ok pos)"
  by pat_completeness auto
termination by (relation "measure (\<lambda>(a, b, m, pos). Suc m - pos)") auto

function reverse_bytes :: "string \<Rightarrow> string \<Rightarrow> nat \<Rightarrow> nat \<Rightarrow> nat cres" where
  "reverse_bytes a b max_len pos =
     (let pos = pos + 1 in
      if pos \<le> max_len then
        if pos > length a \<or> pos > length b then Overrun
        else if a ! (length a - pos) \<noteq> b ! (length b - pos) then Ok (pos - 1)
        else reverse_bytes a b max_len pos
      else Ok max_len)"
  by pat_completeness auto
termination by (relation "measure (\<lambda>(a, b, m, pos). m - pos)") auto

declare reverse_chunks.simps [simp del] reverse_bytes.simps [simp del]

definition svn_cstring__reverse_match_length :: "string \<Rightarrow> string \<Rightarrow> nat \<Rightarrow> nat cres" where
  "svn_cstring__reverse_match_length a b max_len =
     cbind (reverse_chunks a b max_len 8) (\<lambda>pos. reverse_bytes a b max_len (pos - 8))"

section \<open>Splitting\<close>

text \<open>The fast path for one separator gives the tokens of \<^verbatim>\<open>apr_strtok\<close>.\<close>

lemma strchr_in: "strchr s c \<noteq> None \<longleftrightarrow> c \<in> set s"
  using strchr_None [of s c] by simp

lemma strtok_set:
  "apr_strtok str sep =
     (case dropWhile (\<lambda>c. c \<in> set sep) str of
        [] \<Rightarrow> None
      | c # s \<Rightarrow> Some (c # takeWhile (\<lambda>c. c \<notin> set sep) s, drop 1 (dropWhile (\<lambda>c. c \<notin> set sep) s)))"
  unfolding apr_strtok_def strchr_None Let_def not_not ..

lemma takeWhile_index:
  assumes "strchr s c = Some i"
  shows "take i s = takeWhile (\<lambda>x. x \<noteq> c) s \<and> drop i s = dropWhile (\<lambda>x. x \<noteq> c) s"
  using assms
proof (induction s arbitrary: i)
  case (Cons x s)
  then show ?case by (cases "x = c") auto
qed simp

lemma tokenize_is_strtok:
  assumes "is_cstring sep"
  shows "svn_cstring_tokenize (Some sep) (Some str) = apr_strtok str sep"
proof (cases "c_at sep 0 = NUL \<or> c_at sep 1 \<noteq> NUL")
  case True
  then show ?thesis by (simp add: svn_cstring_tokenize_def)
next
  case False
  then obtain c where c: "sep = [c]" "c \<noteq> NUL"
    using c_at_NUL [OF assms, of 0] c_at_NUL [OF assms, of 1] by (cases sep) (auto simp: c_at_def)
  show ?thesis
  proof (cases "dropWhile (\<lambda>x. x = c) str")
    case Nil
    then show ?thesis using c by (simp add: svn_cstring_tokenize_def strtok_set del: dropWhile_eq_Nil_conv)
  next
    case (Cons t ts)
    have t: "t \<noteq> c" using Cons hd_dropWhile [of "\<lambda>x. x = c" str] by simp
    show ?thesis
    proof (cases "strchr (t # ts) c")
      case None
      then have "c \<notin> set ts" using strchr_None [of "t # ts" c] by simp
      then have "takeWhile (\<lambda>x. x \<noteq> c) ts = ts" "dropWhile (\<lambda>x. x \<noteq> c) ts = []"
        by (auto simp: takeWhile_eq_all_conv dropWhile_eq_Nil_conv)
      then show ?thesis
        using c Cons None
        by (simp add: svn_cstring_tokenize_def strtok_set del: takeWhile_eq_all_conv dropWhile_eq_Nil_conv)
    next
      case (Some i)
      then obtain z where z: "strchr ts c = Some z" using t by auto
      have "drop (Suc z) ts = drop 1 (dropWhile (\<lambda>x. x \<noteq> c) ts)"
        using takeWhile_index [OF z] by (metis One_nat_def drop_drop plus_1_eq_Suc)
      then show ?thesis
        using c Cons t z takeWhile_index [OF z] unfolding svn_cstring_tokenize_def strtok_set by (simp add: Let_def)
    qed
  qed
qed

text \<open>The pieces between the bytes that satisfy a predicate.\<close>

fun split_any :: "(char \<Rightarrow> bool) \<Rightarrow> string \<Rightarrow> string list" where
  "split_any p [] = [[]]"
| "split_any p (x # xs) =
     (if p x then [] # split_any p xs
      else (case split_any p xs of [] \<Rightarrow> [[x]] | y # ys \<Rightarrow> (x # y) # ys))"

lemma split_any_on: "split_any (\<lambda>x. x \<in> set [c]) s = split_on c s"
  by (induction s) (auto split: list.split)

lemma split_any_not_Nil [simp]: "split_any p s \<noteq> []"
  by (induction s) (auto split: list.split)

lemma split_any_step:
  "split_any p s = takeWhile (\<lambda>c. \<not> p c) s #
     (case dropWhile (\<lambda>c. \<not> p c) s of [] \<Rightarrow> [] | _ # r \<Rightarrow> split_any p r)"
  by (induction s) auto

lemma split_any_skip:
  "f [] = [] \<Longrightarrow> filter (\<lambda>t. t \<noteq> []) (map f (split_any p (dropWhile p s))) = filter (\<lambda>t. t \<noteq> []) (map f (split_any p s))"
  by (induction s) auto

lemma split_tokens_spec:
  assumes "is_cstring sep"
  shows "split_tokens (Some sep) chop s =
    filter (\<lambda>t. t \<noteq> []) (map (if chop then chop_spaces else id) (split_any (\<lambda>c. c \<in> set sep) s))"
proof (induction s rule: length_induct)
  case (1 s)
  let ?p = "\<lambda>c. c \<in> set sep" and ?full = "filter (\<lambda>t :: string. t \<noteq> [])"
  obtain f where f: "f = (if chop then chop_spaces else id)" by blast
  have f0: "f [] = []" by (simp add: f chop_spaces_def)
  have skip: "?full (map f (split_any ?p s)) = ?full (map f (split_any ?p (dropWhile ?p s)))"
    using split_any_skip [of f ?p s, OF f0] by simp
  have step: "split_tokens (Some sep) chop s =
    (case apr_strtok s sep of
       None \<Rightarrow> []
     | Some (p, r) \<Rightarrow> (if f p \<noteq> [] then [f p] else []) @ split_tokens (Some sep) chop r)"
    by (subst split_tokens.simps) (simp add: tokenize_is_strtok [OF assms] f Let_def split: option.split)
  show ?case
  proof (cases "dropWhile ?p s")
    case Nil
    show ?thesis using step f0 unfolding f [symmetric] skip strtok_set Nil by simp
  next
    case (Cons c r)
    have c: "\<not> ?p c" using Cons hd_dropWhile [of ?p s] by simp
    let ?t = "c # takeWhile (\<lambda>c. \<not> ?p c) r" and ?r = "drop 1 (dropWhile (\<lambda>c. \<not> ?p c) r)"
    have tok: "apr_strtok s sep = Some (?t, ?r)" using Cons by (simp add: strtok_set)
    have ih: "split_tokens (Some sep) chop ?r = ?full (map f (split_any ?p ?r))"
      using 1 strtok_shorter [OF tok] unfolding f by blast
    have "split_any ?p (c # r) = ?t # (case dropWhile (\<lambda>c. \<not> ?p c) r of [] \<Rightarrow> [] | _ # r \<Rightarrow> split_any ?p r)"
      using c by (subst split_any_step) simp
    moreover have "?full (map f (case dropWhile (\<lambda>c. \<not> ?p c) r of [] \<Rightarrow> [] | _ # r \<Rightarrow> split_any ?p r)) =
      ?full (map f (split_any ?p ?r))"
      using f0 by (cases "dropWhile (\<lambda>c. \<not> ?p c) r") (simp_all del: dropWhile_eq_Nil_conv)
    ultimately have "?full (map f (split_any ?p s)) =
      (if f ?t \<noteq> [] then [f ?t] else []) @ ?full (map f (split_any ?p ?r))"
      unfolding skip Cons by (simp del: split_any.simps)
    then show ?thesis using step tok ih unfolding f [symmetric] by simp
  qed
qed

lemma chop_spaces_strip: "chop_spaces p = strip svn_ctype_isspace p"
  by (simp add: chop_spaces_def strip_def)

section \<open>Joining\<close>

lemma join2_loop_gives:
  assumes "holds b s" "fits (length s + length separator + length (join_with separator strings))"
  shows "gives (join2_loop b separator first strings)
    (s @ (if strings = [] then [] else (if first then [] else separator) @ join_with separator strings))"
  using assms
proof (induction strings arbitrary: b s first)
  case (Cons x xs)
  have l: "length x \<le> length (join_with separator (x # xs))" by (cases xs) auto
  have fit1: "fits (length s + length separator)" using Cons.prems(2) by (rule fits_mono) simp
  have "gives (if first then Ok b else svn_stringbuf_appendbytes b separator) (s @ (if first then [] else separator))"
    using Cons.prems(1) stringbuf_appendbytes [OF Cons.prems(1) fit1] by simp
  then obtain b1 where b1: "(if first then Ok b else svn_stringbuf_appendbytes b separator) = Ok b1"
    "holds b1 (s @ (if first then [] else separator))" by (rule givesE)
  have fit2: "fits (length (s @ (if first then [] else separator)) + length x)"
    using Cons.prems(2) by (rule fits_mono) (use l in simp)
  obtain b2 where b2: "svn_stringbuf_appendbytes b1 x = Ok b2" "holds b2 ((s @ (if first then [] else separator)) @ x)"
    using stringbuf_appendbytes [OF b1(2) fit2] by (rule givesE)
  let ?s = "(s @ (if first then [] else separator)) @ x"
  show ?case
  proof (cases "xs = []")
    case True
    then show ?thesis using b1(1) b2 by simp
  next
    case False
    have j: "join_with separator (x # xs) = x @ separator @ join_with separator xs" by (rule join_with_Cons [OF False])
    have fit3: "fits (length ?s + length separator + length (join_with separator xs))"
      using Cons.prems(2) by (rule fits_mono) (simp add: j)
    show ?thesis using Cons.IH [OF b2(2) fit3, of False] b1(1) b2(1) False j by simp
  qed
qed simp

definition joined :: "cstring list \<Rightarrow> cstring \<Rightarrow> bool \<Rightarrow> cstring" where
  "joined strings separator trailing =
     join_with separator strings @ (if strings \<noteq> [] \<and> trailing then separator else [])"

lemma join_with_no_NUL: "\<forall>s \<in> set strings. is_cstring s \<Longrightarrow> is_cstring sep \<Longrightarrow> is_cstring (join_with sep strings)"
  by (induction sep strings rule: join_with.induct) (auto simp: is_cstring_def)

lemma holds_cstring: "holds b s \<Longrightarrow> is_cstring s \<Longrightarrow> read_cstring (sb_data b) = Ok s"
  by (erule holdsE) (auto simp: read_cstring_upto upto_NUL_def is_cstring_def takeWhile_eq_all_conv)

lemma join2_joins:
  assumes "\<forall>s \<in> set strings. is_cstring s" "is_cstring separator"
    "fits (2 * length separator + length (join_with separator strings))"
  shows "svn_cstring_join2 strings separator trailing = Ok (joined strings separator trailing)"
proof -
  let ?j = "join_with separator strings"
  obtain b0 where b0: "svn_stringbuf_create_empty = Ok b0" "holds b0 []" using stringbuf_create_empty by (rule givesE)
  have "fits (length [] + length separator + length ?j)" using assms(3) by (rule fits_mono) simp
  from join2_loop_gives [OF b0(2) this, of True]
  obtain b1 where b1: "join2_loop b0 separator True strings = Ok b1" "holds b1 ?j"
    by (auto elim: givesE split: if_splits)
  have fit: "fits (length ?j + length separator)" using assms(3) by (rule fits_mono) simp
  obtain b2 where b2: "(if strings \<noteq> [] \<and> trailing then svn_stringbuf_appendbytes b1 separator else Ok b1) = Ok b2"
    "holds b2 (joined strings separator trailing)"
  proof (cases "strings \<noteq> [] \<and> trailing")
    case True
    obtain b2 where "svn_stringbuf_appendbytes b1 separator = Ok b2" "holds b2 (?j @ separator)"
      using stringbuf_appendbytes [OF b1(2) fit] by (rule givesE)
    then show ?thesis using that [of b2] True by (simp add: joined_def)
  next
    case False
    then show ?thesis using that [of b1] b1(2) by (auto simp: joined_def)
  qed
  have "is_cstring (joined strings separator trailing)"
    using join_with_no_NUL [OF assms(1,2)] assms(2) by (auto simp: joined_def is_cstring_def)
  from holds_cstring [OF b2(2) this] show ?thesis
    unfolding svn_cstring_join2_def b0(1) cbind_simps b1(1) b2(1) .
qed

section \<open>Comparing and matching\<close>

lemma ctype_casecmp_zero: "svn_ctype_casecmp a b = 0 \<longleftrightarrow> canonicalize_to_upper a = canonicalize_to_upper b"
  by (auto simp: svn_ctype_casecmp_def)

lemma to_upper_NUL [simp]: "canonicalize_to_upper c = NUL \<longleftrightarrow> c = NUL"
proof
  assume a: "canonicalize_to_upper c = NUL"
  show "c = NUL"
  proof (cases "(of_char c :: nat) < 97 \<or> (of_char c :: nat) > 122")
    case False
    then have "((of_char c :: nat) - 32) mod 256 = of_char c - 32" by (intro mod_less) auto
    then have "(of_char (canonicalize_to_upper c) :: nat) = of_char c - 32"
      using False by (simp add: canonicalize_to_upper_def Let_def)
    then show ?thesis using a False by simp
  qed (use a in \<open>simp add: canonicalize_to_upper_def Let_def\<close>)
qed (simp add: canonicalize_to_upper_def)

lemma to_upper_of_NUL [simp]: "canonicalize_to_upper NUL = NUL"
  by simp

lemma casecmp_equal:
  "is_cstring s1 \<Longrightarrow> is_cstring s2 \<Longrightarrow>
     svn_cstring_casecmp s1 s2 = 0 \<longleftrightarrow> map canonicalize_to_upper s1 = map canonicalize_to_upper s2"
proof (induction s1 s2 rule: svn_cstring_casecmp.induct)
  case (1 s2)
  have "svn_ctype_casecmp NUL (c_hd s2) = 0 \<longleftrightarrow> c_hd s2 = NUL"
    using to_upper_NUL [of "c_hd s2"] unfolding ctype_casecmp_zero to_upper_of_NUL by metis
  then show ?case using 1 by (cases s2) auto
next
  case (2 a s1)
  then show ?case using to_upper_NUL [of a] by (simp add: ctype_casecmp_zero)
next
  case (3 a s1 b s2)
  then show ?case using ctype_casecmp_zero [of a b] by (auto simp: Let_def)
qed

text \<open>How far two texts agree.\<close>

definition agree :: "string \<Rightarrow> string \<Rightarrow> nat \<Rightarrow> bool" where
  "agree a b n \<longleftrightarrow> n \<le> length a \<and> n \<le> length b \<and> take n a = take n b"

lemma agree_step:
  assumes "agree a b n" "n < length a" "n < length b"
  shows "agree a b (n + 1) \<longleftrightarrow> a ! n = b ! n"
  using assms by (auto simp: agree_def take_Suc_conv_app_nth)

lemma agree_chunk: "agree a b n \<Longrightarrow> n + k \<le> length a \<Longrightarrow> n + k \<le> length b \<Longrightarrow> take k (drop n a) = take k (drop n b) \<Longrightarrow> agree a b (n + k)"
  by (auto simp: agree_def take_add)

lemma match_chunks_agree:
  assumes "agree a b pos" "pos \<le> m" "m \<le> length a" "m \<le> length b"
  shows "\<exists>n. match_chunks a b m pos = Ok n \<and> n \<le> m \<and> agree a b n"
  using assms
proof (induction a b m pos rule: match_chunks.induct)
  case (1 a b m pos)
  show ?case
  proof (cases "m - pos \<ge> 8 \<and> take 8 (drop pos a) = take 8 (drop pos b)")
    case True
    then have le: "pos + 8 \<le> m" using 1 by linarith
    then have "agree a b (pos + 8)" using 1 True agree_chunk [of a b pos 8] by simp
    moreover note le
    ultimately show ?thesis using 1 True by (subst match_chunks.simps) auto
  next
    case False
    then show ?thesis using 1 by (subst match_chunks.simps) auto
  qed
qed

lemma match_bytes_agree:
  assumes "agree a b pos" "pos \<le> m" "m \<le> length a" "m \<le> length b"
  shows "\<exists>n. match_bytes a b m pos = Ok n \<and> n \<le> m \<and> agree a b n \<and> (n < m \<longrightarrow> a ! n \<noteq> b ! n)"
  using assms
proof (induction a b m pos rule: match_bytes.induct)
  case (1 a b m pos)
  show ?case
  proof (cases "pos < m \<and> a ! pos = b ! pos")
    case True
    then have "agree a b (pos + 1)" using 1 agree_step [of a b pos] by simp
    then show ?thesis using 1 True by (subst match_bytes.simps) simp
  next
    case False
    then show ?thesis using 1 by (subst match_bytes.simps) auto
  qed
qed

lemma match_length_longest:
  assumes "m \<le> length a" "m \<le> length b"
  shows "\<exists>n. svn_cstring__match_length a b m = Ok n \<and> n \<le> m \<and> take n a = take n b \<and> (n < m \<longrightarrow> a ! n \<noteq> b ! n)"
proof -
  obtain k where k: "match_chunks a b m 0 = Ok k" "k \<le> m" "agree a b k"
    using match_chunks_agree [of a b 0 m] assms by (auto simp: agree_def)
  from match_bytes_agree [OF k(3,2) assms] show ?thesis by (auto simp: svn_cstring__match_length_def k(1) agree_def)
qed

text \<open>From the end the same holds of the reversed texts.\<close>

lemma nth_from_end: "p < length a \<Longrightarrow> a ! (length a - Suc p) = List.rev a ! p"
  by (simp add: rev_nth)

lemma chunk_from_end: "k \<le> p \<Longrightarrow> p \<le> length a \<Longrightarrow> take k (drop (length a - p) a) = List.rev (take k (drop (p - k) (List.rev a)))"
proof -
  assume k: "k \<le> p" "p \<le> length a"
  let ?xs = "take (length a - (p - k)) a"
  have "take k (drop (p - k) (List.rev a)) = List.rev (drop (length ?xs - k) ?xs)"
    by (simp only: drop_rev take_rev)
  moreover have "length ?xs - k = length a - p" "length a - (p - k) - (length a - p) = k" using k by simp_all
  ultimately have "take k (drop (p - k) (List.rev a)) = List.rev (take k (drop (length a - p) a))"
    by (simp only: drop_take)
  then show ?thesis by simp
qed

lemma reverse_chunks_agree:
  assumes "agree (List.rev a) (List.rev b) (pos - 8)" "8 \<le> pos" "pos \<le> m + 8" "m \<le> length a" "m \<le> length b"
  shows "\<exists>n. reverse_chunks a b m pos = Ok (n + 8) \<and> n \<le> m \<and> agree (List.rev a) (List.rev b) n"
  using assms
proof (induction a b m pos rule: reverse_chunks.induct)
  case (1 a b m pos)
  show ?case
  proof (cases "pos \<le> m \<and> take 8 (drop (length a - pos) a) = take 8 (drop (length b - pos) b)")
    case True
    have "take 8 (drop (pos - 8) (List.rev a)) = take 8 (drop (pos - 8) (List.rev b))"
      using True 1 chunk_from_end [of 8 pos a] chunk_from_end [of 8 pos b] by simp
    then have "agree (List.rev a) (List.rev b) pos"
      using True 1 agree_chunk [of "List.rev a" "List.rev b" "pos - 8" 8] by simp
    then show ?thesis using 1 True by (subst reverse_chunks.simps) auto
  next
    case False
    then show ?thesis using 1 by (subst reverse_chunks.simps) (auto intro!: exI [of _ "pos - 8"])
  qed
qed

lemma reverse_bytes_agree:
  assumes "agree (List.rev a) (List.rev b) pos" "pos \<le> m" "m \<le> length a" "m \<le> length b"
  shows "\<exists>n. reverse_bytes a b m pos = Ok n \<and> n \<le> m \<and> agree (List.rev a) (List.rev b) n \<and>
    (n < m \<longrightarrow> List.rev a ! n \<noteq> List.rev b ! n)"
  using assms
proof (induction a b m pos rule: reverse_bytes.induct)
  case (1 a b m pos)
  show ?case
  proof (cases "pos < m")
    case True
    then have e: "a ! (length a - (pos + 1)) = List.rev a ! pos" "b ! (length b - (pos + 1)) = List.rev b ! pos"
      using 1 nth_from_end [of pos a] nth_from_end [of pos b] by simp_all
    show ?thesis
    proof (cases "List.rev a ! pos = List.rev b ! pos")
      case eq: True
      then have "agree (List.rev a) (List.rev b) (pos + 1)" using 1 True agree_step [of "List.rev a" "List.rev b" pos] by simp
      then show ?thesis using 1 True eq e by (subst reverse_bytes.simps) (simp add: Let_def)
    next
      case False
      then show ?thesis using 1 True e by (subst reverse_bytes.simps) (simp add: Let_def)
    qed
  next
    case False
    then show ?thesis using 1 by (subst reverse_bytes.simps) (simp add: Let_def)
  qed
qed

lemma reverse_match_length_longest:
  assumes "m \<le> length a" "m \<le> length b"
  shows "\<exists>n. svn_cstring__reverse_match_length a b m = Ok n \<and> n \<le> m \<and> take n (List.rev a) = take n (List.rev b) \<and>
    (n < m \<longrightarrow> List.rev a ! n \<noteq> List.rev b ! n)"
proof -
  obtain k where k: "reverse_chunks a b m 8 = Ok (k + 8)" "k \<le> m" "agree (List.rev a) (List.rev b) k"
    using reverse_chunks_agree [of a b 8 m] assms by (auto simp: agree_def)
  from reverse_bytes_agree [OF k(3,2) assms] show ?thesis
    by (auto simp: svn_cstring__reverse_match_length_def k(1) agree_def)
qed

lemma skip_prefix_spec: "svn_cstring_skip_prefix str p = (if prefix p str then Some (drop (length p) str) else None)"
  using strncmp_eq_prefix [of p str] by (auto simp: svn_cstring_skip_prefix_def Let_def strncmp_eq_def)

section \<open>Properties\<close>

text \<open>\<^verbatim>\<open>svn_cstring_split\<close> returns the nonempty pieces between the separator bytes, in order, without the
  white space around them if it is asked to; and a list of nonempty texts joined by
  \<^verbatim>\<open>svn_cstring_join2\<close> with a byte that none of them has is split into the same list again.\<close>

theorem split_pieces_join:
  assumes "is_cstring sep" "\<forall>t \<in> set ts. is_cstring t \<and> t \<noteq> [] \<and> c \<notin> set t" "c \<noteq> NUL"
    "fits (length (join_with [c] ts) + 2)"
  shows "svn_cstring_split inp (Some sep) chop =
      filter (\<lambda>t. t \<noteq> []) (map (if chop then strip svn_ctype_isspace else id) (split_any (\<lambda>x. x \<in> set sep) inp)) \<and>
    (\<exists>s. svn_cstring_join2 ts [c] trailing = Ok s \<and> svn_cstring_split s (Some [c]) False = ts)"
proof
  have split: "svn_cstring_split inp (Some sep) chop =
      filter (\<lambda>t. t \<noteq> []) (map (if chop then strip svn_ctype_isspace else id) (split_any (\<lambda>x. x \<in> set sep) inp))"
    if "is_cstring sep" for inp sep chop
    using split_tokens_spec [OF that]
    by (auto simp: svn_cstring_split_def svn_cstring_split_append_def chop_spaces_strip [abs_def])
  show "svn_cstring_split inp (Some sep) chop =
      filter (\<lambda>t. t \<noteq> []) (map (if chop then strip svn_ctype_isspace else id) (split_any (\<lambda>x. x \<in> set sep) inp))"
    by (rule split [OF assms(1)])
  have c: "is_cstring [c]" using assms(3) by (simp add: is_cstring_def)
  have join: "svn_cstring_join2 ts [c] trailing = Ok (joined ts [c] trailing)"
    using assms(2,4) c by (intro join2_joins) (auto simp: add.commute)
  have full: "filter (\<lambda>t. t \<noteq> []) ts = ts" using assms(2) by (simp add: filter_id_conv)
  have "split_on c (joined ts [c] trailing) = (if ts = [] then [[]] else ts @ (if trailing then [[]] else []))"
  proof (cases "ts = [] \<or> \<not> trailing")
    case True
    then show ?thesis using assms(2) split_on_join [of ts c] by (auto simp: joined_def)
  next
    case False
    have "join_with [c] ts @ [c] = join_with [c] (ts @ [[]])"
      using False by (induction "[c]" ts rule: join_with.induct) (auto simp: join_with_Cons)
    then show ?thesis using False assms(2) split_on_join [of "ts @ [[]]" c] by (simp add: joined_def)
  qed
  then have "filter (\<lambda>t. t \<noteq> []) (split_on c (joined ts [c] trailing)) = ts" using full by auto
  then have "svn_cstring_split (joined ts [c] trailing) (Some [c]) False = ts"
    unfolding split [OF c] split_any_on by simp
  then show "\<exists>s. svn_cstring_join2 ts [c] trailing = Ok s \<and> svn_cstring_split s (Some [c]) False = ts" using join by blast
qed

text \<open>The lengths of the common beginning and of the common end of two texts, up to a limit, are found
  although eight bytes are compared at a time.\<close>

theorem match_lengths_longest:
  assumes "m \<le> length a" "m \<le> length b"
  shows "(\<exists>n. svn_cstring__match_length a b m = Ok n \<and> n \<le> m \<and> take n a = take n b \<and> (n < m \<longrightarrow> a ! n \<noteq> b ! n)) \<and>
    (\<exists>n. svn_cstring__reverse_match_length a b m = Ok n \<and> n \<le> m \<and> take n (List.rev a) = take n (List.rev b) \<and>
      (n < m \<longrightarrow> List.rev a ! n \<noteq> List.rev b ! n))"
  using match_length_longest [OF assms] reverse_match_length_longest [OF assms] by blast

end
