(* ===== verification/Svn_Similarity.thy ===== *)
theory Svn_Similarity
  imports Svn_Cstring
begin

text \<open>
  \<^verbatim>\<open>svn_string__similarity\<close> of \<^verbatim>\<open>string.c\<close>: after the common beginning and end it fills the table of the
  longest common subsequences of all pairs of prefixes, of which it keeps two columns only. The lemmas
  show that a column has the lengths of longest common subsequences, in the sense of \<open>subseq\<close>.
\<close>

section \<open>Similarity\<close>

definition SVN_STRING__SIM_RANGE_MAX :: nat where
  "SVN_STRING__SIM_RANGE_MAX = 1000000"

text \<open>The bytes both strings start with are counted and skipped; the same loop on the reversed strings skips
  those they end with.\<close>

fun skip_common :: "string \<Rightarrow> string \<Rightarrow> nat \<Rightarrow> string \<times> string \<times> nat" where
  "skip_common (a # s) (b # t) lcs = (if a = b then skip_common s t (lcs + 1) else (a # s, b # t, lcs))"
| "skip_common [] t lcs = ([], t, lcs)"
| "skip_common s [] lcs = (s, [], lcs)"

text \<open>Two columns of the table, with cells that may not have been written.\<close>

type_synonym column = "nat option list"

definition cell :: "column \<Rightarrow> nat \<Rightarrow> nat cres" where
  "cell xs i = (if i < length xs then case xs ! i of Some n \<Rightarrow> Ok n | None \<Rightarrow> Overrun else Overrun)"

definition set_cell :: "column \<Rightarrow> nat \<Rightarrow> nat \<Rightarrow> column cres" where
  "set_cell xs i n = (if i < length xs then Ok (xs[i := Some n]) else Overrun)"

text \<open>The inner loop, from the index \<open>i\<close> on for the bytes of the shorter string that are left.\<close>

fun lcs_row :: "char \<Rightarrow> column \<Rightarrow> column \<Rightarrow> nat \<Rightarrow> string \<Rightarrow> column cres" where
  "lcs_row c prev cur i [] = Ok cur"
| "lcs_row c prev cur i (b # strb) =
     cbind (if c = b then cbind (cell prev (i - 1)) (\<lambda>n. Ok (n + 1))
            else cbind (cell cur (i - 1)) (\<lambda>n. cbind (cell prev i) (\<lambda>m. Ok (if n > m then n else m)))) (\<lambda>n.
     cbind (set_cell cur i n) (\<lambda>cur. lcs_row c prev cur (i + 1) strb))"

text \<open>The outer loop, which swaps the columns after every byte.\<close>

fun lcs_rows :: "column \<Rightarrow> column \<Rightarrow> string \<Rightarrow> string \<Rightarrow> column cres" where
  "lcs_rows prev cur strb [] = Ok prev"
| "lcs_rows prev cur strb (c # stra) =
     cbind (lcs_row c prev cur 1 strb) (\<lambda>cur. lcs_rows cur prev strb stra)"

text \<open>The buffer has \<open>2 * (slots + 1)\<close> cells, of which the first \<open>slots + 2\<close> are zero.\<close>

definition svn_string__similarity :: "string \<Rightarrow> string \<Rightarrow> (nat \<times> nat) cres" where
  "svn_string__similarity stringa stringb =
     (let total = length stringa + length stringb;
          (stra, strb, lcs) = skip_common stringa stringb 0;
          (rev_a, rev_b, lcs) = skip_common (List.rev stra) (List.rev strb) lcs;
          stra = List.rev rev_a; strb = List.rev rev_b in
      cbind
        (if stra \<noteq> [] \<and> strb \<noteq> [] then
           let slots = (if length stra > length strb then length strb else length stra);
               (stra, strb) = (if length stra < length strb then (strb, stra) else (stra, strb));
               buffer = replicate (slots + 2) (Some 0) @ replicate slots None;
               prev = take (slots + 1) buffer; cur = drop (slots + 1) buffer in
           cbind (lcs_rows prev cur strb stra) (\<lambda>prev. cbind (cell prev slots) (\<lambda>n. Ok (lcs + n)))
         else Ok lcs) (\<lambda>lcs.
      Ok (if total \<noteq> 0 then (2 * SVN_STRING__SIM_RANGE_MAX * lcs + total div 2) mod size_limit div total
          else SVN_STRING__SIM_RANGE_MAX, lcs)))"

definition svn_cstring__similarity :: "cstring \<Rightarrow> cstring \<Rightarrow> (nat \<times> nat) cres" where
  "svn_cstring__similarity stra strb = svn_string__similarity stra strb"

section \<open>Longest common subsequences\<close>

definition is_lcs :: "nat \<Rightarrow> string \<Rightarrow> string \<Rightarrow> bool" where
  "is_lcs n a b \<longleftrightarrow> (\<exists>s. subseq s a \<and> subseq s b \<and> length s = n) \<and> (\<forall>s. subseq s a \<and> subseq s b \<longrightarrow> length s \<le> n)"

lemma is_lcs_unique: "is_lcs n a b \<Longrightarrow> is_lcs m a b \<Longrightarrow> n = m"
  unfolding is_lcs_def by (meson le_antisym)

lemma is_lcs_commute: "is_lcs n a b \<longleftrightarrow> is_lcs n b a"
  unfolding is_lcs_def by blast

lemma is_lcs_Nil [simp]: "is_lcs 0 [] b" "is_lcs 0 a []"
  by (auto simp: is_lcs_def)

lemma is_lcs_Cons_same:
  assumes "is_lcs n a b"
  shows "is_lcs (n + 1) (x # a) (x # b)"
  unfolding is_lcs_def
proof
  obtain s where s: "subseq s a" "subseq s b" "length s = n" using assms unfolding is_lcs_def by blast
  then show "\<exists>s. subseq s (x # a) \<and> subseq s (x # b) \<and> length s = n + 1" by (intro exI [of _ "x # s"]) simp
  show "\<forall>s. subseq s (x # a) \<and> subseq s (x # b) \<longrightarrow> length s \<le> n + 1"
  proof (intro allI impI)
    fix s assume s: "subseq s (x # a) \<and> subseq s (x # b)"
    show "length s \<le> n + 1"
    proof (cases s)
      case (Cons h t)
      have "subseq t a \<and> subseq t b"
      proof (cases "h = x")
        case True
        then show ?thesis using s Cons by (simp add: subseq_Cons2_iff)
      next
        case False
        then have "subseq (h # t) a" "subseq (h # t) b" using s Cons by (simp_all add: subseq_Cons2_iff)
        then show ?thesis by (meson subseq_Cons')
      qed
      then have "length t \<le> n" using assms unfolding is_lcs_def by blast
      then show ?thesis using Cons by simp
    qed simp
  qed
qed

lemma is_lcs_Cons_other:
  assumes "x \<noteq> y" "is_lcs n (x # a) b" "is_lcs m a (y # b)"
  shows "is_lcs (max n m) (x # a) (y # b)"
  unfolding is_lcs_def
proof
  obtain s where s: "subseq s (x # a)" "subseq s b" "length s = n" using assms(2) unfolding is_lcs_def by blast
  obtain t where t: "subseq t a" "subseq t (y # b)" "length t = m" using assms(3) unfolding is_lcs_def by blast
  show "\<exists>s. subseq s (x # a) \<and> subseq s (y # b) \<and> length s = max n m"
    using s t by (cases "m \<le> n") (auto simp: max_def)
  show "\<forall>s. subseq s (x # a) \<and> subseq s (y # b) \<longrightarrow> length s \<le> max n m"
  proof (intro allI impI)
    fix s assume s: "subseq s (x # a) \<and> subseq s (y # b)"
    have "subseq s a \<or> subseq s b"
      using s assms(1) by (cases s) (auto simp: subseq_Cons2_iff split: if_splits)
    then have "length s \<le> m \<or> length s \<le> n" using s assms(2,3) unfolding is_lcs_def by blast
    then show "length s \<le> max n m" by auto
  qed
qed

lemma subseq_rev_mono: "subseq s a \<Longrightarrow> subseq (List.rev s) (List.rev a)"
proof (induction rule: list_emb.induct)
  case (list_emb_Cons xs ys y)
  then show ?case by (simp add: subseq_rev_drop_many)
next
  case (list_emb_Cons2 x y xs ys)
  then show ?case by (simp add: list_emb_append_mono)
qed simp

lemma is_lcs_rev: "is_lcs n (List.rev a) (List.rev b) \<longleftrightarrow> is_lcs n a b"
proof -
  have "is_lcs n a b \<Longrightarrow> is_lcs n (List.rev a) (List.rev b)" for a b
    unfolding is_lcs_def by (metis length_rev rev_rev_ident subseq_rev_mono)
  from this [of a b] this [of "List.rev a" "List.rev b"] show ?thesis by auto
qed

lemma is_lcs_snoc_same: "is_lcs n a b \<Longrightarrow> is_lcs (n + 1) (a @ [x]) (b @ [x])"
  using is_lcs_Cons_same [of n "List.rev a" "List.rev b" x] is_lcs_rev [of "n + 1" "a @ [x]" "b @ [x]"]
  by (simp add: is_lcs_rev)

lemma is_lcs_snoc_other:
  "x \<noteq> y \<Longrightarrow> is_lcs n (a @ [x]) b \<Longrightarrow> is_lcs m a (b @ [y]) \<Longrightarrow> is_lcs (max n m) (a @ [x]) (b @ [y])"
  using is_lcs_Cons_other [of x y n "List.rev a" "List.rev b" m] is_lcs_rev [of n "a @ [x]" b]
    is_lcs_rev [of m a "b @ [y]"] is_lcs_rev [of "max n m" "a @ [x]" "b @ [y]"]
  by simp

text \<open>A column for the bytes \<open>u\<close> of one string has the lengths for every start of the other string \<open>w\<close>.\<close>

definition lcs_column :: "column \<Rightarrow> string \<Rightarrow> string \<Rightarrow> nat \<Rightarrow> bool" where
  "lcs_column xs u w n \<longleftrightarrow> length xs = length w + 1 \<and> (\<forall>j < n. \<exists>k. xs ! j = Some k \<and> is_lcs k u (take j w))"

lemma lcs_column_cell:
  "lcs_column xs u w n \<Longrightarrow> j < n \<Longrightarrow> n \<le> length w + 1 \<Longrightarrow> \<exists>k. cell xs j = Ok k \<and> is_lcs k u (take j w)"
  by (fastforce simp: lcs_column_def cell_def)

lemma lcs_column_set:
  assumes "lcs_column cur u w i" "i \<le> length w" "is_lcs n u (take i w)"
  shows "set_cell cur i n = Ok (cur[i := Some n]) \<and> lcs_column (cur[i := Some n]) u w (i + 1)"
  using assms by (auto simp: lcs_column_def set_cell_def less_Suc_eq)

lemma lcs_row_column:
  assumes "lcs_column prev u w (length w + 1)" "lcs_column cur (u @ [c]) w i" "0 < i" "w = v @ rest" "i = length v + 1"
  shows "\<exists>cur'. lcs_row c prev cur i rest = Ok cur' \<and> lcs_column cur' (u @ [c]) w (length w + 1)"
  using assms(2-)
proof (induction rest arbitrary: cur i v)
  case Nil
  then show ?case by simp
next
  case (Cons b rest)
  have i: "i \<le> length w" "take i w = v @ [b]" "take (i - 1) w = v" using Cons.prems by simp_all
  have lt: "i - 1 < length w + 1" "i - 1 < i" using i(1) Cons.prems(2) by simp_all
  obtain d where d: "cell prev (i - 1) = Ok d" "is_lcs d u v"
    using lcs_column_cell [OF assms(1) lt(1)] i(3) by auto
  obtain m where m: "cell prev i = Ok m" "is_lcs m u (v @ [b])"
    using lcs_column_cell [OF assms(1), of i] i by auto
  obtain n where n: "cell cur (i - 1) = Ok n" "is_lcs n (u @ [c]) v"
    using lcs_column_cell [OF Cons.prems(1) lt(2)] i(1,3) by auto
  obtain k where k: "(if c = b then cbind (cell prev (i - 1)) (\<lambda>n. Ok (n + 1))
        else cbind (cell cur (i - 1)) (\<lambda>n. cbind (cell prev i) (\<lambda>m. Ok (if n > m then n else m)))) = Ok k"
    "is_lcs k (u @ [c]) (take i w)"
  proof (cases "c = b")
    case True
    then show ?thesis using that [of "d + 1"] d is_lcs_snoc_same [OF d(2), of b] i by simp
  next
    case False
    have "(if n > m then n else m) = max n m" by simp
    then show ?thesis using that [of "max n m"] n m is_lcs_snoc_other [OF False n(2) m(2)] i False by simp
  qed
  note s = lcs_column_set [OF Cons.prems(1) i(1) k(2)]
  have "lcs_row c prev cur i (b # rest) = lcs_row c prev (cur[i := Some k]) (i + 1) rest"
    unfolding lcs_row.simps k(1) cbind_simps using s by simp
  then show ?case using Cons.IH [of "cur[i := Some k]" "i + 1" "v @ [b]"] s Cons.prems by simp
qed

lemma lcs_rows_column:
  assumes "lcs_column prev u w (length w + 1)" "length cur = length w + 1" "cur ! 0 = Some 0"
  shows "\<exists>prev'. lcs_rows prev cur w t = Ok prev' \<and> lcs_column prev' (u @ t) w (length w + 1)"
  using assms
proof (induction t arbitrary: prev cur u)
  case Nil
  then show ?case by simp
next
  case (Cons c t)
  have "lcs_column cur (u @ [c]) w 1" using Cons.prems(2,3) by (simp add: lcs_column_def)
  then obtain cur' where cur': "lcs_row c prev cur 1 w = Ok cur'" "lcs_column cur' (u @ [c]) w (length w + 1)"
    using lcs_row_column [OF Cons.prems(1), of cur c 1 "[]" w] by auto
  have "prev ! 0 = Some 0"
    using Cons.prems(1) is_lcs_unique [OF _ is_lcs_Nil(2) [of u]] unfolding lcs_column_def by fastforce
  moreover have "length prev = length w + 1" using Cons.prems(1) by (simp add: lcs_column_def)
  ultimately show ?case using Cons.IH [OF cur'(2)] cur'(1) by simp
qed

lemma skip_common_split:
  "skip_common a b n = (a', b', m) \<Longrightarrow> \<exists>p. a = p @ a' \<and> b = p @ b' \<and> m = n + length p"
proof (induction a b n rule: skip_common.induct)
  case (1 a s b t n)
  then show ?case by (cases "a = b") (force intro: exI [of _ "a # _"])+
qed auto

lemma is_lcs_prefix: "is_lcs n a b \<Longrightarrow> is_lcs (length p + n) (p @ a) (p @ b)"
  using is_lcs_Cons_same by (induction p) fastforce+

lemma is_lcs_suffix: "is_lcs n a b \<Longrightarrow> is_lcs (n + length p) (a @ p) (b @ p)"
  using is_lcs_prefix [of n "List.rev a" "List.rev b" "List.rev p"] is_lcs_rev [of _ "a @ p" "b @ p"]
  by (simp add: is_lcs_rev add.commute)

lemma similarity_table:
  assumes "stra \<noteq> []" "strb \<noteq> []" "length strb \<le> length stra" "slots = length strb"
    "buffer = replicate (slots + 2) (Some 0) @ replicate slots None"
  shows "\<exists>n. cbind (lcs_rows (take (slots + 1) buffer) (drop (slots + 1) buffer) strb stra)
      (\<lambda>prev. cell prev slots) = Ok n \<and> is_lcs n stra strb"
proof -
  have "lcs_column (take (slots + 1) buffer) [] strb (length strb + 1)"
  proof -
    have "take (slots + 1) buffer = replicate (slots + 1) (Some 0)"
      unfolding assms(5) by (simp only: take_append take_replicate length_replicate) simp
    then show ?thesis using assms(4) by (auto simp: lcs_column_def simp del: replicate_Suc)
  qed
  moreover have "drop (slots + 1) buffer = Some 0 # replicate slots None"
    unfolding assms(5) by (simp only: drop_append drop_replicate length_replicate) simp
  ultimately obtain prev where p: "lcs_rows (take (slots + 1) buffer) (drop (slots + 1) buffer) strb stra = Ok prev"
    "lcs_column prev stra strb (length strb + 1)"
    using lcs_rows_column [of "take (slots + 1) buffer" "[]" strb "drop (slots + 1) buffer" stra] assms(4) by auto
  from lcs_column_cell [OF p(2), of slots] show ?thesis using p(1) assms(4) by simp
qed

lemma similarity_lcs:
  "\<exists>n. is_lcs n a b \<and>
     svn_string__similarity a b =
       Ok (if length a + length b \<noteq> 0
           then (2000000 * n + (length a + length b) div 2) mod size_limit div (length a + length b) else 1000000, n)"
proof -
  obtain a1 b1 p where s1: "skip_common a b 0 = (a1, b1, length p)" "a = p @ a1" "b = p @ b1"
    by (metis add_0 prod_cases3 skip_common_split)
  obtain ra rb k where s2: "skip_common (List.rev a1) (List.rev b1) (length p) = (ra, rb, k)" by (metis prod_cases3)
  obtain q where q: "List.rev a1 = q @ ra" "List.rev b1 = q @ rb" "k = length p + length q" using skip_common_split [OF s2] by blast
  let ?x = "List.rev ra" and ?y = "List.rev rb"
  have ab: "a1 = ?x @ List.rev q" "b1 = ?y @ List.rev q" using q(1,2) by (metis rev_append rev_rev_ident)+
  let ?core = "if ?x \<noteq> [] \<and> ?y \<noteq> [] then
           let slots = (if length ?x > length ?y then length ?y else length ?x);
               (stra, strb) = (if length ?x < length ?y then (?y, ?x) else (?x, ?y));
               buffer = replicate (slots + 2) (Some 0) @ replicate slots None;
               prev = take (slots + 1) buffer; cur = drop (slots + 1) buffer in
           cbind (lcs_rows prev cur strb stra) (\<lambda>prev. cbind (cell prev slots) (\<lambda>n. Ok (k + n)))
         else Ok k"
  have "\<exists>m. ?core = Ok (k + m) \<and> is_lcs m ?x ?y"
  proof (cases "?x \<noteq> [] \<and> ?y \<noteq> []")
    case True
    obtain stra strb where st: "(if length ?x < length ?y then (?y, ?x) else (?x, ?y)) = (stra, strb)" by fastforce
    have len: "length strb \<le> length stra" "stra \<noteq> []" "strb \<noteq> []"
      "(if length ?x > length ?y then length ?y else length ?x) = length strb"
      using st True by (auto split: if_splits)
    have sym: "is_lcs m stra strb \<longleftrightarrow> is_lcs m ?x ?y" for m using st is_lcs_commute by (auto split: if_splits)
    from similarity_table [OF len(2,3,1) refl refl]
    obtain m where "cbind (lcs_rows (take (length strb + 1) (replicate (length strb + 2) (Some 0) @ replicate (length strb) None))
        (drop (length strb + 1) (replicate (length strb + 2) (Some 0) @ replicate (length strb) None)) strb stra)
        (\<lambda>prev. cell prev (length strb)) = Ok m" "is_lcs m stra strb" by blast
    then have "?core = Ok (k + m)" using True unfolding len(4) st by (auto simp: cbind_Ok_iff Let_def simp del: take_append drop_append replicate_add)
    then show ?thesis using \<open>is_lcs m stra strb\<close> sym by blast
  next
    case False
    then show ?thesis by auto
  qed
  then obtain m where m: "?core = Ok (k + m)" "is_lcs m ?x ?y" by blast
  have "is_lcs (k + m) a b"
    using is_lcs_prefix [OF is_lcs_suffix [OF m(2), of "List.rev q"], of p] s1(2,3) ab q(3) by (simp add: add.commute add.left_commute)
  moreover have "svn_string__similarity a b =
       Ok (if length a + length b \<noteq> 0
           then (2000000 * (k + m) + (length a + length b) div 2) mod size_limit div (length a + length b) else 1000000, k + m)"
    unfolding svn_string__similarity_def s1(1) Let_def prod.case s2 m(1) [unfolded Let_def] cbind_simps
    by (simp add: SVN_STRING__SIM_RANGE_MAX_def)
  ultimately show ?thesis by blast
qed

section \<open>Properties of the similarity\<close>

text \<open>C35. \<^verbatim>\<open>svn_string__similarity\<close> with its two columns computes the length of a longest common
  subsequence, reads no cell that was not written, and returns the share of the common bytes in both
  strings, rounded, between 0 and 1000000.\<close>

theorem similarity_is_lcs:
  assumes "length a + length b < 2 ^ 40"
  shows "\<exists>ratio n. svn_string__similarity a b = Ok (ratio, n) \<and> is_lcs n a b \<and> ratio \<le> SVN_STRING__SIM_RANGE_MAX \<and>
    ratio = (if length a + length b = 0 then SVN_STRING__SIM_RANGE_MAX
             else (2 * SVN_STRING__SIM_RANGE_MAX * n + (length a + length b) div 2) div (length a + length b))"
proof -
  let ?t = "length a + length b"
  obtain n where n: "is_lcs n a b"
    "svn_string__similarity a b = Ok (if ?t \<noteq> 0 then (2000000 * n + ?t div 2) mod size_limit div ?t else 1000000, n)"
    using similarity_lcs by blast
  obtain s where "subseq s a" "subseq s b" "length s = n" using n(1) unfolding is_lcs_def by blast
  then have le: "2 * n \<le> ?t" using list_emb_length [of "(=)" s a] list_emb_length [of "(=)" s b] by simp
  have "2000000 * n + ?t div 2 < size_limit" using le assms by (simp add: size_limit_def)
  then have m: "(2000000 * n + ?t div 2) mod size_limit = 2000000 * n + ?t div 2" by simp
  have "(2000000 * n + ?t div 2) div ?t \<le> 1000000" if "?t \<noteq> 0"
  proof -
    have "?t div 2 < ?t" using that by (intro div_less_dividend) auto
    moreover have "2000000 * n \<le> 1000000 * ?t" using mult_le_mono2 [OF le, of 1000000] by simp
    ultimately have "2000000 * n + ?t div 2 < 1000000 * ?t + ?t" by (rule add_le_less_mono [rotated])
    also have "\<dots> = 1000001 * ?t" by simp
    finally have "2000000 * n + ?t div 2 < 1000001 * ?t" .
    then have "(2000000 * n + ?t div 2) div ?t < 1000001" using that by (simp only: less_mult_imp_div_less)
    then show ?thesis by simp
  qed
  then show ?thesis using n(2) n(1) unfolding m by (auto simp: SVN_STRING__SIM_RANGE_MAX_def)
qed

theorem similarity_is_lcs_witness:
  "\<exists>ratio n. svn_string__similarity ''trunk/a'' ''branches/a'' = Ok (ratio, n) \<and> is_lcs n ''trunk/a'' ''branches/a''"
  using similarity_is_lcs [of "''trunk/a''" "''branches/a''"] by auto

end
