(* ===== verification/Svn_Scan.thy ===== *)
theory Svn_Scan
  imports Svn_Cstring "HOL-Library.Word"
begin

unbundle bit_operations_syntax

text \<open>
  Scanning bytes: the ends of lines (\<^verbatim>\<open>eol.c\<close>) and the validity of UTF-8 (\<^verbatim>\<open>utf_validate.c\<close>). Both read a machine
  word of eight bytes at a time and test all of them at once.

  A pointer into the buffer is the part of the buffer from there on, and the number of bytes that are
  left is its length. Words are loaded with the first byte in the lowest bits; the tests treat all bytes
  alike, so the byte order does not matter.
\<close>

section \<open>Machine words\<close>

type_synonym machine_word = "64 word"

fun enc :: "nat list \<Rightarrow> machine_word" where
  "enc [] = 0"
| "enc (b # bs) = of_nat b + 256 * enc bs"

definition load_word :: "string \<Rightarrow> machine_word" where
  "load_word buf = enc (map of_char (take 8 buf))"

definition SVN__LOWER_7BITS_SET :: machine_word where
  "SVN__LOWER_7BITS_SET = 0x7f7f7f7f7f7f7f7f"

definition SVN__BIT_7_SET :: machine_word where
  "SVN__BIT_7_SET = 0x8080808080808080"

definition SVN__R_MASK :: machine_word where
  "SVN__R_MASK = 0x0a0a0a0a0a0a0a0a"

definition SVN__N_MASK :: machine_word where
  "SVN__N_MASK = 0x0d0d0d0d0d0d0d0d"

section \<open>Ends of lines\<close>

text \<open>The loop over words stops in front of the first word that has an end of line, or with at most eight bytes left.\<close>

function eol_words :: "string \<Rightarrow> string" where
  "eol_words buf =
     (if length buf > 8 then
        let chunk = load_word buf;
            r_test = chunk XOR SVN__R_MASK;
            n_test = chunk XOR SVN__N_MASK;
            r_test = r_test OR ((r_test AND SVN__LOWER_7BITS_SET) + SVN__LOWER_7BITS_SET);
            n_test = n_test OR ((n_test AND SVN__LOWER_7BITS_SET) + SVN__LOWER_7BITS_SET) in
        if (r_test AND n_test) AND SVN__BIT_7_SET \<noteq> SVN__BIT_7_SET then buf else eol_words (drop 8 buf)
      else buf)"
  by pat_completeness auto
termination by (relation "measure length") auto

declare eol_words.simps [simp del]

fun eol_bytes :: "string \<Rightarrow> string option" where
  "eol_bytes [] = None"
| "eol_bytes (c # buf) = (if c = newline \<or> c = CHR 0x0D then Some (c # buf) else eol_bytes buf)"

definition svn_eol__find_eol_start :: "string \<Rightarrow> string option" where
  "svn_eol__find_eol_start buf = eol_bytes (eol_words buf)"

text \<open>The marker and its address.\<close>

definition svn_eol__detect_eol :: "string \<Rightarrow> (cstring \<times> string) option" where
  "svn_eol__detect_eol buf =
     (case svn_eol__find_eol_start buf of
        None \<Rightarrow> None
      | Some eol \<Rightarrow>
          Some (if c_hd eol = newline then [newline]
                else if tl eol = [] \<or> c_hd (tl eol) \<noteq> newline then [CHR 0x0D]
                else [CHR 0x0D, newline], eol))"

section \<open>The UTF-8 automaton\<close>

text \<open>The category of every byte.\<close>

definition octet_category :: "nat list" where
  "octet_category =
     replicate 128 0 @ replicate 16 1 @ replicate 16 2 @ replicate 32 3 @ replicate 2 4 @ replicate 30 5 @
     [6] @ replicate 12 7 @ [8] @ replicate 2 9 @ [10] @ replicate 3 11 @ [12] @ replicate 11 13"

abbreviation (input) FSM_START :: nat where "FSM_START \<equiv> 0"
abbreviation (input) FSM_80BF :: nat where "FSM_80BF \<equiv> 1"
abbreviation (input) FSM_A0BF :: nat where "FSM_A0BF \<equiv> 2"
abbreviation (input) FSM_80BF80BF :: nat where "FSM_80BF80BF \<equiv> 3"
abbreviation (input) FSM_809F :: nat where "FSM_809F \<equiv> 4"
abbreviation (input) FSM_90BF :: nat where "FSM_90BF \<equiv> 5"
abbreviation (input) FSM_80BF80BF80BF :: nat where "FSM_80BF80BF80BF \<equiv> 6"
abbreviation (input) FSM_808F :: nat where "FSM_808F \<equiv> 7"
abbreviation (input) FSM_ERROR :: nat where "FSM_ERROR \<equiv> 8"

definition machine :: "nat list list" where
  "machine =
     [[FSM_START, FSM_ERROR, FSM_ERROR, FSM_ERROR, FSM_ERROR, FSM_80BF, FSM_A0BF, FSM_80BF80BF, FSM_809F,
       FSM_80BF80BF, FSM_90BF, FSM_80BF80BF80BF, FSM_808F, FSM_ERROR],
      [FSM_ERROR, FSM_START, FSM_START, FSM_START, FSM_ERROR, FSM_ERROR, FSM_ERROR, FSM_ERROR, FSM_ERROR,
       FSM_ERROR, FSM_ERROR, FSM_ERROR, FSM_ERROR, FSM_ERROR],
      [FSM_ERROR, FSM_ERROR, FSM_ERROR, FSM_80BF, FSM_ERROR, FSM_ERROR, FSM_ERROR, FSM_ERROR, FSM_ERROR,
       FSM_ERROR, FSM_ERROR, FSM_ERROR, FSM_ERROR, FSM_ERROR],
      [FSM_ERROR, FSM_80BF, FSM_80BF, FSM_80BF, FSM_ERROR, FSM_ERROR, FSM_ERROR, FSM_ERROR, FSM_ERROR,
       FSM_ERROR, FSM_ERROR, FSM_ERROR, FSM_ERROR, FSM_ERROR],
      [FSM_ERROR, FSM_80BF, FSM_80BF, FSM_ERROR, FSM_ERROR, FSM_ERROR, FSM_ERROR, FSM_ERROR, FSM_ERROR,
       FSM_ERROR, FSM_ERROR, FSM_ERROR, FSM_ERROR, FSM_ERROR],
      [FSM_ERROR, FSM_ERROR, FSM_80BF80BF, FSM_80BF80BF, FSM_ERROR, FSM_ERROR, FSM_ERROR, FSM_ERROR, FSM_ERROR,
       FSM_ERROR, FSM_ERROR, FSM_ERROR, FSM_ERROR, FSM_ERROR],
      [FSM_ERROR, FSM_80BF80BF, FSM_80BF80BF, FSM_80BF80BF, FSM_ERROR, FSM_ERROR, FSM_ERROR, FSM_ERROR, FSM_ERROR,
       FSM_ERROR, FSM_ERROR, FSM_ERROR, FSM_ERROR, FSM_ERROR],
      [FSM_ERROR, FSM_80BF80BF, FSM_ERROR, FSM_ERROR, FSM_ERROR, FSM_ERROR, FSM_ERROR, FSM_ERROR, FSM_ERROR,
       FSM_ERROR, FSM_ERROR, FSM_ERROR, FSM_ERROR, FSM_ERROR],
      [FSM_ERROR, FSM_ERROR, FSM_ERROR, FSM_ERROR, FSM_ERROR, FSM_ERROR, FSM_ERROR, FSM_ERROR, FSM_ERROR,
       FSM_ERROR, FSM_ERROR, FSM_ERROR, FSM_ERROR, FSM_ERROR]]"

definition table_step :: "nat \<Rightarrow> char \<Rightarrow> nat" where
  "table_step state c = machine ! state ! (octet_category ! of_char c)"

text \<open>The words and then the bytes that are ASCII are skipped.\<close>

function ascii_words :: "string \<Rightarrow> string" where
  "ascii_words data =
     (if length data > 8 then
        if load_word data AND SVN__BIT_7_SET \<noteq> 0 then data else ascii_words (drop 8 data)
      else data)"
  by pat_completeness auto
termination by (relation "measure length") auto

declare ascii_words.simps [simp del]

fun ascii_bytes :: "string \<Rightarrow> string" where
  "ascii_bytes [] = []"
| "ascii_bytes (c # data) = (if (of_char c :: nat) \<ge> 0x80 then c # data else ascii_bytes data)"

definition first_non_fsm_start_char :: "string \<Rightarrow> string" where
  "first_non_fsm_start_char data = ascii_bytes (ascii_words data)"

text \<open>The loop of \<^verbatim>\<open>svn_utf__last_valid\<close> keeps the last position in the initial state.\<close>

fun last_valid_loop :: "nat \<Rightarrow> string \<Rightarrow> string \<Rightarrow> string" where
  "last_valid_loop state start [] = start"
| "last_valid_loop state start (octet # data) =
     (let state = table_step state octet in last_valid_loop state (if state = FSM_START then data else start) data)"

definition svn_utf__last_valid :: "string \<Rightarrow> string" where
  "svn_utf__last_valid data =
     (let start = first_non_fsm_start_char data in last_valid_loop FSM_START start start)"

fun is_valid_loop :: "nat \<Rightarrow> string \<Rightarrow> nat" where
  "is_valid_loop state [] = state"
| "is_valid_loop state (octet # data) = is_valid_loop (table_step state octet) data"

text \<open>A null pointer is not valid.\<close>

definition svn_utf__is_valid :: "string option \<Rightarrow> bool" where
  "svn_utf__is_valid data =
     (case data of None \<Rightarrow> False | Some d \<Rightarrow> is_valid_loop FSM_START (first_non_fsm_start_char d) = FSM_START)"

definition svn_utf__cstring_is_valid :: "cstring option \<Rightarrow> bool" where
  "svn_utf__cstring_is_valid data = (case data of None \<Rightarrow> False | Some d \<Rightarrow> svn_utf__is_valid (Some d))"

text \<open>The second version has the transitions in a \<^verbatim>\<open>switch\<close> statement.\<close>

definition switch_step :: "nat \<Rightarrow> nat \<Rightarrow> nat" where
  "switch_step state octet =
     (if state = FSM_START then
        if octet \<le> 0x7F then state
        else if octet \<le> 0xC1 then FSM_ERROR
        else if octet \<le> 0xDF then FSM_80BF
        else if octet = 0xE0 then FSM_A0BF
        else if octet \<le> 0xEC then FSM_80BF80BF
        else if octet = 0xED then FSM_809F
        else if octet \<le> 0xEF then FSM_80BF80BF
        else if octet = 0xF0 then FSM_90BF
        else if octet \<le> 0xF3 then FSM_80BF80BF80BF
        else if octet \<le> 0xF4 then FSM_808F
        else FSM_ERROR
      else if state = FSM_80BF then
        if octet \<ge> 0x80 \<and> octet \<le> 0xBF then FSM_START else FSM_ERROR
      else if state = FSM_A0BF then
        if octet \<ge> 0xA0 \<and> octet \<le> 0xBF then FSM_80BF else FSM_ERROR
      else if state = FSM_80BF80BF then
        if octet \<ge> 0x80 \<and> octet \<le> 0xBF then FSM_80BF else FSM_ERROR
      else if state = FSM_809F then
        if octet \<ge> 0x80 \<and> octet \<le> 0x9F then FSM_80BF else FSM_ERROR
      else if state = FSM_90BF then
        if octet \<ge> 0x90 \<and> octet \<le> 0xBF then FSM_80BF80BF else FSM_ERROR
      else if state = FSM_80BF80BF80BF then
        if octet \<ge> 0x80 \<and> octet \<le> 0xBF then FSM_80BF80BF else FSM_ERROR
      else
        if octet \<ge> 0x80 \<and> octet \<le> 0x8F then FSM_80BF80BF else FSM_ERROR)"

text \<open>In the error state, and in any other state, the loop returns at once.\<close>

fun last_valid2_loop :: "nat \<Rightarrow> string \<Rightarrow> string \<Rightarrow> string" where
  "last_valid2_loop state start [] = start"
| "last_valid2_loop state start (octet # data) =
     (if state \<ge> FSM_ERROR then start
      else
        let state = switch_step state (of_char octet) in
        last_valid2_loop state (if state = FSM_START then data else start) data)"

definition svn_utf__last_valid2 :: "string \<Rightarrow> string" where
  "svn_utf__last_valid2 data =
     (let start = first_non_fsm_start_char data in last_valid2_loop FSM_START start start)"

section \<open>Words as lists of bytes\<close>

definition bytes_ok :: "nat list \<Rightarrow> bool" where
  "bytes_ok bs \<longleftrightarrow> (\<forall>b \<in> set bs. b < 256)"

lemma bytes_ok_simps [simp]: "bytes_ok []" "bytes_ok (b # bs) \<longleftrightarrow> b < 256 \<and> bytes_ok bs"
  by (auto simp: bytes_ok_def)

fun val :: "nat list \<Rightarrow> nat" where
  "val [] = 0"
| "val (b # bs) = b + 256 * val bs"

lemma enc_val: "enc bs = of_nat (val bs)"
  by (induction bs) simp_all

lemma val_bound: "bytes_ok bs \<Longrightarrow> val bs < 256 ^ length bs"
proof (induction bs)
  case (Cons b bs)
  then have "val bs + 1 \<le> 256 ^ length bs" by simp
  then have "256 * (val bs + 1) \<le> 256 * 256 ^ length bs" by (rule mult_le_mono2)
  then show ?case using Cons.prems by simp
qed simp

lemma val_inject: "bytes_ok bs \<Longrightarrow> bytes_ok cs \<Longrightarrow> length bs = length cs \<Longrightarrow> val bs = val cs \<Longrightarrow> bs = cs"
proof (induction bs arbitrary: cs)
  case (Cons b bs)
  then obtain c ds where c: "cs = c # ds" by (cases cs) auto
  have e: "b + 256 * val bs = c + 256 * val ds" using Cons.prems c by simp
  have "b = c"
    using arg_cong [OF e, of "\<lambda>x. x mod 256"] Cons.prems c by simp
  then show ?case using Cons.IH [of ds] Cons.prems c e by simp
qed simp

lemma enc_inject:
  assumes "bytes_ok bs" "bytes_ok cs" "length bs = length cs" "length bs \<le> 8"
  shows "enc bs = enc cs \<longleftrightarrow> bs = cs"
proof
  have "(256 :: nat) ^ length bs \<le> 256 ^ 8" using assms(4) by (intro power_increasing) simp_all
  then have "val bs < 2 ^ 64" "val cs < 2 ^ 64"
    using val_bound [OF assms(1)] val_bound [OF assms(2)] assms(3) by simp_all
  moreover assume "enc bs = enc cs"
  ultimately have "val bs = val cs" unfolding enc_val by (simp add: word_of_nat_eq_iff take_bit_nat_eq_self)
  then show "bs = cs" by (rule val_inject [OF assms(1-3)])
qed simp

lemma bit_byte: "(b :: nat) < 256 \<Longrightarrow> 8 \<le> n \<Longrightarrow> \<not> bit b n"
proof -
  assume "b < 256" "8 \<le> n"
  then have "b < 2 ^ n" using power_increasing [of 8 n "2 :: nat"] by simp
  then show ?thesis by (simp add: bit_iff_odd)
qed

lemma bit_enc:
  "b < 256 \<Longrightarrow> bit (enc (b # bs)) n \<longleftrightarrow> n < 64 \<and> (if n < 8 then bit b n else bit (enc bs) (n - 8))"
proof -
  assume b: "b < 256"
  have d: "\<not> (bit (of_nat b :: machine_word) m \<and> bit (push_bit 8 (enc bs)) m)" for m
    using bit_byte [OF b, of m] by (auto simp: bit_simps)
  have "enc (b # bs) = of_nat b OR push_bit 8 (enc bs)"
  proof -
    have "enc (b # bs) = of_nat b + push_bit 8 (enc bs)" by (simp add: push_bit_eq_mult)
    also have "\<dots> = of_nat b OR push_bit 8 (enc bs)" by (rule disjunctive_add) (use d in blast)
    finally show ?thesis .
  qed
  then show ?thesis using bit_byte [OF b, of n] by (auto simp: bit_simps dest: bit_imp_le_length)
qed

text \<open>Bitwise operations act on every byte, and so does addition as long as no byte overflows.\<close>

lemma enc_bitwise:
  assumes "\<And>x y n. bit (f x y :: machine_word) n \<longleftrightarrow> g (bit x n) (bit y n)"
    "\<And>x y n. bit (h x y :: nat) n \<longleftrightarrow> g (bit x n) (bit y n)" "\<not> g False False"
    "length bs = length cs" "bytes_ok bs" "bytes_ok cs"
  shows "f (enc bs) (enc cs) = enc (map2 h bs cs) \<and> bytes_ok (map2 h bs cs)"
  using assms(4-6)
proof (induction bs cs rule: list_induct2)
  case Nil
  then show ?case using assms(1,3) by (auto intro: bit_word_eqI)
next
  case (Cons b bs c cs)
  have lt: "h b c < 256"
  proof -
    have "\<not> bit (h b c) n" if "\<not> n < 8" for n
      using Cons.prems assms(2,3) bit_byte [of b n] bit_byte [of c n] that by simp
    then have "take_bit 8 (h b c) = h b c" by (intro bit_eqI) (auto simp: bit_take_bit_iff)
    then show ?thesis by (simp add: take_bit_nat_eq_self_iff)
  qed
  have "f (enc (b # bs)) (enc (c # cs)) = enc (h b c # map2 h bs cs)"
  proof (rule bit_word_eqI)
    fix n assume n: "n < LENGTH(64)"
    have "bit (f (enc bs) (enc cs)) (n - 8) \<longleftrightarrow> bit (enc (map2 h bs cs)) (n - 8)" using Cons by simp
    then show "bit (f (enc (b # bs)) (enc (c # cs))) n \<longleftrightarrow> bit (enc (h b c # map2 h bs cs)) n"
      using n Cons.prems lt unfolding assms(1) by (simp add: bit_enc assms(2) del: enc.simps)
  qed
  then show ?case using Cons lt by simp
qed

lemma enc_ops:
  assumes "length bs = length cs" "bytes_ok bs" "bytes_ok cs"
  shows "enc bs XOR enc cs = enc (map2 (XOR) bs cs)" "bytes_ok (map2 (XOR) bs cs)"
    "enc bs AND enc cs = enc (map2 (AND) bs cs)" "bytes_ok (map2 (AND) bs cs)"
    "enc bs OR enc cs = enc (map2 (OR) bs cs)" "bytes_ok (map2 (OR) bs cs)"
  using enc_bitwise [of "(XOR)" "(\<noteq>)" "(XOR)", OF _ _ _ assms] enc_bitwise [of "(AND)" "(\<and>)" "(AND)", OF _ _ _ assms]
    enc_bitwise [of "(OR)" "(\<or>)" "(OR)", OF _ _ _ assms]
  by (simp_all add: bit_simps)

lemma enc_add: "length bs = length cs \<Longrightarrow> enc bs + enc cs = enc (map2 (+) bs cs)"
  by (induction bs cs rule: list_induct2) (simp_all add: algebra_simps flip: distrib_right)

lemma masks:
  "SVN__LOWER_7BITS_SET = enc (replicate 8 127)" "SVN__BIT_7_SET = enc (replicate 8 128)"
  "SVN__R_MASK = enc (replicate 8 10)" "SVN__N_MASK = enc (replicate 8 13)"
  by (simp_all add: SVN__LOWER_7BITS_SET_def SVN__BIT_7_SET_def SVN__R_MASK_def SVN__N_MASK_def numeral_eq_Suc)

lemma map2_replicate: "length bs = n \<Longrightarrow> map2 f bs (replicate n m) = map (\<lambda>b. f b m) bs"
  by (induction bs arbitrary: n) auto

lemma map2_map_map: "map2 f (map g bs) (map h bs) = map (\<lambda>b. f (g b) (h b)) bs"
  by (induction bs) auto

section \<open>The tests on words\<close>

definition octets :: "string \<Rightarrow> nat list" where
  "octets s = map of_char s"

lemma octets_ok [simp]: "bytes_ok (octets s)" "length (octets s) = length s"
  by (auto simp: octets_def bytes_ok_def)

lemma load_octets: "load_word buf = enc (octets (take 8 buf))"
  by (simp add: load_word_def octets_def)

lemma bytes_ok_map: "bytes_ok (map f bs) \<longleftrightarrow> (\<forall>b \<in> set bs. f b < 256)"
  by (simp add: bytes_ok_def)

lemma replicate_ok: "b < 256 \<Longrightarrow> bytes_ok (replicate n b)"
  by (simp add: bytes_ok_def)

text \<open>Zero bytes become numbers below 128, and only they.\<close>

lemma bit_7: "(y :: nat) < 256 \<Longrightarrow> bit y 7 \<longleftrightarrow> 128 \<le> y"
proof -
  assume "y < 256"
  then have "y div 128 = (if 128 \<le> y then 1 else 0)" by (auto simp: div_nat_eqI)
  then show ?thesis by (simp add: bit_iff_odd)
qed

lemma and_127_mod: "(x :: nat) AND 127 = x mod 128"
  using take_bit_eq_mask [of 7 x] by (simp add: take_bit_eq_mod mask_eq_exp_minus_1)

lemma byte_test: "x < 256 \<Longrightarrow> bit (x OR ((x AND 127) + 127)) 7 \<longleftrightarrow> x \<noteq> (0 :: nat)"
proof -
  assume x: "x < 256"
  have "x mod 128 + 127 < 256" by (simp add: less_le_trans [of _ 128] add_less_le_mono)
  then show ?thesis using bit_7 [OF x] bit_7 [of "x mod 128 + 127"] x by (auto simp: bit_or_iff and_127_mod not_le)
qed

lemma xor_zero: "(b :: nat) XOR m = 0 \<longleftrightarrow> b = m"
proof
  assume "b XOR m = 0"
  then have "(b XOR m) XOR m = m" by simp
  then show "b = m" by (simp add: xor.assoc)
qed simp

lemma and_128: "(y :: nat) AND 128 = 128 \<longleftrightarrow> bit y 7"
proof -
  have "y AND 2 ^ 7 = 2 ^ 7" if "bit y 7"
  proof (rule bit_eqI)
    show "bit (y AND 2 ^ 7) n \<longleftrightarrow> bit ((2 :: nat) ^ 7) n" for n
      unfolding bit_and_iff bit_exp_iff using that by blast
  qed
  moreover have "bit y 7" if "y AND 2 ^ 7 = 2 ^ 7"
  proof -
    have "bit (y AND 2 ^ 7) 7" unfolding that bit_exp_iff by simp
    then show ?thesis by (simp only: bit_and_iff)
  qed
  ultimately show ?thesis by auto
qed

text \<open>A function on words that acts on every byte.\<close>

definition lifts :: "(machine_word \<Rightarrow> machine_word) \<Rightarrow> (nat \<Rightarrow> nat) \<Rightarrow> bool" where
  "lifts w f \<longleftrightarrow> (\<forall>bs. length bs = 8 \<longrightarrow> bytes_ok bs \<longrightarrow> w (enc bs) = enc (map f bs) \<and> bytes_ok (map f bs))"

lemma liftsD: "lifts w f \<Longrightarrow> length bs = 8 \<Longrightarrow> bytes_ok bs \<Longrightarrow> w (enc bs) = enc (map f bs) \<and> bytes_ok (map f bs)"
  by (simp add: lifts_def)

lemma lifts_self: "lifts (\<lambda>x. x) (\<lambda>b. b)"
  by (simp add: lifts_def)

lemma lifts_const: "m < 256 \<Longrightarrow> lifts (\<lambda>_. enc (replicate 8 m)) (\<lambda>_. m)"
  by (simp add: lifts_def map_replicate_const replicate_ok)

lemma enc_map_ops:
  assumes "bytes_ok (map f bs)" "bytes_ok (map g bs)"
  shows "enc (map f bs) XOR enc (map g bs) = enc (map (\<lambda>b. f b XOR g b) bs) \<and> bytes_ok (map (\<lambda>b. f b XOR g b) bs)"
    "enc (map f bs) AND enc (map g bs) = enc (map (\<lambda>b. f b AND g b) bs) \<and> bytes_ok (map (\<lambda>b. f b AND g b) bs)"
    "enc (map f bs) OR enc (map g bs) = enc (map (\<lambda>b. f b OR g b) bs) \<and> bytes_ok (map (\<lambda>b. f b OR g b) bs)"
  using enc_ops [of "map f bs" "map g bs"] assms by (simp_all add: map2_map_map)

lemma lifts_bitwise:
  assumes "lifts v f" "lifts w g"
  shows "lifts (\<lambda>x. v x XOR w x) (\<lambda>b. f b XOR g b)" "lifts (\<lambda>x. v x AND w x) (\<lambda>b. f b AND g b)"
    "lifts (\<lambda>x. v x OR w x) (\<lambda>b. f b OR g b)"
  using assms enc_map_ops [of f _ g] unfolding lifts_def by simp_all

lemma lifts_add:
  assumes "lifts v f" "lifts w g" "\<And>b. f b + g b < 256"
  shows "lifts (\<lambda>x. v x + w x) (\<lambda>b. f b + g b)"
  unfolding lifts_def using assms(1,2) [THEN liftsD] assms(3) enc_add [of "map f _" "map g _"]
  by (auto simp: map2_map_map bytes_ok_map)

definition zero_test :: "nat \<Rightarrow> nat \<Rightarrow> nat" where
  "zero_test m b = (b XOR m) OR (((b XOR m) AND 127) + 127)"

lemma lifts_zero_test:
  assumes "m < 256"
  shows "lifts (\<lambda>x. (x XOR enc (replicate 8 m)) OR (((x XOR enc (replicate 8 m)) AND enc (replicate 8 127)) + enc (replicate 8 127)))
    (zero_test m)"
proof -
  have "((b XOR m) AND 127) + 127 < 256" for b
    unfolding and_127_mod using mod_less_divisor [of 128 "b XOR m"] by linarith
  then show ?thesis unfolding zero_test_def
    by (intro lifts_bitwise lifts_add lifts_self lifts_const assms) simp_all
qed

lemma zero_test_byte: "b < 256 \<Longrightarrow> m < 256 \<Longrightarrow> bit (zero_test m b) 7 \<longleftrightarrow> b \<noteq> m"
  using byte_test [of "b XOR m"] enc_ops(2) [of "[b]" "[m]"] by (simp add: zero_test_def xor_zero)

lemma of_char_eq_code: "(of_char c :: nat) = of_char d \<longleftrightarrow> c = d"
  by simp

lemma map_eq_replicate: "length bs = n \<Longrightarrow> map f bs = replicate n m \<longleftrightarrow> (\<forall>b \<in> set bs. f b = m)"
  by (induction bs arbitrary: n) auto

lemma eol_word_test:
  assumes "length buf > 8"
  shows "(let chunk = load_word buf;
              r_test = chunk XOR SVN__R_MASK;
              n_test = chunk XOR SVN__N_MASK;
              r_test = r_test OR ((r_test AND SVN__LOWER_7BITS_SET) + SVN__LOWER_7BITS_SET);
              n_test = n_test OR ((n_test AND SVN__LOWER_7BITS_SET) + SVN__LOWER_7BITS_SET) in
          (r_test AND n_test) AND SVN__BIT_7_SET = SVN__BIT_7_SET) \<longleftrightarrow>
    (\<forall>c \<in> set (take 8 buf). c \<noteq> newline \<and> c \<noteq> CHR 0x0D)" (is "?lhs \<longleftrightarrow> _")
proof -
  let ?bs = "octets (take 8 buf)" and ?t = "\<lambda>b. (zero_test 10 b AND zero_test 13 b) AND 128"
  have bs: "length ?bs = 8" "bytes_ok ?bs" using assms by simp_all
  have "lifts (\<lambda>x. (((x XOR enc (replicate 8 10)) OR (((x XOR enc (replicate 8 10)) AND enc (replicate 8 127)) + enc (replicate 8 127))) AND
      ((x XOR enc (replicate 8 13)) OR (((x XOR enc (replicate 8 13)) AND enc (replicate 8 127)) + enc (replicate 8 127)))) AND
      enc (replicate 8 128)) ?t"
    by (intro lifts_bitwise(2) lifts_zero_test lifts_const) simp_all
  note t = liftsD [OF this bs]
  have "?lhs \<longleftrightarrow> enc (map ?t ?bs) = enc (replicate 8 128)"
    unfolding Let_def load_octets masks by (subst t [THEN conjunct1]) (rule refl)
  also have "\<dots> \<longleftrightarrow> map ?t ?bs = replicate 8 128"
    using t bs by (intro enc_inject) (simp_all add: replicate_ok)
  also have "\<dots> \<longleftrightarrow> (\<forall>b \<in> set ?bs. ?t b = 128)"
    by (rule map_eq_replicate [OF bs(1)])
  also have "\<dots> \<longleftrightarrow> (\<forall>b \<in> set ?bs. b \<noteq> 10 \<and> b \<noteq> 13)"
    using bs(2) zero_test_byte by (intro ball_cong refl) (simp add: and_128 bit_and_iff bytes_ok_def)
  also have "\<dots> \<longleftrightarrow> (\<forall>c \<in> set (take 8 buf). c \<noteq> newline \<and> c \<noteq> CHR 0x0D)"
    using of_char_eq_code [of _ newline] of_char_eq_code [of _ "CHR 0x0D"] by (simp add: octets_def)
  finally show ?thesis .
qed

lemma ascii_word_test:
  assumes "length data > 8"
  shows "load_word data AND SVN__BIT_7_SET = 0 \<longleftrightarrow> (\<forall>c \<in> set (take 8 data). (of_char c :: nat) < 128)"
proof -
  let ?bs = "octets (take 8 data)"
  have bs: "length ?bs = 8" "bytes_ok ?bs" using assms by simp_all
  have "lifts (\<lambda>x. x AND enc (replicate 8 128)) (\<lambda>b. b AND 128)"
    by (intro lifts_bitwise(2) lifts_self lifts_const) simp_all
  note t = liftsD [OF this bs]
  have "0 = enc (replicate 8 0)" by (simp add: numeral_eq_Suc)
  then have "load_word data AND SVN__BIT_7_SET = 0 \<longleftrightarrow> enc (map (\<lambda>b. b AND 128) ?bs) = enc (replicate 8 0)"
    unfolding load_octets masks using t by simp
  also have "\<dots> \<longleftrightarrow> map (\<lambda>b. b AND 128) ?bs = replicate 8 0"
    using t bs by (intro enc_inject) (simp_all add: replicate_ok)
  also have "\<dots> \<longleftrightarrow> (\<forall>b \<in> set ?bs. b AND 128 = 0)"
    by (rule map_eq_replicate [OF bs(1)])
  also have "\<dots> \<longleftrightarrow> (\<forall>b \<in> set ?bs. b < 128)"
  proof (intro ball_cong refl)
    fix b assume "b \<in> set ?bs"
    then have "b < 256" using bs(2) by (simp add: bytes_ok_def)
    then show "b AND 128 = 0 \<longleftrightarrow> b < 128" using and_exp_eq_0_iff_not_bit [of b 7] bit_7 [of b] by (simp add: not_le)
  qed
  finally show ?thesis by (simp add: octets_def)
qed

end
