(* ===== verification/Scan_Correct.thy ===== *)
theory Scan_Correct
  imports Svn_Scan
begin

unbundle bit_operations_syntax

text \<open>
  The scans are right: the words that are skipped have nothing to find, the table and the \<^verbatim>\<open>switch\<close> statement of the
  UTF-8 automaton agree, and the automaton accepts the encodings of Unicode scalar values.
\<close>

section \<open>Scanning\<close>

text \<open>A loop over words that skips a word only if a predicate holds of no byte of it does not change what
  the loop over bytes finds.\<close>

lemma dropWhile_skip: "\<forall>c \<in> set (take n s). p c \<Longrightarrow> dropWhile p (drop n s) = dropWhile p s"
  by (metis append_take_drop_id dropWhile_append2)

lemma eol_words_skip: "dropWhile (\<lambda>c. c \<noteq> newline \<and> c \<noteq> CHR 0x0D) (eol_words buf) = dropWhile (\<lambda>c. c \<noteq> newline \<and> c \<noteq> CHR 0x0D) buf"
proof (induction buf rule: eol_words.induct)
  case (1 buf)
  show ?case
  proof (cases "length buf > 8")
    case True
    note t = eol_word_test [OF True, unfolded Let_def]
    show ?thesis using "1.IH" [OF True refl refl refl refl refl] t True dropWhile_skip [of 8 buf]
      by (subst eol_words.simps) (simp only: Let_def if_True split: if_split, auto)
  qed (simp add: eol_words.simps)
qed

lemma eol_bytes_dropWhile:
  "eol_bytes buf = (case dropWhile (\<lambda>c. c \<noteq> newline \<and> c \<noteq> CHR 0x0D) buf of [] \<Rightarrow> None | r \<Rightarrow> Some r)"
  by (induction buf) auto

lemma find_eol_start:
  "svn_eol__find_eol_start buf = (case dropWhile (\<lambda>c. c \<noteq> newline \<and> c \<noteq> CHR 0x0D) buf of [] \<Rightarrow> None | r \<Rightarrow> Some r)"
  by (simp add: svn_eol__find_eol_start_def eol_bytes_dropWhile eol_words_skip)

lemma ascii_words_skip: "dropWhile (\<lambda>c. (of_char c :: nat) < 128) (ascii_words s) = dropWhile (\<lambda>c. (of_char c :: nat) < 128) s"
proof (induction s rule: ascii_words.induct)
  case (1 s)
  show ?case
  proof (cases "length s > 8")
    case True
    show ?thesis using "1.IH" [OF True] ascii_word_test [OF True] True dropWhile_skip [of 8 s]
      by (subst ascii_words.simps) auto
  qed (simp add: ascii_words.simps)
qed

lemma first_non_ascii: "first_non_fsm_start_char s = dropWhile (\<lambda>c. (of_char c :: nat) < 128) s"
proof -
  have "ascii_bytes s = dropWhile (\<lambda>c. (of_char c :: nat) < 128) s" for s by (induction s) auto
  then show ?thesis by (simp add: first_non_fsm_start_char_def ascii_words_skip)
qed

section \<open>The table is the switch\<close>

lemma category_range:
  assumes "n < 256"
  shows "octet_category ! n =
     (if n < 0x80 then 0 else if n < 0x90 then 1 else if n < 0xA0 then 2 else if n < 0xC0 then 3 else if n < 0xC2 then 4
      else if n < 0xE0 then 5 else if n < 0xE1 then 6 else if n < 0xED then 7 else if n < 0xEE then 8 else if n < 0xF0 then 9
      else if n < 0xF1 then 10 else if n < 0xF4 then 11 else if n < 0xF5 then 12 else 13)"
proof -
  have repeated: "(replicate k v @ rest) ! m = (if m < k then v else rest ! (m - k))" for k m and v :: nat and rest
    by (simp add: nth_append)
  have single: "(v # rest) ! m = (if m < 1 then v else rest ! (m - 1))" for v m :: nat and rest by (simp add: nth_Cons')
  have lt: "\<not> m < a \<Longrightarrow> m - a < k \<longleftrightarrow> m < a + k" for m a k :: nat by linarith
  show ?thesis using assms unfolding octet_category_def
    by (simp add: repeated single lt nth_replicate del: replicate.simps cong: if_cong)
qed

lemma table_switch:
  assumes "q < 8"
  shows "table_step q c = switch_step q (of_char c)"
proof -
  let ?n = "of_char c :: nat"
  have n: "?n < 256" by simp
  have "q = 0 \<or> q = 1 \<or> q = 2 \<or> q = 3 \<or> q = 4 \<or> q = 5 \<or> q = 6 \<or> q = 7" using assms by linarith
  then show ?thesis unfolding table_step_def category_range [OF n]
    by (elim disjE) (simp_all add: machine_def switch_step_def split: if_split)
qed

lemma table_error: "table_step 8 c = 8"
proof -
  have "octet_category ! of_char c < 14" using category_range [of "of_char c"] by simp
  then have "octet_category ! of_char c \<in> set [0..<14]" by simp
  then show ?thesis by (auto simp: table_step_def machine_def upt_rec)
qed

section \<open>UTF-8\<close>

text \<open>The encoding of a scalar value: a code point that is not a surrogate.\<close>

definition scalar :: "nat \<Rightarrow> bool" where
  "scalar cp \<longleftrightarrow> cp < 0xD800 \<or> 0xE000 \<le> cp \<and> cp \<le> 0x10FFFF"

definition utf8 :: "nat \<Rightarrow> nat list" where
  "utf8 cp =
     (if cp < 0x80 then [cp]
      else if cp < 0x800 then [0xC0 + cp div 64, 0x80 + cp mod 64]
      else if cp < 0x10000 then [0xE0 + cp div 4096, 0x80 + cp div 64 mod 64, 0x80 + cp mod 64]
      else [0xF0 + cp div 262144, 0x80 + cp div 4096 mod 64, 0x80 + cp div 64 mod 64, 0x80 + cp mod 64])"

definition valid_utf8 :: "nat list \<Rightarrow> bool" where
  "valid_utf8 ns \<longleftrightarrow> (\<exists>cps. (\<forall>cp \<in> set cps. scalar cp) \<and> ns = concat (map utf8 cps))"

text \<open>The well-formed sequences for one character, as in RFC 3629.\<close>

definition tail_byte :: "nat \<Rightarrow> bool" where
  "tail_byte b \<longleftrightarrow> 0x80 \<le> b \<and> b \<le> 0xBF"

inductive utf8_char :: "nat list \<Rightarrow> bool" where
  one: "a \<le> 0x7F \<Longrightarrow> utf8_char [a]"
| two: "0xC2 \<le> a \<Longrightarrow> a \<le> 0xDF \<Longrightarrow> tail_byte b \<Longrightarrow> utf8_char [a, b]"
| three: "a = 0xE0 \<and> 0xA0 \<le> b \<and> b \<le> 0xBF \<or> 0xE1 \<le> a \<and> a \<le> 0xEC \<and> tail_byte b \<or>
    a = 0xED \<and> 0x80 \<le> b \<and> b \<le> 0x9F \<or> 0xEE \<le> a \<and> a \<le> 0xEF \<and> tail_byte b \<Longrightarrow>
    tail_byte c \<Longrightarrow> utf8_char [a, b, c]"
| four: "a = 0xF0 \<and> 0x90 \<le> b \<and> b \<le> 0xBF \<or> 0xF1 \<le> a \<and> a \<le> 0xF3 \<and> tail_byte b \<or>
    a = 0xF4 \<and> 0x80 \<le> b \<and> b \<le> 0x8F \<Longrightarrow> tail_byte c \<Longrightarrow> tail_byte d \<Longrightarrow> utf8_char [a, b, c, d]"

section \<open>Runs of the automaton\<close>

definition fsm_step :: "nat \<Rightarrow> nat \<Rightarrow> nat" where
  "fsm_step q n = (if 8 \<le> q then 8 else switch_step q n)"

definition run :: "nat \<Rightarrow> nat list \<Rightarrow> nat" where
  "run q ns = foldl fsm_step q ns"

lemma run_simps [simp]: "run q [] = q" "run q (n # ns) = run (fsm_step q n) ns" "run q (ns @ ms) = run (run q ns) ms"
  by (simp_all add: run_def)

lemma step_bound: "fsm_step q n \<le> 8"
  by (simp add: fsm_step_def switch_step_def)

lemma table_fsm: "q \<le> 8 \<Longrightarrow> table_step q c = fsm_step q (of_char c)"
  using table_switch [of q c] table_error [of c] by (cases "q = 8") (auto simp: fsm_step_def)

lemma is_valid_loop_run: "q \<le> 8 \<Longrightarrow> is_valid_loop q s = run q (octets s)"
  by (induction s arbitrary: q) (simp_all add: table_fsm step_bound octets_def)

lemma run_error [simp]: "run 8 ns = 8"
  by (induction ns) (simp_all add: fsm_step_def)

lemma fsm_inside:
  "fsm_step 1 n = (if tail_byte n then 0 else 8)" "fsm_step 2 n = (if 0xA0 \<le> n \<and> n \<le> 0xBF then 1 else 8)"
  "fsm_step 3 n = (if tail_byte n then 1 else 8)" "fsm_step 4 n = (if 0x80 \<le> n \<and> n \<le> 0x9F then 1 else 8)"
  "fsm_step 5 n = (if 0x90 \<le> n \<and> n \<le> 0xBF then 3 else 8)" "fsm_step 6 n = (if tail_byte n then 3 else 8)"
  "fsm_step 7 n = (if 0x80 \<le> n \<and> n \<le> 0x8F then 3 else 8)"
  by (simp_all add: fsm_step_def switch_step_def tail_byte_def)

lemma run_if: "run (if p then q else 8) ns = 0 \<longleftrightarrow> p \<and> run q ns = 0"
  by simp

lemma run_cons: "q \<noteq> 0 \<Longrightarrow> (\<And>n. fsm_step q n = (if p n then q' else 8)) \<Longrightarrow>
    run q ns = 0 \<longleftrightarrow> (\<exists>b r. ns = b # r \<and> p b \<and> run q' r = 0)"
  by (cases ns) (simp_all add: run_if del: run_simps(3))

lemma run_inside:
  "run 1 ns = 0 \<longleftrightarrow> (\<exists>b r. ns = b # r \<and> tail_byte b \<and> run 0 r = 0)"
  "run 2 ns = 0 \<longleftrightarrow> (\<exists>b r. ns = b # r \<and> (0xA0 \<le> b \<and> b \<le> 0xBF) \<and> run 1 r = 0)"
  "run 3 ns = 0 \<longleftrightarrow> (\<exists>b r. ns = b # r \<and> tail_byte b \<and> run 1 r = 0)"
  "run 4 ns = 0 \<longleftrightarrow> (\<exists>b r. ns = b # r \<and> (0x80 \<le> b \<and> b \<le> 0x9F) \<and> run 1 r = 0)"
  "run 5 ns = 0 \<longleftrightarrow> (\<exists>b r. ns = b # r \<and> (0x90 \<le> b \<and> b \<le> 0xBF) \<and> run 3 r = 0)"
  "run 6 ns = 0 \<longleftrightarrow> (\<exists>b r. ns = b # r \<and> tail_byte b \<and> run 3 r = 0)"
  "run 7 ns = 0 \<longleftrightarrow> (\<exists>b r. ns = b # r \<and> (0x80 \<le> b \<and> b \<le> 0x8F) \<and> run 3 r = 0)"
  by (rule run_cons [OF _ fsm_inside(1)] run_cons [OF _ fsm_inside(2)] run_cons [OF _ fsm_inside(3)] run_cons [OF _ fsm_inside(4)]
      run_cons [OF _ fsm_inside(5)] run_cons [OF _ fsm_inside(6)] run_cons [OF _ fsm_inside(7)]; simp)+

lemma run_start:
  "run 0 (a # r) = 0 \<longleftrightarrow>
     a \<le> 0x7F \<and> run 0 r = 0 \<or> 0xC2 \<le> a \<and> a \<le> 0xDF \<and> run 1 r = 0 \<or> a = 0xE0 \<and> run 2 r = 0 \<or>
     0xE1 \<le> a \<and> a \<le> 0xEC \<and> run 3 r = 0 \<or> a = 0xED \<and> run 4 r = 0 \<or> 0xEE \<le> a \<and> a \<le> 0xEF \<and> run 3 r = 0 \<or>
     a = 0xF0 \<and> run 5 r = 0 \<or> 0xF1 \<le> a \<and> a \<le> 0xF3 \<and> run 6 r = 0 \<or> a = 0xF4 \<and> run 7 r = 0"
  by (simp add: fsm_step_def switch_step_def)

lemma run_char: "utf8_char bs \<Longrightarrow> run 0 r = 0 \<Longrightarrow> run 0 (bs @ r) = 0"
proof (induction rule: utf8_char.induct)
  case (two a b)
  then have "fsm_step 0 a = 1" by (simp add: fsm_step_def switch_step_def)
  then show ?case using two by (simp add: fsm_inside del: One_nat_def)
next
  case (three a b c)
  then have "fsm_step (fsm_step 0 a) b = 1" by (auto simp: fsm_step_def switch_step_def tail_byte_def)
  then show ?case using three by (simp add: fsm_inside del: One_nat_def)
next
  case (four a b c d)
  then have "fsm_step (fsm_step 0 a) b = 3" by (auto simp: fsm_step_def switch_step_def tail_byte_def)
  then show ?case using four by (simp add: fsm_inside del: One_nat_def)
qed (simp add: run_start del: run_simps)

lemma run_split:
  assumes "run 0 ns = 0" "ns \<noteq> []"
  shows "\<exists>bs r. ns = bs @ r \<and> utf8_char bs \<and> run 0 r = 0"
proof -
  obtain a r where ns: "ns = a # r" using assms(2) by (cases ns) auto
  have short: "\<exists>bs s. a # r = bs @ s \<and> utf8_char bs \<and> run 0 s = 0" if "utf8_char (a # bs)" "r = bs @ s" "run 0 s = 0" for bs s
    using that by (intro exI [of _ "a # bs"] exI [of _ s]) simp
  have two: ?thesis if "run 1 r = 0" "\<And>b. tail_byte b \<Longrightarrow> utf8_char [a, b]"
  proof -
    from that(1) obtain b s where "r = b # s" "tail_byte b" "run 0 s = 0" unfolding run_inside by blast
    then show ?thesis unfolding ns using short [of "[b]" s] that(2) by simp
  qed
  have three: ?thesis if "r = b # r'" "run 1 r' = 0" "\<And>c. tail_byte c \<Longrightarrow> utf8_char [a, b, c]" for b r'
  proof -
    from that(2) obtain c s where "r' = c # s" "tail_byte c" "run 0 s = 0" unfolding run_inside by blast
    then show ?thesis unfolding ns using short [of "[b, c]" s] that(1,3) by simp
  qed
  have four: ?thesis if "r = b # r'" "run 3 r' = 0" "\<And>c d. tail_byte c \<Longrightarrow> tail_byte d \<Longrightarrow> utf8_char [a, b, c, d]" for b r'
  proof -
    from that(2) obtain c d s where "r' = c # d # s" "tail_byte c" "tail_byte d" "run 0 s = 0" unfolding run_inside by blast
    then show ?thesis unfolding ns using short [of "[b, c, d]" s] that(1,3) by simp
  qed
  from assms(1) [unfolded ns run_start] show ?thesis
  proof (elim disjE conjE)
    assume "a \<le> 0x7F" "run 0 r = 0"
    then show ?thesis unfolding ns using short [of "[]" r] utf8_char.one by simp
  next
    assume "0xC2 \<le> a" "a \<le> 0xDF" "run 1 r = 0"
    then show ?thesis using two utf8_char.two by blast
  next
    assume "a = 0xE0" "run 2 r = 0"
    then show ?thesis using three utf8_char.three [of a] unfolding run_inside(2) by blast
  next
    assume "0xE1 \<le> a" "a \<le> 0xEC" "run 3 r = 0"
    then show ?thesis using three utf8_char.three [of a] unfolding run_inside(3) by blast
  next
    assume "a = 0xED" "run 4 r = 0"
    then show ?thesis using three utf8_char.three [of a] unfolding run_inside(4) by blast
  next
    assume "0xEE \<le> a" "a \<le> 0xEF" "run 3 r = 0"
    then show ?thesis using three utf8_char.three [of a] unfolding run_inside(3) by blast
  next
    assume "a = 0xF0" "run 5 r = 0"
    then show ?thesis using four utf8_char.four [of a] unfolding run_inside(5) by blast
  next
    assume "0xF1 \<le> a" "a \<le> 0xF3" "run 6 r = 0"
    then show ?thesis using four utf8_char.four [of a] unfolding run_inside(6) by blast
  next
    assume "a = 0xF4" "run 7 r = 0"
    then show ?thesis using four utf8_char.four [of a] unfolding run_inside(7) by blast
  qed
qed

lemma run_valid: "run 0 ns = 0 \<longleftrightarrow> (\<exists>cs. (\<forall>bs \<in> set cs. utf8_char bs) \<and> ns = concat cs)"
proof
  show "run 0 ns = 0 \<Longrightarrow> \<exists>cs. (\<forall>bs \<in> set cs. utf8_char bs) \<and> ns = concat cs"
  proof (induction ns rule: length_induct)
    case (1 ns)
    show ?case
    proof (cases "ns = []")
      case False
      then obtain bs r where r: "ns = bs @ r" "utf8_char bs" "run 0 r = 0" using run_split [OF "1.prems" False] by blast
      have "bs \<noteq> []" using r(2) by (auto elim: utf8_char.cases)
      then have "length r < length ns" using r(1) by simp
      then obtain cs where "\<forall>bs \<in> set cs. utf8_char bs" "r = concat cs" using "1.IH" r(3) by blast
      then show ?thesis using r by (intro exI [of _ "bs # cs"]) simp
    qed (auto intro: exI [of _ "[]"])
  qed
  have "\<forall>bs \<in> set cs. utf8_char bs \<Longrightarrow> run 0 (concat cs) = 0" for cs
    by (induction cs) (simp_all add: run_char del: run_simps(2,3))
  then show "\<exists>cs. (\<forall>bs \<in> set cs. utf8_char bs) \<and> ns = concat cs \<Longrightarrow> run 0 ns = 0" by (elim exE conjE) simp
qed

section \<open>Characters are encodings of scalar values\<close>

lemma div_parts:
  fixes cp :: nat
  shows "cp = 64 * (cp div 64) + cp mod 64" "cp mod 64 < 64"
    "cp div 64 = 64 * (cp div 4096) + cp div 64 mod 64" "cp div 64 mod 64 < 64"
    "cp div 4096 = 64 * (cp div 262144) + cp div 4096 mod 64" "cp div 4096 mod 64 < 64"
proof -
  have "cp div 4096 = cp div 64 div 64" "cp div 262144 = cp div 4096 div 64" by (simp_all add: div_mult2_eq [symmetric])
  then show "cp div 64 = 64 * (cp div 4096) + cp div 64 mod 64" "cp div 4096 = 64 * (cp div 262144) + cp div 4096 mod 64"
    by simp_all
qed simp_all

lemma utf8_is_char:
  assumes "scalar cp"
  shows "utf8_char (utf8 cp)"
proof -
  note p = div_parts [of cp]
  let ?x = "cp div 4096" and ?y = "cp div 64 mod 64" and ?z = "cp mod 64"
  consider "cp < 0x80" | "0x80 \<le> cp" "cp < 0x800" | "0x800 \<le> cp" "cp < 0x10000" | "0x10000 \<le> cp" by linarith
  then show ?thesis
  proof cases
    case 1
    then show ?thesis by (simp add: utf8_def utf8_char.one)
  next
    case 2
    have "2 \<le> cp div 64" "cp div 64 \<le> 31" using 2 p(1,2) by linarith+
    then show ?thesis using 2 p(2) utf8_char.two [of "0xC0 + cp div 64" "0x80 + cp mod 64"] by (simp add: utf8_def tail_byte_def)
  next
    case 3
    have "0xE0 + ?x = 0xE0 \<and> 0xA0 \<le> 0x80 + ?y \<and> 0x80 + ?y \<le> 0xBF \<or>
        0xE1 \<le> 0xE0 + ?x \<and> 0xE0 + ?x \<le> 0xEC \<and> tail_byte (0x80 + ?y) \<or>
        0xE0 + ?x = 0xED \<and> 0x80 \<le> 0x80 + ?y \<and> 0x80 + ?y \<le> 0x9F \<or>
        0xEE \<le> 0xE0 + ?x \<and> 0xE0 + ?x \<le> 0xEF \<and> tail_byte (0x80 + ?y)"
    proof -
      have "?x \<le> 15" "?x = 0 \<Longrightarrow> 32 \<le> ?y" using 3 p(1-4) by linarith+
      moreover have "?x = 13 \<Longrightarrow> ?y < 32" using assms p(1-4) unfolding scalar_def by linarith
      moreover have "?x = 0 \<or> 1 \<le> ?x \<and> ?x \<le> 12 \<or> ?x = 13 \<or> 14 \<le> ?x \<and> ?x \<le> 15" using calculation(1) by linarith
      ultimately show ?thesis using p(4) unfolding tail_byte_def by auto
    qed
    from utf8_char.three [OF this, of "0x80 + ?z"] show ?thesis using 3 p(2) by (simp add: utf8_def tail_byte_def)
  next
    case 4
    let ?v = "cp div 262144" and ?w = "cp div 4096 mod 64"
    have "0xF0 + ?v = 0xF0 \<and> 0x90 \<le> 0x80 + ?w \<and> 0x80 + ?w \<le> 0xBF \<or>
        0xF1 \<le> 0xF0 + ?v \<and> 0xF0 + ?v \<le> 0xF3 \<and> tail_byte (0x80 + ?w) \<or>
        0xF0 + ?v = 0xF4 \<and> 0x80 \<le> 0x80 + ?w \<and> 0x80 + ?w \<le> 0x8F"
    proof -
      have le: "cp \<le> 0x10FFFF" using assms by (auto simp: scalar_def)
      have "?v \<le> 4" "?v = 0 \<Longrightarrow> 16 \<le> ?w" "?v = 4 \<Longrightarrow> ?w < 16" using le 4(1) p by linarith+
      moreover have "?v = 0 \<or> 1 \<le> ?v \<and> ?v \<le> 3 \<or> ?v = 4" using calculation(1) by linarith
      ultimately show ?thesis using p(6) unfolding tail_byte_def by auto
    qed
    from utf8_char.four [OF this, of "0x80 + ?y" "0x80 + ?z"] show ?thesis using 4 p(2,4) by (simp add: utf8_def tail_byte_def)
  qed
qed

lemma parts_div:
  assumes "y < 64" "z < (64 :: nat)"
  shows "(x * 64 + z) div 64 = x" "(x * 64 + z) mod 64 = z"
    "(x * 4096 + y * 64 + z) div 4096 = x" "(x * 4096 + y * 64 + z) div 64 mod 64 = y" "(x * 4096 + y * 64 + z) mod 64 = z"
proof -
  show "(x * 64 + z) div 64 = x" "(x * 64 + z) mod 64 = z" using assms by simp_all
  have e: "x * 4096 + y * 64 + z = (x * 64 + y) * 64 + z" by simp
  have d: "(x * 4096 + y * 64 + z) div 64 = x * 64 + y" unfolding e using assms(2) by simp
  then show "(x * 4096 + y * 64 + z) div 64 mod 64 = y" using assms(1) by simp
  show "(x * 4096 + y * 64 + z) mod 64 = z" unfolding e by (simp only: mod_mult_self3 mod_less assms(2))
  have "(x * 4096 + y * 64 + z) div 4096 = (x * 4096 + y * 64 + z) div 64 div 64" by (simp add: div_mult2_eq [symmetric])
  then show "(x * 4096 + y * 64 + z) div 4096 = x" unfolding d using assms(1) by simp
qed

lemma char_is_utf8: "utf8_char bs \<Longrightarrow> \<exists>cp. scalar cp \<and> bs = utf8 cp"
proof (induction rule: utf8_char.induct)
  case (one a)
  then show ?case by (intro exI [of _ a]) (simp add: scalar_def utf8_def)
next
  case (two a b)
  let ?cp = "(a - 0xC0) * 64 + (b - 0x80)"
  have b: "b - 0x80 < 64" "0xC0 + (a - 0xC0) = a" "0x80 + (b - 0x80) = b" using two by (auto simp: tail_byte_def)
  have "0x80 \<le> ?cp" "?cp < 0x800" using two b(1) by linarith+
  then show ?case using parts_div(1,2) [of 0 "b - 0x80" "a - 0xC0"] b by (intro exI [of _ ?cp]) (simp add: scalar_def utf8_def)
next
  case (three a b c)
  let ?cp = "(a - 0xE0) * 4096 + (b - 0x80) * 64 + (c - 0x80)"
  have b: "b - 0x80 < 64" "c - 0x80 < 64" "0xE0 + (a - 0xE0) = a" "0x80 + (b - 0x80) = b" "0x80 + (c - 0x80) = c"
    using three by (auto simp: tail_byte_def)
  have "a - 0xE0 = 0 \<and> 32 \<le> b - 0x80 \<or> 1 \<le> a - 0xE0 \<and> a - 0xE0 \<le> 12 \<or> a - 0xE0 = 13 \<and> b - 0x80 < 32 \<or>
      14 \<le> a - 0xE0 \<and> a - 0xE0 \<le> 15"
    using three(1) unfolding tail_byte_def by auto
  then have r: "0x800 \<le> ?cp" "?cp < 0x10000" "?cp < 0xD800 \<or> 0xE000 \<le> ?cp" using b(1,2) by linarith+
  have "utf8 ?cp = [0xE0 + (a - 0xE0), 0x80 + (b - 0x80), 0x80 + (c - 0x80)]"
    unfolding utf8_def parts_div(3-5) [OF b(1,2)] using r by simp
  then show ?case using r b by (intro exI [of _ ?cp]) (simp add: scalar_def)
next
  case (four a b c d)
  let ?u = "(a - 0xF0) * 64 + (b - 0x80)"
  let ?cp = "?u * 4096 + (c - 0x80) * 64 + (d - 0x80)"
  have b: "b - 0x80 < 64" "c - 0x80 < 64" "d - 0x80 < 64" "0xF0 + (a - 0xF0) = a" "0x80 + (b - 0x80) = b" "0x80 + (c - 0x80) = c"
      "0x80 + (d - 0x80) = d"
    using four by (auto simp: tail_byte_def)
  have "a - 0xF0 = 0 \<and> 16 \<le> b - 0x80 \<or> 1 \<le> a - 0xF0 \<and> a - 0xF0 \<le> 3 \<or> a - 0xF0 = 4 \<and> b - 0x80 < 16"
    using four(1) unfolding tail_byte_def by auto
  then have r: "0x10000 \<le> ?cp" "?cp \<le> 0x10FFFF" using b(1-3) unfolding distrib_right by linarith+
  have "?cp div 262144 = a - 0xF0"
  proof -
    have "?cp div 262144 = ?cp div 4096 div 64" by (simp add: div_mult2_eq [symmetric])
    also have "\<dots> = a - 0xF0" unfolding parts_div(3) [OF b(2,3)] by (rule parts_div(1) [OF b(1,1)])
    finally show ?thesis .
  qed
  moreover have "?cp div 4096 mod 64 = b - 0x80" unfolding parts_div(3) [OF b(2,3)] by (rule parts_div(2) [OF b(1,1)])
  ultimately have "utf8 ?cp = [0xF0 + (a - 0xF0), 0x80 + (b - 0x80), 0x80 + (c - 0x80), 0x80 + (d - 0x80)]"
    unfolding utf8_def parts_div(4,5) [OF b(2,3)] using r by simp
  then show ?case using r b by (intro exI [of _ ?cp]) (simp add: scalar_def)
qed

lemma run_utf8: "run 0 ns = 0 \<longleftrightarrow> valid_utf8 ns"
proof -
  have "(\<exists>cs. (\<forall>bs \<in> set cs. utf8_char bs) \<and> ns = concat cs) \<longleftrightarrow> valid_utf8 ns"
  proof
    assume "\<exists>cs. (\<forall>bs \<in> set cs. utf8_char bs) \<and> ns = concat cs"
    then obtain cs where cs: "\<forall>bs \<in> set cs. utf8_char bs" "ns = concat cs" by blast
    from cs(1) have "\<exists>cps. (\<forall>cp \<in> set cps. scalar cp) \<and> cs = map utf8 cps"
    proof (induction cs)
      case (Cons bs cs)
      obtain cp where "scalar cp" "bs = utf8 cp" using char_is_utf8 [of bs] Cons.prems by auto
      moreover obtain cps where "\<forall>cp \<in> set cps. scalar cp" "cs = map utf8 cps" using Cons by auto
      ultimately show ?case by (intro exI [of _ "cp # cps"]) simp
    qed simp
    then show "valid_utf8 ns" using cs(2) by (auto simp: valid_utf8_def)
  next
    assume "valid_utf8 ns"
    then obtain cps where "\<forall>cp \<in> set cps. scalar cp" "ns = concat (map utf8 cps)" by (auto simp: valid_utf8_def)
    then show "\<exists>cs. (\<forall>bs \<in> set cs. utf8_char bs) \<and> ns = concat cs"
      using utf8_is_char by (intro exI [of _ "map utf8 cps"]) simp
  qed
  then show ?thesis by (simp add: run_valid)
qed

section \<open>The longest valid start\<close>

lemma last_valid2_loop_eq: "q \<le> 8 \<Longrightarrow> last_valid2_loop q start s = last_valid_loop q start s"
proof (induction s arbitrary: q start)
  case (Cons c s)
  have stay: "last_valid_loop 8 start s = start" for start s
    by (induction s) (simp_all add: table_error)
  show ?case
  proof (cases "q = 8")
    case True
    then show ?thesis using stay [of start "c # s"] by simp
  next
    case False
    then show ?thesis using Cons table_fsm [of q c] step_bound [of q "of_char c"] by (simp add: Let_def fsm_step_def)
  qed
qed simp

lemma last_valid2_eq: "svn_utf__last_valid2 data = svn_utf__last_valid data"
  by (simp add: svn_utf__last_valid2_def svn_utf__last_valid_def last_valid2_loop_eq)

lemma last_valid_loop_last:
  assumes "q \<le> 8"
  shows "\<exists>n \<le> length s. last_valid_loop q start s = (if n = 0 then start else drop n s) \<and>
    (n \<noteq> 0 \<longrightarrow> run q (octets (take n s)) = 0) \<and> (\<forall>m. n < m \<and> m \<le> length s \<longrightarrow> run q (octets (take m s)) \<noteq> 0)"
  using assms
proof (induction s arbitrary: q start)
  case (Cons c s)
  let ?q = "fsm_step q (of_char c)"
  have rn: "run q (octets (take (Suc k) (c # s))) = run ?q (octets (take k s))" for k by (simp add: octets_def)
  have lp: "last_valid_loop q start (c # s) = last_valid_loop ?q (if ?q = 0 then s else start) s"
    using table_fsm [OF Cons.prems] by (simp add: Let_def)
  obtain n where n: "n \<le> length s" "last_valid_loop ?q (if ?q = 0 then s else start) s = (if n = 0 then (if ?q = 0 then s else start) else drop n s)"
    "n \<noteq> 0 \<Longrightarrow> run ?q (octets (take n s)) = 0" "\<And>m. n < m \<Longrightarrow> m \<le> length s \<Longrightarrow> run ?q (octets (take m s)) \<noteq> 0"
    using Cons.IH [of ?q "if ?q = 0 then s else start"] step_bound by blast
  show ?case
  proof (cases "n = 0 \<and> ?q \<noteq> 0")
    case True
    have "run q (octets (take m (c # s))) \<noteq> 0" if "0 < m" "m \<le> length (c # s)" for m
    proof -
      obtain k where k: "m = Suc k" using \<open>0 < m\<close> by (cases m) auto
      show ?thesis unfolding k rn using n(4) [of k] True that(2) k by (cases k) (auto simp: octets_def)
    qed
    then show ?thesis using n(2) True by (intro exI [of _ 0]) (auto simp: lp simp del: last_valid_loop.simps(2))
  next
    case False
    have "run q (octets (take m (c # s))) \<noteq> 0" if "Suc n < m" "m \<le> length (c # s)" for m
    proof -
      obtain k where k: "m = Suc k" using \<open>Suc n < m\<close> by (cases m) auto
      show ?thesis using n(4) [of k] that unfolding k rn by simp
    qed
    moreover have "run q (octets (take (Suc n) (c # s))) = 0" unfolding rn using n(3) False by (cases n) (auto simp: octets_def)
    ultimately show ?thesis using n(1,2) False by (intro exI [of _ "Suc n"]) (auto simp: lp simp del: last_valid_loop.simps(2))
  qed
qed simp

lemma run_ascii: "\<forall>c \<in> set s. (of_char c :: nat) < 128 \<Longrightarrow> run 0 (octets s) = 0"
  by (induction s) (simp_all add: octets_def fsm_step_def switch_step_def)

lemma ascii_start:
  obtains t where "data = t @ first_non_fsm_start_char data" "run 0 (octets t) = 0"
proof -
  let ?p = "\<lambda>c. (of_char c :: nat) < 128"
  have "\<forall>c \<in> set (takeWhile ?p data). ?p c" by (auto dest: set_takeWhileD)
  from run_ascii [OF this] show ?thesis using that [of "takeWhile ?p data"] by (simp add: first_non_ascii)
qed

lemma octets_append: "octets (s @ t) = octets s @ octets t"
  by (simp add: octets_def)

lemma last_valid_longest:
  "\<exists>n \<le> length data. svn_utf__last_valid data = drop n data \<and> run 0 (octets (take n data)) = 0 \<and>
     (\<forall>m. n < m \<and> m \<le> length data \<longrightarrow> run 0 (octets (take m data)) \<noteq> 0)"
proof -
  let ?s = "first_non_fsm_start_char data"
  obtain t where t: "data = t @ ?s" "run 0 (octets t) = 0" by (rule ascii_start)
  obtain n where n: "n \<le> length ?s" "last_valid_loop 0 ?s ?s = (if n = 0 then ?s else drop n ?s)"
    "n \<noteq> 0 \<longrightarrow> run 0 (octets (take n ?s)) = 0" "\<forall>m. n < m \<and> m \<le> length ?s \<longrightarrow> run 0 (octets (take m ?s)) \<noteq> 0"
    using last_valid_loop_last [of 0 ?s ?s] by auto
  have tk: "run 0 (octets (take (length t + k) data)) = run 0 (octets (take k ?s))" for k
    by (subst (1) t(1)) (simp add: octets_append t(2))
  have "run 0 (octets (take m data)) \<noteq> 0" if "length t + n < m" "m \<le> length data" for m
  proof -
    have "m = length t + (m - length t)" "n < m - length t" using that by simp_all
    moreover have "m - length t \<le> length ?s" using that(2) arg_cong [OF t(1), of length] by simp
    ultimately show ?thesis using n(4) tk [of "m - length t"] by metis
  qed
  moreover have "run 0 (octets (take (length t + n) data)) = 0" unfolding tk using n(3) by (cases n) (simp_all add: octets_def)
  moreover have "svn_utf__last_valid data = drop (length t + n) data"
    by (subst (2) t(1)) (simp add: svn_utf__last_valid_def Let_def n(2))
  moreover have "length t + n \<le> length data" using n(1) arg_cong [OF t(1), of length] by simp
  ultimately show ?thesis by blast
qed

lemma is_valid_run: "svn_utf__is_valid (Some data) \<longleftrightarrow> run 0 (octets data) = 0"
proof -
  obtain t where t: "data = t @ first_non_fsm_start_char data" "run 0 (octets t) = 0" by (rule ascii_start)
  have "run 0 (octets data) = run 0 (octets (first_non_fsm_start_char data))"
    by (subst (1) t(1)) (simp add: octets_append t(2))
  then show ?thesis by (simp add: svn_utf__is_valid_def is_valid_loop_run)
qed

section \<open>Properties of scanning\<close>

text \<open>C39. The validator accepts exactly UTF-8: a byte string is valid if and only if it is a sequence of encodings of
  Unicode scalar values, none of them overlong and none a surrogate. Both functions that look for the last valid
  position return the end of the longest start of the data that is valid, in particular the table and the \<^verbatim>\<open>switch\<close> statement
  agree, whether or not the ASCII start was skipped a word at a time.\<close>

theorem utf8_validation:
  "(svn_utf__is_valid (Some data) \<longleftrightarrow> valid_utf8 (octets data)) \<and>
   (\<exists>n \<le> length data. svn_utf__last_valid data = drop n data \<and> valid_utf8 (octets (take n data)) \<and>
      (\<forall>m. n < m \<and> m \<le> length data \<longrightarrow> \<not> valid_utf8 (octets (take m data)))) \<and>
   svn_utf__last_valid2 data = svn_utf__last_valid data"
  using last_valid_longest [of data] is_valid_run [of data] last_valid2_eq [of data] by (simp only: run_utf8 simp_thms)

theorem utf8_validation_witness:
  "svn_utf__is_valid (Some (map char_of ([0x41, 0xE2, 0x82, 0xAC] :: nat list))) \<longleftrightarrow> valid_utf8 [0x41, 0xE2, 0x82, 0xAC]"
  using utf8_validation [of "map char_of ([0x41, 0xE2, 0x82, 0xAC] :: nat list)"] by (simp add: octets_def)

text \<open>C40. Looking for the end of a line eight bytes at a time finds the same place as looking at every byte:
  \<^verbatim>\<open>svn_eol__find_eol_start\<close> returns the first carriage return or line feed, and \<^verbatim>\<open>svn_eol__detect_eol\<close> the marker
  that starts there, the longest of the three that are in use.\<close>

theorem eol_scan:
  "svn_eol__find_eol_start buf =
     (case dropWhile (\<lambda>c. c \<noteq> newline \<and> c \<noteq> CHR 0x0D) buf of [] \<Rightarrow> None | r \<Rightarrow> Some r) \<and>
   (\<forall>marker eol. svn_eol__detect_eol buf = Some (marker, eol) \<longrightarrow>
      (\<exists>line rest. buf = line @ eol \<and> eol = marker @ rest \<and> (\<forall>c \<in> set line. c \<noteq> newline \<and> c \<noteq> CHR 0x0D) \<and>
         marker \<in> {[newline], [CHR 0x0D], [CHR 0x0D, newline]} \<and> (marker = [CHR 0x0D] \<longrightarrow> \<not> prefix [newline] rest))) \<and>
   (svn_eol__detect_eol buf = None \<longleftrightarrow> (\<forall>c \<in> set buf. c \<noteq> newline \<and> c \<noteq> CHR 0x0D))"
proof (intro conjI allI impI)
  let ?p = "\<lambda>c. c \<noteq> newline \<and> c \<noteq> CHR 0x0D"
  show "svn_eol__find_eol_start buf = (case dropWhile ?p buf of [] \<Rightarrow> None | r \<Rightarrow> Some r)" by (rule find_eol_start)
  show "svn_eol__detect_eol buf = None \<longleftrightarrow> (\<forall>c \<in> set buf. ?p c)"
  proof -
    have "svn_eol__detect_eol buf = None \<longleftrightarrow> dropWhile ?p buf = []"
      by (simp add: svn_eol__detect_eol_def find_eol_start split: list.split option.split del: dropWhile_eq_Nil_conv)
    then show ?thesis by (simp only: dropWhile_eq_Nil_conv)
  qed
  fix marker eol assume d: "svn_eol__detect_eol buf = Some (marker, eol)"
  then have e: "dropWhile ?p buf = eol" "eol \<noteq> []"
    by (auto simp: svn_eol__detect_eol_def find_eol_start split: list.splits option.splits simp del: dropWhile_eq_Nil_conv)
  obtain c cs where c: "eol = c # cs" using e(2) by (cases eol) auto
  have hd: "c = newline \<or> c = CHR 0x0D" using hd_dropWhile [of ?p buf] e c by auto
  have m: "marker = (if c = newline then [newline] else if cs = [] \<or> c_hd cs \<noteq> newline then [CHR 0x0D] else [CHR 0x0D, newline])"
    using d c by (auto simp: svn_eol__detect_eol_def c_hd_def split: option.splits)
  have "buf = takeWhile ?p buf @ eol" using e(1) by (metis takeWhile_dropWhile_id)
  moreover have "\<forall>c \<in> set (takeWhile ?p buf). ?p c" by (auto dest: set_takeWhileD)
  moreover have "\<exists>rest. eol = marker @ rest \<and> marker \<in> {[newline], [CHR 0x0D], [CHR 0x0D, newline]} \<and>
      (marker = [CHR 0x0D] \<longrightarrow> \<not> prefix [newline] rest)"
    using hd c m by (cases cs) (auto simp: c_hd_def)
  ultimately show "\<exists>line rest. buf = line @ eol \<and> eol = marker @ rest \<and> (\<forall>c \<in> set line. ?p c) \<and>
      marker \<in> {[newline], [CHR 0x0D], [CHR 0x0D, newline]} \<and> (marker = [CHR 0x0D] \<longrightarrow> \<not> prefix [newline] rest)" by blast
qed

theorem eol_scan_witness:
  "svn_eol__detect_eol (''one line'' @ [CHR 0x0D, newline] @ ''two'') = Some ([CHR 0x0D, newline], [CHR 0x0D, newline] @ ''two'') \<and>
   (\<exists>line rest. ''one line'' @ [CHR 0x0D, newline] @ ''two'' = line @ [CHR 0x0D, newline] @ ''two'' \<and>
      [CHR 0x0D, newline] @ ''two'' = [CHR 0x0D, newline] @ rest)"
proof -
  let ?b = "''one line'' @ [CHR 0x0D, newline] @ ''two''"
  have d: "svn_eol__detect_eol ?b = Some ([CHR 0x0D, newline], [CHR 0x0D, newline] @ ''two'')"
    unfolding svn_eol__detect_eol_def eol_scan [THEN conjunct1] by (simp add: c_hd_def)
  from eol_scan [of ?b, THEN conjunct2, THEN conjunct1, rule_format, OF d] show ?thesis using d by blast
qed

end
